(* ===== verification/Prelude.thy ===== *)
theory Prelude
  imports Main
begin

text \<open>
  Shared vocabulary of the development: results with an error (\<open>Result\<close> of the source), the
  three-way ordering of the standard library, text as a list of UTF-8 bytes, and the string
  functions of the standard library the modelled code calls (splitting, joining, trimming).
  A Rust \<open>String\<close> is modelled by its bytes, one \<open>char\<close> a byte, so that \<open>length\<close> is
  \<open>str::len\<close>; a character boundary is a position whose byte is not a continuation byte.
\<close>

named_theorems text_simps \<open>equations of the text functions\<close>
named_theorems inv_intros \<open>preservation of component invariants\<close>

section \<open>Results\<close>

type_synonym ('e, 'a) result = "'e + 'a"

definition bind_result :: "('e, 'a) result \<Rightarrow> ('a \<Rightarrow> ('e, 'b) result) \<Rightarrow> ('e, 'b) result" where
  "bind_result r f = (case r of Inl e \<Rightarrow> Inl e | Inr x \<Rightarrow> f x)"

lemma bind_result_simps [simp]:
  "bind_result (Inl e) f = Inl e"
  "bind_result (Inr x) f = f x"
  by (simp_all add: bind_result_def)

lemma bind_result_Inr_iff:
  "bind_result r f = Inr y \<longleftrightarrow> (\<exists>x. r = Inr x \<and> f x = Inr y)"
  by (cases r) auto

lemma bind_result_cong [fundef_cong]:
  "r = r' \<Longrightarrow> (\<And>x. r' = Inr x \<Longrightarrow> f x = g x) \<Longrightarrow> bind_result r f = bind_result r' g"
  by (cases r') auto

fun ok_or :: "'a option \<Rightarrow> 'e \<Rightarrow> ('e, 'a) result" where
  "ok_or None e = Inl e"
| "ok_or (Some x) e = Inr x"

lemma ok_or_Inr_iff [simp]: "ok_or x e = Inr y \<longleftrightarrow> x = Some y"
  by (cases x) auto

section \<open>Three-way comparison\<close>

datatype comparison = Less | Equal | Greater

fun reverse_cmp :: "comparison \<Rightarrow> comparison" where
  "reverse_cmp Less = Greater"
| "reverse_cmp Equal = Equal"
| "reverse_cmp Greater = Less"

fun then_cmp :: "comparison \<Rightarrow> comparison \<Rightarrow> comparison" where
  "then_cmp Equal c = c"
| "then_cmp c _ = c"

lemma reverse_cmp_involutive [simp]: "reverse_cmp (reverse_cmp c) = c"
  by (cases c) auto

lemma reverse_then_cmp [simp]:
  "reverse_cmp (then_cmp c d) = then_cmp (reverse_cmp c) (reverse_cmp d)"
  by (cases c) auto

definition cmp_of :: "'a::linorder \<Rightarrow> 'a \<Rightarrow> comparison" where
  "cmp_of x y = (if x < y then Less else if x = y then Equal else Greater)"

lemma cmp_of_iff [simp]:
  "cmp_of x y = Less \<longleftrightarrow> x < y"
  "cmp_of x y = Equal \<longleftrightarrow> x = y"
  "cmp_of x y = Greater \<longleftrightarrow> y < x"
  by (auto simp: cmp_of_def)

lemma cmp_of_reverse: "cmp_of y x = reverse_cmp (cmp_of x y)"
  by (auto simp: cmp_of_def)

section \<open>Text\<close>

text \<open>\<open>str::split\<close> at one character: every occurrence separates, so \<open>n\<close> occurrences give
  \<open>n + 1\<close> parts, empty ones included.\<close>

fun split_on :: "'a \<Rightarrow> 'a list \<Rightarrow> 'a list list" where
  "split_on d [] = [[]]"
| "split_on d (x # xs) =
     (if x = d then [] # split_on d xs
      else (case split_on d xs of [] \<Rightarrow> [[x]] | p # ps \<Rightarrow> (x # p) # ps))"

text \<open>\<open>[T]::join\<close> with a separator.\<close>

fun join :: "'a list \<Rightarrow> 'a list list \<Rightarrow> 'a list" where
  "join d [] = []"
| "join d [x] = x"
| "join d (x # y # ys) = x @ d @ join d (y # ys)"

text \<open>\<open>str::split_terminator\<close>: as \<open>split\<close>, but a last empty part is dropped.\<close>

definition split_terminator :: "'a \<Rightarrow> 'a list \<Rightarrow> 'a list list" where
  "split_terminator d xs =
     (let ps = split_on d xs in if last ps = [] then butlast ps else ps)"

text \<open>\<open>str::split_once\<close>: the text before and after the first occurrence.\<close>

fun split_once :: "'a \<Rightarrow> 'a list \<Rightarrow> ('a list \<times> 'a list) option" where
  "split_once d [] = None"
| "split_once d (x # xs) =
     (if x = d then Some ([], xs)
      else map_option (\<lambda>(a, b). (x # a, b)) (split_once d xs))"

definition starts_with :: "'a list \<Rightarrow> 'a list \<Rightarrow> bool" where
  "starts_with xs p \<longleftrightarrow> take (length p) xs = p"

lemma split_on_nonempty [simp]: "split_on d xs \<noteq> []"
  by (induction xs) (auto split: list.splits)

lemma join_split_on [text_simps]: "join [d] (split_on d xs) = xs"
proof (induction xs)
  case Nil
  then show ?case by simp
next
  case (Cons x xs)
  obtain p ps where ps: "split_on d xs = p # ps"
    by (cases "split_on d xs") auto
  with Cons.IH show ?case
    by (cases ps) auto
qed

lemma split_on_no_sep: "p \<in> set (split_on d xs) \<Longrightarrow> d \<notin> set p"
  by (induction xs arbitrary: p) (auto split: if_splits list.splits)

lemma split_on_fresh [text_simps]: "d \<notin> set xs \<Longrightarrow> split_on d xs = [xs]"
  by (induction xs) auto

lemma split_on_append_sep [text_simps]:
  "d \<notin> set xs \<Longrightarrow> split_on d (xs @ d # ys) = xs # split_on d ys"
  by (induction xs) auto

lemma split_on_join [text_simps]:
  "xss \<noteq> [] \<Longrightarrow> (\<And>xs. xs \<in> set xss \<Longrightarrow> d \<notin> set xs) \<Longrightarrow> split_on d (join [d] xss) = xss"
proof (induction xss)
  case Nil
  then show ?case by simp
next
  case (Cons x xss)
  then show ?case
    by (cases xss) (auto simp: split_on_fresh split_on_append_sep)
qed

lemma split_on_inject: "split_on d xs = split_on d ys \<Longrightarrow> xs = ys"
  by (metis join_split_on)

lemma split_once_None [simp]: "split_once d xs = None \<longleftrightarrow> d \<notin> set xs"
  by (induction xs) auto

lemma split_once_Some:
  "split_once d xs = Some (a, b) \<longleftrightarrow> xs = a @ d # b \<and> d \<notin> set a"
proof (induction xs arbitrary: a)
  case Nil
  then show ?case by simp
next
  case (Cons x xs)
  show ?case
  proof (cases "x = d")
    case True
    then show ?thesis by (cases a) auto
  next
    case False
    then show ?thesis
      by (cases a) (simp_all add: Cons.IH, auto)
  qed
qed

section \<open>Insertion-ordered maps\<close>

text \<open>
  \<open>IndexMap\<close> (and the object map of \<open>serde_json\<close> with \<open>preserve_order\<close>): a list of pairs with
  distinct keys. Inserting a present key replaces its value in place, a new key goes last;
  \<open>shift_remove\<close> keeps the order of the rest.
\<close>

fun imap_insert :: "'k \<Rightarrow> 'v \<Rightarrow> ('k \<times> 'v) list \<Rightarrow> ('k \<times> 'v) list" where
  "imap_insert k v [] = [(k, v)]"
| "imap_insert k v ((k', v') # m) =
     (if k = k' then (k, v) # m else (k', v') # imap_insert k v m)"

definition imap_remove :: "'k \<Rightarrow> ('k \<times> 'v) list \<Rightarrow> ('k \<times> 'v) list" where
  "imap_remove k m = filter (\<lambda>(k', _). k' \<noteq> k) m"

lemma imap_get_insert [simp]: "map_of (imap_insert k v m) = (map_of m)(k \<mapsto> v)"
  by (induction m) (auto simp: fun_eq_iff)

lemma imap_insert_keys: "fst ` set (imap_insert k v m) = insert k (fst ` set m)"
proof (induction m)
  case (Cons a m)
  then show ?case by (cases a) (simp add: insert_commute)
qed simp

lemma imap_insert_values: "snd ` set (imap_insert k v m) \<subseteq> insert v (snd ` set m)"
proof (induction m)
  case (Cons a m)
  then show ?case by (cases a) auto
qed simp

lemma imap_insert_subset: "set (imap_insert k v m) \<subseteq> insert (k, v) (set m)"
proof (induction m)
  case (Cons a m)
  then show ?case by (cases a) auto
qed simp

lemma imap_insert_distinct:
  "distinct (map fst m) \<Longrightarrow> distinct (map fst (imap_insert k v m))"
proof (induction m)
  case (Cons a m)
  then show ?case using imap_insert_keys [of k v m] by (cases a) (auto simp: image_iff)
qed simp

lemma imap_insert_fresh: "map_of m k = None \<Longrightarrow> imap_insert k v m = m @ [(k, v)]"
  by (induction m) (auto split: if_splits)

lemma imap_get_remove: "map_of (imap_remove k m) = (map_of m)(k := None)"
  by (induction m) (auto simp: imap_remove_def fun_eq_iff)

section \<open>Machine integers\<close>

text \<open>Values of type \<open>i64\<close> are integers in this range; a checked operation is \<open>None\<close> outside it.\<close>

definition in_i64 :: "int \<Rightarrow> bool" where
  "in_i64 i \<longleftrightarrow> - 9223372036854775808 \<le> i \<and> i \<le> 9223372036854775807"

definition checked_i64 :: "int \<Rightarrow> int option" where
  "checked_i64 i = (if in_i64 i then Some i else None)"

lemma div_bounds:
  fixes x k :: int
  assumes "0 < k"
  shows "k * (x div k) \<le> x" and "x < k * (x div k) + k"
  using assms pos_mod_bound [of k x] pos_mod_sign [of k x] mult_div_mod_eq [of k x] by linarith+

lemma div_eqI:
  fixes x k q :: int
  assumes "0 < k" and "k * q \<le> x" and "x < k * q + k"
  shows "x div k = q"
  using assms by (intro int_div_pos_eq [where r = "x - k * q"]) auto

definition u64_max :: nat where
  "u64_max = 18446744073709551615"

definition checked_u64 :: "nat \<Rightarrow> nat option" where
  "checked_u64 n = (if n \<le> u64_max then Some n else None)"

section \<open>Decimal text\<close>

definition digit_char :: "nat \<Rightarrow> char" where
  "digit_char d = char_of (48 + d)"

fun nat_text :: "nat \<Rightarrow> string" where
  "nat_text n = (if n < 10 then [digit_char n] else nat_text (n div 10) @ [digit_char (n mod 10)])"

declare nat_text.simps [simp del]

definition is_digit :: "char \<Rightarrow> bool" where
  "is_digit c \<longleftrightarrow> 48 \<le> (of_char c :: nat) \<and> (of_char c :: nat) \<le> 57"

definition digit_value :: "char \<Rightarrow> nat" where
  "digit_value c = of_char c - 48"

lemma of_char_digit_char: "d < 10 \<Longrightarrow> of_char (digit_char d) = 48 + d"
  unfolding digit_char_def by (subst of_char_of) (rule mod_less, arith)

lemma is_digit_digit_char [simp]: "d < 10 \<Longrightarrow> is_digit (digit_char d)"
  unfolding is_digit_def by (simp only: of_char_digit_char) arith

lemma digit_value_digit_char [simp]: "d < 10 \<Longrightarrow> digit_value (digit_char d) = d"
  unfolding digit_value_def by (simp only: of_char_digit_char diff_add_inverse)

definition number_value :: "string \<Rightarrow> nat" where
  "number_value = foldl (\<lambda>n c. n * 10 + digit_value c) 0"

lemma number_value_append:
  "number_value (xs @ [c]) = number_value xs * 10 + digit_value c"
  by (simp add: number_value_def)

lemma number_value_nat_text [simp]: "number_value (nat_text n) = n"
proof (induction n rule: nat_text.induct)
  case (1 n)
  show ?case
  proof (cases "n < 10")
    case True
    then show ?thesis by (simp add: nat_text.simps [of n] number_value_def)
  next
    case False
    with 1 show ?thesis
      by (simp add: nat_text.simps [of n] number_value_append)
  qed
qed

lemma nat_text_inject [simp]: "nat_text m = nat_text n \<longleftrightarrow> m = n"
  by (metis number_value_nat_text)

text \<open>\<open>{n:0w}\<close>: the decimal digits, padded with zeros on the left to a width.\<close>

definition pad_nat :: "nat \<Rightarrow> nat \<Rightarrow> string" where
  "pad_nat w n = replicate (w - length (nat_text n)) CHR ''0'' @ nat_text n"

lemma nat_text_digits: "c \<in> set (nat_text n) \<Longrightarrow> is_digit c"
proof (induction n rule: nat_text.induct)
  case (1 n)
  then show ?case
    by (cases "n < 10") (auto simp: nat_text.simps [of n])
qed

lemma number_value_zeros: "number_value (replicate k CHR ''0'' @ s) = number_value s"
  by (induction k) (simp_all add: number_value_def digit_value_def)

lemma number_value_pad [simp]: "number_value (pad_nat w n) = n"
  by (simp add: pad_nat_def number_value_zeros)

lemma pad_nat_digits: "c \<in> set (pad_nat w n) \<Longrightarrow> is_digit c"
  using nat_text_digits [of c n] by (auto simp: pad_nat_def is_digit_def)

lemma nat_text_length: "n < 10 ^ k \<Longrightarrow> 0 < k \<Longrightarrow> length (nat_text n) \<le> k"
proof (induction n arbitrary: k rule: nat_text.induct)
  case (1 n)
  show ?case
  proof (cases "n < 10")
    case True
    with "1.prems" show ?thesis by (simp add: nat_text.simps [of n])
  next
    case False
    with "1.prems" obtain j where j: "k = Suc j" "0 < j" by (cases k; cases "k - 1") auto
    with "1.prems" have "n div 10 < 10 ^ j" by (simp add: less_mult_imp_div_less mult.commute)
    with False j "1.IH" show ?thesis by (simp add: nat_text.simps [of n])
  qed
qed

lemma pad_nat_length: "n < 10 ^ w \<Longrightarrow> 0 < w \<Longrightarrow> length (pad_nat w n) = w"
  using nat_text_length [of n w] by (simp add: pad_nat_def)

section \<open>The last position\<close>

text \<open>\<open>Iterator::rposition\<close>.\<close>

definition rposition :: "('a \<Rightarrow> bool) \<Rightarrow> 'a list \<Rightarrow> nat option" where
  "rposition p xs =
     (case filter (\<lambda>n. p (xs ! n)) [0 ..< length xs] of [] \<Rightarrow> None | ns \<Rightarrow> Some (last ns))"

lemma rposition_snoc:
  "rposition p (xs @ [x]) = (if p x then Some (length xs) else rposition p xs)"
proof -
  have "filter (\<lambda>n. p ((xs @ [x]) ! n)) [0 ..< length xs] = filter (\<lambda>n. p (xs ! n)) [0 ..< length xs]"
    by (rule filter_cong) (auto simp: nth_append)
  then show ?thesis
    by (cases "filter (\<lambda>n. p (xs ! n)) [0 ..< length xs]") (simp_all add: rposition_def)
qed

lemma rposition_None: "(\<And>x. x \<in> set xs \<Longrightarrow> \<not> p x) \<Longrightarrow> rposition p xs = None"
  by (induction xs rule: rev_induct) (simp_all add: rposition_snoc, simp add: rposition_def)

lemma rposition_last:
  "p c \<Longrightarrow> (\<And>x. x \<in> set b \<Longrightarrow> \<not> p x) \<Longrightarrow> rposition p (a @ c # b) = Some (length a)"
proof (induction b rule: rev_induct)
  case (snoc x b)
  then show ?case using rposition_snoc [of p "a @ c # b" x] by simp
qed (simp add: rposition_snoc)

lemma rposition_bound: "rposition p xs = Some n \<Longrightarrow> n < length xs"
  by (induction xs arbitrary: n rule: rev_induct)
    (auto simp: rposition_snoc rposition_def [of p "[]"] less_Suc_eq split: if_splits)

end
