(* ===== verification/Utf8.thy ===== *)
theory Utf8
  imports Prelude
begin

text \<open>
  UTF-8 as \<open>core::str\<close> reads it: the width and validity of the next sequence, with the length
  \<open>Utf8Error::error_len\<close> reports for an invalid one; code points of valid text; and Unicode
  white space, which \<open>char::is_whitespace\<close> and \<open>str::trim\<close> use.
\<close>

section \<open>Sequences\<close>

abbreviation byte :: "char \<Rightarrow> nat" where
  "byte c \<equiv> of_char c"

definition is_cont :: "char \<Rightarrow> bool" where
  "is_cont c \<longleftrightarrow> 128 \<le> byte c \<and> byte c < 192"

definition utf8_width :: "char \<Rightarrow> nat" where
  "utf8_width c =
     (let b = byte c in
      if b < 128 then 1
      else if 194 \<le> b \<and> b \<le> 223 then 2
      else if 224 \<le> b \<and> b \<le> 239 then 3
      else if 240 \<le> b \<and> b \<le> 244 then 4
      else 0)"

text \<open>Which second byte may follow the first byte of a three- or four-byte sequence.\<close>

definition second_ok :: "char \<Rightarrow> char \<Rightarrow> bool" where
  "second_ok c d =
     (let b = byte c; e = byte d in
      if b = 224 then 160 \<le> e \<and> e < 192
      else if b = 237 then 128 \<le> e \<and> e < 160
      else if b = 240 then 144 \<le> e \<and> e < 192
      else if b = 244 then 128 \<le> e \<and> e < 144
      else 128 \<le> e \<and> e < 192)"

datatype utf8_step =
    Scalar nat  \<comment> \<open>a valid sequence of this many bytes\<close>
  | Bad nat     \<comment> \<open>an invalid sequence, \<open>error_len = Some n\<close>\<close>
  | Short       \<comment> \<open>the input ends inside a sequence, \<open>error_len = None\<close>\<close>

fun utf8_next :: "string \<Rightarrow> utf8_step" where
  "utf8_next [] = Short"
| "utf8_next (b # bs) =
     (if utf8_width b = 1 then Scalar 1
      else if utf8_width b = 2 then
        (case bs of [] \<Rightarrow> Short | c # _ \<Rightarrow> if is_cont c then Scalar 2 else Bad 1)
      else if utf8_width b = 3 then
        (case bs of [] \<Rightarrow> Short
         | c # cs \<Rightarrow> if \<not> second_ok b c then Bad 1
             else (case cs of [] \<Rightarrow> Short | d # _ \<Rightarrow> if is_cont d then Scalar 3 else Bad 2))
      else if utf8_width b = 4 then
        (case bs of [] \<Rightarrow> Short
         | c # cs \<Rightarrow> if \<not> second_ok b c then Bad 1
             else (case cs of [] \<Rightarrow> Short
               | d # ds \<Rightarrow> if \<not> is_cont d then Bad 2
                   else (case ds of [] \<Rightarrow> Short | e # _ \<Rightarrow> if is_cont e then Scalar 4 else Bad 3)))
      else Bad 1)"

lemma utf8_next_Scalar:
  "utf8_next bs = Scalar n \<Longrightarrow> 0 < n \<and> n \<le> length bs"
  by (cases bs) (auto split: if_splits list.splits)

lemma utf8_next_Bad:
  "utf8_next bs = Bad n \<Longrightarrow> 0 < n \<and> n \<le> length bs"
  by (cases bs) (auto split: if_splits list.splits)

lemma utf8_next_append:
  "utf8_next bs \<noteq> Short \<Longrightarrow> utf8_next (bs @ cs) = utf8_next bs"
  by (cases bs) (auto split: if_splits list.splits)

section \<open>Valid prefixes\<close>

text \<open>\<open>std::str::from_utf8\<close>: the length of the valid prefix, and what stopped it.\<close>

datatype utf8_result =
    Utf8_ok
  | Utf8_err nat "nat option"  \<comment> \<open>\<open>valid_up_to\<close>, \<open>error_len\<close>\<close>

fun shift_err :: "nat \<Rightarrow> utf8_result \<Rightarrow> utf8_result" where
  "shift_err n Utf8_ok = Utf8_ok"
| "shift_err n (Utf8_err v e) = Utf8_err (n + v) e"

function from_utf8 :: "string \<Rightarrow> utf8_result" where
  "from_utf8 bs =
     (if bs = [] then Utf8_ok
      else (case utf8_next bs of
              Scalar n \<Rightarrow> shift_err n (from_utf8 (drop n bs))
            | Bad n \<Rightarrow> Utf8_err 0 (Some n)
            | Short \<Rightarrow> Utf8_err 0 None))"
  by pat_completeness auto
termination
  by (relation "measure length") (auto dest: utf8_next_Scalar)

declare from_utf8.simps [simp del]

definition valid_utf8 :: "string \<Rightarrow> bool" where
  "valid_utf8 bs \<longleftrightarrow> from_utf8 bs = Utf8_ok"

lemma from_utf8_Nil [simp]: "from_utf8 [] = Utf8_ok"
  by (simp add: from_utf8.simps)

lemma from_utf8_Scalar:
  "utf8_next bs = Scalar n \<Longrightarrow> from_utf8 bs = shift_err n (from_utf8 (drop n bs))"
  using utf8_next_Scalar [of bs n] by (subst from_utf8.simps) auto

lemma from_utf8_Bad: "utf8_next bs = Bad n \<Longrightarrow> from_utf8 bs = Utf8_err 0 (Some n)"
  using utf8_next_Bad [of bs n] by (subst from_utf8.simps) auto

lemma from_utf8_Short: "bs \<noteq> [] \<Longrightarrow> utf8_next bs = Short \<Longrightarrow> from_utf8 bs = Utf8_err 0 None"
  by (subst from_utf8.simps) simp

lemma from_utf8_bounds:
  "from_utf8 bs = Utf8_err v e \<Longrightarrow>
     v < length bs \<and> (case e of None \<Rightarrow> True | Some n \<Rightarrow> 0 < n \<and> v + n \<le> length bs)"
proof (induction bs arbitrary: v rule: from_utf8.induct)
  case (1 bs)
  show ?case
  proof (cases "utf8_next bs")
    case (Scalar n)
    with "1.prems" obtain w where w: "from_utf8 (drop n bs) = Utf8_err w e" and v: "v = n + w"
      by (cases "from_utf8 (drop n bs)") (auto simp: from_utf8_Scalar)
    moreover have "bs \<noteq> []" using Scalar by auto
    ultimately show ?thesis
      using "1.IH" [OF _ Scalar w] utf8_next_Scalar [OF Scalar] by (auto split: option.splits)
  next
    case (Bad n)
    then show ?thesis
      using "1.prems" utf8_next_Bad [OF Bad] by (auto simp: from_utf8_Bad)
  next
    case Short
    with "1.prems" show ?thesis by (cases "bs = []") (auto simp: from_utf8_Short)
  qed
qed

section \<open>Code points of valid text\<close>

text \<open>The code point of a sequence of the width \<open>utf8_next\<close> found.\<close>

fun code_point :: "string \<Rightarrow> nat" where
  "code_point [a] = byte a"
| "code_point [a, b] = (byte a - 192) * 64 + (byte b - 128)"
| "code_point [a, b, c] = (byte a - 224) * 4096 + (byte b - 128) * 64 + (byte c - 128)"
| "code_point [a, b, c, d] =
     (byte a - 240) * 262144 + (byte b - 128) * 4096 + (byte c - 128) * 64 + (byte d - 128)"
| "code_point _ = 0"

text \<open>\<open>str::chars\<close>, each character kept as its bytes.\<close>

function utf8_chars :: "string \<Rightarrow> string list" where
  "utf8_chars bs =
     (if bs = [] then []
      else (case utf8_next bs of
              Scalar n \<Rightarrow> take n bs # utf8_chars (drop n bs)
            | _ \<Rightarrow> []))"
  by pat_completeness auto
termination
  by (relation "measure length") (auto dest: utf8_next_Scalar)

declare utf8_chars.simps [simp del]

lemma utf8_chars_Nil [simp]: "utf8_chars [] = []"
  by (simp add: utf8_chars.simps)

lemma utf8_chars_Scalar:
  "utf8_next bs = Scalar n \<Longrightarrow> utf8_chars bs = take n bs # utf8_chars (drop n bs)"
  using utf8_next_Scalar [of bs n] by (subst utf8_chars.simps) auto

lemma shift_err_ok [simp]: "shift_err n r = Utf8_ok \<longleftrightarrow> r = Utf8_ok"
  by (cases r) auto

lemma valid_utf8_cases:
  assumes "valid_utf8 bs" and "bs \<noteq> []"
  obtains n where "utf8_next bs = Scalar n" "valid_utf8 (drop n bs)" "0 < n" "n \<le> length bs"
proof (cases "utf8_next bs")
  case (Scalar n)
  with assms show ?thesis
    using that utf8_next_Scalar [OF Scalar] by (auto simp: valid_utf8_def from_utf8_Scalar)
qed (use assms in \<open>auto simp: valid_utf8_def from_utf8_Bad from_utf8_Short\<close>)

lemma concat_utf8_chars: "valid_utf8 bs \<Longrightarrow> concat (utf8_chars bs) = bs"
proof (induction bs rule: utf8_chars.induct)
  case (1 bs)
  show ?case
  proof (cases "bs = []")
    case False
    with "1.prems" obtain n where n: "utf8_next bs = Scalar n" "valid_utf8 (drop n bs)"
      by (rule valid_utf8_cases)
    with False "1.IH" show ?thesis by (simp add: utf8_chars_Scalar)
  qed simp
qed

section \<open>White space and trimming\<close>

text \<open>The Unicode \<open>White_Space\<close> property, \<open>char::is_whitespace\<close>.\<close>

definition is_whitespace :: "nat \<Rightarrow> bool" where
  "is_whitespace u \<longleftrightarrow>
     9 \<le> u \<and> u \<le> 13 \<or> u = 32 \<or> u = 133 \<or> u = 160 \<or> u = 5760 \<or> 8192 \<le> u \<and> u \<le> 8202 \<or>
     u = 8232 \<or> u = 8233 \<or> u = 8239 \<or> u = 8287 \<or> u = 12288"

definition char_is_whitespace :: "string \<Rightarrow> bool" where
  "char_is_whitespace c = is_whitespace (code_point c)"

text \<open>\<open>str::trim_matches\<close> with a predicate on characters, \<open>str::trim\<close> with white space.\<close>

definition trim_chars :: "(string \<Rightarrow> bool) \<Rightarrow> string \<Rightarrow> string" where
  "trim_chars p s = concat (rev (dropWhile p (rev (dropWhile p (utf8_chars s)))))"

definition trim :: "string \<Rightarrow> string" where
  "trim = trim_chars char_is_whitespace"

lemma utf8_chars_nonempty: "c \<in> set (utf8_chars s) \<Longrightarrow> c \<noteq> []"
proof (induction s rule: utf8_chars.induct)
  case (1 bs)
  from "1.prems" have ne: "bs \<noteq> []" by auto
  show ?case
  proof (cases "utf8_next bs")
    case (Scalar n)
    with "1.prems" ne "1.IH" [OF ne Scalar] utf8_next_Scalar [OF Scalar] show ?thesis
      by (auto simp: utf8_chars_Scalar)
  qed (use "1.prems" ne in \<open>auto simp: utf8_chars.simps [of bs]\<close>)
qed

lemma dropWhile_rev_dropWhile_Nil:
  "dropWhile p (rev (dropWhile p xs)) = [] \<longleftrightarrow> list_all p xs"
proof
  assume nil: "dropWhile p (rev (dropWhile p xs)) = []"
  show "list_all p xs"
  proof (cases "dropWhile p xs")
    case Nil
    then show ?thesis by (simp add: dropWhile_eq_Nil_conv list_all_iff)
  next
    case (Cons y ys)
    then have "\<not> p y" by (metis hd_dropWhile list.distinct(1) list.sel(1))
    moreover from nil Cons have "p y" by (simp add: dropWhile_eq_Nil_conv)
    ultimately show ?thesis by simp
  qed
next
  assume "list_all p xs"
  then have "dropWhile p xs = []" by (simp add: dropWhile_eq_Nil_conv list_all_iff)
  then show "dropWhile p (rev (dropWhile p xs)) = []"
    by (simp only: rev.simps dropWhile.simps)
qed

lemma trim_chars_Nil_iff: "trim_chars p s = [] \<longleftrightarrow> list_all p (utf8_chars s)"
proof -
  define kept where "kept = dropWhile p (rev (dropWhile p (utf8_chars s)))"
  have "c \<noteq> []" if "c \<in> set kept" for c
    using that unfolding kept_def by (metis set_dropWhileD set_rev utf8_chars_nonempty)
  then have "concat (rev kept) = [] \<longleftrightarrow> kept = []"
    by (cases kept) auto
  then show ?thesis
    by (simp only: trim_chars_def kept_def dropWhile_rev_dropWhile_Nil)
qed

section \<open>JavaScript white space\<close>

text \<open>\<open>is_whitespace\<close> of \<open>tools/js.rs\<close>, its \<open>trim\<close> and \<open>trim_end\<close>; \<open>is_js_whitespace\<close> of
  \<open>session/json.rs\<close> and \<open>js_trim\<close>.\<close>

definition js_whitespace :: "string \<Rightarrow> bool" where
  "js_whitespace c =
     (let u = code_point c in
      9 \<le> u \<and> u \<le> 13 \<or> u = 32 \<or> u = 160 \<or> u = 5760 \<or> 8192 \<le> u \<and> u \<le> 8202 \<or> u = 8232 \<or>
      u = 8233 \<or> u = 8239 \<or> u = 8287 \<or> u = 12288 \<or> u = 65279)"

definition js_trim_end :: "string \<Rightarrow> string" where
  "js_trim_end s = concat (rev (dropWhile js_whitespace (rev (utf8_chars s))))"

definition js_trim_tool :: "string \<Rightarrow> string" where
  "js_trim_tool = trim_chars js_whitespace"

definition is_js_whitespace :: "string \<Rightarrow> bool" where
  "is_js_whitespace c \<longleftrightarrow>
     char_is_whitespace c \<and> code_point c \<noteq> 133 \<or> code_point c = 65279"

definition js_trim :: "string \<Rightarrow> string" where
  "js_trim = trim_chars is_js_whitespace"

lemma is_js_whitespace_eq: "is_js_whitespace = js_whitespace"
  by (rule ext)
    (auto simp: is_js_whitespace_def js_whitespace_def char_is_whitespace_def is_whitespace_def Let_def)

lemma js_trim_eq: "js_trim = js_trim_tool"
  by (simp add: js_trim_def js_trim_tool_def is_js_whitespace_eq)

lemma utf8_chars_ascii:
  assumes "byte c < 128"
  shows "utf8_chars (c # cs) = [c] # utf8_chars cs"
proof -
  have "utf8_next (c # cs) = Scalar 1" using assms by (simp add: utf8_width_def)
  then show ?thesis by (simp add: utf8_chars_Scalar)
qed

lemma valid_utf8_Nil [simp]: "valid_utf8 []"
  by (simp add: valid_utf8_def)

lemma valid_utf8_ascii:
  assumes "byte c < 128"
  shows "valid_utf8 (c # cs) = valid_utf8 cs"
proof -
  have "utf8_next (c # cs) = Scalar 1" using assms by (simp add: utf8_width_def)
  then show ?thesis by (simp add: valid_utf8_def from_utf8_Scalar)
qed

text \<open>The character the code cuts texts with.\<close>

definition ellipsis :: string where "ellipsis = [CHR 0xE2, CHR 0x80, CHR 0xA6]"

end
