(* ===== verification/Json.thy ===== *)
theory Json
  imports Prelude "HOL-Library.Word"
begin

text \<open>
  JSON values as the modelled code reads them: the constructors its patterns name
  (\<open>Value::Null\<close>, \<open>Bool\<close>, \<open>Number\<close>, \<open>String\<close>, \<open>Array\<close>, \<open>Object\<close>) and the accessors it calls.
  The workspace builds \<open>serde_json\<close> with \<open>preserve_order\<close>, so an object is an association list
  in insertion order with distinct keys. A number is one of the three machine representations;
  a float is kept as its 64 bits and no modelled operation computes with it. The text form of a
  value is never computed here: where the code prints one, the printer is a parameter.
\<close>

datatype number = PosInt "64 word" | NegInt "64 word" | Float "64 word"

datatype json =
    JNull
  | JBool bool
  | JNumber number
  | JString string
  | JArray "json list"
  | JObject "(string \<times> json) list"

type_synonym object = "(string \<times> json) list"

fun as_i64 :: "json \<Rightarrow> int option" where
  "as_i64 (JNumber (PosInt w)) = (if uint w < 2 ^ 63 then Some (uint w) else None)"
| "as_i64 (JNumber (NegInt w)) = Some (sint w)"
| "as_i64 _ = None"

fun as_u64 :: "json \<Rightarrow> int option" where
  "as_u64 (JNumber (PosInt w)) = Some (uint w)"
| "as_u64 _ = None"

fun as_str :: "json \<Rightarrow> string option" where
  "as_str (JString s) = Some s"
| "as_str _ = None"

fun as_object :: "json \<Rightarrow> object option" where
  "as_object (JObject m) = Some m"
| "as_object _ = None"

abbreviation obj_get :: "object \<Rightarrow> string \<Rightarrow> json option" where
  "obj_get \<equiv> map_of"

abbreviation obj_insert :: "string \<Rightarrow> json \<Rightarrow> object \<Rightarrow> object" where
  "obj_insert \<equiv> imap_insert"

abbreviation obj_remove :: "string \<Rightarrow> object \<Rightarrow> object" where
  "obj_remove \<equiv> imap_remove"

text \<open>\<open>Map::remove\<close> with \<open>preserve_order\<close>: the last member takes the place of the removed one.\<close>

fun obj_swap_remove :: "string \<Rightarrow> object \<Rightarrow> object" where
  "obj_swap_remove k [] = []"
| "obj_swap_remove k (x # m) =
     (if fst x = k then (if m = [] then [] else last m # butlast m) else x # obj_swap_remove k m)"

abbreviation contains_key :: "object \<Rightarrow> string \<Rightarrow> bool" where
  "contains_key m k \<equiv> obj_get m k \<noteq> None"

text \<open>\<open>json_u64\<close> is \<open>Value::from\<close> of an unsigned integer, \<open>json_i64\<close> of a signed one.\<close>

definition json_u64 :: "nat \<Rightarrow> json" where
  "json_u64 n = JNumber (PosInt (of_nat n))"

definition json_i64 :: "int \<Rightarrow> json" where
  "json_i64 i = JNumber (if 0 \<le> i then PosInt (of_int i) else NegInt (of_int i))"

lemma as_i64_json_i64:
  assumes "- (2 ^ 63) \<le> i" and "i < 2 ^ 63"
  shows "as_i64 (json_i64 i) = Some i"
proof (cases "0 \<le> i")
  case True
  with assms have "uint (of_int i :: 64 word) = i"
    by (simp add: uint_word_of_int_eq take_bit_int_eq_self)
  with True assms show ?thesis by (simp add: json_i64_def)
next
  case False
  with assms have "sint (of_int i :: 64 word) = i"
    by (simp add: sint_sbintrunc' signed_take_bit_int_eq_self)
  with False show ?thesis by (simp add: json_i64_def)
qed

text \<open>\<open>str_member\<close> of \<open>session/json.rs\<close>: a member when it is a string.\<close>

definition str_member :: "object \<Rightarrow> string \<Rightarrow> string option" where
  "str_member m k = Option.bind (obj_get m k) as_str"

end
