(* ===== verification/Sandbox.thy ===== *)
theory Sandbox
  imports Utf8
begin

text \<open>
  The confinement vocabulary of \<open>crates/bake-sandbox/src/{mode,paths,policy,escalation}.rs\<close>:
  sandbox modes and their widening order, canonical and lexically normalized paths, the
  per-call policy with its writable roots, and the classification and wording of an escalation
  request. Paths are lists of components, as \<open>Path::components\<close> yields them on Unix. The file
  system's symbolic-link resolution (\<open>std::fs::canonicalize\<close>) and the OS temporary directory
  are parameters, the fields of \<open>host\<close>.
\<close>

section \<open>Modes\<close>

datatype sandbox_mode = ReadOnly | WorkspaceWrite | DangerFullAccess

text \<open>The derived \<open>Ord\<close> of the enum: declaration order, narrowest first.\<close>

fun mode_rank :: "sandbox_mode \<Rightarrow> nat" where
  "mode_rank ReadOnly = 0"
| "mode_rank WorkspaceWrite = 1"
| "mode_rank DangerFullAccess = 2"

lemma mode_rank_inject [simp]: "mode_rank a = mode_rank b \<longleftrightarrow> a = b"
  by (cases a; cases b) auto

instantiation sandbox_mode :: linorder
begin

definition less_eq_sandbox_mode :: "sandbox_mode \<Rightarrow> sandbox_mode \<Rightarrow> bool" where
  "less_eq_sandbox_mode a b \<longleftrightarrow> mode_rank a \<le> mode_rank b"

definition less_sandbox_mode :: "sandbox_mode \<Rightarrow> sandbox_mode \<Rightarrow> bool" where
  "less_sandbox_mode a b \<longleftrightarrow> mode_rank a < mode_rank b"

instance
proof
  fix x y :: sandbox_mode
  show "x \<le> y \<Longrightarrow> y \<le> x \<Longrightarrow> x = y"
    unfolding less_eq_sandbox_mode_def using mode_rank_inject [of x y] by linarith
qed (auto simp: less_eq_sandbox_mode_def less_sandbox_mode_def)

end

definition all_modes :: "sandbox_mode list" where
  "all_modes = [ReadOnly, WorkspaceWrite, DangerFullAccess]"

fun mode_text :: "sandbox_mode \<Rightarrow> string" where
  "mode_text ReadOnly = ''read-only''"
| "mode_text WorkspaceWrite = ''workspace-write''"
| "mode_text DangerFullAccess = ''danger-full-access''"

definition is_confined :: "sandbox_mode \<Rightarrow> bool" where
  "is_confined m \<longleftrightarrow> m \<noteq> DangerFullAccess"

fun wider_modes :: "sandbox_mode \<Rightarrow> sandbox_mode list" where
  "wider_modes ReadOnly = [WorkspaceWrite, DangerFullAccess]"
| "wider_modes WorkspaceWrite = [DangerFullAccess]"
| "wider_modes DangerFullAccess = []"

definition is_widened_by :: "sandbox_mode \<Rightarrow> sandbox_mode \<Rightarrow> bool" where
  "is_widened_by m other \<longleftrightarrow> other \<in> set (wider_modes m)"

datatype unknown_sandbox_mode = UnknownSandboxMode string

definition parse_mode :: "string \<Rightarrow> (unknown_sandbox_mode, sandbox_mode) result" where
  "parse_mode value =
     ok_or (find (\<lambda>m. mode_text m = value) all_modes) (UnknownSandboxMode value)"

lemma is_widened_by_iff: "is_widened_by m other \<longleftrightarrow> m < other"
  by (cases m; cases other) (auto simp: is_widened_by_def less_sandbox_mode_def)

lemma parse_mode_text [simp]: "parse_mode (mode_text m) = Inr m"
  by (cases m) (simp_all add: parse_mode_def all_modes_def)

lemma mode_text_inject [simp]: "mode_text a = mode_text b \<longleftrightarrow> a = b"
  by (cases a; cases b) simp_all

lemma parse_mode_Inr: "parse_mode s = Inr m \<longleftrightarrow> s = mode_text m"
proof
  show "parse_mode s = Inr m \<Longrightarrow> s = mode_text m"
    by (auto simp: parse_mode_def all_modes_def split: if_splits)
qed simp

lemma wider_modes_sorted: "sorted_wrt (<) (wider_modes m)"
  by (cases m) (auto simp: less_sandbox_mode_def)

section \<open>Paths\<close>

datatype component = RootDir | CurDir | ParentDir | Normal string

type_synonym path = "component list"

text \<open>\<open>PathBuf::pop\<close>: the root and the empty path stay.\<close>

definition path_pop :: "path \<Rightarrow> path" where
  "path_pop p = (if p = [] \<or> p = [RootDir] then p else butlast p)"

text \<open>\<open>PathBuf::push\<close> of one component: an absolute one replaces the path.\<close>

fun path_push :: "path \<Rightarrow> component \<Rightarrow> path" where
  "path_push p RootDir = [RootDir]"
| "path_push p c = p @ [c]"

fun lexical_step :: "path \<Rightarrow> component \<Rightarrow> path" where
  "lexical_step out CurDir = out"
| "lexical_step out ParentDir = path_pop out"
| "lexical_step out c = path_push out c"

definition lexical :: "path \<Rightarrow> path" where
  "lexical p = foldl lexical_step [] p"

definition normalize_lexically :: "path \<Rightarrow> path" where
  "normalize_lexically p = lexical p"

definition is_path_under :: "path \<Rightarrow> path \<Rightarrow> bool" where
  "is_path_under p root = starts_with (lexical p) (lexical root)"

record host =
  canonicalize :: "path \<Rightarrow> path option"
  temp_dir :: path

text \<open>
  The loop of \<open>canonical_path\<close>: the reversed prefix still to try and the names already taken
  off it, innermost first. A prefix without a file name ends the search.
\<close>

fun canonical_prefix :: "host \<Rightarrow> path \<Rightarrow> path \<Rightarrow> string list \<Rightarrow> path" where
  "canonical_prefix h orig [] missing = orig"
| "canonical_prefix h orig (c # rprefix) missing =
     (case c of
        Normal name \<Rightarrow>
          (case canonicalize h (rev rprefix) of
             Some resolved \<Rightarrow> resolved @ map Normal (rev (missing @ [name]))
           | None \<Rightarrow> canonical_prefix h orig rprefix (missing @ [name]))
      | _ \<Rightarrow> orig)"

definition canonical_path :: "host \<Rightarrow> path \<Rightarrow> path" where
  "canonical_path h p =
     (case canonicalize h p of
        Some resolved \<Rightarrow> resolved
      | None \<Rightarrow> canonical_prefix h p (rev p) [])"

text \<open>A lexically normal path: an optional root, then names only.\<close>

definition is_normal :: "component \<Rightarrow> bool" where
  "is_normal c \<longleftrightarrow> (\<exists>n. c = Normal n)"

fun lexically_normal :: "path \<Rightarrow> bool" where
  "lexically_normal [] = True"
| "lexically_normal (RootDir # p) = list_all is_normal p"
| "lexically_normal p = list_all is_normal p"

lemma lexically_normal_iff:
  "lexically_normal p \<longleftrightarrow> list_all is_normal p \<or> (\<exists>q. p = RootDir # q \<and> list_all is_normal q)"
  by (cases p rule: lexically_normal.cases) (auto simp: is_normal_def)

lemma lexically_normal_pop: "lexically_normal p \<Longrightarrow> lexically_normal (path_pop p)"
  by (cases p rule: lexically_normal.cases)
    (auto simp: lexically_normal_iff path_pop_def list_all_iff dest: in_set_butlastD)

lemma lexically_normal_step: "lexically_normal p \<Longrightarrow> lexically_normal (lexical_step p c)"
proof (cases c)
  case ParentDir
  assume "lexically_normal p"
  with ParentDir show ?thesis by (simp add: lexically_normal_pop)
qed (auto simp: lexically_normal_iff is_normal_def)

lemma lexically_normal_foldl:
  "lexically_normal out \<Longrightarrow> lexically_normal (foldl lexical_step out p)"
  by (induction p arbitrary: out) (auto simp: lexically_normal_step)

lemma lexical_normal: "lexically_normal (lexical p)"
  unfolding lexical_def by (rule lexically_normal_foldl) simp

lemma foldl_lexical_names:
  "list_all is_normal q \<Longrightarrow> foldl lexical_step out q = out @ q"
  by (induction q arbitrary: out) (auto simp: is_normal_def)

lemma lexical_of_normal: "lexically_normal p \<Longrightarrow> lexical p = p"
  unfolding lexically_normal_iff lexical_def
  by (auto simp: foldl_lexical_names)

lemma lexical_idem [simp]: "lexical (lexical p) = lexical p"
  by (simp add: lexical_of_normal lexical_normal)

lemma is_path_under_iff:
  "is_path_under p root \<longleftrightarrow> (\<exists>rest. lexical p = lexical root @ rest)"
  unfolding is_path_under_def starts_with_def
  by (metis append_eq_conv_conj append_take_drop_id)

section \<open>Policies\<close>

record sandbox_policy =
  mode :: sandbox_mode
  workspace_root :: path
  session_id :: "string option"
  extra_writable_roots :: "path list"

definition new_policy :: "sandbox_mode \<Rightarrow> path \<Rightarrow> sandbox_policy" where
  "new_policy m root =
     \<lparr>mode = m, workspace_root = root, session_id = None, extra_writable_roots = []\<rparr>"

definition with_session_id :: "string \<Rightarrow> sandbox_policy \<Rightarrow> sandbox_policy" where
  "with_session_id i p = p\<lparr>session_id := Some i\<rparr>"

definition with_extra_writable_roots :: "path list \<Rightarrow> sandbox_policy \<Rightarrow> sandbox_policy" where
  "with_extra_writable_roots roots p =
     p\<lparr>extra_writable_roots := extra_writable_roots p @ roots\<rparr>"

definition with_mode :: "sandbox_mode \<Rightarrow> sandbox_policy \<Rightarrow> sandbox_policy" where
  "with_mode m p = p\<lparr>mode := m\<rparr>"

definition tmp_path :: path where
  "tmp_path = [RootDir, Normal ''tmp'']"

fun push_new_roots :: "path list \<Rightarrow> path list \<Rightarrow> path list" where
  "push_new_roots roots [] = roots"
| "push_new_roots roots (r # rs) =
     push_new_roots (if r \<in> set roots then roots else roots @ [r]) rs"

definition writable_roots :: "host \<Rightarrow> sandbox_policy \<Rightarrow> path list" where
  "writable_roots h p =
     (if mode p \<noteq> WorkspaceWrite then []
      else push_new_roots []
        ([normalize_lexically (workspace_root p)] @
         [canonical_path h tmp_path] @
         [canonical_path h (temp_dir h)] @
         map normalize_lexically (extra_writable_roots p)))"

fun mode_allows_write :: "host \<Rightarrow> sandbox_policy \<Rightarrow> path \<Rightarrow> sandbox_mode \<Rightarrow> bool" where
  "mode_allows_write h p file DangerFullAccess = True"
| "mode_allows_write h p file ReadOnly = False"
| "mode_allows_write h p file WorkspaceWrite =
     list_ex (\<lambda>root. is_path_under (canonical_path h file) root) (writable_roots h p)"

definition allows_write :: "host \<Rightarrow> sandbox_policy \<Rightarrow> path \<Rightarrow> bool" where
  "allows_write h p file = mode_allows_write h p file (mode p)"

lemma push_new_roots_set: "set (push_new_roots roots rs) = set roots \<union> set rs"
  by (induction roots rs rule: push_new_roots.induct) auto

lemma push_new_roots_distinct: "distinct roots \<Longrightarrow> distinct (push_new_roots roots rs)"
  by (induction roots rs rule: push_new_roots.induct) auto

declare push_new_roots.simps [simp del]

lemma writable_roots_set:
  "mode p = WorkspaceWrite \<Longrightarrow> set (writable_roots h p) =
     {normalize_lexically (workspace_root p), canonical_path h tmp_path,
      canonical_path h (temp_dir h)} \<union> normalize_lexically ` set (extra_writable_roots p)"
  by (auto simp: writable_roots_def push_new_roots_set)

section \<open>Escalation\<close>

definition quoted :: "string \<Rightarrow> string" where
  "quoted s = CHR 0x22 # s @ [CHR 0x22]"

definition em_dash :: string where
  "em_dash = [CHR 0xE2, CHR 0x80, CHR 0x94]"

datatype escalation_check = NoOp | Widen sandbox_mode | Refused string

definition check_escalation :: "sandbox_mode \<Rightarrow> string \<Rightarrow> escalation_check" where
  "check_escalation effective requested =
     (case parse_mode requested of
        Inr m \<Rightarrow> if is_widened_by effective m then Widen m else NoOp
      | Inl _ \<Rightarrow> Refused (''sandbox escalation to '' @ quoted requested @
          '' is not strictly wider than this call's current '' @
          quoted (mode_text effective) @ '' mode''))"

definition is_js_blank :: "string \<Rightarrow> bool" where
  "is_js_blank text \<longleftrightarrow>
     list_all (\<lambda>c. is_whitespace (code_point c) \<or> code_point c = 65279) (utf8_chars text)"

fun validate_escalation_args :: "string option \<Rightarrow> string option \<Rightarrow> (string, unit) result" where
  "validate_escalation_args (Some _) None =
     Inl ''invalid escalation: sandbox_permissions requires a justification''"
| "validate_escalation_args None (Some _) =
     Inl ''invalid escalation: justification is only valid together with sandbox_permissions''"
| "validate_escalation_args s (Some text) =
     (if is_js_blank text then Inl ''invalid justification: expected a non-empty sentence''
      else Inr ())"
| "validate_escalation_args None None = Inr ()"

definition escalation_reason :: "sandbox_mode \<Rightarrow> string \<Rightarrow> string" where
  "escalation_reason m justification =
     ''escalate sandbox to '' @ mode_text m @ '': '' @ justification"

datatype escalation_outcome = AllowedOnce | Rejected | Cancelled | Unavailable

fun outcome_text :: "escalation_outcome \<Rightarrow> string" where
  "outcome_text AllowedOnce = ''allowed-once''"
| "outcome_text Rejected = ''rejected''"
| "outcome_text Cancelled = ''cancelled''"
| "outcome_text Unavailable = ''unavailable''"

fun refusal :: "escalation_outcome \<Rightarrow> string \<Rightarrow> sandbox_mode \<Rightarrow> string option" where
  "refusal AllowedOnce subject m = None"
| "refusal Rejected subject m =
     Some (''the user rejected escalating this '' @ subject @ '' to '' @ quoted (mode_text m))"
| "refusal Cancelled subject m =
     Some (''approval for escalating to '' @ quoted (mode_text m) @ '' was cancelled'')"
| "refusal Unavailable subject m =
     Some (''sandbox escalation to '' @ quoted (mode_text m) @
       '' requires approval, but no approval channel is available'')"

definition sandbox_denial_marker :: "sandbox_mode \<Rightarrow> string" where
  "sandbox_denial_marker m = ''[sandbox: file access denied under '' @ mode_text m @ '' mode]''"

definition escalation_hint_marker :: "string \<Rightarrow> string" where
  "escalation_hint_marker subject =
     ''[sandbox: escalation available '' @ em_dash @ '' retry this exact '' @ subject @
     '' once with sandbox_permissions (the narrowest wider mode that suffices) + justification; the approval prompt asks the user]''"

definition escalation_targets :: "sandbox_mode list" where
  "escalation_targets = [WorkspaceWrite, DangerFullAccess]"

definition runner_failed_notice :: "sandbox_mode \<Rightarrow> string" where
  "runner_failed_notice m =
     ''[sandbox: the sandbox runner itself failed under '' @ mode_text m @ '' mode '' @ em_dash @
     '' the command did not run; this is a sandbox problem, not a command failure]''"

lemma check_escalation_cases:
  "check_escalation eff req = Widen m \<longleftrightarrow> req = mode_text m \<and> eff < m"
  "check_escalation eff req = NoOp \<longleftrightarrow> (\<exists>m. req = mode_text m \<and> m \<le> eff)"
  by (auto simp: check_escalation_def parse_mode_Inr is_widened_by_iff not_less
      split: sum.splits if_splits)

lemma validate_escalation_args_ok:
  "validate_escalation_args s j = Inr () \<longleftrightarrow>
     s = None \<and> j = None \<or> (\<exists>a b. s = Some a \<and> j = Some b \<and> \<not> is_js_blank b)"
  by (cases s; cases j) auto

section \<open>Properties\<close>


text \<open>A wider mode never takes a write away: what a policy lets be written stays writable when
  the policy is moved to a mode at least as wide.\<close>

theorem allows_write_mono:
  assumes "mode p \<le> m" and "allows_write h p file"
  shows "allows_write h (with_mode m p) file"
proof (cases "mode p")
  case ReadOnly
  with assms(2) show ?thesis by (simp add: allows_write_def)
next
  case WorkspaceWrite
  with assms(1) have "m = WorkspaceWrite \<or> m = DangerFullAccess"
    by (cases m) (simp_all add: less_eq_sandbox_mode_def)
  moreover have "with_mode WorkspaceWrite p = p" using WorkspaceWrite by (simp add: with_mode_def)
  ultimately show ?thesis using assms(2) by (elim disjE) (simp_all add: allows_write_def with_mode_def)
next
  case DangerFullAccess
  with assms(1) have "m = DangerFullAccess" by (cases m) (simp_all add: less_eq_sandbox_mode_def)
  then show ?thesis by (simp add: allows_write_def with_mode_def)
qed

definition sample_host :: host where
  "sample_host = \<lparr>canonicalize = (\<lambda>p. Some p), temp_dir = [RootDir, Normal ''var'']\<rparr>"

lemma allows_write_mono_witness:
  "allows_write sample_host
     (with_mode DangerFullAccess (new_policy WorkspaceWrite [RootDir, Normal ''w'']))
     [RootDir, Normal ''w'', Normal ''f'']"
proof (rule allows_write_mono)
  show "mode (new_policy WorkspaceWrite [RootDir, Normal ''w'']) \<le> DangerFullAccess"
    by (simp add: new_policy_def less_eq_sandbox_mode_def)
  show "allows_write sample_host (new_policy WorkspaceWrite [RootDir, Normal ''w''])
      [RootDir, Normal ''w'', Normal ''f'']"
    by (simp add: allows_write_def new_policy_def writable_roots_def push_new_roots.simps
        normalize_lexically_def sample_host_def canonical_path_def tmp_path_def is_path_under_def
        starts_with_def lexical_def)
qed

text \<open>Lexical normalization leaves no way out: the result names no \<open>.\<close> and no \<open>..\<close>, is a
  root followed by names or names alone, and normalizing it again changes nothing; so containment
  is decided on the components themselves and is transitive.\<close>

theorem lexical_contained:
  "lexically_normal (lexical p) \<and> lexical (lexical p) = lexical p \<and>
   CurDir \<notin> set (lexical p) \<and> ParentDir \<notin> set (lexical p) \<and>
   {q. is_path_under q p} = {q. \<exists>rest. lexical q = lexical p @ rest} \<and>
   {q. is_path_under q p \<and> is_path_under p r} \<subseteq> {q. is_path_under q r}"
proof -
  have n: "lexically_normal (lexical p)" by (rule lexical_normal)
  then have "CurDir \<notin> set (lexical p)" "ParentDir \<notin> set (lexical p)"
    by (auto simp: lexically_normal_iff is_normal_def list_all_iff)
  then show ?thesis using n by (auto simp: lexical_idem is_path_under_iff)
qed

text \<open>Escalation requests are classified by the order of the modes: a request widens exactly
  when it names a strictly wider mode, is a no-op exactly when it names a mode not wider, and is
  refused exactly when it names no mode, with a text quoting the request and the current mode.\<close>

theorem check_escalation_exact:
  "check_escalation eff req =
     (if req \<in> mode_text ` {m. eff < m} then Widen (THE m. req = mode_text m)
      else if req \<in> mode_text ` {m. m \<le> eff} then NoOp
      else Refused (''sandbox escalation to '' @ quoted req @
        '' is not strictly wider than this call's current '' @ quoted (mode_text eff) @ '' mode''))"
proof (cases "parse_mode req")
  case (Inl e)
  then have "req \<notin> range mode_text" by (metis imageE parse_mode_text sum.distinct(1))
  with Inl show ?thesis by (auto simp: check_escalation_def)
next
  case (Inr m)
  then have req: "req = mode_text m" by (simp add: parse_mode_Inr)
  have "(THE m'. mode_text m = mode_text m') = m" by (rule the_equality) auto
  then show ?thesis by (auto simp: req check_escalation_def is_widened_by_iff)
qed

end
