(* ===== verification/SessionTime.thy ===== *)
theory SessionTime
  imports Json
begin

text \<open>
  \<open>crates/bake-coding-agent/src/session/time.rs\<close>: the ISO 8601 text of a timestamp and its
  parser, over the proleptic Gregorian calendar. Milliseconds are \<open>i64\<close> values, written as
  integers; the cursor of the parser is the bytes it has still to read. Floating point is not
  modelled: \<open>js_date_ms\<close> of a JSON number is a parameter.
\<close>

section \<open>The calendar\<close>

definition max_time_ms :: int where
  "max_time_ms = 8640000000000000"

definition days_from_civil :: "int \<Rightarrow> int \<Rightarrow> int \<Rightarrow> int" where
  "days_from_civil year month day =
     (let year = (if month \<le> 2 then year - 1 else year);
          era = year div 400;
          year_of_era = year - era * 400;
          month_index = (month + 9) mod 12;
          day_of_year = (153 * month_index + 2) div 5 + day - 1;
          day_of_era = year_of_era * 365 + year_of_era div 4 - year_of_era div 100 + day_of_year
      in era * 146097 + day_of_era - 719468)"

definition civil_from_days :: "int \<Rightarrow> int \<times> int \<times> int" where
  "civil_from_days days =
     (let z = days + 719468;
          era = z div 146097;
          day_of_era = z - era * 146097;
          year_of_era =
            (day_of_era - day_of_era div 1460 + day_of_era div 36524 - day_of_era div 146096) div 365;
          day_of_year = day_of_era - (365 * year_of_era + year_of_era div 4 - year_of_era div 100);
          month_index = (5 * day_of_year + 2) div 153;
          day = day_of_year - (153 * month_index + 2) div 5 + 1;
          month = (if month_index < 10 then month_index + 3 else month_index - 9);
          year = year_of_era + era * 400 + (if month \<le> 2 then 1 else 0)
      in (year, month, day))"

section \<open>Printing\<close>

definition year_text :: "int \<Rightarrow> string" where
  "year_text year =
     (if 0 \<le> year \<and> year \<le> 9999 then pad_nat 4 (nat year)
      else if year < 0 then ''-'' @ pad_nat 6 (nat (- year))
      else ''+'' @ pad_nat 6 (nat year))"

definition format_iso :: "int \<Rightarrow> string" where
  "format_iso ms =
     (let days = ms div 86400000;
          in_day = ms mod 86400000;
          (year, month, day) = civil_from_days days;
          hour = in_day div 3600000;
          minute = in_day div 60000 mod 60;
          second = in_day div 1000 mod 60;
          milli = in_day mod 1000
      in year_text year @ ''-'' @ pad_nat 2 (nat month) @ ''-'' @ pad_nat 2 (nat day) @
         ''T'' @ pad_nat 2 (nat hour) @ '':'' @ pad_nat 2 (nat minute) @ '':'' @
         pad_nat 2 (nat second) @ ''.'' @ pad_nat 3 (nat milli) @ ''Z'')"

section \<open>Parsing\<close>

text \<open>The cursor: \<open>eat\<close> of one byte, and exactly \<open>count\<close> digits.\<close>

fun eat :: "char \<Rightarrow> string \<Rightarrow> string option" where
  "eat c [] = None"
| "eat c (d # rest) = (if d = c then Some rest else None)"

definition digits :: "nat \<Rightarrow> string \<Rightarrow> (int \<times> string) option" where
  "digits count s =
     (if length s < count \<or> \<not> list_all is_digit (take count s) then None
      else Some (int (number_value (take count s)), drop count s))"

definition parse_year :: "string \<Rightarrow> (int \<times> string) option" where
  "parse_year s =
     (case s of
        [] \<Rightarrow> digits 4 s
      | c # rest \<Rightarrow>
          if c = CHR ''+'' \<or> c = CHR ''-'' then
            Option.bind (digits 6 rest) (\<lambda>(y, rest).
              if c = CHR ''-'' \<and> y = 0 then None
              else Some (if c = CHR ''-'' then - y else y, rest))
          else digits 4 s)"

definition parse_month_day :: "string \<Rightarrow> (int \<times> int \<times> string) option" where
  "parse_month_day s =
     (case eat CHR ''-'' s of
        None \<Rightarrow> Some (1, 1, s)
      | Some s \<Rightarrow>
          Option.bind (digits 2 s) (\<lambda>(month, s).
            (case eat CHR ''-'' s of
               None \<Rightarrow> Some (month, 1, s)
             | Some s \<Rightarrow> map_option (\<lambda>(day, s). (month, day, s)) (digits 2 s))))"

definition parse_fraction :: "string \<Rightarrow> (int \<times> string) option" where
  "parse_fraction s =
     (case eat CHR ''.'' s of
        None \<Rightarrow> Some (0, s)
      | Some s \<Rightarrow>
          (let fraction = takeWhile is_digit s; padded = take 3 fraction
           in if fraction = [] then None
              else Some (int (number_value (padded @ replicate (3 - length padded) CHR ''0'')),
                         dropWhile is_digit s)))"

definition parse_seconds :: "string \<Rightarrow> (int \<times> int \<times> string) option" where
  "parse_seconds s =
     (case eat CHR '':'' s of
        None \<Rightarrow> Some (0, 0, s)
      | Some s \<Rightarrow>
          Option.bind (digits 2 s) (\<lambda>(second, s).
            map_option (\<lambda>(milli, s). (second, milli, s)) (parse_fraction s)))"

definition parse_offset :: "string \<Rightarrow> (int \<times> string) option" where
  "parse_offset s =
     (case s of
        [] \<Rightarrow> Some (0, s)
      | c # rest \<Rightarrow>
          if c = CHR ''Z'' \<or> c = CHR ''z'' then Some (0, rest)
          else if c = CHR ''+'' \<or> c = CHR ''-'' then
            Option.bind (digits 2 rest) (\<lambda>(hours, rest).
              Option.bind (digits 2 (case eat CHR '':'' rest of None \<Rightarrow> rest | Some r \<Rightarrow> r))
                (\<lambda>(minutes, rest).
                  if hours > 23 \<or> minutes > 59 then None
                  else (let offset = (hours * 60 + minutes) * 60000
                        in Some (if c = CHR ''+'' then offset else - offset, rest))))
          else Some (0, s))"

definition parse_clock :: "string \<Rightarrow> (int \<times> int \<times> string) option" where
  "parse_clock s =
     Option.bind (digits 2 s) (\<lambda>(hour, s).
     Option.bind (eat CHR '':'' s) (\<lambda>s.
     Option.bind (digits 2 s) (\<lambda>(minute, s).
     Option.bind (parse_seconds s) (\<lambda>(second, milli, s).
       if hour > 24 \<or> minute > 59 \<or> second > 59 then None
       else if hour = 24 \<and> (minute \<noteq> 0 \<or> second \<noteq> 0 \<or> milli \<noteq> 0) then None
       else map_option (\<lambda>(offset, s). (((hour * 60 + minute) * 60 + second) * 1000 + milli, offset, s))
              (parse_offset s)))))"

definition parse_time :: "string \<Rightarrow> (int \<times> int \<times> string) option" where
  "parse_time s =
     (case s of
        [] \<Rightarrow> Some (0, 0, s)
      | c # rest \<Rightarrow>
          if c = CHR ''T'' \<or> c = CHR ''t'' \<or> c = CHR '' '' then parse_clock rest
          else Some (0, 0, s))"

definition parse_date_ms :: "string \<Rightarrow> int option" where
  "parse_date_ms text =
     Option.bind (parse_year text) (\<lambda>(year, s).
     Option.bind (parse_month_day s) (\<lambda>(month, day, s).
       if \<not> (1 \<le> month \<and> month \<le> 12) \<or> \<not> (1 \<le> day \<and> day \<le> 31) then None
       else Option.bind (parse_time s) (\<lambda>(time_ms, offset_ms, s).
         if s \<noteq> [] then None
         else Option.bind (checked_i64 ((days_from_civil year month 1 + (day - 1)) * 86400000)) (\<lambda>ms.
              Option.bind (checked_i64 (ms + time_ms)) (\<lambda>ms.
              Option.bind (checked_i64 (ms - offset_ms)) (\<lambda>ms.
                if \<bar>ms\<bar> \<le> max_time_ms then Some ms else None))))))"

text \<open>\<open>new Date(value).getTime()\<close>; \<open>clip\<close> is \<open>time_clip\<close> of a JSON number read as a float.\<close>

fun js_date_ms :: "(number \<Rightarrow> int option) \<Rightarrow> json option \<Rightarrow> int option" where
  "js_date_ms clip None = None"
| "js_date_ms clip (Some JNull) = Some 0"
| "js_date_ms clip (Some (JBool b)) = Some (if b then 1 else 0)"
| "js_date_ms clip (Some (JNumber n)) = clip n"
| "js_date_ms clip (Some (JString s)) = parse_date_ms s"
| "js_date_ms clip (Some (JArray _)) = None"
| "js_date_ms clip (Some (JObject _)) = None"

section \<open>The calendar is a bijection on days\<close>

text \<open>Inside one century \<open>b\<close> of an era, \<open>r\<close> days in: the year of the century and the day.\<close>

lemma century_bounds:
  fixes b r :: int
  assumes b: "0 \<le> b" "b \<le> 3" and r: "0 \<le> r" "r \<le> 36523"
  defines "q \<equiv> (24 * b + r) div 1460"
  defines "w \<equiv> (r - q) div 365"
  shows "0 \<le> w" and "w \<le> 99"
    and "0 \<le> r - 365 * w - w div 4" and "r - 365 * w - w div 4 \<le> 365"
proof -
  have q: "1460 * q \<le> 24 * b + r" "24 * b + r < 1460 * q + 1460"
    unfolding q_def using div_bounds [of 1460 "24 * b + r"] by simp_all
  have w: "365 * w \<le> r - q" "r - q < 365 * w + 365"
    unfolding w_def using div_bounds [of 365 "r - q"] by simp_all
  define v where "v = w div 4"
  have v: "4 * v \<le> w" "w \<le> 4 * v + 3"
    unfolding v_def using div_bounds [of 4 w] by simp_all
  have q0: "0 \<le> q" and q25: "q \<le> 25" using q b r by linarith+
  have qr: "q \<le> r" using q b r by linarith
  show "0 \<le> w" using w qr by linarith
  show "w \<le> 99" using w q b r by linarith
  have "v < q + 1" using q w v b q0 by linarith
  then have "v \<le> q" by simp
  with w show "0 \<le> r - 365 * w - w div 4" unfolding v_def [symmetric] by linarith
  have "q < v + 2" using q w v b q25 by linarith
  then have "q \<le> v + 1" by simp
  with w show "r - 365 * w - w div 4 \<le> 365" unfolding v_def [symmetric] by linarith
qed

lemma year_of_era_bounds:
  fixes doe :: int
  assumes doe: "0 \<le> doe" "doe \<le> 146096"
  defines "yoe \<equiv> (doe - doe div 1460 + doe div 36524 - doe div 146096) div 365"
  shows "0 \<le> yoe \<and> yoe \<le> 399 \<and>
    0 \<le> doe - (365 * yoe + yoe div 4 - yoe div 100) \<and>
    doe - (365 * yoe + yoe div 4 - yoe div 100) \<le> 365"
proof (cases "doe = 146096")
  case True
  then show ?thesis by (simp add: yoe_def)
next
  case False
  define b where "b = doe div 36524"
  define r where "r = doe mod 36524"
  have split: "doe = 36524 * b + r" and r: "0 \<le> r" "r \<le> 36523"
    unfolding b_def r_def using pos_mod_bound [of 36524 doe] by simp_all
  have b: "0 \<le> b" "b \<le> 3" using split r doe False by linarith+
  define q where "q = (24 * b + r) div 1460"
  define w where "w = (r - q) div 365"
  note century = century_bounds [OF b r, folded q_def, folded w_def]
  have "doe div 1460 = 25 * b + q"
    using div_bounds [of 1460 "24 * b + r"] split
    by (intro div_eqI) (simp_all add: q_def)
  moreover have "doe div 146096 = 0" using doe False by simp
  ultimately have "yoe = (36500 * b + (r - q)) div 365"
    unfolding yoe_def b_def [symmetric] by (simp add: split)
  then have yoe: "yoe = 100 * b + w"
    using div_bounds [of 365 "r - q"] by (simp only:) (intro div_eqI, simp_all add: w_def)
  have "yoe div 100 = b" "yoe div 4 = 25 * b + w div 4"
    unfolding yoe using century div_bounds [of 4 w] by (intro div_eqI; simp)+
  then show ?thesis using century b split yoe by simp
qed

lemma civil_from_days_parts:
  obtains era doe yoe doy mp where
    "days + 719468 = era * 146097 + doe" "0 \<le> doe" "doe \<le> 146096"
    "0 \<le> yoe" "yoe \<le> 399"
    "doy = doe - (365 * yoe + yoe div 4 - yoe div 100)" "0 \<le> doy" "doy \<le> 365"
    "mp = (5 * doy + 2) div 153" "0 \<le> mp" "mp \<le> 11"
    "civil_from_days days =
       (yoe + era * 400 + (if mp < 10 then 0 else 1), if mp < 10 then mp + 3 else mp - 9,
        doy - (153 * mp + 2) div 5 + 1)"
proof -
  define era where "era = (days + 719468) div 146097"
  define doe where "doe = days + 719468 - era * 146097"
  have doe: "0 \<le> doe" "doe \<le> 146096"
    unfolding doe_def era_def using div_bounds [of 146097 "days + 719468"] by simp_all
  define yoe where "yoe = (doe - doe div 1460 + doe div 36524 - doe div 146096) div 365"
  define doy where "doy = doe - (365 * yoe + yoe div 4 - yoe div 100)"
  define mp where "mp = (5 * doy + 2) div 153"
  have yoe: "0 \<le> yoe" "yoe \<le> 399" and doy: "0 \<le> doy" "doy \<le> 365"
    using year_of_era_bounds [OF doe] unfolding doy_def yoe_def by blast+
  then have mp: "0 \<le> mp" "mp \<le> 11"
    unfolding mp_def using div_bounds [of 153 "5 * doy + 2"] by linarith+
  have civil: "civil_from_days days =
       (yoe + era * 400 + (if (if mp < 10 then mp + 3 else mp - 9) \<le> 2 then 1 else 0),
        if mp < 10 then mp + 3 else mp - 9, doy - (153 * mp + 2) div 5 + 1)"
    unfolding civil_from_days_def Let_def era_def [symmetric] doe_def [symmetric]
      yoe_def [symmetric] doy_def [symmetric] mp_def [symmetric] by (rule refl)
  have "(if (if mp < 10 then mp + 3 else mp - 9) \<le> 2 then 1 else 0 :: int) =
      (if mp < 10 then 0 else 1)"
    using mp by auto
  with civil have "civil_from_days days =
       (yoe + era * 400 + (if mp < 10 then 0 else 1), if mp < 10 then mp + 3 else mp - 9,
        doy - (153 * mp + 2) div 5 + 1)"
    by simp
  moreover have "days + 719468 = era * 146097 + doe" by (simp add: doe_def)
  ultimately show thesis
    using that [of era doe yoe doy mp] doe yoe doy mp doy_def mp_def by blast
qed

lemma days_from_civil_from_days:
  assumes civil: "civil_from_days d = (y, m, dd)"
  shows "days_from_civil y m dd = d"
proof -
  obtain era doe yoe doy mp where parts:
    "d + 719468 = era * 146097 + doe" "0 \<le> yoe" "yoe \<le> 399"
    "doy = doe - (365 * yoe + yoe div 4 - yoe div 100)" "0 \<le> mp" "mp \<le> 11"
    "civil_from_days d =
       (yoe + era * 400 + (if mp < 10 then 0 else 1), if mp < 10 then mp + 3 else mp - 9,
        doy - (153 * mp + 2) div 5 + 1)"
    by (rule civil_from_days_parts [of d])
  from civil parts(7) have ymd: "y = yoe + era * 400 + (if mp < 10 then 0 else 1)"
    "m = (if mp < 10 then mp + 3 else mp - 9)" "dd = doy - (153 * mp + 2) div 5 + 1"
    by simp_all
  have month: "(m + 9) mod 12 = mp" and early: "m \<le> 2 \<longleftrightarrow> \<not> mp < 10"
    using parts(5,6) ymd(2) by auto
  have year: "(if m \<le> 2 then y - 1 else y) = yoe + era * 400"
    using ymd(1) early by auto
  have era: "(yoe + era * 400) div 400 = era"
    using parts(2,3) by (intro div_eqI) simp_all
  show ?thesis
    unfolding days_from_civil_def year era month Let_def using parts(1,4) ymd(3) by simp
qed

lemma civil_from_days_range:
  assumes civil: "civil_from_days d = (y, m, dd)"
  shows "1 \<le> m \<and> m \<le> 12 \<and> 1 \<le> dd \<and> dd \<le> 31"
proof -
  obtain era yoe doy mp where parts:
    "0 \<le> doy" "doy \<le> 365" "mp = (5 * doy + 2) div 153" "0 \<le> mp" "mp \<le> 11"
    "civil_from_days d =
       (yoe + era * 400 + (if mp < 10 then 0 else 1), if mp < 10 then mp + 3 else mp - 9,
        doy - (153 * mp + 2) div 5 + 1)"
    by (rule civil_from_days_parts [of d])
  from civil parts(6) have md: "m = (if mp < 10 then mp + 3 else mp - 9)"
    "dd = doy - (153 * mp + 2) div 5 + 1"
    by simp_all
  have "153 * mp \<le> 5 * doy + 2" "5 * doy + 2 < 153 * mp + 153"
    unfolding parts(3) using div_bounds [of 153 "5 * doy + 2"] by simp_all
  moreover have "5 * ((153 * mp + 2) div 5) \<le> 153 * mp + 2"
    "153 * mp + 2 < 5 * ((153 * mp + 2) div 5) + 5"
    using div_bounds [of 5 "153 * mp + 2"] by simp_all
  ultimately have "1 \<le> dd" "dd \<le> 31" unfolding md by linarith+
  with md parts(4,5) show ?thesis by auto
qed

lemma civil_from_days_year:
  assumes civil: "civil_from_days d = (y, m, dd)" and "- 100000001 \<le> d" "d \<le> 100000001"
  shows "- 999999 \<le> y \<and> y \<le> 999999"
proof -
  obtain era doe yoe doy mp where parts:
    "d + 719468 = era * 146097 + doe" "0 \<le> doe" "doe \<le> 146096" "0 \<le> yoe" "yoe \<le> 399"
    "civil_from_days d =
       (yoe + era * 400 + (if mp < 10 then 0 else 1), if mp < 10 then mp + 3 else mp - 9,
        doy - (153 * mp + 2) div 5 + 1)"
    by (rule civil_from_days_parts [of d])
  have "- 690 \<le> era" "era \<le> 690" using parts(1-3) assms(2,3) by linarith+
  with parts(4-6) civil show ?thesis by auto
qed

section \<open>The printed text parses back\<close>

lemma digits_pad:
  "n < 10 ^ w \<Longrightarrow> 0 < w \<Longrightarrow> digits w (pad_nat w n @ s) = Some (int n, s)"
  using pad_nat_length [of n w] pad_nat_digits [of _ w n]
  by (auto simp: digits_def list_all_iff)

lemma digits_pad_int:
  "0 \<le> i \<Longrightarrow> i < 10 ^ w \<Longrightarrow> 0 < w \<Longrightarrow> digits w (pad_nat w (nat i) @ s) = Some (i, s)"
  by (simp add: digits_pad nat_less_iff)

lemma digits_two:
  "0 \<le> i \<Longrightarrow> i \<le> 99 \<Longrightarrow> digits 2 (pad_nat 2 (nat i) @ s) = Some (i, s)"
  by (simp add: digits_pad_int)

lemma pad_nat_Cons:
  assumes "n < 10 ^ w" and "0 < w"
  obtains c cs where "pad_nat w n = c # cs" "is_digit c"
  using pad_nat_length [OF assms] pad_nat_digits [of _ w n] assms(2)
  by (cases "pad_nat w n") auto

lemma parse_year_text:
  assumes "- 999999 \<le> y" and "y \<le> 999999"
  shows "parse_year (year_text y @ s) = Some (y, s)"
proof (cases "0 \<le> y \<and> y \<le> 9999")
  case True
  then have n: "y < 10 ^ 4" and n': "nat y < 10 ^ 4" by (simp_all add: nat_less_iff)
  obtain c cs where c: "pad_nat 4 (nat y) = c # cs" "is_digit c"
    using pad_nat_Cons [OF n'] by auto
  then have "c \<noteq> CHR ''+''" "c \<noteq> CHR ''-''" by (auto simp: is_digit_def)
  with c True digits_pad_int [OF _ n, of s] show ?thesis
    by (simp add: parse_year_def year_text_def)
next
  case False
  with assms show ?thesis
    using digits_pad_int [of "- y" 6 s] digits_pad_int [of y 6 s]
    by (auto simp: parse_year_def year_text_def)
qed

lemma format_iso_split:
  assumes "civil_from_days (ms div 86400000) = (year, month, day)"
  shows "format_iso ms =
    year_text year @ CHR ''-'' # pad_nat 2 (nat month) @ CHR ''-'' # pad_nat 2 (nat day) @
    CHR ''T'' # pad_nat 2 (nat (ms mod 86400000 div 3600000)) @
    CHR '':'' # pad_nat 2 (nat (ms mod 86400000 div 60000 mod 60)) @
    CHR '':'' # pad_nat 2 (nat (ms mod 86400000 div 1000 mod 60)) @
    CHR ''.'' # pad_nat 3 (nat (ms mod 86400000 mod 1000)) @ ''Z''"
  using assms by (simp add: format_iso_def Let_def)

lemma parse_fraction_text:
  assumes "0 \<le> i" and "i < 1000"
  shows "parse_fraction (CHR ''.'' # pad_nat 3 (nat i) @ ''Z'') = Some (i, ''Z'')"
proof -
  have len: "length (pad_nat 3 (nat i)) = 3"
    using assms by (intro pad_nat_length) auto
  have dig: "list_all is_digit (pad_nat 3 (nat i))"
    using pad_nat_digits [of _ 3 "nat i"] by (auto simp: list_all_iff)
  have "takeWhile is_digit (pad_nat 3 (nat i) @ ''Z'') = pad_nat 3 (nat i)"
    "dropWhile is_digit (pad_nat 3 (nat i) @ ''Z'') = ''Z''"
    using dig by (auto simp: takeWhile_append2 dropWhile_append2 list_all_iff is_digit_def)
  then show ?thesis
    using len assms by (auto simp: parse_fraction_def Let_def)
qed

lemma parse_clock_text:
  assumes "0 \<le> t" and "t < 86400000"
  shows "parse_clock (pad_nat 2 (nat (t div 3600000)) @
    CHR '':'' # pad_nat 2 (nat (t div 60000 mod 60)) @
    CHR '':'' # pad_nat 2 (nat (t div 1000 mod 60)) @
    CHR ''.'' # pad_nat 3 (nat (t mod 1000)) @ ''Z'') = Some (t, 0, [])"
proof -
  define h mi se ml where parts: "h = t div 3600000" "mi = t div 60000 mod 60"
    "se = t div 1000 mod 60" "ml = t mod 1000"
  have h: "0 \<le> h" "h \<le> 23" and mi: "0 \<le> mi" "mi \<le> 59" and se: "0 \<le> se" "se \<le> 59"
    and ml: "0 \<le> ml" "ml < 1000"
    unfolding parts using assms div_bounds [of 3600000 t] by auto
  have "t div 60000 = (t div 1000) div 60" "t div 3600000 = (t div 1000) div 60 div 60"
    by (simp_all flip: zdiv_zmult2_eq)
  then have sum: "((h * 60 + mi) * 60 + se) * 1000 + ml = t"
    unfolding parts using mult_div_mod_eq [of 60 "t div 1000 div 60"]
      mult_div_mod_eq [of 60 "t div 1000"] mult_div_mod_eq [of 1000 t] by simp
  show ?thesis
    unfolding parts [symmetric] parse_clock_def parse_seconds_def
    using h mi se parse_fraction_text [OF ml]
    by (simp add: digits_two parse_offset_def) (use sum in simp)
qed

text \<open>C25. Timestamps survive the session file: every time value JavaScript can hold, within
  8.64e15 ms of the epoch, formats to a text that parses back to it, across the year forms with
  four digits and with a sign and six.\<close>

theorem parse_format_iso:
  assumes "\<bar>ms\<bar> \<le> max_time_ms"
  shows "parse_date_ms (format_iso ms) = Some ms"
proof -
  obtain year month day where civil: "civil_from_days (ms div 86400000) = (year, month, day)"
    by (metis prod_cases3)
  have days: "- 100000001 \<le> ms div 86400000" "ms div 86400000 \<le> 100000001"
    using assms div_bounds [of 86400000 ms] unfolding max_time_ms_def by linarith+
  note range = civil_from_days_range [OF civil]
  note year = civil_from_days_year [OF civil days]
  define t where "t = ms mod 86400000"
  have t: "0 \<le> t" "t < 86400000" by (simp_all add: t_def)
  have ms: "days_from_civil year month day * 86400000 + t = ms"
    unfolding days_from_civil_from_days [OF civil] t_def by simp
  have first: "days_from_civil year month 1 + (day - 1) = days_from_civil year month day"
    by (simp add: days_from_civil_def Let_def)
  have bounds: "in_i64 (days_from_civil year month day * 86400000)" "in_i64 ms"
    using ms t assms unfolding max_time_ms_def in_i64_def by linarith+
  show ?thesis
    unfolding format_iso_split [OF civil] t_def [symmetric] parse_date_ms_def
    using range year parse_clock_text [OF t] ms bounds assms
    by (simp add: parse_year_text parse_month_day_def parse_time_def digits_two first checked_i64_def)
qed

lemma parse_format_iso_witness:
  "parse_date_ms (format_iso (- 62198755200000)) = Some (- 62198755200000)"
  by (rule parse_format_iso) (simp add: max_time_ms_def)

end
