(* ===== verification/SessionStore.thy ===== *)
theory SessionStore
  imports SessionTime "HOL-Library.Sublist"
begin

unbundle bit_operations_syntax

text \<open>
  The session file as a tree of entries: ids (\<open>session/id.rs\<close>), entries (\<open>session/entry.rs\<close>) and
  the manager that appends to the file and moves its leaf (\<open>session/manager.rs\<close>). Random bytes,
  the clock and the outcome of each file operation are the fields of \<open>env\<close>, one value per
  appended entry. The manager's \<open>disk\<close> is the lines its successful writes have put in the file;
  a failed write leaves it as it was.
\<close>

section \<open>Ids\<close>

definition hex_digit :: "nat \<Rightarrow> char" where
  "hex_digit d = ''0123456789abcdef'' ! d"

definition hex_byte :: "8 word \<Rightarrow> string" where
  "hex_byte b = [hex_digit (unat b div 16), hex_digit (unat b mod 16)]"

definition hex :: "8 word list \<Rightarrow> string" where
  "hex bytes = concat (map hex_byte bytes)"

definition format_uuid :: "8 word list \<Rightarrow> string" where
  "format_uuid bytes =
     hex (take 4 bytes) @ ''-'' @ hex (take 2 (drop 4 bytes)) @ ''-'' @
     hex (take 2 (drop 6 bytes)) @ ''-'' @ hex (take 2 (drop 8 bytes)) @ ''-'' @
     hex (take 6 (drop 10 bytes))"

text \<open>\<open>uuid_v4\<close> over the sixteen random bytes drawn.\<close>

definition uuid_v4 :: "8 word list \<Rightarrow> string" where
  "uuid_v4 bytes =
     format_uuid (bytes[6 := 0x40 OR (bytes ! 6 AND 0x0f), 8 := 0x80 OR (bytes ! 8 AND 0x3f)])"

fun try_entry_ids :: "(string \<Rightarrow> bool) \<Rightarrow> (nat \<Rightarrow> 8 word list) \<Rightarrow> nat \<Rightarrow> nat \<Rightarrow> string option" where
  "try_entry_ids in_use draw 0 k = None"
| "try_entry_ids in_use draw (Suc n) k =
     (if in_use (hex (draw k)) then try_entry_ids in_use draw n (Suc k) else Some (hex (draw k)))"

definition generate_entry_id ::
  "(string \<Rightarrow> bool) \<Rightarrow> (nat \<Rightarrow> 8 word list) \<Rightarrow> 8 word list \<Rightarrow> string" where
  "generate_entry_id in_use draw uuid_bytes =
     (case try_entry_ids in_use draw 100 0 of
        Some i \<Rightarrow> i
      | None \<Rightarrow> uuid_v4 uuid_bytes)"

definition is_ascii_alphanumeric :: "char \<Rightarrow> bool" where
  "is_ascii_alphanumeric c \<longleftrightarrow>
     (let b = of_char c :: nat in
      48 \<le> b \<and> b \<le> 57 \<or> 65 \<le> b \<and> b \<le> 90 \<or> 97 \<le> b \<and> b \<le> 122)"

datatype session_error =
    InvalidSessionId
  | EntryNotFound string
  | NotOnActiveBranch string
  | NotEditable string
  | SummaryMessage string
  | IoError string

definition assert_valid_session_id :: "string \<Rightarrow> (session_error, unit) result" where
  "assert_valid_session_id i =
     (if i \<noteq> [] \<and> is_ascii_alphanumeric (hd i) \<and> is_ascii_alphanumeric (last i) \<and>
         list_all (\<lambda>c. is_ascii_alphanumeric c \<or> c = CHR ''.'' \<or> c = CHR ''_'' \<or> c = CHR ''-'') i
      then Inr () else Inl InvalidSessionId)"

lemma try_entry_ids_fresh: "try_entry_ids in_use draw n k = Some i \<Longrightarrow> \<not> in_use i"
  by (induction n arbitrary: k) (auto split: if_splits)

lemma generate_entry_id_fresh:
  "\<not> in_use (uuid_v4 uuid_bytes) \<Longrightarrow> \<not> in_use (generate_entry_id in_use draw uuid_bytes)"
  using try_entry_ids_fresh [of in_use draw 100 0]
  by (auto simp: generate_entry_id_def split: option.splits)

section \<open>Entries\<close>

record session_entry =
  entry_id :: string
  raw :: object

definition parent_id :: "session_entry \<Rightarrow> string option" where
  "parent_id e = str_member (raw e) ''parentId''"

definition entry_type :: "session_entry \<Rightarrow> string" where
  "entry_type e = (case str_member (raw e) ''type'' of Some t \<Rightarrow> t | None \<Rightarrow> '''')"

definition entry_timestamp :: "session_entry \<Rightarrow> string option" where
  "entry_timestamp e = str_member (raw e) ''timestamp''"

definition entry_get :: "session_entry \<Rightarrow> string \<Rightarrow> json option" where
  "entry_get e k = obj_get (raw e) k"

definition message_role :: "session_entry \<Rightarrow> string option" where
  "message_role e =
     (if entry_type e \<noteq> ''message'' then None
      else Option.bind (obj_get (raw e) ''message'') (\<lambda>v.
             Option.bind (as_object v) (\<lambda>m. str_member m ''role'')))"

definition entry_from_json :: "object \<Rightarrow> (object, session_entry) result" where
  "entry_from_json m =
     (case str_member m ''id'' of
        Some i \<Rightarrow> Inr \<lparr>entry_id = i, raw = m\<rparr>
      | None \<Rightarrow> Inl m)"

definition set_member :: "string \<Rightarrow> json \<Rightarrow> session_entry \<Rightarrow> session_entry" where
  "set_member k v e =
     (let e' = (if k = ''id'' then (case as_str v of Some i \<Rightarrow> e\<lparr>entry_id := i\<rparr> | None \<Rightarrow> e) else e)
      in e'\<lparr>raw := obj_insert k v (raw e')\<rparr>)"

datatype file_entry = Header object | Entry session_entry | Unindexed object

definition file_entry_from_json :: "object \<Rightarrow> file_entry" where
  "file_entry_from_json m =
     (if str_member m ''type'' = Some ''session'' then Header m
      else (case entry_from_json m of Inr e \<Rightarrow> Entry e | Inl m \<Rightarrow> Unindexed m))"

fun as_entry :: "file_entry \<Rightarrow> session_entry option" where
  "as_entry (Entry e) = Some e"
| "as_entry _ = None"

text \<open>A \<open>custom\<close> entry read as its type and data; an entry of another shape does not read.\<close>

definition typed_custom :: "session_entry \<Rightarrow> (string \<times> json option) option" where
  "typed_custom e =
     (if entry_type e \<noteq> ''custom'' then None
      else map_option (\<lambda>t. (t, (case obj_get (raw e) ''data'' of Some JNull \<Rightarrow> None | d \<Rightarrow> d)))
             (str_member (raw e) ''customType''))"

text \<open>\<open>js_truthy\<close>: a float is false at either zero and at NaN, read off its bits.\<close>

fun number_truthy :: "number \<Rightarrow> bool" where
  "number_truthy (PosInt w) = (w \<noteq> 0)"
| "number_truthy (NegInt w) = (w \<noteq> 0)"
| "number_truthy (Float w) =
     (let m = w AND 0x7FFFFFFFFFFFFFFF in m \<noteq> 0 \<and> m \<le> 0x7FF0000000000000)"

fun js_truthy :: "json option \<Rightarrow> bool" where
  "js_truthy None = False"
| "js_truthy (Some JNull) = False"
| "js_truthy (Some (JBool b)) = b"
| "js_truthy (Some (JNumber n)) = number_truthy n"
| "js_truthy (Some (JString s)) = (s \<noteq> [])"
| "js_truthy (Some (JArray _)) = True"
| "js_truthy (Some (JObject _)) = True"

section \<open>The manager\<close>

record session_manager =
  persist :: bool
  flushed :: bool
  has_file :: bool
  file_entries :: "file_entry list"
  by_id :: "(string \<times> nat) list"
  labels_by_id :: "(string \<times> string) list"
  label_timestamps_by_id :: "(string \<times> string) list"
  leaf_id :: "string option"
  disk :: "file_entry list"

text \<open>What one appended entry takes from outside: random draws, the clock, and the outcome of
  taking the writer lock and of the write.\<close>

record env =
  draw4 :: "nat \<Rightarrow> 8 word list"
  draw16 :: "8 word list"
  now_ms :: int
  hold_writer :: "(string, unit) result"
  write_bytes :: "(string, unit) result"

definition entry_at :: "session_manager \<Rightarrow> string \<Rightarrow> session_entry option" where
  "entry_at s i =
     Option.bind (map_of (by_id s) i) (\<lambda>n.
       if n < length (file_entries s) then as_entry (file_entries s ! n) else None)"

definition entry_count :: "session_manager \<Rightarrow> nat" where
  "entry_count s = length (by_id s)"

definition entries :: "session_manager \<Rightarrow> session_entry list" where
  "entries s = List.map_filter as_entry (file_entries s)"

definition has_conversation :: "session_manager \<Rightarrow> bool" where
  "has_conversation s \<longleftrightarrow>
     list_ex (\<lambda>f. case Option.bind (as_entry f) message_role of
                    Some r \<Rightarrow> r = ''user'' \<or> r = ''assistant''
                  | None \<Rightarrow> False) (file_entries s)"

definition persist_last :: "env \<Rightarrow> session_manager \<Rightarrow> session_manager \<times> (session_error, unit) result" where
  "persist_last v s =
     (if \<not> (has_file s \<and> persist s) then (s, Inr ())
      else if \<not> flushed s then
        (if \<not> has_conversation s then (s, Inr ())
         else (case hold_writer v of
             Inl e \<Rightarrow> (s, Inl (IoError e))
           | Inr _ \<Rightarrow>
               (case write_bytes v of
                  Inl e \<Rightarrow> (s, Inl (IoError e))
                | Inr _ \<Rightarrow> (s\<lparr>disk := file_entries s, flushed := True\<rparr>, Inr ()))))
      else (case hold_writer v of
          Inl e \<Rightarrow> (s, Inl (IoError e))
        | Inr _ \<Rightarrow>
            (if file_entries s = [] then (s, Inr ())
             else (case write_bytes v of
               Inl e \<Rightarrow> (s, Inl (IoError e))
             | Inr _ \<Rightarrow> (s\<lparr>disk := disk s @ [last (file_entries s)]\<rparr>, Inr ())))))"

definition next_id :: "env \<Rightarrow> session_manager \<Rightarrow> string" where
  "next_id v s = generate_entry_id (\<lambda>c. map_of (by_id s) c \<noteq> None) (draw4 v) (draw16 v)"

definition parent_value :: "session_manager \<Rightarrow> json" where
  "parent_value s = (case leaf_id s of None \<Rightarrow> JNull | Some i \<Rightarrow> JString i)"

definition base :: "env \<Rightarrow> session_manager \<Rightarrow> string \<Rightarrow> string \<Rightarrow> object" where
  "base v s t i =
     [(''type'', JString t), (''id'', JString i), (''parentId'', parent_value s),
      (''timestamp'', JString (format_iso (now_ms v)))]"

definition push_entry :: "string \<Rightarrow> object \<Rightarrow> session_manager \<Rightarrow> session_manager" where
  "push_entry i m s =
     s\<lparr>file_entries := file_entries s @ [Entry \<lparr>entry_id = i, raw = m\<rparr>],
       by_id := imap_insert i (length (file_entries s)) (by_id s),
       leaf_id := Some i\<rparr>"

definition append_entry ::
  "env \<Rightarrow> string \<Rightarrow> object \<Rightarrow> session_manager \<Rightarrow> session_manager \<times> (session_error, string) result" where
  "append_entry v i m s =
     (case persist_last v (push_entry i m s) of
        (s', Inl e) \<Rightarrow> (s', Inl e)
      | (s', Inr _) \<Rightarrow> (s', Inr i))"

definition append_message ::
  "env \<Rightarrow> object \<Rightarrow> session_manager \<Rightarrow> session_manager \<times> (session_error, string) result" where
  "append_message v message s =
     (case str_member message ''role'' of
        Some r \<Rightarrow>
          if r = ''branchSummary'' \<or> r = ''compactionSummary'' then (s, Inl (SummaryMessage r))
          else append_entry v (next_id v s)
                 (obj_insert ''message'' (JObject message) (base v s ''message'' (next_id v s))) s
      | None \<Rightarrow>
          append_entry v (next_id v s)
            (obj_insert ''message'' (JObject message) (base v s ''message'' (next_id v s))) s)"

definition append_thinking_level_change ::
  "env \<Rightarrow> string \<Rightarrow> session_manager \<Rightarrow> session_manager \<times> (session_error, string) result" where
  "append_thinking_level_change v level s =
     append_entry v (next_id v s)
       (obj_insert ''thinkingLevel'' (JString level)
          (base v s ''thinking_level_change'' (next_id v s))) s"

definition append_model_change ::
  "env \<Rightarrow> string \<Rightarrow> string \<Rightarrow> session_manager \<Rightarrow> session_manager \<times> (session_error, string) result" where
  "append_model_change v provider model s =
     append_entry v (next_id v s)
       (obj_insert ''modelId'' (JString model)
          (obj_insert ''provider'' (JString provider)
             (base v s ''model_change'' (next_id v s)))) s"

definition custom_object :: "string \<Rightarrow> json option \<Rightarrow> object \<Rightarrow> object" where
  "custom_object custom_type data b =
     (let m = [(''type'', JString ''custom''), (''customType'', JString custom_type)];
          m = (case data of None \<Rightarrow> m | Some d \<Rightarrow> obj_insert ''data'' d m)
      in foldl (\<lambda>m (k, v). obj_insert k v m) m (filter (\<lambda>(k, _). k \<noteq> ''type'') b))"

definition append_custom_entry ::
  "env \<Rightarrow> string \<Rightarrow> json option \<Rightarrow> session_manager \<Rightarrow>
     session_manager \<times> (session_error, string) result" where
  "append_custom_entry v custom_type data s =
     append_entry v (next_id v s)
       (custom_object custom_type data (base v s ''custom'' (next_id v s))) s"

definition branch :: "string \<Rightarrow> session_manager \<Rightarrow> session_manager \<times> (session_error, unit) result" where
  "branch i s =
     (if map_of (by_id s) i = None then (s, Inl (EntryNotFound i))
      else (s\<lparr>leaf_id := Some i\<rparr>, Inr ()))"

definition reset_leaf :: "session_manager \<Rightarrow> session_manager" where
  "reset_leaf s = s\<lparr>leaf_id := None\<rparr>"

definition append_label_change ::
  "env \<Rightarrow> string \<Rightarrow> string option \<Rightarrow> session_manager \<Rightarrow>
     session_manager \<times> (session_error, string) result" where
  "append_label_change v target label s =
     (if map_of (by_id s) target = None then (s, Inl (EntryNotFound target))
      else
        (let i = next_id v s;
             m = obj_insert ''targetId'' (JString target) (base v s ''label'' i);
             m = (case label of None \<Rightarrow> m | Some l \<Rightarrow> obj_insert ''label'' (JString l) m);
             timestamp = (case str_member m ''timestamp'' of Some t \<Rightarrow> t | None \<Rightarrow> '''')
         in (case append_entry v i m s of
               (s', Inl e) \<Rightarrow> (s', Inl e)
             | (s', Inr i) \<Rightarrow>
                 (case label of
                    Some l \<Rightarrow>
                      if l \<noteq> [] then
                        (s'\<lparr>labels_by_id := imap_insert target l (labels_by_id s'),
                            label_timestamps_by_id :=
                              imap_insert target timestamp (label_timestamps_by_id s')\<rparr>, Inr i)
                      else
                        (s'\<lparr>labels_by_id := imap_remove target (labels_by_id s'),
                            label_timestamps_by_id :=
                              imap_remove target (label_timestamps_by_id s')\<rparr>, Inr i)
                  | None \<Rightarrow>
                      (s'\<lparr>labels_by_id := imap_remove target (labels_by_id s'),
                          label_timestamps_by_id :=
                            imap_remove target (label_timestamps_by_id s')\<rparr>, Inr i)))))"

definition optional :: "object \<Rightarrow> string \<Rightarrow> json option \<Rightarrow> object" where
  "optional m k v = (case v of None \<Rightarrow> m | Some x \<Rightarrow> obj_insert k x m)"

definition branch_with_summary ::
  "env \<Rightarrow> string option \<Rightarrow> string \<Rightarrow> json option \<Rightarrow> bool option \<Rightarrow> json option \<Rightarrow> session_manager \<Rightarrow>
     session_manager \<times> (session_error, string) result" where
  "branch_with_summary v from summary details from_hook usage s =
     (if from \<noteq> None \<and> map_of (by_id s) (the from) = None then (s, Inl (EntryNotFound (the from)))
      else
        (let from_id = (case leaf_id s of Some i \<Rightarrow> i | None \<Rightarrow> ''root'');
             s = s\<lparr>leaf_id := from\<rparr>;
             i = next_id v s;
             m = obj_insert ''summary'' (JString summary)
                   (obj_insert ''fromId'' (JString from_id) (base v s ''branch_summary'' i));
             m = optional (optional (optional m ''details'' details) ''usage'' usage)
                   ''fromHook'' (map_option JBool from_hook)
         in append_entry v i m s))"

text \<open>\<open>build_index\<close> over the file's lines; \<open>js_text\<close> is \<open>js_to_string\<close> of a label member.\<close>

definition index_line ::
  "(json option \<Rightarrow> string) \<Rightarrow> session_manager \<Rightarrow> nat \<times> file_entry \<Rightarrow> session_manager" where
  "index_line js_text s x =
     (case x of (n, f) \<Rightarrow>
       (case f of
          Entry e \<Rightarrow>
            (let s = s\<lparr>by_id := imap_insert (entry_id e) n (by_id s), leaf_id := Some (entry_id e)\<rparr>
             in if entry_type e \<noteq> ''label'' then s
                else (case str_member (raw e) ''targetId'' of
                        None \<Rightarrow> s
                      | Some target \<Rightarrow>
                          if js_truthy (entry_get e ''label'') then
                            s\<lparr>labels_by_id :=
                                imap_insert target (js_text (entry_get e ''label'')) (labels_by_id s),
                              label_timestamps_by_id :=
                                imap_insert target
                                  (case entry_timestamp e of Some t \<Rightarrow> t | None \<Rightarrow> '''')
                                  (label_timestamps_by_id s)\<rparr>
                          else
                            s\<lparr>labels_by_id := imap_remove target (labels_by_id s),
                              label_timestamps_by_id :=
                                imap_remove target (label_timestamps_by_id s)\<rparr>))
        | _ \<Rightarrow> s))"

definition build_index :: "(json option \<Rightarrow> string) \<Rightarrow> session_manager \<Rightarrow> session_manager" where
  "build_index js_text s =
     foldl (index_line js_text)
       (s\<lparr>by_id := [], labels_by_id := [], label_timestamps_by_id := [], leaf_id := None\<rparr>)
       (enumerate 0 (file_entries s))"

section \<open>Starting and rewriting a file\<close>

definition session_header_new :: "string \<Rightarrow> string \<Rightarrow> string \<Rightarrow> string option \<Rightarrow> object" where
  "session_header_new i timestamp cwd parent =
     (let m = [(''type'', JString ''session''), (''version'', json_u64 3), (''id'', JString i),
               (''timestamp'', JString timestamp), (''cwd'', JString cwd)]
      in (case parent of None \<Rightarrow> m | Some p \<Rightarrow> obj_insert ''parentSession'' (JString p) m))"

record new_session_options =
  option_id :: "string option"
  parent_session :: "string option"

text \<open>
  \<open>start_session\<close>; \<open>uuid\<close> is the id drawn when the options name none. The session's id and
  directory are the header's members. A persisted session moves to a file not yet written.
\<close>

definition start_session ::
  "env \<Rightarrow> string \<Rightarrow> string \<Rightarrow> new_session_options \<Rightarrow> session_manager \<Rightarrow>
     session_manager \<times> (session_error, bool) result" where
  "start_session v uuid cwd options s =
     (case (case option_id options of None \<Rightarrow> Inr () | Some i \<Rightarrow> assert_valid_session_id i) of
        Inl e \<Rightarrow> (s, Inl e)
      | Inr _ \<Rightarrow>
          (let i = (case option_id options of Some i \<Rightarrow> i | None \<Rightarrow> uuid);
               header = session_header_new i (format_iso (now_ms v)) cwd (parent_session options);
               s = s\<lparr>file_entries := [Header header], by_id := [], labels_by_id := [],
                     label_timestamps_by_id := [], leaf_id := None, flushed := False\<rparr>;
               s = (if persist s then s\<lparr>has_file := True, disk := []\<rparr> else s)
           in (s, Inr (has_file s))))"

definition rewrite_file :: "env \<Rightarrow> session_manager \<Rightarrow> session_manager \<times> (session_error, unit) result" where
  "rewrite_file v s =
     (if \<not> (has_file s \<and> persist s) then (s, Inr ())
      else (case hold_writer v of
          Inl e \<Rightarrow> (s, Inl (IoError e))
        | Inr _ \<Rightarrow>
            (case write_bytes v of
               Inl e \<Rightarrow> (s, Inl (IoError e))
             | Inr _ \<Rightarrow> (s\<lparr>disk := file_entries s\<rparr>, Inr ()))))"

text \<open>The manager \<open>construct\<close> starts from, before its session is started or loaded.\<close>

definition construct_empty :: "bool \<Rightarrow> session_manager" where
  "construct_empty p =
     \<lparr>persist = p, flushed = False, has_file = False, file_entries = [], by_id = [],
      labels_by_id = [], label_timestamps_by_id = [], leaf_id = None, disk = []\<rparr>"

end
