(* ===== verification/SessionTree.thy ===== *)
theory SessionTree
  imports SessionStore
begin

text \<open>
  Walks from an entry to its root (\<open>branch_entries\<close> of \<open>session/manager.rs\<close> and
  \<open>path_to_root\<close> of \<open>session/context.rs\<close>), the manager's index invariant, and the contract the
  permission and approval components rely on: appending a custom entry adds exactly that entry
  at the end of the current branch. The locale \<open>session_log\<close> states the contract; the manager
  provides it.
\<close>

section \<open>The walk\<close>

type_synonym entry_index = "(string \<times> session_entry) list"

definition parent_link :: "session_entry \<Rightarrow> string option" where
  "parent_link e = (case parent_id e of Some p \<Rightarrow> if p = [] then None else Some p | None \<Rightarrow> None)"

definition walk_ids :: "entry_index \<Rightarrow> session_entry option \<Rightarrow> string set" where
  "walk_ids idx cur = entry_id ` snd ` set idx \<union> entry_id ` set_option cur"

lemma finite_walk_ids: "finite (walk_ids idx cur)"
  by (simp add: walk_ids_def)

text \<open>The entries met, innermost first; \<open>seen\<close> is the ids already on the path.\<close>

function path_walk :: "entry_index \<Rightarrow> string list \<Rightarrow> session_entry option \<Rightarrow> session_entry list" where
  "path_walk idx seen None = []"
| "path_walk idx seen (Some e) =
     (if entry_id e \<in> set seen then []
      else e # path_walk idx (entry_id e # seen) (Option.bind (parent_link e) (map_of idx)))"
  by pat_completeness auto
termination
proof (relation "measure (\<lambda>(idx, seen, cur). card (walk_ids idx cur - set seen))")
  fix idx :: entry_index and seen :: "string list" and e :: session_entry
  assume "entry_id e \<notin> set seen"
  let ?next = "Option.bind (parent_link e) (map_of idx)"
  have "walk_ids idx ?next \<subseteq> walk_ids idx (Some e)"
    by (auto simp: walk_ids_def bind_eq_Some_conv dest!: map_of_SomeD intro: rev_image_eqI)
  then have "walk_ids idx ?next - set (entry_id e # seen) \<subset> walk_ids idx (Some e) - set seen"
    using \<open>entry_id e \<notin> set seen\<close> by (auto simp: walk_ids_def)
  then show "((idx, entry_id e # seen, ?next), idx, seen, Some e)
      \<in> measure (\<lambda>(idx, seen, cur). card (walk_ids idx cur - set seen))"
    by (simp add: psubset_card_mono finite_walk_ids)
qed simp

definition path_to_root :: "session_entry option \<Rightarrow> entry_index \<Rightarrow> session_entry list" where
  "path_to_root start idx = rev (path_walk idx [] start)"

definition manager_index :: "session_manager \<Rightarrow> entry_index" where
  "manager_index s = List.map_filter (\<lambda>(i, _). map_option (Pair i) (entry_at s i)) (by_id s)"

definition branch_entries :: "string option \<Rightarrow> session_manager \<Rightarrow> session_entry list" where
  "branch_entries from s =
     (let start = (case from of Some i \<Rightarrow> Some i | None \<Rightarrow> leaf_id s);
          current = (case start of None \<Rightarrow> None | Some i \<Rightarrow> if i = [] then None else entry_at s i)
      in rev (path_walk (manager_index s) [] current))"

section \<open>Facts of the walk\<close>

lemma path_walk_fresh: "e \<in> set (path_walk idx seen cur) \<Longrightarrow> entry_id e \<notin> set seen"
  by (induction idx seen cur rule: path_walk.induct) (auto split: if_splits)

lemma path_walk_distinct: "distinct (map entry_id (path_walk idx seen cur))"
  by (induction idx seen cur rule: path_walk.induct) (auto dest: path_walk_fresh)

lemma bind_map_of_known: "Option.bind p (map_of idx) = Some e \<Longrightarrow> e \<in> snd ` set idx"
  by (cases p) (auto dest!: map_of_SomeD intro: rev_image_eqI)

lemma path_walk_known:
  "e \<in> set (path_walk idx seen cur) \<Longrightarrow> cur = Some e \<or> e \<in> snd ` set idx"
proof (induction idx seen cur rule: path_walk.induct)
  case (2 idx seen e')
  show ?case
  proof (cases "e = e'")
    case False
    with "2.prems" have "entry_id e' \<notin> set seen"
      and "e \<in> set (path_walk idx (entry_id e' # seen) (Option.bind (parent_link e') (map_of idx)))"
      by (simp_all split: if_splits)
    then have "Option.bind (parent_link e') (map_of idx) = Some e \<or> e \<in> snd ` set idx"
      by (rule "2.IH")
    then show ?thesis using bind_map_of_known [of "parent_link e'" idx e] by blast
  qed simp
qed simp

text \<open>Consecutive entries are linked: each is followed by the entry its parent id names.\<close>

fun linked :: "entry_index \<Rightarrow> session_entry list \<Rightarrow> bool" where
  "linked idx [] = True"
| "linked idx [e] = True"
| "linked idx (e # f # es) =
     (Option.bind (parent_link e) (map_of idx) = Some f \<and> linked idx (f # es))"

lemma path_walk_hd: "path_walk idx seen cur = e # es \<Longrightarrow> cur = Some e"
  by (cases cur) (auto split: if_splits)

lemma path_walk_linked: "linked idx (path_walk idx seen cur)"
proof (induction idx seen cur rule: path_walk.induct)
  case (2 idx seen e)
  show ?case
  proof (cases "path_walk idx (entry_id e # seen) (Option.bind (parent_link e) (map_of idx))")
    case (Cons f es)
    with path_walk_hd [OF this] 2 show ?thesis by auto
  qed simp
qed simp

lemma path_walk_stops:
  "path_walk idx seen (Some e) = es \<Longrightarrow> es \<noteq> [] \<Longrightarrow>
     (case Option.bind (parent_link (last es)) (map_of idx) of
        None \<Rightarrow> True
      | Some f \<Rightarrow> entry_id f \<in> set seen \<union> entry_id ` set es)"
proof (induction idx seen "Some e" arbitrary: e es rule: path_walk.induct)
  case (2 idx seen e)
  from "2.prems" have unseen: "entry_id e \<notin> set seen" by auto
  let ?next = "Option.bind (parent_link e) (map_of idx)"
  let ?rest = "path_walk idx (entry_id e # seen) ?next"
  have es: "es = e # ?rest" using "2.prems" unseen by simp
  show ?case
  proof (cases ?next)
    case None
    then show ?thesis by (simp add: es)
  next
    case (Some f)
    show ?thesis
    proof (cases "?rest = []")
      case True
      with Some show ?thesis by (auto simp: es split: if_splits)
    next
      case False
      with "2.hyps" [OF unseen Some refl] show ?thesis
        by (auto simp: es Some split: option.splits)
    qed
  qed
qed

text \<open>An entry under a new id does not change a walk that already passed it.\<close>

lemma path_walk_extend:
  assumes "i \<in> set seen"
    and "\<And>j. j \<noteq> i \<Longrightarrow> map_of idx' j = map_of idx j"
    and "\<And>e. map_of idx' i = Some e \<Longrightarrow> entry_id e = i" and "map_of idx i = None"
    and "\<And>e. cur = Some e \<Longrightarrow> entry_id e \<noteq> i" and "\<And>e. e \<in> snd ` set idx \<Longrightarrow> entry_id e \<noteq> i"
  shows "path_walk idx' seen cur = path_walk idx seen cur"
  using assms
proof (induction idx seen cur rule: path_walk.induct)
  case (2 idx seen e)
  let ?p = "parent_link e"
  show ?case
  proof (cases "?p = Some i")
    case True
    have "path_walk idx' (entry_id e # seen) (map_of idx' i) = []"
      using "2.prems"(1,3) by (cases "map_of idx' i") auto
    then show ?thesis using True "2.prems"(4) by simp
  next
    case False
    then have same: "Option.bind ?p (map_of idx') = Option.bind ?p (map_of idx)"
      using "2.prems"(2) by (cases ?p) auto
    have "path_walk idx' (entry_id e # seen) (Option.bind ?p (map_of idx)) =
        path_walk idx (entry_id e # seen) (Option.bind ?p (map_of idx))"
      if unseen: "entry_id e \<notin> set seen"
    proof (rule "2.IH" [OF unseen _ "2.prems"(2,3,4)])
      show "i \<in> set (entry_id e # seen)" using "2.prems"(1) by simp
      show "entry_id f \<noteq> i" if "Option.bind ?p (map_of idx) = Some f" for f
        using bind_map_of_known [OF that] "2.prems"(6) by blast
      show "entry_id f \<noteq> i" if "f \<in> snd ` set idx" for f
        using that by (rule "2.prems"(6))
    qed
    then show ?thesis by (simp add: same)
  qed
qed simp

section \<open>The index invariant\<close>

definition wf_manager :: "session_manager \<Rightarrow> bool" where
  "wf_manager s \<longleftrightarrow>
     distinct (map fst (by_id s)) \<and>
     (\<forall>(i, n) \<in> set (by_id s). n < length (file_entries s) \<and>
        (\<exists>e. file_entries s ! n = Entry e \<and> entry_id e = i)) \<and>
     (\<forall>e. Entry e \<in> set (file_entries s) \<longrightarrow> entry_id e \<in> fst ` set (by_id s)) \<and>
     (\<forall>i. leaf_id s = Some i \<longrightarrow> i \<in> fst ` set (by_id s))"

lemma wf_entry_at:
  assumes "wf_manager s" and "map_of (by_id s) i = Some n"
  shows "\<exists>e. entry_at s i = Some e \<and> file_entries s ! n = Entry e \<and> entry_id e = i"
proof -
  from assms(2) have "(i, n) \<in> set (by_id s)" by (rule map_of_SomeD)
  with assms(1) have "n < length (file_entries s)"
    "\<exists>e. file_entries s ! n = Entry e \<and> entry_id e = i"
    unfolding wf_manager_def by blast+
  with assms(2) show ?thesis by (auto simp: entry_at_def)
qed

lemma entry_at_None: "map_of (by_id s) i = None \<Longrightarrow> entry_at s i = None"
  by (simp add: entry_at_def)

lemma wf_entry_at_id: "wf_manager s \<Longrightarrow> entry_at s i = Some e \<Longrightarrow> entry_id e = i"
  using wf_entry_at [of s i] entry_at_None [of s i] by (cases "map_of (by_id s) i") auto

lemma map_of_map_filter_pair:
  "distinct (map fst xs) \<Longrightarrow>
     map_of (List.map_filter (\<lambda>(i, _). map_option (Pair i) (f i)) xs) i =
       (if i \<in> fst ` set xs then f i else None)"
proof (induction xs)
  case (Cons x xs)
  obtain j n where x: "x = (j, n)" by (cases x)
  show ?case
  proof (cases "f j")
    case None
    with Cons x show ?thesis by (auto simp: List.map_filter_simps)
  next
    case (Some e)
    with Cons x show ?thesis by (auto simp: List.map_filter_simps)
  qed
qed (simp add: List.map_filter_simps)

lemma manager_index_get:
  assumes "wf_manager s"
  shows "map_of (manager_index s) = entry_at s"
proof
  fix i
  have "distinct (map fst (by_id s))" using assms by (simp add: wf_manager_def)
  moreover have "i \<notin> fst ` set (by_id s) \<Longrightarrow> entry_at s i = None"
    by (rule entry_at_None) (simp add: map_of_eq_None_iff)
  ultimately show "map_of (manager_index s) i = entry_at s i"
    by (simp add: manager_index_def map_of_map_filter_pair)
qed

lemma manager_index_values:
  "e \<in> snd ` set (manager_index s) \<Longrightarrow> \<exists>i \<in> fst ` set (by_id s). entry_at s i = Some e"
  by (auto simp: manager_index_def List.map_filter_def) force

lemma wf_push_entry [inv_intros]:
  assumes "wf_manager s" and "map_of (by_id s) i = None"
  shows "wf_manager (push_entry i m s)"
proof -
  have by_id: "by_id (push_entry i m s) = by_id s @ [(i, length (file_entries s))]"
    using assms(2) by (simp add: push_entry_def imap_insert_fresh)
  have fresh: "i \<notin> fst ` set (by_id s)" using assms(2) by (simp add: map_of_eq_None_iff)
  have old: "(file_entries s @ [x]) ! n = file_entries s ! n" if "n < length (file_entries s)" for n x
    using that by (simp add: nth_append)
  have "\<forall>(j, n) \<in> set (by_id s). n < length (file_entries (push_entry i m s)) \<and>
      (\<exists>e. file_entries (push_entry i m s) ! n = Entry e \<and> entry_id e = j)"
    using assms(1) old unfolding wf_manager_def push_entry_def by fastforce
  then show ?thesis
    using assms(1) fresh unfolding wf_manager_def by_id by (auto simp: push_entry_def)
qed

lemma persist_last_frame:
  assumes "persist_last v s = (s', r)"
  shows "file_entries s' = file_entries s" "by_id s' = by_id s" "leaf_id s' = leaf_id s"
    "labels_by_id s' = labels_by_id s" "persist s' = persist s" "has_file s' = has_file s"
  using assms by (auto simp: persist_last_def split: if_splits sum.splits)

lemma wf_cong:
  "file_entries s' = file_entries s \<Longrightarrow> by_id s' = by_id s \<Longrightarrow> leaf_id s' = leaf_id s \<Longrightarrow>
     wf_manager s' = wf_manager s"
  by (simp add: wf_manager_def)

lemma append_entry_frame:
  assumes "append_entry v i m s = (s', r)"
  shows "file_entries s' = file_entries (push_entry i m s)"
    "by_id s' = by_id (push_entry i m s)" "leaf_id s' = leaf_id (push_entry i m s)"
    "case r of Inr j \<Rightarrow> j = i | Inl _ \<Rightarrow> True"
proof -
  obtain t q where t: "persist_last v (push_entry i m s) = (t, q)" by fastforce
  with assms have "s' = t" "case r of Inr j \<Rightarrow> j = i | Inl _ \<Rightarrow> True"
    by (auto simp: append_entry_def split: sum.splits)
  with persist_last_frame [OF t] show "file_entries s' = file_entries (push_entry i m s)"
    "by_id s' = by_id (push_entry i m s)" "leaf_id s' = leaf_id (push_entry i m s)"
    "case r of Inr j \<Rightarrow> j = i | Inl _ \<Rightarrow> True"
    by simp_all
qed

lemma wf_append_entry [inv_intros]:
  "wf_manager s \<Longrightarrow> map_of (by_id s) i = None \<Longrightarrow> append_entry v i m s = (s', r) \<Longrightarrow> wf_manager s'"
  using wf_push_entry [of s i m] append_entry_frame [of v i m s s' r] wf_cong by blast

section \<open>Appending extends the branch\<close>

text \<open>Only the ids a walk can meet matter to it.\<close>

lemma path_walk_seen_cong:
  assumes "i \<notin> entry_id ` snd ` set idx" and "\<And>e. cur = Some e \<Longrightarrow> entry_id e \<noteq> i"
    and "set seen' = insert i (set seen)"
  shows "path_walk idx seen' cur = path_walk idx seen cur"
  using assms
proof (induction idx seen cur arbitrary: seen' rule: path_walk.induct)
  case (2 idx seen e)
  have same: "entry_id e \<in> set seen' \<longleftrightarrow> entry_id e \<in> set seen" using 2 by auto
  show ?case
  proof (cases "entry_id e \<in> set seen")
    case False
    have "path_walk idx (entry_id e # seen') (Option.bind (parent_link e) (map_of idx)) =
        path_walk idx (entry_id e # seen) (Option.bind (parent_link e) (map_of idx))"
    proof (rule "2.IH" [OF False "2.prems"(1)])
      show "entry_id f \<noteq> i" if "Option.bind (parent_link e) (map_of idx) = Some f" for f
        using bind_map_of_known [OF that] "2.prems"(1) by blast
      show "set (entry_id e # seen') = insert i (set (entry_id e # seen))"
        using "2.prems"(3) by auto
    qed
    with False same show ?thesis by simp
  qed (use same in simp)
qed simp

definition current_entry :: "session_manager \<Rightarrow> session_entry option" where
  "current_entry s = (case leaf_id s of None \<Rightarrow> None | Some i \<Rightarrow> if i = [] then None else entry_at s i)"

lemma branch_entries_leaf:
  "branch_entries None s = rev (path_walk (manager_index s) [] (current_entry s))"
  by (simp add: branch_entries_def current_entry_def Let_def)

lemma entry_at_push:
  assumes "wf_manager s" and "map_of (by_id s) i = None"
  shows "entry_at (push_entry i m s) j = (if j = i then Some \<lparr>entry_id = i, raw = m\<rparr> else entry_at s j)"
proof (cases "j = i")
  case False
  show ?thesis
  proof (cases "map_of (by_id s) j")
    case (Some n)
    with assms(1) have "n < length (file_entries s)"
      by (auto simp: wf_manager_def dest!: map_of_SomeD)
    with False Some show ?thesis by (simp add: entry_at_def push_entry_def nth_append)
  qed (use False in \<open>simp add: entry_at_def push_entry_def\<close>)
qed (simp add: entry_at_def push_entry_def)

lemma branch_entries_push:
  assumes wf: "wf_manager s" and new: "map_of (by_id s) i = None" and "i \<noteq> []"
    and link: "str_member m ''parentId'' = leaf_id s"
  shows "branch_entries None (push_entry i m s) = branch_entries None s @ [\<lparr>entry_id = i, raw = m\<rparr>]"
proof -
  let ?e = "\<lparr>entry_id = i, raw = m\<rparr>" and ?s' = "push_entry i m s"
  note wf' = wf_push_entry [OF wf new, of m]
  note get = manager_index_get [OF wf] and get' = manager_index_get [OF wf']
  note at = entry_at_push [OF wf new, of m]
  have cur': "current_entry ?s' = Some ?e"
    using \<open>i \<noteq> []\<close> at by (simp add: current_entry_def push_entry_def)
  have parent: "parent_link ?e = Option.bind (leaf_id s) (\<lambda>p. if p = [] then None else Some p)"
    using link by (simp add: parent_link_def parent_id_def split: option.splits)
  have leaf: "j \<noteq> i" if "leaf_id s = Some j" for j
    using wf new that by (auto simp: wf_manager_def map_of_eq_None_iff)
  have next': "Option.bind (parent_link ?e) (map_of (manager_index ?s')) = current_entry s"
    using leaf by (cases "leaf_id s") (auto simp: parent get' at current_entry_def)
  have known: "i \<notin> entry_id ` snd ` set (manager_index s)"
    using manager_index_values [of _ s] wf_entry_at_id [OF wf] new
    by (auto simp: map_of_eq_None_iff)
  have cur: "entry_id e \<noteq> i" if "current_entry s = Some e" for e
    using that leaf wf_entry_at_id [OF wf]
    by (auto simp: current_entry_def split: option.splits if_splits)
  have "path_walk (manager_index ?s') [i] (current_entry s) = path_walk (manager_index s) [i] (current_entry s)"
  proof (rule path_walk_extend [of i])
    show "map_of (manager_index ?s') j = map_of (manager_index s) j" if "j \<noteq> i" for j
      using that by (simp add: get get' at)
    show "entry_id e = i" if "map_of (manager_index ?s') i = Some e" for e
      using that by (auto simp: get' at)
    show "map_of (manager_index s) i = None" using entry_at_None [OF new] by (simp add: get)
    show "entry_id e \<noteq> i" if "e \<in> snd ` set (manager_index s)" for e
      using known that by blast
  qed (use cur in auto)
  also have "\<dots> = path_walk (manager_index s) [] (current_entry s)"
    by (rule path_walk_seen_cong [of i]) (use known cur in auto)
  finally show ?thesis
    by (simp add: branch_entries_leaf cur' next')
qed

section \<open>The contract of an append\<close>

text \<open>\<open>fresh_env\<close>: random draws have their length, and the fallback id is not taken.\<close>

definition fresh_env :: "env \<Rightarrow> session_manager \<Rightarrow> bool" where
  "fresh_env v s \<longleftrightarrow>
     (\<forall>k. length (draw4 v k) = 4) \<and> map_of (by_id s) (uuid_v4 (draw16 v)) = None"

lemma next_id_fresh: "fresh_env v s \<Longrightarrow> map_of (by_id s) (next_id v s) = None"
  using generate_entry_id_fresh [of "\<lambda>c. map_of (by_id s) c \<noteq> None" "draw16 v" "draw4 v"]
  by (simp add: fresh_env_def next_id_def)

lemma try_entry_ids_drawn:
  "try_entry_ids in_use draw n k = Some i \<Longrightarrow> \<exists>j. i = hex (draw j)"
  by (induction n arbitrary: k) (auto split: if_splits)

lemma next_id_nonempty: "fresh_env v s \<Longrightarrow> next_id v s \<noteq> []"
proof
  assume fresh: "fresh_env v s" and empty: "next_id v s = []"
  let ?used = "\<lambda>c. map_of (by_id s) c \<noteq> None"
  have "hex (draw4 v j) \<noteq> []" for j
    using fresh by (cases "draw4 v j") (auto simp: fresh_env_def hex_def hex_byte_def, metis length_0_conv zero_neq_numeral)
  moreover have "uuid_v4 (draw16 v) \<noteq> []" by (simp add: uuid_v4_def format_uuid_def)
  ultimately show False
    using empty try_entry_ids_drawn [of ?used "draw4 v" 100 0]
    by (auto simp: next_id_def generate_entry_id_def split: option.splits) metis
qed

lemma branch_entries_cong:
  assumes "file_entries s' = file_entries s" and "by_id s' = by_id s" and "leaf_id s' = leaf_id s"
  shows "branch_entries None s' = branch_entries None s"
proof -
  have "entry_at s' = entry_at s"
    by (rule ext) (simp only: entry_at_def assms)
  then show ?thesis
    by (simp only: branch_entries_leaf current_entry_def manager_index_def assms)
qed

lemma append_entry_extends:
  assumes "wf_manager s" and "fresh_env v s" and "str_member m ''parentId'' = leaf_id s"
    and "append_entry v (next_id v s) m s = (s', r)"
  shows "branch_entries None s' = branch_entries None s @ [\<lparr>entry_id = next_id v s, raw = m\<rparr>]"
    and "wf_manager s'"
proof -
  note new = next_id_fresh [OF assms(2)] and frame = append_entry_frame [OF assms(4)]
  show "branch_entries None s' = branch_entries None s @ [\<lparr>entry_id = next_id v s, raw = m\<rparr>]"
    using branch_entries_cong [OF frame(1-3)]
      branch_entries_push [OF assms(1) new next_id_nonempty [OF assms(2)] assms(3)] by simp
  show "wf_manager s'" using wf_append_entry [OF assms(1) new assms(4)] .
qed

lemma parent_value_str: "Option.bind (Some (parent_value s)) as_str = leaf_id s"
  by (simp add: parent_value_def split: option.splits)

lemma custom_object_get:
  "obj_get (custom_object t d (base v s ''custom'' i)) ''type'' = Some (JString ''custom'')"
  "obj_get (custom_object t d (base v s ''custom'' i)) ''customType'' = Some (JString t)"
  "obj_get (custom_object t d (base v s ''custom'' i)) ''data'' = d"
  "obj_get (custom_object t d (base v s ''custom'' i)) ''parentId'' = Some (parent_value s)"
  by (cases d; simp add: custom_object_def base_def Let_def)+

definition read_data :: "json option \<Rightarrow> json option" where
  "read_data d = (case d of Some JNull \<Rightarrow> None | d \<Rightarrow> d)"

lemma typed_custom_object:
  "typed_custom \<lparr>entry_id = i, raw = custom_object t d (base v s ''custom'' j)\<rparr> = Some (t, read_data d)"
  by (simp add: typed_custom_def entry_type_def str_member_def custom_object_get read_data_def)

text \<open>
  What a component that keeps its state in the session may rely on: \<open>trail\<close> is the current
  branch as the component reads it, and appending adds the new entry at its end, whether or not
  the write reached the disk.
\<close>

locale session_log =
  fixes ready :: "'s \<Rightarrow> bool" and fresh :: "'v \<Rightarrow> 's \<Rightarrow> bool"
    and trail :: "'s \<Rightarrow> (string \<times> json option) option list"
    and append_custom :: "'v \<Rightarrow> string \<Rightarrow> json option \<Rightarrow> 's \<Rightarrow> 's \<times> ('e, string) result"
  assumes append_trail:
      "ready s \<Longrightarrow> fresh v s \<Longrightarrow> append_custom v t d s = (s', r) \<Longrightarrow>
         trail s' = trail s @ [Some (t, read_data d)]"
    and append_ready:
      "ready s \<Longrightarrow> fresh v s \<Longrightarrow> append_custom v t d s = (s', r) \<Longrightarrow> ready s'"
begin

definition facts :: "string \<Rightarrow> 's \<Rightarrow> json option list" where
  "facts t s = map snd (filter (\<lambda>p. fst p = t) (List.map_filter id (trail s)))"

lemma facts_append:
  assumes "ready s" and "fresh v s" and "append_custom v t d s = (s', r)"
  shows "facts u s' = (if u = t then facts u s @ [read_data d] else facts u s)"
  using append_trail [OF assms] by (simp add: facts_def List.map_filter_def)

lemma fold_append:
  assumes "ready s" and "fresh v s" and "append_custom v t d s = (s', r)"
  shows "fold f (facts t s') x = f (read_data d) (fold f (facts t s) x)"
  using facts_append [OF assms, of t] by simp

end

definition manager_trail :: "session_manager \<Rightarrow> (string \<times> json option) option list" where
  "manager_trail s = map typed_custom (branch_entries None s)"

interpretation manager_log: session_log wf_manager fresh_env manager_trail append_custom_entry
proof
  fix s v t d s' r
  assume ready: "wf_manager s" "fresh_env v s" and "append_custom_entry v t d s = (s', r)"
  then have a: "append_entry v (next_id v s)
      (custom_object t d (base v s ''custom'' (next_id v s))) s = (s', r)"
    by (simp add: append_custom_entry_def)
  have link: "str_member (custom_object t d (base v s ''custom'' (next_id v s))) ''parentId'' = leaf_id s"
    using parent_value_str [of s] by (simp add: str_member_def custom_object_get)
  note ext = append_entry_extends [OF ready link a]
  show "manager_trail s' = manager_trail s @ [Some (t, read_data d)]"
    by (simp add: manager_trail_def ext(1) typed_custom_object)
  show "wf_manager s'" by (rule ext(2))
qed

section \<open>A sample session\<close>

text \<open>An in-memory session just started, and fixed draws, for the concrete instances.\<close>

definition sample_env :: env where
  "sample_env =
     \<lparr>draw4 = (\<lambda>k. [1, 2, 3, 4]), draw16 = replicate 16 0, now_ms = 0, hold_writer = Inr (),
      write_bytes = Inr ()\<rparr>"

definition sample_session :: session_manager where
  "sample_session =
     fst (start_session sample_env ''0191'' ''/work''
       \<lparr>option_id = None, parent_session = None\<rparr> (construct_empty False))"

lemma sample_session_simps:
  "by_id sample_session = []" "leaf_id sample_session = None"
  "branch_entries None sample_session = []" "wf_manager sample_session"
  "fresh_env sample_env sample_session" "entry_count sample_session = 0"
  by (simp_all add: sample_session_def start_session_def construct_empty_def branch_entries_def
      wf_manager_def fresh_env_def sample_env_def entry_count_def Let_def)

end
