(* ===== verification/Presets.thy ===== *)
theory Presets
  imports Sandbox Json
begin

text \<open>
  The approval policy knob (\<open>permissions/approval.rs\<close>) and the preset table
  (\<open>permissions/presets.rs\<close>): named bundles of a sandbox mode and an approval policy, read from
  the settings object, and the preset the knobs in force derive to.
\<close>

section \<open>The approval policy\<close>

datatype approval_policy = Ask | Never

definition all_policies :: "approval_policy list" where
  "all_policies = [Ask, Never]"

fun policy_text :: "approval_policy \<Rightarrow> string" where
  "policy_text Ask = ''ask''"
| "policy_text Never = ''never''"

datatype unknown_approval_policy = UnknownApprovalPolicy string

definition unknown_policy_text :: "unknown_approval_policy \<Rightarrow> string" where
  "unknown_policy_text e =
     ''approval policy must be one of '' @ quoted ''ask'' @ '' or '' @ quoted ''never''"

definition parse_policy :: "string \<Rightarrow> (unknown_approval_policy, approval_policy) result" where
  "parse_policy value =
     ok_or (find (\<lambda>p. policy_text p = value) all_policies) (UnknownApprovalPolicy value)"

definition never_sentence :: string where
  "never_sentence =
     ''Approval prompts: disabled. Actions that need approval are rejected automatically.''"

definition ask_sentence :: string where
  "ask_sentence =
     ''Approval prompts: enabled. Actions that need approval request it before running, and fail if no one can answer.''"

fun approval_policy_sentence :: "approval_policy \<Rightarrow> string" where
  "approval_policy_sentence Ask = ask_sentence"
| "approval_policy_sentence Never = never_sentence"

lemma parse_policy_text [simp]: "parse_policy (policy_text p) = Inr p"
  by (cases p) (simp_all add: parse_policy_def all_policies_def)

lemma parse_policy_Inr: "parse_policy s = Inr p \<longleftrightarrow> s = policy_text p"
proof
  show "parse_policy s = Inr p \<Longrightarrow> s = policy_text p"
    by (auto simp: parse_policy_def all_policies_def split: if_splits)
qed simp

section \<open>Presets\<close>

definition custom_preset :: string where "custom_preset = ''custom''"

definition auto_preset :: string where "auto_preset = ''auto''"

record preset_spec =
  spec_sandbox :: sandbox_mode
  spec_approval :: approval_policy
  spec_name :: "string option"
  spec_description :: "string option"

record preset_option =
  option_value :: string
  option_name :: string
  option_description :: "string option"

record knob_defaults =
  default_sandbox :: sandbox_mode
  default_approval :: approval_policy

definition knob_defaults_default :: knob_defaults where
  "knob_defaults_default = \<lparr>default_sandbox = WorkspaceWrite, default_approval = Ask\<rparr>"

record knob_state =
  knob_preset :: "string option"
  knob_sandbox :: "sandbox_mode option"
  knob_approval :: "approval_policy option"

definition knob_state_default :: knob_state where
  "knob_state_default = \<lparr>knob_preset = None, knob_sandbox = None, knob_approval = None\<rparr>"

definition effective :: "knob_state \<Rightarrow> knob_defaults \<Rightarrow> sandbox_mode \<times> approval_policy" where
  "effective k d =
     ((case knob_sandbox k of Some m \<Rightarrow> m | None \<Rightarrow> default_sandbox d),
      (case knob_approval k of Some p \<Rightarrow> p | None \<Rightarrow> default_approval d))"

type_synonym preset_table = "(string \<times> preset_spec) list"

definition preset_table_default :: preset_table where
  "preset_table_default =
     [(''workspace-write'',
       \<lparr>spec_sandbox = WorkspaceWrite, spec_approval = Ask, spec_name = Some ''workspace-write'',
        spec_description = Some ''Write inside the workspace and permitted temporary directories; wider retries require approval.''\<rparr>),
      (''danger-full-access'',
       \<lparr>spec_sandbox = DangerFullAccess, spec_approval = Never,
        spec_name = Some ''danger-full-access'',
        spec_description = Some ''Full file access without approval prompts.''\<rparr>)]"

definition preset_table_new :: "preset_table \<Rightarrow> (string, preset_table) result" where
  "preset_table_new presets =
     (if list_ex (\<lambda>(n, _). n = custom_preset) presets then
        Inl (''permission: '' @ quoted custom_preset @
          '' is reserved for the derived not-a-preset state and cannot name a table entry'')
      else if list_ex (\<lambda>(n, _). n = auto_preset) presets then
        Inl (''permission: '' @ quoted auto_preset @
          '' is reserved and cannot name a configured preset'')
      else Inr presets)"

definition settings_section :: "json option \<Rightarrow> (string, object option) result" where
  "settings_section permission =
     (case permission of
        None \<Rightarrow> Inr None
      | Some JNull \<Rightarrow> Inr None
      | Some (JObject section) \<Rightarrow> Inr (Some section)
      | Some _ \<Rightarrow> Inl ''permission: settings.json permission must be an object'')"

definition preset_at :: "string \<Rightarrow> string \<Rightarrow> string" where
  "preset_at key field = ''permission: settings.json permission.presets.'' @ key @ field"

definition preset_text :: "string \<Rightarrow> object \<Rightarrow> string \<Rightarrow> (string, string option) result" where
  "preset_text key entry field =
     (case obj_get entry field of
        None \<Rightarrow> Inr None
      | Some JNull \<Rightarrow> Inr None
      | Some (JString text) \<Rightarrow> Inr (Some text)
      | Some _ \<Rightarrow> Inl (preset_at key (''.'' @ field) @ '' must be a string''))"

fun right_option :: "('e, 'a) result \<Rightarrow> 'a option" where
  "right_option (Inl _) = None"
| "right_option (Inr x) = Some x"

definition preset_spec_of :: "string \<Rightarrow> json \<Rightarrow> (string, preset_spec) result" where
  "preset_spec_of key entry =
     (case entry of
        JObject entry \<Rightarrow>
          bind_result (ok_or
            (case obj_get entry ''sandbox'' of
               Some (JString m) \<Rightarrow> right_option (parse_mode m) | _ \<Rightarrow> None)
            (preset_at key ''.sandbox'' @
               '' must be one of read-only, workspace-write, danger-full-access'')) (\<lambda>sandbox.
          bind_result (ok_or
            (case obj_get entry ''approval'' of
               Some (JString p) \<Rightarrow> right_option (parse_policy p) | _ \<Rightarrow> None)
            (preset_at key ''.approval'' @ '' must be one of ask, never'')) (\<lambda>approval.
          bind_result (preset_text key entry ''name'') (\<lambda>name.
          bind_result (preset_text key entry ''description'') (\<lambda>description.
            Inr \<lparr>spec_sandbox = sandbox, spec_approval = approval, spec_name = name,
                 spec_description = description\<rparr>))))
      | _ \<Rightarrow> Inl (preset_at key '''' @ '' must be an object''))"

fun presets_of :: "object \<Rightarrow> (string, preset_table) result" where
  "presets_of [] = Inr []"
| "presets_of ((key, entry) # rest) =
     bind_result (preset_spec_of key entry) (\<lambda>spec.
     bind_result (presets_of rest) (\<lambda>presets. Inr ((key, spec) # presets)))"

definition from_settings :: "json option \<Rightarrow> (string, preset_table) result" where
  "from_settings permission =
     bind_result (settings_section permission) (\<lambda>section.
       (case section of
          None \<Rightarrow> Inr preset_table_default
        | Some section \<Rightarrow>
            (case obj_get section ''presets'' of
               None \<Rightarrow> Inr preset_table_default
             | Some JNull \<Rightarrow> Inr preset_table_default
             | Some (JObject table) \<Rightarrow> bind_result (presets_of table) preset_table_new
             | Some _ \<Rightarrow> Inl ''permission: settings.json permission.presets must be an object'')))"

definition preset_names :: "preset_table \<Rightarrow> string list" where
  "preset_names t = map fst t"

definition spec :: "preset_table \<Rightarrow> string \<Rightarrow> preset_spec option" where
  "spec t name = map_option snd (find (\<lambda>(known, _). known = name) t)"

definition resolve :: "preset_table \<Rightarrow> string \<Rightarrow> (string, preset_spec) result" where
  "resolve t name =
     ok_or (spec t name)
       (''permission: unknown preset '' @ quoted name @ '' (known: '' @
        join '', '' (preset_names t) @ '')'')"

definition option_of :: "preset_table \<Rightarrow> string \<Rightarrow> (string, preset_option) result" where
  "option_of t name =
     (if name = custom_preset then
        Inr \<lparr>option_value = custom_preset, option_name = ''Custom'',
             option_description =
               Some ''Current sandbox and approval settings do not match a preset.''\<rparr>
      else bind_result (resolve t name) (\<lambda>s.
        Inr \<lparr>option_value = name,
             option_name = (case spec_name s of Some n \<Rightarrow> n | None \<Rightarrow> name),
             option_description = spec_description s\<rparr>))"

definition spec_matches :: "sandbox_mode \<times> approval_policy \<Rightarrow> preset_spec \<Rightarrow> bool" where
  "spec_matches v s \<longleftrightarrow> spec_sandbox s = fst v \<and> spec_approval s = snd v"

definition first_match :: "preset_table \<Rightarrow> sandbox_mode \<times> approval_policy \<Rightarrow> string" where
  "first_match t v =
     (case find (\<lambda>(_, s). spec_matches v s) t of
        None \<Rightarrow> custom_preset
      | Some (name, _) \<Rightarrow> name)"

definition derive :: "preset_table \<Rightarrow> knob_state \<Rightarrow> knob_defaults \<Rightarrow> string" where
  "derive t k d =
     (let v = effective k d in
      case knob_preset k of
        Some preset \<Rightarrow>
          (case spec t preset of
             Some s \<Rightarrow> if spec_matches v s then preset else first_match t v
           | None \<Rightarrow> first_match t v)
      | None \<Rightarrow> first_match t v)"

definition default_preset ::
  "preset_table \<Rightarrow> string option \<Rightarrow> knob_defaults \<Rightarrow> (string, string) result" where
  "default_preset t configured d =
     (let name = (case configured of Some n \<Rightarrow> n | None \<Rightarrow> derive t knob_state_default d) in
      if name = custom_preset then
        Inl ''permission: composed sandbox and approval defaults match no preset; configure defaultPreset explicitly''
      else bind_result (resolve t name) (\<lambda>_. Inr name))"

definition settings_default_preset :: "json option \<Rightarrow> (string, string option) result" where
  "settings_default_preset permission =
     bind_result (settings_section permission) (\<lambda>section.
       (case section of
          None \<Rightarrow> Inr None
        | Some section \<Rightarrow>
            (case obj_get section ''defaultPreset'' of
               None \<Rightarrow> Inr None
             | Some JNull \<Rightarrow> Inr None
             | Some (JString name) \<Rightarrow> Inr (Some name)
             | Some _ \<Rightarrow>
                 Inl ''permission: settings.json permission.defaultPreset must be a string'')))"

section \<open>Facts of the table\<close>

text \<open>A table the settings or the defaults yield: distinct names, none of them reserved.\<close>

definition wf_table :: "preset_table \<Rightarrow> bool" where
  "wf_table t \<longleftrightarrow>
     distinct (map fst t) \<and> custom_preset \<notin> fst ` set t \<and> auto_preset \<notin> fst ` set t"

lemma spec_map_of: "spec t = map_of t"
proof
  fix name
  show "spec t name = map_of t name" by (induction t) (auto simp: spec_def)
qed

lemma resolve_Inr: "resolve t name = Inr s \<longleftrightarrow> spec t name = Some s"
  by (simp add: resolve_def)

lemma presets_of_keys: "presets_of table = Inr t \<Longrightarrow> map fst t = map fst table"
  by (induction table arbitrary: t rule: presets_of.induct) (auto simp: bind_result_Inr_iff)

lemma preset_table_new_Inr: 
  "preset_table_new p = Inr t \<longleftrightarrow> t = p \<and> custom_preset \<notin> fst ` set p \<and> auto_preset \<notin> fst ` set p"
  by (force simp: preset_table_new_def list_ex_iff split_beta split: if_splits)

lemma find_match:
  assumes "distinct (map fst t)"
  shows "find (\<lambda>(_, s). P s) t = Some (name, s) \<Longrightarrow> spec t name = Some s \<and> P s"
  using assms
proof (induction t)
  case (Cons a t)
  then show ?case
    by (cases a) (auto simp: spec_map_of split: if_splits dest: map_of_SomeD intro: rev_image_eqI)
qed simp

lemma first_match_spec:
  assumes "wf_table t" and "first_match t v \<noteq> custom_preset"
  shows "\<exists>s. spec t (first_match t v) = Some s \<and> spec_matches v s"
  using assms find_match [of t "spec_matches v"]
  by (auto simp: first_match_def wf_table_def split: option.splits)

lemma first_match_custom:
  assumes "wf_table t"
  shows "first_match t v = custom_preset \<longleftrightarrow> (\<forall>(_, s) \<in> set t. \<not> spec_matches v s)"
proof (cases "find (\<lambda>(_, s). spec_matches v s) t")
  case None
  then have "\<forall>(_, s) \<in> set t. \<not> spec_matches v s" by (auto simp: find_None_iff)
  with None show ?thesis by (simp add: first_match_def)
next
  case (Some a)
  then have "a \<in> set t" "case a of (_, s) \<Rightarrow> spec_matches v s"
    by (auto simp: find_Some_iff in_set_conv_nth)
  with assms Some show ?thesis
    by (cases a) (auto simp: first_match_def wf_table_def rev_image_eqI)
qed

lemma derive_match:
  assumes "wf_table t" and "derive t k d \<noteq> custom_preset"
  shows "\<exists>s. spec t (derive t k d) = Some s \<and> spec_matches (effective k d) s"
  using assms first_match_spec [of t "effective k d"]
  by (auto simp: derive_def Let_def split: option.splits if_splits)

lemma derive_stored:
  assumes "knob_preset k = Some name" and "spec t name = Some s" and "spec_matches (effective k d) s"
  shows "derive t k d = name"
  using assms by (simp add: derive_def Let_def)

lemma derive_cong:
  "knob_preset k = knob_preset k' \<Longrightarrow> effective k d = effective k' d \<Longrightarrow> derive t k d = derive t k' d"
  by (simp add: derive_def)

lemma knob_state_eqI:
  "knob_preset k = knob_preset k' \<Longrightarrow> knob_sandbox k = knob_sandbox k' \<Longrightarrow>
     knob_approval k = knob_approval k' \<Longrightarrow> k = (k' :: knob_state)"
  by simp

end
