(* ===== verification/PermState.thy ===== *)
theory PermState
  imports Presets SessionTree
begin

text \<open>
  A session's permission kept in its session file (\<open>permissions/state.rs\<close>): custom entries of
  type \<open>bake.permission\<close>, their fold over the current branch, and the switches that append one
  entry each. The proofs see the session only through the locale \<open>session_log\<close>.
\<close>

section \<open>The fold\<close>

definition permission_custom_type :: string where
  "permission_custom_type = ''bake.permission''"

record permission_state =
  knobs :: knob_state
  seeded :: bool

definition permission_field :: "object \<Rightarrow> string \<Rightarrow> (string, string option) result" where
  "permission_field data name =
     (case obj_get data name of
        None \<Rightarrow> Inr None
      | Some JNull \<Rightarrow> Inr None
      | Some (JString text) \<Rightarrow> Inr (Some text)
      | Some _ \<Rightarrow> Inl (''permission: a '' @ permission_custom_type @ '' session entry's '' @ name @
                       '' is not a string''))"

definition permission_sandbox :: "string option \<Rightarrow> (string, sandbox_mode option) result" where
  "permission_sandbox field =
     (case field of
        None \<Rightarrow> Inr None
      | Some m \<Rightarrow>
          (case parse_mode m of
             Inr s \<Rightarrow> Inr (Some s)
           | Inl _ \<Rightarrow> Inl (''permission: a '' @ permission_custom_type @
               '' session entry names unknown sandbox mode '' @ quoted m)))"

definition permission_approval :: "string option \<Rightarrow> (string, approval_policy option) result" where
  "permission_approval field =
     (case field of
        None \<Rightarrow> Inr None
      | Some p \<Rightarrow>
          (case parse_policy p of
             Inr a \<Rightarrow> Inr (Some a)
           | Inl _ \<Rightarrow> Inl (''permission: a '' @ permission_custom_type @
               '' session entry names unknown approval policy '' @ quoted p)))"

definition overlay :: "'a option \<Rightarrow> 'a option \<Rightarrow> 'a option" where
  "overlay new old = (case new of None \<Rightarrow> old | Some _ \<Rightarrow> new)"

definition apply_permission_data :: "knob_state \<Rightarrow> json option \<Rightarrow> (string, knob_state) result" where
  "apply_permission_data k data =
     (case data of
        Some (JObject data) \<Rightarrow>
          bind_result (permission_field data ''preset'') (\<lambda>preset.
          bind_result (permission_field data ''sandbox'') (\<lambda>m.
          bind_result (permission_sandbox m) (\<lambda>sandbox.
          bind_result (permission_field data ''approval'') (\<lambda>p.
          bind_result (permission_approval p) (\<lambda>approval.
            Inr \<lparr>knob_preset = overlay preset (knob_preset k),
                 knob_sandbox = overlay sandbox (knob_sandbox k),
                 knob_approval = overlay approval (knob_approval k)\<rparr>)))))
      | _ \<Rightarrow> Inl (''permission: a '' @ permission_custom_type @ '' session entry has no data object''))"

fun fold_permissions :: "knob_state \<Rightarrow> session_entry list \<Rightarrow> (string, knob_state) result" where
  "fold_permissions k [] = Inr k"
| "fold_permissions k (e # es) =
     (if entry_type e \<noteq> ''custom'' then fold_permissions k es
      else (case typed_custom e of
              None \<Rightarrow> fold_permissions k es
            | Some (t, data) \<Rightarrow>
                if t = permission_custom_type
                then bind_result (apply_permission_data k data) (\<lambda>k. fold_permissions k es)
                else fold_permissions k es))"

definition permission_state_of :: "session_manager \<Rightarrow> (string, permission_state) result" where
  "permission_state_of s =
     bind_result (fold_permissions knob_state_default (branch_entries None s)) (\<lambda>k.
       Inr \<lparr>knobs = k, seeded = 0 < entry_count s\<rparr>)"

section \<open>The switches\<close>

definition change_data ::
  "string option \<Rightarrow> sandbox_mode option \<Rightarrow> approval_policy option \<Rightarrow> object" where
  "change_data preset sandbox approval =
     (let m = (case preset of None \<Rightarrow> [] | Some p \<Rightarrow> obj_insert ''preset'' (JString p) []);
          m = (case sandbox of None \<Rightarrow> m | Some x \<Rightarrow> obj_insert ''sandbox'' (JString (mode_text x)) m)
      in (case approval of None \<Rightarrow> m | Some a \<Rightarrow> obj_insert ''approval'' (JString (policy_text a)) m))"

text \<open>\<open>error_text\<close> is the \<open>Display\<close> of a session error.\<close>

definition append_change ::
  "(session_error \<Rightarrow> string) \<Rightarrow> env \<Rightarrow> string option \<Rightarrow> sandbox_mode option \<Rightarrow>
     approval_policy option \<Rightarrow> session_manager \<Rightarrow> session_manager \<times> (string, unit) result" where
  "append_change error_text v preset sandbox approval s =
     (if change_data preset sandbox approval = [] then (s, Inr ())
      else (case append_custom_entry v permission_custom_type
                   (Some (JObject (change_data preset sandbox approval))) s of
              (s', Inl e) \<Rightarrow> (s', Inl (error_text e))
            | (s', Inr _) \<Rightarrow> (s', Inr ())))"

definition then_some :: "bool \<Rightarrow> 'a \<Rightarrow> 'a option" where
  "then_some b x = (if b then Some x else None)"

definition pin_initial_permission ::
  "(session_error \<Rightarrow> string) \<Rightarrow> env \<Rightarrow> preset_table \<Rightarrow> string \<Rightarrow> knob_defaults \<Rightarrow> session_manager \<Rightarrow>
     session_manager \<times> (string, knob_state) result" where
  "pin_initial_permission error_text v table preset d s =
     (case permission_state_of s of
        Inl e \<Rightarrow> (s, Inl e)
      | Inr st \<Rightarrow>
          let k = knobs st in
          if knob_preset k = None \<and> knob_sandbox k = None \<and> knob_approval k = None \<and> \<not> seeded st
          then (case resolve table preset of
                  Inl e \<Rightarrow> (s, Inl e)
                | Inr sp \<Rightarrow>
                    (case append_change error_text v (Some preset) (Some (spec_sandbox sp))
                            (Some (spec_approval sp)) s of
                       (s', Inl e) \<Rightarrow> (s', Inl e)
                     | (s', Inr _) \<Rightarrow>
                         (s', Inr \<lparr>knob_preset = Some preset, knob_sandbox = Some (spec_sandbox sp),
                                   knob_approval = Some (spec_approval sp)\<rparr>)))
          else
            (let name = derive table k d;
                 preset = then_some (knob_preset k = None \<and> name \<noteq> custom_preset) name;
                 sandbox = then_some (knob_sandbox k = None) (default_sandbox d);
                 approval = then_some (knob_approval k = None) (default_approval d)
             in (case append_change error_text v preset sandbox approval s of
                   (s', Inl e) \<Rightarrow> (s', Inl e)
                 | (s', Inr _) \<Rightarrow>
                     (s', Inr \<lparr>knob_preset = overlay preset (knob_preset k),
                               knob_sandbox = overlay (knob_sandbox k) sandbox,
                               knob_approval = overlay (knob_approval k) approval\<rparr>))))"

definition set_preset ::
  "(session_error \<Rightarrow> string) \<Rightarrow> env \<Rightarrow> preset_table \<Rightarrow> knob_defaults \<Rightarrow> string \<Rightarrow> session_manager \<Rightarrow>
     session_manager \<times> (string, unit) result" where
  "set_preset error_text v table d name s =
     (case resolve table name of
        Inl e \<Rightarrow> (s, Inl e)
      | Inr sp \<Rightarrow>
          (case permission_state_of s of
             Inl e \<Rightarrow> (s, Inl e)
           | Inr st \<Rightarrow>
               append_change error_text v
                 (then_some (derive table (knobs st) d \<noteq> name) name)
                 (then_some (spec_sandbox sp \<noteq> fst (effective (knobs st) d)) (spec_sandbox sp))
                 (then_some (spec_approval sp \<noteq> snd (effective (knobs st) d)) (spec_approval sp)) s))"

definition set_sandbox_mode ::
  "(session_error \<Rightarrow> string) \<Rightarrow> env \<Rightarrow> knob_defaults \<Rightarrow> sandbox_mode \<Rightarrow> session_manager \<Rightarrow>
     session_manager \<times> (string, unit) result" where
  "set_sandbox_mode error_text v d m s =
     (case permission_state_of s of
        Inl e \<Rightarrow> (s, Inl e)
      | Inr st \<Rightarrow>
          append_change error_text v None (then_some (fst (effective (knobs st) d) \<noteq> m) m) None s)"

definition set_approval_policy ::
  "(session_error \<Rightarrow> string) \<Rightarrow> env \<Rightarrow> knob_defaults \<Rightarrow> approval_policy \<Rightarrow> session_manager \<Rightarrow>
     session_manager \<times> (string, unit) result" where
  "set_approval_policy error_text v d p s =
     (case permission_state_of s of
        Inl e \<Rightarrow> (s, Inl e)
      | Inr st \<Rightarrow>
          append_change error_text v None None (then_some (snd (effective (knobs st) d) \<noteq> p) p) s)"

section \<open>The fold reads the log\<close>

definition apply_all :: "knob_state \<Rightarrow> json option list \<Rightarrow> (string, knob_state) result" where
  "apply_all k ds = fold (\<lambda>d r. bind_result r (\<lambda>k. apply_permission_data k d)) ds (Inr k)"

lemma apply_all_Inl:
  "fold (\<lambda>d r. bind_result r (\<lambda>k. apply_permission_data k d)) ds (Inl e) = Inl e"
  by (induction ds) auto

lemma typed_custom_type: "typed_custom e = Some p \<Longrightarrow> entry_type e = ''custom''"
  by (auto simp: typed_custom_def split: if_splits)

text \<open>The data of the branch's permission entries, which is what the log's contract speaks of.\<close>

abbreviation permission_facts :: "session_manager \<Rightarrow> json option list" where
  "permission_facts \<equiv> manager_log.facts permission_custom_type"

lemma fold_permissions_apply:
  "fold_permissions k es =
     apply_all k (map snd (filter (\<lambda>p. fst p = permission_custom_type)
       (List.map_filter id (map typed_custom es))))"
proof (induction es arbitrary: k)
  case (Cons e es)
  show ?case
  proof (cases "typed_custom e")
    case None
    then show ?thesis using Cons.IH [of k] by (simp add: List.map_filter_simps)
  next
    case (Some p)
    obtain t data where p: "p = (t, data)" by (cases p)
    show ?thesis
      using Cons.IH Some typed_custom_type [OF Some] apply_all_Inl
      by (cases "apply_permission_data k data")
        (auto simp: p List.map_filter_simps apply_all_def)
  qed
qed (simp add: apply_all_def List.map_filter_simps)

lemma permission_state_facts:
  "permission_state_of s =
     bind_result (apply_all knob_state_default (permission_facts s)) (\<lambda>k.
       Inr \<lparr>knobs = k, seeded = 0 < entry_count s\<rparr>)"
  by (simp add: permission_state_of_def fold_permissions_apply manager_log.facts_def
      manager_trail_def)

lemma permission_facts_append:
  assumes "wf_manager s" and "fresh_env v s"
    and "append_custom_entry v permission_custom_type d s = (s', r)"
  shows "permission_facts s' = permission_facts s @ [read_data d]"
  using manager_log.facts_append [OF assms, of permission_custom_type] by simp

lemma change_data_get:
  "obj_get (change_data p x a) ''preset'' = map_option JString p"
  "obj_get (change_data p x a) ''sandbox'' = map_option (\<lambda>m. JString (mode_text m)) x"
  "obj_get (change_data p x a) ''approval'' = map_option (\<lambda>m. JString (policy_text m)) a"
  by (cases p; cases x; cases a; simp add: change_data_def Let_def)+

lemma change_data_Nil: "change_data p x a = [] \<longleftrightarrow> p = None \<and> x = None \<and> a = None"
  by (cases p; cases x; cases a; simp add: change_data_def Let_def)

lemma apply_change_data:
  "apply_permission_data k (Some (JObject (change_data p x a))) =
     Inr \<lparr>knob_preset = overlay p (knob_preset k), knob_sandbox = overlay x (knob_sandbox k),
          knob_approval = overlay a (knob_approval k)\<rparr>"
  by (cases p; cases x; cases a)
    (simp_all add: apply_permission_data_def permission_field_def permission_sandbox_def
      permission_approval_def change_data_get)

lemma append_change_state:
  assumes "wf_manager s" and "fresh_env v s" and st: "permission_state_of s = Inr st"
    and a: "append_change error_text v p x a s = (s', r)"
  shows "\<exists>st'. permission_state_of s' = Inr st' \<and>
    knobs st' = \<lparr>knob_preset = overlay p (knob_preset (knobs st)),
                 knob_sandbox = overlay x (knob_sandbox (knobs st)),
                 knob_approval = overlay a (knob_approval (knobs st))\<rparr>"
proof (cases "change_data p x a = []")
  case True
  with a st show ?thesis
    by (auto simp: append_change_def change_data_Nil overlay_def)
next
  case False
  obtain q where q: "append_custom_entry v permission_custom_type
      (Some (JObject (change_data p x a))) s = (s', q)"
    using a False by (auto simp: append_change_def split: prod.splits sum.splits)
  note facts = permission_facts_append [OF assms(1,2) q]
  from st have "apply_all knob_state_default (permission_facts s) = Inr (knobs st)"
    by (auto simp: permission_state_facts bind_result_Inr_iff)
  then show ?thesis
    by (simp add: permission_state_facts facts apply_all_def read_data_def apply_change_data)
qed

lemma pin_settled:
  assumes "permission_state_of s = Inr st" and "knobs st = k"
    and "knob_sandbox k \<noteq> None" and "knob_approval k \<noteq> None"
    and "knob_preset k = None \<longrightarrow> derive table k d = custom_preset"
  shows "pin_initial_permission error_text v table preset d s = (s, Inr k)"
proof -
  have "then_some (knob_preset k = None \<and> derive table k d \<noteq> custom_preset) (derive table k d) = None"
    using assms(5) by (cases "knob_preset k") (simp_all add: then_some_def)
  then show ?thesis
    using assms(1-4)
    by (auto simp: pin_initial_permission_def then_some_def append_change_def change_data_def
        overlay_def Let_def intro: knob_state_eqI split: option.splits)
qed

section \<open>Properties\<close>

text \<open>C5. Selecting a preset takes effect: after \<open>set_preset\<close> the session's fold gives the preset's
  own sandbox mode and approval policy, and the table derives that preset, whether or not the
  write reached the disk.\<close>

theorem set_preset_takes_effect:
  assumes "wf_table table" and "wf_manager s" and "fresh_env v s"
    and "permission_state_of s = Inr st" and "resolve table name = Inr sp"
    and "set_preset error_text v table d name s = (s', r)"
  shows "\<exists>st'. permission_state_of s' = Inr st' \<and>
    effective (knobs st') d = (spec_sandbox sp, spec_approval sp) \<and>
    derive table (knobs st') d = name"
proof -
  let ?k = "knobs st"
  let ?p = "then_some (derive table ?k d \<noteq> name) name"
  let ?x = "then_some (spec_sandbox sp \<noteq> fst (effective ?k d)) (spec_sandbox sp)"
  let ?a = "then_some (spec_approval sp \<noteq> snd (effective ?k d)) (spec_approval sp)"
  from assms(4-6) have "append_change error_text v ?p ?x ?a s = (s', r)"
    by (simp add: set_preset_def)
  from append_change_state [OF assms(2,3,4) this] obtain st' where
    st': "permission_state_of s' = Inr st'"
      "knobs st' = \<lparr>knob_preset = overlay ?p (knob_preset ?k),
        knob_sandbox = overlay ?x (knob_sandbox ?k), knob_approval = overlay ?a (knob_approval ?k)\<rparr>"
    by blast
  have eff: "effective (knobs st') d = (spec_sandbox sp, spec_approval sp)"
    by (auto simp: st' effective_def overlay_def then_some_def)
  have known: "spec table name = Some sp" and named: "name \<noteq> custom_preset"
    using assms(1,5) by (auto simp: resolve_Inr spec_map_of wf_table_def dest: map_of_SomeD
        intro: rev_image_eqI)
  have "derive table (knobs st') d = name"
  proof (cases "derive table ?k d = name")
    case False
    then have "knob_preset (knobs st') = Some name" by (simp add: st' then_some_def overlay_def)
    then show ?thesis using known by (rule derive_stored) (simp add: eff spec_matches_def)
  next
    case True
    with derive_match [OF assms(1), of ?k d] named known
    have "effective ?k d = (spec_sandbox sp, spec_approval sp)"
      by (auto simp: spec_matches_def prod_eq_iff)
    with eff have "derive table (knobs st') d = derive table ?k d"
      by (intro derive_cong) (simp_all add: st' then_some_def overlay_def True)
    with True show ?thesis by simp
  qed
  with eff st' show ?thesis by blast
qed

text \<open>Pinning is stable: once \<open>pin_initial_permission\<close> has returned knobs, the fold of the
  session gives those knobs, both knobs are stored, and pinning again, under any later clock and
  draws, writes nothing and returns the same.\<close>

theorem pin_initial_permission_stable:
  assumes "wf_manager s" and "fresh_env v s"
    and pin: "pin_initial_permission error_text v table preset d s = (s', Inr k)"
  shows "pin_initial_permission error_text v' table preset d s' = (s', Inr k) \<and>
    knob_sandbox k \<noteq> None \<and> knob_approval k \<noteq> None \<and>
    (\<exists>st. permission_state_of s' = Inr st \<and> knobs st = k)"
proof -
  from pin obtain st where st: "permission_state_of s = Inr st"
    by (auto simp: pin_initial_permission_def split: sum.splits)
  have "\<exists>st'. permission_state_of s' = Inr st' \<and> knobs st' = k \<and> knob_sandbox k \<noteq> None \<and>
      knob_approval k \<noteq> None \<and> (knob_preset k = None \<longrightarrow> derive table k d = custom_preset)"
  proof (cases "knobs st = knob_state_default \<and> \<not> seeded st")
    case True
    with pin st obtain sp where "resolve table preset = Inr sp"
      by (cases "resolve table preset") (simp_all add: pin_initial_permission_def knob_state_default_def)
    with True pin st have
      a: "append_change error_text v (Some preset) (Some (spec_sandbox sp)) (Some (spec_approval sp)) s
            = (s', Inr ())"
      and k: "k = \<lparr>knob_preset = Some preset, knob_sandbox = Some (spec_sandbox sp),
                   knob_approval = Some (spec_approval sp)\<rparr>"
      by (simp_all add: pin_initial_permission_def knob_state_default_def split: sum.splits prod.splits)
    from append_change_state [OF assms(1,2) st a] show ?thesis
      by (simp add: k overlay_def)
  next
    case False
    let ?k = "knobs st"
    let ?p = "then_some (knob_preset ?k = None \<and> derive table ?k d \<noteq> custom_preset) (derive table ?k d)"
    let ?x = "then_some (knob_sandbox ?k = None) (default_sandbox d)"
    let ?a = "then_some (knob_approval ?k = None) (default_approval d)"
    have "\<not> (knob_preset ?k = None \<and> knob_sandbox ?k = None \<and> knob_approval ?k = None \<and> \<not> seeded st)"
      using False by (auto simp: knob_state_default_def intro: knob_state_eqI)
    with pin st have a: "append_change error_text v ?p ?x ?a s = (s', Inr ())"
      and k: "k = \<lparr>knob_preset = overlay ?p (knob_preset ?k),
          knob_sandbox = overlay (knob_sandbox ?k) ?x, knob_approval = overlay (knob_approval ?k) ?a\<rparr>"
      by (auto simp: pin_initial_permission_def Let_def split: sum.splits prod.splits if_splits)
    have swap: "overlay ?x (knob_sandbox ?k) = overlay (knob_sandbox ?k) ?x"
      "overlay ?a (knob_approval ?k) = overlay (knob_approval ?k) ?a"
      by (auto simp: overlay_def then_some_def split: option.splits)
    have "effective k d = effective ?k d"
      by (auto simp: k effective_def overlay_def then_some_def split: option.splits)
    then have "derive table k d = custom_preset" if "knob_preset k = None"
      using that derive_cong [of k ?k d table]
      by (auto simp: k overlay_def then_some_def split: option.splits if_splits)
    moreover have "knob_sandbox k \<noteq> None" "knob_approval k \<noteq> None"
      by (auto simp: k overlay_def then_some_def split: option.splits)
    ultimately show ?thesis using append_change_state [OF assms(1,2) st a] by (auto simp: k swap)
  qed
  then obtain st' where *: "permission_state_of s' = Inr st'" "knobs st' = k" "knob_sandbox k \<noteq> None"
    "knob_approval k \<noteq> None" "knob_preset k = None \<longrightarrow> derive table k d = custom_preset"
    by (elim exE conjE)
  show ?thesis
    by (intro conjI exI [of _ st'] pin_settled [OF *]) (fact *)+
qed

text \<open>What makes a permission entry's data damaged.\<close>

fun damaged :: "json option \<Rightarrow> bool" where
  "damaged (Some (JObject m)) \<longleftrightarrow>
     (\<exists>n \<in> {''preset'', ''sandbox'', ''approval''}.
        case obj_get m n of Some JNull \<Rightarrow> False | Some (JString _) \<Rightarrow> False | None \<Rightarrow> False | _ \<Rightarrow> True) \<or>
     (case obj_get m ''sandbox'' of
        Some (JString x) \<Rightarrow> x \<notin> mode_text ` set all_modes | _ \<Rightarrow> False) \<or>
     (case obj_get m ''approval'' of
        Some (JString x) \<Rightarrow> x \<notin> policy_text ` set all_policies | _ \<Rightarrow> False)"
| "damaged _ \<longleftrightarrow> True"

lemma parse_mode_Inl: "x \<notin> mode_text ` set all_modes \<Longrightarrow> \<exists>e. parse_mode x = Inl e"
proof (cases "parse_mode x")
  case (Inr m)
  assume "x \<notin> mode_text ` set all_modes"
  with Inr show ?thesis by (cases m) (auto simp: parse_mode_Inr all_modes_def)
qed blast

lemma parse_policy_Inl: "x \<notin> policy_text ` set all_policies \<Longrightarrow> \<exists>e. parse_policy x = Inl e"
proof (cases "parse_policy x")
  case (Inr p)
  assume "x \<notin> policy_text ` set all_policies"
  with Inr show ?thesis by (cases p) (auto simp: parse_policy_Inr all_policies_def)
qed blast

lemma permission_field_damaged:
  "(case obj_get m n of Some JNull \<Rightarrow> False | Some (JString _) \<Rightarrow> False | None \<Rightarrow> False | _ \<Rightarrow> True) \<Longrightarrow>
     \<exists>e. permission_field m n = Inl e"
  by (auto simp: permission_field_def split: option.splits json.splits)

lemma permission_field_cases:
  "(\<exists>e. permission_field m n = Inl e) \<or> permission_field m n = Inr None \<or>
     (\<exists>x. obj_get m n = Some (JString x) \<and> permission_field m n = Inr (Some x))"
  by (auto simp: permission_field_def split: option.splits json.splits)

lemma apply_damaged: "damaged data \<Longrightarrow> \<exists>e. apply_permission_data k data = Inl e"
proof (induction data rule: damaged.induct)
  case (1 m)
  let ?f = "permission_field m"
  have ok: "\<exists>x. obj_get m n = None \<or> obj_get m n = Some JNull \<or> obj_get m n = Some (JString x)"
    if "?f n = Inr y" for n y
    using that by (auto simp: permission_field_def split: option.splits json.splits)
  show ?case
  proof (rule ccontr)
    assume "\<nexists>e. apply_permission_data k (Some (JObject m)) = Inl e"
    then obtain k' where "apply_permission_data k (Some (JObject m)) = Inr k'"
      by (cases "apply_permission_data k (Some (JObject m))") auto
    then obtain p x s q a where f: "?f ''preset'' = Inr p" "?f ''sandbox'' = Inr x"
      "permission_sandbox x = Inr s" "?f ''approval'' = Inr q" "permission_approval q = Inr a"
      by (auto simp: apply_permission_data_def bind_result_Inr_iff)
    have typed: "\<not> (case obj_get m n of Some JNull \<Rightarrow> False | Some (JString _) \<Rightarrow> False | None \<Rightarrow> False | _ \<Rightarrow> True)"
      if "n \<in> {''preset'', ''sandbox'', ''approval''}" for n
      using permission_field_damaged [of m n] that f by auto
    have sandbox: "y \<in> mode_text ` set all_modes" if "obj_get m ''sandbox'' = Some (JString y)" for y
      using f(2,3) that parse_mode_Inl [of y]
      by (fastforce simp: permission_field_def permission_sandbox_def)
    have approval: "y \<in> policy_text ` set all_policies" if "obj_get m ''approval'' = Some (JString y)" for y
      using f(4,5) that parse_policy_Inl [of y]
      by (fastforce simp: permission_field_def permission_approval_def)
    from "1.prems" typed sandbox approval show False
      by (auto split: option.splits json.splits)
  qed
qed (auto simp: apply_permission_data_def)

lemma fold_permissions_damaged:
  "e \<in> set es \<Longrightarrow> typed_custom e = Some (permission_custom_type, data) \<Longrightarrow> damaged data \<Longrightarrow>
     \<exists>x. fold_permissions k es = Inl x"
proof (induction es arbitrary: k)
  case (Cons f es)
  show ?case
  proof (cases "e = f")
    case True
    with Cons.prems apply_damaged [of data k] typed_custom_type show ?thesis by auto
  next
    case False
    with Cons show ?thesis
      by (auto split: option.splits)
        (metis bind_result_simps sum.exhaust)
  qed
qed simp

text \<open>C27. A damaged permission entry never reads as a wider default: when a permission entry of
  the branch has no data object, or a member that is not a string or names no mode or policy, the
  fold is an error, and every switch fails and leaves the session as it is.\<close>

theorem damaged_permission_refuses:
  assumes "e \<in> set (branch_entries None s)"
    and "typed_custom e = Some (permission_custom_type, data)" and "damaged data"
  shows "\<exists>x. permission_state_of s = Inl x \<and>
    set_sandbox_mode error_text v d m s = (s, Inl x) \<and>
    set_approval_policy error_text v d p s = (s, Inl x) \<and>
    pin_initial_permission error_text v table preset d s = (s, Inl x) \<and>
    (\<exists>y. set_preset error_text v table d preset s = (s, Inl y))"
proof -
  from fold_permissions_damaged [OF assms, of knob_state_default]
  obtain x where "permission_state_of s = Inl x" by (auto simp: permission_state_of_def)
  then show ?thesis
    by (auto simp: set_sandbox_mode_def set_approval_policy_def pin_initial_permission_def
        set_preset_def split: sum.splits)
qed

section \<open>Concrete instances\<close>

lemma sample_permission_state:
  "permission_state_of sample_session = Inr \<lparr>knobs = knob_state_default, seeded = False\<rparr>"
  by (simp add: permission_state_of_def sample_session_simps)

lemma default_table_wf: "wf_table preset_table_default"
  by (simp add: wf_table_def preset_table_default_def custom_preset_def auto_preset_def)

lemma default_table_full:
  "resolve preset_table_default ''danger-full-access'' =
     Inr \<lparr>spec_sandbox = DangerFullAccess, spec_approval = Never,
          spec_name = Some ''danger-full-access'',
          spec_description = Some ''Full file access without approval prompts.''\<rparr>"
  by (simp add: resolve_Inr spec_map_of preset_table_default_def)

definition sample_switch :: "session_manager \<times> (string, unit) result" where
  "sample_switch =
     set_preset (\<lambda>_. '''') sample_env preset_table_default knob_defaults_default
       ''danger-full-access'' sample_session"

lemma set_preset_takes_effect_witness:
  "\<exists>st'. permission_state_of (fst sample_switch) = Inr st' \<and>
     effective (knobs st') knob_defaults_default = (DangerFullAccess, Never) \<and>
     derive preset_table_default (knobs st') knob_defaults_default = ''danger-full-access''"
proof -
  have run: "set_preset (\<lambda>_. '''') sample_env preset_table_default knob_defaults_default
      ''danger-full-access'' sample_session = (fst sample_switch, snd sample_switch)"
    by (simp add: sample_switch_def)
  show ?thesis
    using set_preset_takes_effect [OF default_table_wf sample_session_simps(4,5)
      sample_permission_state default_table_full run] by simp
qed

definition sample_pin :: "session_manager \<times> (string, knob_state) result" where
  "sample_pin =
     pin_initial_permission (\<lambda>_. '''') sample_env preset_table_default ''danger-full-access''
       knob_defaults_default sample_session"

lemma append_in_memory:
  assumes "\<not> persist s"
  shows "snd (append_entry v i m s) = Inr i"
  using assms by (simp add: append_entry_def persist_last_def push_entry_def)

lemma sample_pin_result: "\<exists>s' k. sample_pin = (s', Inr k)"
proof -
  have "\<not> persist sample_session"
    by (simp add: sample_session_def start_session_def construct_empty_def Let_def)
  then have "snd (append_custom_entry sample_env permission_custom_type (Some (JObject
      (change_data (Some ''danger-full-access'') (Some DangerFullAccess) (Some Never)))) sample_session)
      = Inr (next_id sample_env sample_session)"
    by (simp add: append_custom_entry_def append_in_memory)
  then show ?thesis
    by (auto simp: sample_pin_def pin_initial_permission_def sample_permission_state
        knob_state_default_def default_table_full append_change_def change_data_Nil
        split: prod.splits sum.splits)
qed

lemma pin_initial_permission_stable_witness:
  "\<exists>s' k. sample_pin = (s', Inr k) \<and>
     pin_initial_permission (\<lambda>_. '''') sample_env preset_table_default ''danger-full-access''
       knob_defaults_default s' = (s', Inr k) \<and> knob_sandbox k \<noteq> None"
proof -
  obtain s' k where r: "sample_pin = (s', Inr k)" using sample_pin_result by blast
  from pin_initial_permission_stable [OF sample_session_simps(4,5) r [unfolded sample_pin_def],
    of sample_env] r
  show ?thesis by blast
qed

definition damaged_session :: session_manager where
  "damaged_session =
     fst (append_custom_entry sample_env permission_custom_type
       (Some (JObject [(''sandbox'', JString ''everything'')])) sample_session)"

lemma damaged_permission_refuses_witness:
  "\<exists>x. permission_state_of damaged_session = Inl x \<and>
     set_sandbox_mode (\<lambda>_. '''') sample_env knob_defaults_default DangerFullAccess damaged_session =
       (damaged_session, Inl x)"
proof -
  let ?data = "Some (JObject [(''sandbox'', JString ''everything'')])"
  have "append_custom_entry sample_env permission_custom_type ?data sample_session =
      (damaged_session, snd (append_custom_entry sample_env permission_custom_type ?data sample_session))"
    by (simp add: damaged_session_def)
  from manager_log.append_trail [OF sample_session_simps(4,5) this]
  have "manager_trail damaged_session = [Some (permission_custom_type, ?data)]"
    by (simp add: manager_trail_def sample_session_simps read_data_def)
  then obtain e where e: "e \<in> set (branch_entries None damaged_session)"
    "typed_custom e = Some (permission_custom_type, ?data)"
    by (auto simp: manager_trail_def)
  have bad: "damaged ?data" by (simp add: all_modes_def)
  from damaged_permission_refuses [OF e bad, of "\<lambda>_. ''''" sample_env knob_defaults_default
    DangerFullAccess Ask preset_table_default "''custom''"]
  show ?thesis by blast
qed

end
