(* ===== verification/Approval.thy ===== *)
theory Approval
  imports Presets
begin

text \<open>
  Approval requests (\<open>permissions/approval.rs\<close>) and their audit entries
  (\<open>permissions/history.rs\<close>). An approver's future is modelled by when it resolves: the abort
  signal, the answer and the last check each have a tick, and the biased \<open>select!\<close> of
  \<open>PolicyApprover::request\<close> compares them. The locale \<open>approver\<close> is what the engine relies on.
\<close>

section \<open>Requests and answers\<close>

record approval_request =
  request_tool :: string
  request_call :: string
  request_parent :: "string option"
  request_reason :: string
  request_arguments :: json

text \<open>
  One run of an answerer: the tick its future is ready at (\<open>None\<close>: never), the outcome it
  resolves to (\<open>None\<close>: it panicked), the tick the signal aborts at, and the tick, not before the
  answer, at which the signal is read again.
\<close>

record run =
  answered_at :: "nat option"
  answer :: "escalation_outcome option"
  aborted_at :: "nat option"
  settled_at :: nat

definition aborted_by :: "run \<Rightarrow> nat \<Rightarrow> bool" where
  "aborted_by w t \<longleftrightarrow> (case aborted_at w of None \<Rightarrow> False | Some a \<Rightarrow> a \<le> t)"

definition catch_unwind :: "escalation_outcome option \<Rightarrow> escalation_outcome" where
  "catch_unwind a = (case a of Some x \<Rightarrow> x | None \<Rightarrow> Unavailable)"

text \<open>\<open>None\<close> when the request never resolves: no answer and no abort.\<close>

definition policy_request :: "approval_policy \<Rightarrow> run \<Rightarrow> escalation_outcome option" where
  "policy_request policy w =
     (if aborted_by w 0 then Some Cancelled
      else if policy = Never then Some Rejected
      else (case answered_at w of
              None \<Rightarrow> if aborted_at w = None then None else Some Cancelled
            | Some t \<Rightarrow>
                if aborted_by w t then Some Cancelled
                else if aborted_by w (max t (settled_at w)) then Some Cancelled
                else Some (catch_unwind (answer w))))"

fun never_approver :: "run \<Rightarrow> escalation_outcome option" where
  "never_approver w = Some Rejected"

fun no_approver :: "run \<Rightarrow> escalation_outcome option" where
  "no_approver w = Some Unavailable"

section \<open>What the engine relies on\<close>

text \<open>A grant needs an answerer that granted, a policy that asks, and a signal not yet aborted when
  the answer is read.\<close>

locale approver =
  fixes request :: "approval_policy \<Rightarrow> run \<Rightarrow> escalation_outcome option"
  assumes grant_asked: "request policy w = Some AllowedOnce \<Longrightarrow> policy = Ask"
    and grant_answered: "request policy w = Some AllowedOnce \<Longrightarrow> answer w = Some AllowedOnce"
    and grant_live:
      "request policy w = Some AllowedOnce \<Longrightarrow> answered_at w = Some t \<Longrightarrow> \<not> aborted_by w t"
begin

lemma never_grants_nothing: "request Never w \<noteq> Some AllowedOnce"
  using grant_asked [of Never w] by auto

end

lemma policy_not_never [simp]: "policy \<noteq> Never \<longleftrightarrow> policy = Ask"
  by (cases policy) auto

interpretation policy: approver policy_request
  by unfold_locales
    (auto simp: policy_request_def catch_unwind_def split: if_splits option.splits)

interpretation never: approver "\<lambda>_. never_approver"
  by unfold_locales auto

interpretation nobody: approver "\<lambda>_. no_approver"
  by unfold_locales auto

section \<open>Audit entries\<close>

definition approval_custom_type :: string where
  "approval_custom_type = ''bake.approval''"

definition approval_entry_version :: nat where
  "approval_entry_version = 1"

definition outcomes :: "escalation_outcome list" where
  "outcomes = [AllowedOnce, Rejected, Cancelled, Unavailable]"

record approval_asked =
  asked_id :: string
  asked_tool :: string
  asked_call :: "string option"
  asked_reason :: "string option"
  asked_sandbox :: "sandbox_mode option"

datatype approval_entry = Asked approval_asked | Decided string escalation_outcome

fun approval_id :: "approval_entry \<Rightarrow> string" where
  "approval_id (Asked a) = asked_id a"
| "approval_id (Decided i _) = i"

fun approval_kind :: "approval_entry \<Rightarrow> string" where
  "approval_kind (Asked _) = ''asked''"
| "approval_kind (Decided _ _) = ''decided''"

fun admitted :: "approval_entry \<Rightarrow> bool \<Rightarrow> approval_entry option" where
  "admitted (Asked a) aborted = (if aborted then None else Some (Asked a))"
| "admitted (Decided i outcome) aborted =
     (if aborted then Some (Decided i Cancelled) else Some (Decided i outcome))"

definition insert_some :: "string \<Rightarrow> string option \<Rightarrow> object \<Rightarrow> object" where
  "insert_some k x m = (case x of None \<Rightarrow> m | Some s \<Rightarrow> obj_insert k (JString s) m)"

fun to_data :: "approval_entry \<Rightarrow> json" where
  "to_data (Asked a) =
     JObject (insert_some ''sandbox'' (map_option mode_text (asked_sandbox a))
       (insert_some ''reason'' (asked_reason a)
         (insert_some ''callId'' (asked_call a)
           [(''version'', json_u64 approval_entry_version), (''kind'', JString ''asked''),
            (''id'', JString (asked_id a)), (''toolName'', JString (asked_tool a))])))"
| "to_data (Decided i outcome) =
     JObject [(''version'', json_u64 approval_entry_version), (''kind'', JString ''decided''),
              (''id'', JString i), (''outcome'', JString (outcome_text outcome))]"

definition data_text :: "object \<Rightarrow> string \<Rightarrow> (string, string option) result" where
  "data_text data name =
     (case obj_get data name of
        None \<Rightarrow> Inr None
      | Some JNull \<Rightarrow> Inr None
      | Some (JString text) \<Rightarrow> Inr (Some text)
      | Some _ \<Rightarrow> Inl (''has a non-string '' @ name))"

definition required :: "object \<Rightarrow> string \<Rightarrow> (string, string) result" where
  "required data name =
     bind_result (data_text data name) (\<lambda>x. ok_or x (''has no '' @ name))"

definition asked_from :: "object \<Rightarrow> string \<Rightarrow> (string, approval_entry) result" where
  "asked_from data i =
     bind_result (required data ''toolName'') (\<lambda>tool.
       if tool = [] then Inl ''has an empty toolName''
       else
         bind_result (data_text data ''sandbox'') (\<lambda>m.
         bind_result (case m of
             None \<Rightarrow> Inr None
           | Some t \<Rightarrow> (case parse_mode t of
               Inr x \<Rightarrow> Inr (Some x)
             | Inl _ \<Rightarrow> Inl (''names unknown sandbox mode '' @ quoted t))) (\<lambda>sandbox.
         bind_result (data_text data ''callId'') (\<lambda>call.
         bind_result (data_text data ''reason'') (\<lambda>reason.
           Inr (Asked \<lparr>asked_id = i, asked_tool = tool, asked_call = call, asked_reason = reason,
                      asked_sandbox = sandbox\<rparr>))))))"

definition decided_from :: "object \<Rightarrow> string \<Rightarrow> (string, approval_entry) result" where
  "decided_from data i =
     bind_result (required data ''outcome'') (\<lambda>t.
     bind_result (ok_or (find (\<lambda>known. outcome_text known = t) outcomes)
         (''names unknown outcome '' @ quoted t)) (\<lambda>outcome.
       Inr (Decided i outcome)))"

text \<open>\<open>show_version\<close> is the \<open>Display\<close> of a JSON value.\<close>

definition from_data :: "(json \<Rightarrow> string) \<Rightarrow> json option \<Rightarrow> (string, approval_entry) result" where
  "from_data show_version data =
     (case data of
        Some (JObject data) \<Rightarrow>
          bind_result (case obj_get data ''version'' of
              None \<Rightarrow> Inl ''has no version''
            | Some version \<Rightarrow>
                if as_u64 version = Some (int approval_entry_version) then Inr ()
                else Inl (''has unknown version '' @ show_version version)) (\<lambda>_.
          bind_result (required data ''id'') (\<lambda>i.
            if i = [] then Inl ''has an empty id''
            else
              bind_result (required data ''kind'') (\<lambda>kind.
                if kind = ''asked'' then asked_from data i
                else if kind = ''decided'' then decided_from data i
                else Inl (''has unknown kind '' @ quoted kind))))
      | _ \<Rightarrow> Inl ''has no data object'')"

lemma insert_some_get:
  "obj_get (insert_some k x m) k' = (if k = k' \<and> x \<noteq> None then map_option JString x else obj_get m k')"
  by (cases x) (auto simp: insert_some_def)

text \<open>What this build writes names a request and a tool.\<close>

fun wf_entry :: "approval_entry \<Rightarrow> bool" where
  "wf_entry (Asked a) \<longleftrightarrow> asked_id a \<noteq> [] \<and> asked_tool a \<noteq> []"
| "wf_entry (Decided i _) \<longleftrightarrow> i \<noteq> []"

lemma find_outcome: "find (\<lambda>k. outcome_text k = outcome_text x) outcomes = Some x"
  by (cases x) (simp_all add: outcomes_def)

lemma as_u64_version: "as_u64 (json_u64 approval_entry_version) = Some (int approval_entry_version)"
  by (simp add: json_u64_def approval_entry_version_def)

lemma data_text_Some:
  "obj_get m k = Some (JString s) \<Longrightarrow> data_text m k = Inr (Some s)"
  "obj_get m k = None \<Longrightarrow> data_text m k = Inr None"
  by (simp_all add: data_text_def)

lemma data_text_insert_some:
  "data_text (insert_some k x m) k' =
     (if k = k' \<and> x \<noteq> None then Inr x else data_text m k')"
  by (cases x) (auto simp: data_text_def insert_some_get)

lemma required_insert_some:
  "k \<noteq> k' \<Longrightarrow> required (insert_some k x m) k' = required m k'"
  by (simp add: required_def data_text_insert_some)

lemma version_insert_some:
  "k \<noteq> ''version'' \<Longrightarrow> obj_get (insert_some k x m) ''version'' = obj_get m ''version''"
  by (simp add: insert_some_get)

text \<open>Audit entries survive the file: reading back the data of an entry gives the entry, for
  every request and every answer.\<close>

theorem approval_entry_roundtrip:
  assumes "wf_entry e"
  shows "from_data show_version (Some (to_data e)) = Inr e"
proof (cases e)
  case (Asked a)
  let ?m = "insert_some ''sandbox'' (map_option mode_text (asked_sandbox a))
       (insert_some ''reason'' (asked_reason a) (insert_some ''callId'' (asked_call a)
         [(''version'', json_u64 approval_entry_version), (''kind'', JString ''asked''),
            (''id'', JString (asked_id a)), (''toolName'', JString (asked_tool a))]))"
  have "required ?m ''id'' = Inr (asked_id a)" "required ?m ''kind'' = Inr ''asked''"
    "required ?m ''toolName'' = Inr (asked_tool a)"
    by (simp_all add: required_insert_some) (simp_all add: required_def data_text_def)
  moreover have "obj_get ?m ''version'' = Some (json_u64 approval_entry_version)"
    by (simp add: version_insert_some)
  moreover have "data_text ?m ''sandbox'' = Inr (map_option mode_text (asked_sandbox a))"
    "data_text ?m ''callId'' = Inr (asked_call a)" "data_text ?m ''reason'' = Inr (asked_reason a)"
    by (simp_all add: data_text_insert_some) (simp_all add: data_text_def)
  ultimately show ?thesis
    using assms Asked
    by (cases "asked_sandbox a")
      (simp_all add: from_data_def as_u64_version asked_from_def)
next
  case (Decided i outcome)
  then show ?thesis
    using assms
    by (simp add: from_data_def as_u64_version required_def data_text_def decided_from_def find_outcome)
qed

lemma approval_entry_roundtrip_witness:
  "from_data (\<lambda>_. '''') (Some (to_data (Asked \<lparr>asked_id = ''a1'', asked_tool = ''bash'',
      asked_call = Some ''c1'', asked_reason = None, asked_sandbox = Some WorkspaceWrite\<rparr>))) =
     Inr (Asked \<lparr>asked_id = ''a1'', asked_tool = ''bash'', asked_call = Some ''c1'',
       asked_reason = None, asked_sandbox = Some WorkspaceWrite\<rparr>)"
  by (rule approval_entry_roundtrip) simp

end
