(* ===== verification/History.thy ===== *)
theory History
  imports Approval SessionTree
begin

text \<open>
  The projection of a session's approval history (\<open>permissions/history.rs\<close>): a fold of the
  audit entries into one record for each request, with the entries it could not use reported.
\<close>

section \<open>The fold\<close>

record approval_record =
  record_asked :: approval_asked
  asked_entry_id :: string
  record_outcome :: "escalation_outcome option"
  decided_entry_id :: "string option"

record skipped_entry =
  skipped_entry_id :: string
  skipped_reason :: string

definition skipped_text :: "skipped_entry \<Rightarrow> string" where
  "skipped_text x =
     ''the '' @ approval_custom_type @ '' session entry '' @ skipped_entry_id x @ '' '' @ skipped_reason x"

record approval_history =
  records :: "approval_record list"
  skipped :: "skipped_entry list"

definition for_call :: "string \<Rightarrow> approval_history \<Rightarrow> approval_record list" where
  "for_call i h = filter (\<lambda>r. asked_call (record_asked r) = Some i) (records h)"

text \<open>The fold's state: the history and the index of request ids.\<close>

type_synonym history_fold = "approval_history \<times> (string \<times> nat) list"

definition skip :: "session_entry \<Rightarrow> string \<Rightarrow> history_fold \<Rightarrow> history_fold" where
  "skip e reason x =
     ((fst x)\<lparr>skipped := skipped (fst x) @ [\<lparr>skipped_entry_id = entry_id e, skipped_reason = reason\<rparr>]\<rparr>, snd x)"

definition is_approval :: "session_entry \<Rightarrow> bool" where
  "is_approval e \<longleftrightarrow>
     entry_type e = ''custom'' \<and>
     Option.bind (entry_get e ''customType'') as_str = Some approval_custom_type"

definition fold_step :: "(json \<Rightarrow> string) \<Rightarrow> session_entry \<Rightarrow> history_fold \<Rightarrow> history_fold" where
  "fold_step show_version e x =
     (if \<not> is_approval e then x
      else (case x of (h, m) \<Rightarrow>
        (case from_data show_version (entry_get e ''data'') of
           Inl reason \<Rightarrow> skip e reason x
         | Inr (Asked a) \<Rightarrow>
             if map_of m (asked_id a) \<noteq> None
             then skip e (''asks request '' @ asked_id a @ '' again'') x
             else (h\<lparr>records := records h @
                       [\<lparr>record_asked = a, asked_entry_id = entry_id e, record_outcome = None,
                         decided_entry_id = None\<rparr>]\<rparr>,
                   imap_insert (asked_id a) (length (records h)) m)
         | Inr (Decided i outcome) \<Rightarrow>
             (case Option.bind (map_of m i)
                     (\<lambda>n. if n < length (records h) then Some n else None) of
                None \<Rightarrow> skip e (''answers request '' @ i @ '', which was not asked before it'') x
              | Some n \<Rightarrow>
                  if record_outcome (records h ! n) \<noteq> None
                  then skip e (''answers request '' @ i @ '' again'') x
                  else (h\<lparr>records := (records h)[n := (records h ! n)
                            \<lparr>record_outcome := Some outcome, decided_entry_id := Some (entry_id e)\<rparr>]\<rparr>,
                        m)))))"

definition fold_approval_history :: "(json \<Rightarrow> string) \<Rightarrow> session_entry list \<Rightarrow> approval_history" where
  "fold_approval_history show_version es =
     fst (fold (fold_step show_version) es (\<lparr>records = [], skipped = []\<rparr>, []))"

definition approval_history_of :: "(json \<Rightarrow> string) \<Rightarrow> session_manager \<Rightarrow> approval_history" where
  "approval_history_of show_version s = fold_approval_history show_version (branch_entries None s)"

section \<open>Soundness of the fold\<close>

definition reads_as :: "(json \<Rightarrow> string) \<Rightarrow> session_entry \<Rightarrow> approval_entry \<Rightarrow> bool" where
  "reads_as sh e a \<longleftrightarrow> is_approval e \<and> from_data sh (entry_get e ''data'') = Inr a"

text \<open>A record is backed by the entries read so far: its request by one of them, its answer by a
  later one.\<close>

definition backed :: "(json \<Rightarrow> string) \<Rightarrow> session_entry list \<Rightarrow> approval_record \<Rightarrow> bool" where
  "backed sh es r \<longleftrightarrow>
     (\<exists>i < length es. reads_as sh (es ! i) (Asked (record_asked r)) \<and>
        asked_entry_id r = entry_id (es ! i) \<and>
        (\<forall>x. record_outcome r = Some x \<longrightarrow>
           (\<exists>j < length es. i < j \<and> reads_as sh (es ! j) (Decided (asked_id (record_asked r)) x) \<and>
              decided_entry_id r = Some (entry_id (es ! j)))))"

definition fold_inv :: "(json \<Rightarrow> string) \<Rightarrow> session_entry list \<Rightarrow> history_fold \<Rightarrow> bool" where
  "fold_inv sh es x \<longleftrightarrow>
     (\<forall>r \<in> set (records (fst x)). backed sh es r) \<and>
     (\<forall>i n. map_of (snd x) i = Some n \<longrightarrow>
        n < length (records (fst x)) \<and> asked_id (record_asked (records (fst x) ! n)) = i) \<and>
     distinct (map (\<lambda>r. asked_id (record_asked r)) (records (fst x))) \<and>
     (\<forall>r \<in> set (records (fst x)). map_of (snd x) (asked_id (record_asked r)) \<noteq> None) \<and>
     length (filter is_approval es) =
       length (records (fst x)) + length (filter (\<lambda>r. record_outcome r \<noteq> None) (records (fst x))) +
       length (skipped (fst x))"

lemma backed_append: "backed sh es r \<Longrightarrow> backed sh (es @ [e]) r"
proof -
  assume "backed sh es r"
  then obtain i where i: "i < length es" "reads_as sh (es ! i) (Asked (record_asked r))"
    "asked_entry_id r = entry_id (es ! i)"
    "\<forall>x. record_outcome r = Some x \<longrightarrow>
       (\<exists>j < length es. i < j \<and> reads_as sh (es ! j) (Decided (asked_id (record_asked r)) x) \<and>
          decided_entry_id r = Some (entry_id (es ! j)))"
    unfolding backed_def by blast
  have old: "(es @ [e]) ! k = es ! k" if "k < length es" for k using that by (simp add: nth_append)
  show ?thesis
    unfolding backed_def using i old by (intro exI [of _ i]) (metis length_append_singleton less_SucI)
qed

lemma fold_inv_skip:
  assumes "fold_inv sh es x" and "is_approval e"
  shows "fold_inv sh (es @ [e]) (skip e reason x)"
  using assms backed_append unfolding fold_inv_def skip_def by auto

lemma count_list_update:
  "n < length xs \<Longrightarrow> \<not> P (xs ! n) \<Longrightarrow> P y \<Longrightarrow>
     length (filter P (xs[n := y])) = Suc (length (filter P xs))"
proof (induction xs arbitrary: n)
  case (Cons x xs)
  then show ?case by (cases n) auto
qed simp

lemma fold_inv_asked:
  assumes inv: "fold_inv sh es (h, m)" and r: "reads_as sh e (Asked a)" and new: "map_of m (asked_id a) = None"
  shows "fold_inv sh (es @ [e])
    (h\<lparr>records := records h @ [\<lparr>record_asked = a, asked_entry_id = entry_id e,
       record_outcome = None, decided_entry_id = None\<rparr>]\<rparr>, imap_insert (asked_id a) (length (records h)) m)"
proof -
  have "backed sh (es @ [e]) \<lparr>record_asked = a, asked_entry_id = entry_id e,
       record_outcome = None, decided_entry_id = None\<rparr>"
    unfolding backed_def using r by (intro exI [of _ "length es"]) simp
  moreover have "is_approval e" using r by (simp add: reads_as_def)
  moreover have "asked_id a \<notin> (\<lambda>r. asked_id (record_asked r)) ` set (records h)"
    using inv new by (auto simp: fold_inv_def)
  ultimately show ?thesis
    using inv backed_append [of sh es _ e] by (auto simp: fold_inv_def nth_append less_SucI)
qed

lemma fold_inv_decided:
  assumes inv: "fold_inv sh es (h, m)" and r: "reads_as sh e (Decided i x)" and n: "map_of m i = Some n"
    and open': "record_outcome (records h ! n) = None"
  shows "fold_inv sh (es @ [e])
    (h\<lparr>records := (records h)[n := (records h ! n)
       \<lparr>record_outcome := Some x, decided_entry_id := Some (entry_id e)\<rparr>]\<rparr>, m)"
proof -
  let ?r = "(records h ! n)\<lparr>record_outcome := Some x, decided_entry_id := Some (entry_id e)\<rparr>"
  have nl: "n < length (records h)" and i: "asked_id (record_asked (records h ! n)) = i"
    using inv n by (auto simp: fold_inv_def)
  then have "backed sh es (records h ! n)" using inv by (simp add: fold_inv_def)
  then obtain k where "k < length es" "reads_as sh (es ! k) (Asked (record_asked (records h ! n)))"
    "asked_entry_id (records h ! n) = entry_id (es ! k)"
    by (auto simp: backed_def)
  then have new: "backed sh (es @ [e]) ?r"
    unfolding backed_def using r i
    by (intro exI [of _ k] conjI) (auto simp: nth_append intro!: exI [of _ "length es"])
  have keys: "map (\<lambda>r. asked_id (record_asked r)) ((records h)[n := ?r]) =
      map (\<lambda>r. asked_id (record_asked r)) (records h)"
    using nl by (simp add: map_update list_update_same_conv)
  have same: "asked_id (record_asked ((records h)[n := ?r] ! j)) = asked_id (record_asked (records h ! j))"
    if "j < length (records h)" for j
    using that by (cases "j = n") simp_all
  have "is_approval e" using r by (simp add: reads_as_def)
  moreover have "length (filter (\<lambda>r. record_outcome r \<noteq> None) ((records h)[n := ?r])) =
      Suc (length (filter (\<lambda>r. record_outcome r \<noteq> None) (records h)))"
    using nl open' by (intro count_list_update) simp_all
  moreover have "backed sh (es @ [e]) q" if "q \<in> set ((records h)[n := ?r])" for q
    using that new inv backed_append [of sh es q e] set_update_subset_insert [of "records h" n ?r]
    by (auto simp: fold_inv_def)
  moreover have "map_of m (asked_id (record_asked q)) \<noteq> None" if "q \<in> set ((records h)[n := ?r])" for q
    using that inv n i set_update_subset_insert [of "records h" n ?r] by (auto simp: fold_inv_def)
  moreover have "j < length (records h)" "asked_id (record_asked (records h ! j)) = k" 
    if "map_of m k = Some j" for k j
    using inv that by (auto simp: fold_inv_def)
  ultimately show ?thesis
    using inv by (simp add: fold_inv_def keys same)
qed

lemma fold_inv_step: "fold_inv sh es x \<Longrightarrow> fold_inv sh (es @ [e]) (fold_step sh e x)"
proof (cases "is_approval e")
  case False
  assume "fold_inv sh es x"
  with False show ?thesis using backed_append by (auto simp: fold_inv_def fold_step_def)
next
  case True
  assume inv: "fold_inv sh es x"
  obtain h m where x: "x = (h, m)" by (cases x)
  show ?thesis
  proof (cases "from_data sh (entry_get e ''data'')")
    case (Inl reason)
    with True inv show ?thesis by (simp add: fold_step_def x fold_inv_skip)
  next
    case (Inr a)
    with True have r: "reads_as sh e a" by (simp add: reads_as_def)
    show ?thesis
    proof (cases a)
      case (Asked q)
      with True Inr inv fold_inv_asked [OF inv [unfolded x], of e q] r show ?thesis
        by (auto simp: fold_step_def x fold_inv_skip)
    next
      case (Decided i o')
      show ?thesis
      proof (cases "map_of m i")
        case None
        with True Inr Decided inv show ?thesis by (simp add: fold_step_def x fold_inv_skip)
      next
        case (Some n)
        with inv x have "n < length (records h)" by (auto simp: fold_inv_def)
        with True Inr Decided inv Some r fold_inv_decided [OF inv [unfolded x], of e i o' n]
        show ?thesis by (auto simp: fold_step_def x fold_inv_skip)
      qed
    qed
  qed
qed

lemma fold_inv_fold:
  "fold_inv sh es (fold (fold_step sh) es (\<lparr>records = [], skipped = []\<rparr>, []))"
proof (induction es rule: rev_induct)
  case Nil
  then show ?case by (simp add: fold_inv_def)
next
  case (snoc e es)
  then show ?case using fold_inv_step by simp
qed

section \<open>Properties\<close>


definition sample_request :: approval_asked where
  "sample_request =
     \<lparr>asked_id = ''r1'', asked_tool = ''bash'', asked_call = Some ''c1'', asked_reason = None,
      asked_sandbox = Some DangerFullAccess\<rparr>"

definition approval_line :: "string \<Rightarrow> approval_entry \<Rightarrow> session_entry" where
  "approval_line i a =
     \<lparr>entry_id = i, raw = [(''type'', JString ''custom''),
        (''customType'', JString approval_custom_type), (''data'', to_data a)]\<rparr>"

definition sample_lines :: "session_entry list" where
  "sample_lines =
     [approval_line ''e1'' (Asked sample_request), approval_line ''e2'' (Decided ''r1'' AllowedOnce)]"

lemma from_data_sample:
  "from_data sh (Some (to_data (Asked sample_request))) = Inr (Asked sample_request)"
  "from_data sh (Some (to_data (Decided ''r1'' AllowedOnce))) = Inr (Decided ''r1'' AllowedOnce)"
  by (simp_all add: sample_request_def insert_some_def from_data_def as_u64_version required_def
      data_text_def asked_from_def decided_from_def outcomes_def parse_mode_def all_modes_def)

lemma sample_records:
  "records (fold_approval_history sh sample_lines) =
     [\<lparr>record_asked = sample_request, asked_entry_id = ''e1'', record_outcome = Some AllowedOnce,
       decided_entry_id = Some ''e2''\<rparr>]"
proof -
  have "is_approval (approval_line i a)" for i a
    by (simp add: is_approval_def approval_line_def entry_type_def str_member_def entry_get_def)
  moreover have "entry_get (approval_line i a) ''data'' = Some (to_data a)" for i a
    by (simp add: approval_line_def entry_get_def)
  moreover have "asked_id sample_request = ''r1''" by (simp add: sample_request_def)
  moreover have "entry_id (approval_line i a) = i" for i a by (simp add: approval_line_def)
  ultimately show ?thesis
    by (simp add: fold_approval_history_def sample_lines_def fold_step_def from_data_sample
        del: to_data.simps)
qed


end
