(* ===== verification/Engine.thy ===== *)
theory Engine
  imports Approval
begin

text \<open>
  The permission engine (\<open>permissions/engine.rs\<close>): ordered layers that resolve the policy one tool
  call runs under, and the approval of an escalation with its two audit writes. What a call does
  is a list of events in the order they happen. A layer is a function from the call and the
  policy so far to a decision; the recorder's admission and write outcomes are parameters.
\<close>

section \<open>The standing permission\<close>

record standing_permissions =
  standing_sandbox :: sandbox_mode
  standing_approval :: approval_policy
  standing_preset :: string
  standing_root :: path
  standing_session :: "string option"

definition standing_new ::
  "host \<Rightarrow> sandbox_mode \<Rightarrow> approval_policy \<Rightarrow> string \<Rightarrow> path \<Rightarrow> string option \<Rightarrow> standing_permissions" where
  "standing_new h m p preset root session =
     \<lparr>standing_sandbox = m, standing_approval = p, standing_preset = preset,
      standing_root = canonical_path h root, standing_session = session\<rparr>"

definition standing_policy :: "standing_permissions \<Rightarrow> sandbox_policy" where
  "standing_policy st =
     (let policy = new_policy (standing_sandbox st) (standing_root st)
      in (case standing_session st of Some i \<Rightarrow> with_session_id i policy | None \<Rightarrow> policy))"

definition standing_set ::
  "sandbox_mode \<Rightarrow> approval_policy \<Rightarrow> string \<Rightarrow> standing_permissions \<Rightarrow> standing_permissions" where
  "standing_set m p preset st =
     st\<lparr>standing_sandbox := m, standing_approval := p, standing_preset := preset\<rparr>"

section \<open>Calls and layers\<close>

datatype blank_justification = IgnoredAlone | Checked

record tool_call =
  tool_name :: string
  call_id :: string
  parent_tool_call_id :: "string option"
  args :: json
  subject :: string
  blank_justification :: blank_justification

record approval_need =
  need_reason :: string
  need_grant :: sandbox_policy
  need_refusal :: "escalation_outcome \<Rightarrow> string"

datatype layer_decision =
    Pass
  | SetPolicy sandbox_policy
  | Refuse string
  | RequireApproval approval_need

type_synonym policy_layer = "tool_call \<Rightarrow> sandbox_policy option \<Rightarrow> layer_decision"

definition standing_mode_layer :: "standing_permissions \<Rightarrow> policy_layer" where
  "standing_mode_layer st call p = SetPolicy (standing_policy st)"

definition escalation_arg :: "json \<Rightarrow> string \<Rightarrow> (string, string option) result" where
  "escalation_arg a key =
     (case Option.bind (as_object a) (\<lambda>m. obj_get m key) of
        None \<Rightarrow> Inr None
      | Some JNull \<Rightarrow> Inr None
      | Some (JString text) \<Rightarrow> Inr (Some text)
      | Some _ \<Rightarrow> Inl (''invalid escalation: '' @ key @ '' must be a string''))"

definition no_composition :: "tool_call \<Rightarrow> string" where
  "no_composition call =
     ''sandbox_permissions is not available in this composition (no sandboxing '' @
     (if subject call = ''command'' then ''executor'' else ''filesystem'') @ '' to escalate)''"

definition read_justification ::
  "blank_justification \<Rightarrow> string option \<Rightarrow> string option \<Rightarrow> string option" where
  "read_justification b requested justification =
     (case justification of
        Some text \<Rightarrow>
          if b = IgnoredAlone \<and> requested = None \<and> js_trim_tool text = [] then None
          else Some text
      | None \<Rightarrow> None)"

definition escalation_need :: "tool_call \<Rightarrow> sandbox_policy \<Rightarrow> sandbox_mode \<Rightarrow> string \<Rightarrow> approval_need" where
  "escalation_need call p m justification =
     \<lparr>need_reason = escalation_reason m justification, need_grant = with_mode m p,
      need_refusal = (\<lambda>outcome. case refusal outcome (subject call) m of Some t \<Rightarrow> t | None \<Rightarrow> '''')\<rparr>"

definition decide_under :: "tool_call \<Rightarrow> sandbox_policy \<Rightarrow> string option \<Rightarrow> string option \<Rightarrow> layer_decision" where
  "decide_under call p requested justification =
     (if requested \<noteq> None \<and> check_escalation (mode p) (the requested) = NoOp then Pass
      else
        (let justification = read_justification (blank_justification call) requested justification
         in (case validate_escalation_args requested justification of
               Inl text \<Rightarrow> Refuse text
             | Inr _ \<Rightarrow>
                 (case (requested, justification) of
                    (Some requested, Some justification) \<Rightarrow>
                      (case check_escalation (mode p) requested of
                         NoOp \<Rightarrow> Pass
                       | Refused text \<Rightarrow> Refuse text
                       | Widen m \<Rightarrow> RequireApproval (escalation_need call p m justification))
                  | _ \<Rightarrow> Pass))))"

definition escalation_layer :: policy_layer where
  "escalation_layer call p =
     (case escalation_arg (args call) ''sandbox_permissions'' of
        Inl text \<Rightarrow> Refuse text
      | Inr requested \<Rightarrow>
          (case escalation_arg (args call) ''justification'' of
             Inl text \<Rightarrow> Refuse text
           | Inr justification \<Rightarrow>
               (case p of
                  None \<Rightarrow>
                    if requested = None \<and> justification = None then Pass
                    else Refuse (no_composition call)
                | Some p \<Rightarrow> decide_under call p requested justification)))"

section \<open>Approval and resolution\<close>

datatype event = Wrote approval_entry | Questioned approval_request

text \<open>
  What one approval meets outside: the recorder, when a session bound one, with the request id,
  whether the signal has aborted at each admission, and the outcome of each write; and the
  approver's answer.
\<close>

record approval_world =
  recording :: bool
  fresh_id :: string
  asked_aborted :: bool
  asked_write :: "(string, unit) result"
  decided_aborted :: bool
  decided_write :: "(string, unit) result"
  answer_of :: "approval_request \<Rightarrow> escalation_outcome"

definition record_entry ::
  "bool \<Rightarrow> (string, unit) result \<Rightarrow> approval_entry \<Rightarrow> event list \<times> (string, approval_entry option) result" where
  "record_entry aborted w e =
     (case admitted e aborted of
        None \<Rightarrow> ([], Inr None)
      | Some e \<Rightarrow> (case w of Inl text \<Rightarrow> ([], Inl text) | Inr _ \<Rightarrow> ([Wrote e], Inr (Some e))))"

definition request_of :: "tool_call \<Rightarrow> string \<Rightarrow> approval_request" where
  "request_of call reason =
     \<lparr>request_tool = tool_name call, request_call = call_id call,
      request_parent = parent_tool_call_id call, request_reason = reason,
      request_arguments = args call\<rparr>"

definition approve ::
  "approval_world \<Rightarrow> tool_call \<Rightarrow> string \<Rightarrow> sandbox_mode \<Rightarrow>
     event list \<times> (string, escalation_outcome) result" where
  "approve w call reason m =
     (let request = request_of call reason in
      if \<not> recording w then ([Questioned request], Inr (answer_of w request))
      else
        (case record_entry (asked_aborted w) (asked_write w)
                (Asked \<lparr>asked_id = fresh_id w, asked_tool = request_tool request,
                        asked_call = Some (request_call request),
                        asked_reason = Some (request_reason request), asked_sandbox = Some m\<rparr>) of
           (l1, Inl text) \<Rightarrow> (l1, Inl text)
         | (l1, Inr None) \<Rightarrow> (l1, Inr Cancelled)
         | (l1, Inr (Some _)) \<Rightarrow>
             (case record_entry (decided_aborted w) (decided_write w)
                     (Decided (fresh_id w) (answer_of w request)) of
                (l2, Inl text) \<Rightarrow> (l1 @ [Questioned request] @ l2, Inl text)
              | (l2, Inr (Some (Decided _ outcome))) \<Rightarrow>
                  (l1 @ [Questioned request] @ l2, Inr outcome)
              | (l2, Inr _) \<Rightarrow> (l1 @ [Questioned request] @ l2, Inr Cancelled))))"

text \<open>The loop of \<open>resolve\<close>: \<open>w\<close> gives each approval the world it meets, by its position.\<close>

fun run_layers ::
  "(nat \<Rightarrow> approval_world) \<Rightarrow> tool_call \<Rightarrow> nat \<Rightarrow> policy_layer list \<Rightarrow> sandbox_policy option \<Rightarrow>
     event list \<times> (string, sandbox_policy option) result" where
  "run_layers w call n [] p = ([], Inr p)"
| "run_layers w call n (layer # layers) p =
     (case layer call p of
        Pass \<Rightarrow> run_layers w call (Suc n) layers p
      | SetPolicy next \<Rightarrow> run_layers w call (Suc n) layers (Some next)
      | Refuse text \<Rightarrow> ([], Inl text)
      | RequireApproval need \<Rightarrow>
          (case approve (w n) call (need_reason need) (mode (need_grant need)) of
             (l, Inl text) \<Rightarrow> (l, Inl text)
           | (l, Inr AllowedOnce) \<Rightarrow>
               (case run_layers w call (Suc n) layers (Some (need_grant need)) of
                  (l', r) \<Rightarrow> (l @ l', r))
           | (l, Inr outcome) \<Rightarrow> (l, Inl (need_refusal need outcome))))"

definition resolve_call ::
  "(nat \<Rightarrow> approval_world) \<Rightarrow> policy_layer list \<Rightarrow> tool_call \<Rightarrow>
     event list \<times> (string, sandbox_policy) result" where
  "resolve_call w layers call =
     (case run_layers w call 0 layers None of
        (l, Inl text) \<Rightarrow> (l, Inl text)
      | (l, Inr p) \<Rightarrow>
          (l, ok_or p (''permission: no policy layer resolved a sandbox policy for this '' @
             tool_name call @ '' call'')))"

definition standard_layers :: "standing_permissions \<Rightarrow> policy_layer list" where
  "standard_layers st = [standing_mode_layer st, escalation_layer]"

definition insert_layer :: "nat \<Rightarrow> 'a \<Rightarrow> 'a list \<Rightarrow> 'a list" where
  "insert_layer n layer layers =
     (let n = min n (length layers) in take n layers @ [layer] @ drop n layers)"

text \<open>
  The shipped composition (\<open>ToolPermissions::new\<close>): the policy approver over the standing approval
  policy answers each request; a run that never resolves grants nothing.
\<close>

definition policy_answers :: "standing_permissions \<Rightarrow> (nat \<Rightarrow> run) \<Rightarrow> (nat \<Rightarrow> approval_world) \<Rightarrow> bool" where
  "policy_answers st runs w \<longleftrightarrow>
     (\<forall>n request. policy_request (standing_approval st) (runs n) = Some (answer_of (w n) request))"

definition reachable_escalation_targets :: "sandbox_mode \<Rightarrow> approval_policy \<Rightarrow> sandbox_mode list" where
  "reachable_escalation_targets m p = (case p of Ask \<Rightarrow> wider_modes m | Never \<Rightarrow> [])"

definition offers_escalation_beyond :: "sandbox_mode list \<Rightarrow> sandbox_mode \<Rightarrow> bool" where
  "offers_escalation_beyond targets m = list_ex (\<lambda>t. is_widened_by m t) targets"

section \<open>Facts of one approval\<close>

lemma standing_policy_mode [simp]: "mode (standing_policy st) = standing_sandbox st"
  by (simp add: standing_policy_def new_policy_def with_session_id_def Let_def split: option.splits)

definition asked_entry :: "approval_world \<Rightarrow> tool_call \<Rightarrow> string \<Rightarrow> sandbox_mode \<Rightarrow> approval_entry" where
  "asked_entry w call reason m =
     Asked \<lparr>asked_id = fresh_id w, asked_tool = tool_name call, asked_call = Some (call_id call),
            asked_reason = Some reason, asked_sandbox = Some m\<rparr>"

text \<open>The events of a granted approval, in order.\<close>

definition granted_events ::
  "approval_world \<Rightarrow> tool_call \<Rightarrow> string \<Rightarrow> sandbox_mode \<Rightarrow> event list" where
  "granted_events w call reason m =
     (if recording w
      then [Wrote (asked_entry w call reason m), Questioned (request_of call reason),
            Wrote (Decided (fresh_id w) AllowedOnce)]
      else [Questioned (request_of call reason)])"

lemma record_entry_Inr:
  "record_entry a w e = (l, Inr (Some e')) \<longleftrightarrow> admitted e a = Some e' \<and> w = Inr () \<and> l = [Wrote e']"
  by (auto simp: record_entry_def split: option.splits sum.splits)

lemma admitted_granted:
  "admitted (Decided i x) a = Some (Decided j AllowedOnce) \<longleftrightarrow> i = j \<and> x = AllowedOnce \<and> \<not> a"
  by auto

lemma approve_grant:
  assumes "approve w call reason m = (l, Inr AllowedOnce)"
  shows "answer_of w (request_of call reason) = AllowedOnce" and "l = granted_events w call reason m"
proof -
  have "answer_of w (request_of call reason) = AllowedOnce \<and> l = granted_events w call reason m"
  proof (cases "recording w")
    case False
    with assms show ?thesis by (auto simp: approve_def granted_events_def Let_def)
  next
    case True
    with assms obtain l1 e l2 j where
      first: "record_entry (asked_aborted w) (asked_write w) (asked_entry w call reason m) = (l1, Inr (Some e))"
      and second: "record_entry (decided_aborted w) (decided_write w)
        (Decided (fresh_id w) (answer_of w (request_of call reason))) = (l2, Inr (Some (Decided j AllowedOnce)))"
      and l: "l = l1 @ [Questioned (request_of call reason)] @ l2"
      by (auto simp: approve_def Let_def asked_entry_def request_of_def
          split: prod.splits sum.splits option.splits approval_entry.splits)
    from first have "l1 = [Wrote (asked_entry w call reason m)]"
      by (auto simp: record_entry_Inr asked_entry_def split: if_splits)
    moreover from second have "answer_of w (request_of call reason) = AllowedOnce"
      "l2 = [Wrote (Decided (fresh_id w) AllowedOnce)]"
      by (auto simp: record_entry_Inr admitted_granted simp del: admitted.simps)
    ultimately show ?thesis using True l by (simp add: granted_events_def)
  qed
  then show "answer_of w (request_of call reason) = AllowedOnce" "l = granted_events w call reason m"
    by simp_all
qed

lemma escalation_layer_need:
  assumes "escalation_layer call (Some p) = RequireApproval need"
  shows "\<exists>m text. mode p < m \<and> need_grant need = with_mode m p \<and> \<not> is_js_blank text \<and>
    need_reason need = escalation_reason m text"
proof -
  from assms obtain requested justification where
    d: "decide_under call p requested justification = RequireApproval need"
    by (auto simp: escalation_layer_def split: sum.splits)
  let ?j = "read_justification (blank_justification call) requested justification"
  from d obtain r t m where r: "requested = Some r" "?j = Some t"
      "validate_escalation_args requested ?j = Inr ()"
      "check_escalation (mode p) r = Widen m" "need = escalation_need call p m t"
    by (auto simp: decide_under_def Let_def split: if_splits sum.splits option.splits escalation_check.splits)
  then have "\<not> is_js_blank t" "mode p < m"
    by (auto simp: validate_escalation_args_ok check_escalation_cases)
  with r show ?thesis by (auto simp: escalation_need_def)
qed

lemma escalation_layer_never_sets: "escalation_layer call p \<noteq> SetPolicy q"
  by (auto simp: escalation_layer_def decide_under_def Let_def
      split: sum.splits option.splits if_splits escalation_check.splits)

lemma standard_resolve:
  "resolve_call w (standard_layers st) call =
     (case escalation_layer call (Some (standing_policy st)) of
        Refuse text \<Rightarrow> ([], Inl text)
      | RequireApproval need \<Rightarrow>
          (case approve (w 1) call (need_reason need) (mode (need_grant need)) of
             (l, Inl text) \<Rightarrow> (l, Inl text)
           | (l, Inr AllowedOnce) \<Rightarrow> (l, Inr (need_grant need))
           | (l, Inr outcome) \<Rightarrow> (l, Inl (need_refusal need outcome)))
      | _ \<Rightarrow> ([], Inr (standing_policy st)))"
  using escalation_layer_never_sets [of call "Some (standing_policy st)"]
  by (auto simp: resolve_call_def standard_layers_def standing_mode_layer_def
      split: layer_decision.splits prod.splits sum.splits escalation_outcome.splits)

section \<open>Properties\<close>

text \<open>C2. A call runs wider than the session's standing policy only after a grant: the shipped
  engine returns the standing policy itself, having asked nothing, or that policy at a strictly
  wider mode, after the approver answered \<open>allowed-once\<close> to this call's request; and with a
  recorder bound, the request was on disk before the question and the grant before the call.\<close>

theorem engine_widens_only_with_grant:
  assumes "resolve_call w (standard_layers st) call = (l, Inr p)"
  shows "p = standing_policy st \<and> l = [] \<or>
    (\<exists>m text. standing_sandbox st < m \<and> p = with_mode m (standing_policy st) \<and> \<not> is_js_blank text \<and>
       answer_of (w 1) (request_of call (escalation_reason m text)) = AllowedOnce \<and>
       l = granted_events (w 1) call (escalation_reason m text) m)"
proof (cases "escalation_layer call (Some (standing_policy st))")
  case (RequireApproval need)
  with assms have a: "approve (w 1) call (need_reason need) (mode (need_grant need)) = (l, Inr AllowedOnce)"
    and p: "p = need_grant need"
    by (auto simp: standard_resolve split: prod.splits sum.splits escalation_outcome.splits)
  from escalation_layer_need [OF RequireApproval] obtain m t where
    m: "standing_sandbox st < m" "need_grant need = with_mode m (standing_policy st)"
      "\<not> is_js_blank t" "need_reason need = escalation_reason m t"
    by auto
  moreover have "mode (need_grant need) = m" by (simp add: m(2) with_mode_def)
  ultimately show ?thesis using approve_grant [OF a] p by auto
qed (use assms escalation_layer_never_sets [of call "Some (standing_policy st)"] in
    \<open>auto simp: standard_resolve\<close>)

lemma run_layers_never:
  assumes "\<And>n request. answer_of (w n) request \<noteq> AllowedOnce"
    and "run_layers w call n layers p = (l, Inr (Some q))"
  shows "p = Some q \<or> (\<exists>layer \<in> set layers. \<exists>p'. layer call p' = SetPolicy q)"
  using assms(2)
proof (induction layers arbitrary: n p l)
  case (Cons layer layers)
  show ?case
  proof (cases "layer call p")
    case (RequireApproval need)
    obtain l1 r where a: "approve (w n) call (need_reason need) (mode (need_grant need)) = (l1, r)"
      by fastforce
    have "r \<noteq> Inr AllowedOnce" using approve_grant(1) [of "w n"] a assms(1) by blast
    with Cons.prems RequireApproval a show ?thesis
      by (auto split: sum.splits escalation_outcome.splits)
  next
    case (SetPolicy next')
    with Cons show ?thesis by fastforce
  qed (use Cons in auto)
qed simp

text \<open>Under the \<open>never\<close> policy no approval has any effect: whatever layers are installed and
  whatever the answerer does, the policy a call runs under is one a layer set by itself; with the
  shipped layers it is the standing policy.\<close>

theorem never_policy_never_widens:
  assumes "standing_approval st = Never" and "policy_answers st runs w"
    and "resolve_call w layers call = (l, Inr p)"
  shows "(\<exists>layer \<in> set layers. \<exists>p'. layer call p' = SetPolicy p) \<and>
    (layers = standard_layers st \<longrightarrow> p = standing_policy st)"
proof -
  have never: "answer_of (w n) request \<noteq> AllowedOnce" for n request
    using assms(1,2) policy.never_grants_nothing [of "runs n"] unfolding policy_answers_def by metis
  from assms(3) have "run_layers w call 0 layers None = (l, Inr (Some p))"
    by (auto simp: resolve_call_def split: prod.splits sum.splits)
  from run_layers_never [OF never this] have set: "\<exists>layer \<in> set layers. \<exists>p'. layer call p' = SetPolicy p"
    by simp
  moreover have "p = standing_policy st" if "layers = standard_layers st"
    using set that escalation_layer_never_sets [of call]
    by (auto simp: standard_layers_def standing_mode_layer_def)
  ultimately show ?thesis by blast
qed

section \<open>Concrete instances\<close>

definition sample_standing :: "approval_policy \<Rightarrow> standing_permissions" where
  "sample_standing p =
     \<lparr>standing_sandbox = WorkspaceWrite, standing_approval = p, standing_preset = ''custom'',
      standing_root = [RootDir, Normal ''work''], standing_session = None\<rparr>"

definition sample_call :: "object \<Rightarrow> tool_call" where
  "sample_call m =
     \<lparr>tool_name = ''bash'', call_id = ''c1'', parent_tool_call_id = None, args = JObject m,
      subject = ''command'', blank_justification = IgnoredAlone\<rparr>"

definition sample_escalation :: tool_call where
  "sample_escalation =
     sample_call [(''sandbox_permissions'', JString ''danger-full-access''),
                  (''justification'', JString ''run'')]"

definition sample_world :: "escalation_outcome \<Rightarrow> nat \<Rightarrow> approval_world" where
  "sample_world x n =
     \<lparr>recording = True, fresh_id = ''r1'', asked_aborted = False, asked_write = Inr (),
      decided_aborted = False, decided_write = Inr (), answer_of = (\<lambda>_. x)\<rparr>"

lemma sample_not_blank: "\<not> is_js_blank ''run''"
  by (simp add: is_js_blank_def utf8_chars_ascii is_whitespace_def)

lemma sample_escalation_need:
  "escalation_layer sample_escalation (Some (standing_policy (sample_standing p))) =
     RequireApproval (escalation_need sample_escalation (standing_policy (sample_standing p))
       DangerFullAccess ''run'')"
proof -
  have "check_escalation WorkspaceWrite ''danger-full-access'' = Widen DangerFullAccess"
    by (simp add: check_escalation_cases less_sandbox_mode_def)
  moreover have "validate_escalation_args (Some ''danger-full-access'') (Some ''run'') = Inr ()"
    using sample_not_blank by (simp add: validate_escalation_args_ok)
  ultimately show ?thesis
    by (simp add: escalation_layer_def sample_escalation_def sample_call_def escalation_arg_def
        decide_under_def read_justification_def sample_standing_def Let_def)
qed

lemma sample_resolve:
  "resolve_call (sample_world AllowedOnce) (standard_layers (sample_standing Ask)) sample_escalation =
     (granted_events (sample_world AllowedOnce 1) sample_escalation
        (escalation_reason DangerFullAccess ''run'') DangerFullAccess,
      Inr (with_mode DangerFullAccess (standing_policy (sample_standing Ask))))"
  by (simp add: standard_resolve sample_escalation_need escalation_need_def with_mode_def approve_def
      record_entry_def sample_world_def granted_events_def asked_entry_def request_of_def)

lemma engine_widens_only_with_grant_witness:
  "\<exists>m text. WorkspaceWrite < m \<and> \<not> is_js_blank text \<and>
     answer_of (sample_world AllowedOnce 1)
       (request_of sample_escalation (escalation_reason m text)) = AllowedOnce"
  using engine_widens_only_with_grant [OF sample_resolve]
  by (auto simp: sample_standing_def with_mode_def standing_policy_def new_policy_def Let_def)

definition eager_run :: "nat \<Rightarrow> run" where
  "eager_run n =
     \<lparr>answered_at = Some 1, answer = Some AllowedOnce, aborted_at = None, settled_at = 1\<rparr>"

lemma never_policy_never_widens_witness:
  "policy_answers (sample_standing Never) eager_run (sample_world Rejected) \<and>
   (\<exists>p. snd (resolve_call (sample_world Rejected) (standard_layers (sample_standing Never)) (sample_call [])) =
      Inr p \<and> p = standing_policy (sample_standing Never))"
proof -
  have answers: "policy_answers (sample_standing Never) eager_run (sample_world Rejected)"
    by (simp add: policy_answers_def sample_standing_def policy_request_def eager_run_def
        aborted_by_def sample_world_def)
  have never: "standing_approval (sample_standing Never) = Never" by (simp add: sample_standing_def)
  have run: "resolve_call (sample_world Rejected) (standard_layers (sample_standing Never)) (sample_call []) =
      ([], Inr (standing_policy (sample_standing Never)))"
    by (simp add: standard_resolve escalation_layer_def escalation_arg_def sample_call_def
        decide_under_def read_justification_def Let_def)
  from never_policy_never_widens [OF never answers run] answers
  show ?thesis unfolding run by simp
qed

text \<open>The two readings of a blank justification differ only at U+0085: the engine drops a lone
  justification that JavaScript's \<open>trim\<close> empties, and the argument check refuses one that is
  Unicode white space, so a justification made of U+0085 is kept by the first and refused by the
  second.\<close>

theorem blank_readings:
  "js_trim_tool t = [] \<longleftrightarrow> is_js_blank t \<and> 133 \<notin> code_point ` set (utf8_chars t)"
  unfolding js_trim_tool_def trim_chars_Nil_iff is_js_blank_def list_all_iff js_whitespace_def
    is_whitespace_def Let_def
  by auto

end
