(* ===== verification/SessionOps.thy ===== *)
theory SessionOps
  imports SessionTree Utf8
begin

text \<open>
  The rest of the session manager (\<open>session/manager.rs\<close>): the other appends, context edits, the
  views of the tree, branching into a new session file, and the step relation of all the
  operations with the invariants every reachable manager has.
\<close>

section \<open>Other appends\<close>

definition append_usage ::
  "env \<Rightarrow> string \<Rightarrow> string \<Rightarrow> string \<Rightarrow> json \<Rightarrow> string option \<Rightarrow> session_manager \<Rightarrow>
     session_manager \<times> (session_error, session_entry) result" where
  "append_usage v kind provider model usage note s =
     (let i = next_id v s;
          m = obj_insert ''usage'' usage (obj_insert ''model'' (JString model)
                (obj_insert ''provider'' (JString provider)
                  (obj_insert ''kind'' (JString kind) (base v s ''usage'' i))));
          m = optional m ''note''
                (case note of Some n \<Rightarrow> if n = [] then None else Some (JString n) | None \<Rightarrow> None)
      in (case append_entry v i m s of
            (s', Inl e) \<Rightarrow> (s', Inl e)
          | (s', Inr _) \<Rightarrow> (s', Inr \<lparr>entry_id = i, raw = m\<rparr>)))"

text \<open>The entry of \<open>append_compaction\<close>; \<open>now\<close> is its own clock reading and \<open>system\<close> the current
  system message, with the timestamp it is given.\<close>

definition append_compaction ::
  "env \<Rightarrow> string \<Rightarrow> string \<Rightarrow> string option \<Rightarrow> nat \<Rightarrow> json option \<Rightarrow> bool option \<Rightarrow> json option \<Rightarrow>
     object option \<Rightarrow> session_manager \<Rightarrow> session_manager \<times> (session_error, string) result" where
  "append_compaction v now summary first_kept tokens details from_hook usage system s =
     (let i = next_id v s;
          m = [(''type'', JString ''compaction''), (''id'', JString i), (''parentId'', parent_value s),
               (''timestamp'', JString now), (''summary'', JString summary),
               (''firstKeptEntryId'', JString (case first_kept of Some k \<Rightarrow> k | None \<Rightarrow> i)),
               (''tokensBefore'', json_u64 tokens)];
          m = optional (optional (optional m ''details'' details) ''usage'' usage)
                ''fromHook'' (map_option JBool from_hook);
          m = (case system of
                 None \<Rightarrow> m
               | Some o' \<Rightarrow> obj_insert ''systemMessage'' (JObject (obj_insert ''timestamp''
                   (case parse_date_ms now of Some ms \<Rightarrow> json_i64 ms | None \<Rightarrow> JNull) o')) m)
      in append_entry v i m s)"

fun sanitize_name :: "bool \<Rightarrow> string \<Rightarrow> string" where
  "sanitize_name in_break [] = []"
| "sanitize_name in_break (c # cs) =
     (if c = CHR 0x0D \<or> c = CHR 0x0A
      then (if in_break then sanitize_name True cs else CHR '' '' # sanitize_name True cs)
      else c # sanitize_name False cs)"

definition append_session_info ::
  "env \<Rightarrow> string \<Rightarrow> session_manager \<Rightarrow> session_manager \<times> (session_error, string) result" where
  "append_session_info v name s =
     append_entry v (next_id v s)
       (obj_insert ''name'' (JString (js_trim (sanitize_name False name)))
          (base v s ''session_info'' (next_id v s))) s"

definition session_name :: "session_manager \<Rightarrow> string option" where
  "session_name s =
     (case find (\<lambda>e. entry_type e = ''session_info'') (rev (entries s)) of
        None \<Rightarrow> None
      | Some e \<Rightarrow>
          (case Option.bind (entry_get e ''name'') as_str of
             None \<Rightarrow> None
           | Some n \<Rightarrow> if js_trim n = [] then None else Some (js_trim n)))"

definition append_custom_message_entry ::
  "env \<Rightarrow> string \<Rightarrow> json \<Rightarrow> bool \<Rightarrow> json option \<Rightarrow> session_manager \<Rightarrow>
     session_manager \<times> (session_error, string) result" where
  "append_custom_message_entry v custom_type content display details s =
     (let i = next_id v s;
          m = optional [(''type'', JString ''custom_message''), (''customType'', JString custom_type),
                (''content'', content), (''display'', JBool display)] ''details'' details
      in append_entry v i
           (foldl (\<lambda>m (k, v). obj_insert k v m) m
              (filter (\<lambda>(k, _). k \<noteq> ''type'') (base v s ''custom_message'' i))) s)"

section \<open>Context edits\<close>

definition text_blocks :: "string \<Rightarrow> json" where
  "text_blocks text = JArray [JObject [(''type'', JString ''text''), (''text'', JString text)]]"

datatype edit_content = EditText string | EditBlocks "json list"

definition edit_role :: "session_entry \<Rightarrow> string option" where
  "edit_role target =
     (if entry_type target = ''custom_message'' then Some ''custom''
      else (case message_role target of
              Some r \<Rightarrow> if r \<in> {''user'', ''assistant'', ''toolResult''} then Some r else None
            | None \<Rightarrow> None))"

definition edit_value :: "string \<Rightarrow> edit_content \<Rightarrow> json" where
  "edit_value role c =
     (case c of
        EditText text \<Rightarrow>
          if role = ''assistant'' \<or> role = ''toolResult'' then text_blocks text else JString text
      | EditBlocks blocks \<Rightarrow> JArray blocks)"

definition context_edit ::
  "env \<Rightarrow> string \<Rightarrow> edit_content option \<Rightarrow> session_manager \<Rightarrow> (session_error, string \<times> object) result" where
  "context_edit v target_id replacement s =
     (case entry_at s target_id of
        None \<Rightarrow> Inl (EntryNotFound target_id)
      | Some target \<Rightarrow>
          if \<not> list_ex (\<lambda>e. entry_id e = target_id) (branch_entries None s)
          then Inl (NotOnActiveBranch target_id)
          else (case edit_role target of
                  None \<Rightarrow> Inl (NotEditable target_id)
                | Some role \<Rightarrow>
                    (let r = (case replacement of
                                None \<Rightarrow> JNull
                              | Some c \<Rightarrow> JObject [(''content'', edit_value role c)]);
                         i = next_id v s
                     in Inr (i, obj_insert ''replacement'' r
                               (obj_insert ''targetId'' (JString target_id)
                                 (base v s ''context_edit'' i))))))"

definition append_context_edit ::
  "env \<Rightarrow> string \<Rightarrow> edit_content option \<Rightarrow> session_manager \<Rightarrow>
     session_manager \<times> (session_error, string) result" where
  "append_context_edit v target_id replacement s =
     (case context_edit v target_id replacement s of
        Inl e \<Rightarrow> (s, Inl e)
      | Inr (i, m) \<Rightarrow> append_entry v i m s)"

section \<open>Views\<close>

definition leaf_entry :: "session_manager \<Rightarrow> session_entry option" where
  "leaf_entry s = (case leaf_id s of None \<Rightarrow> None | Some i \<Rightarrow> if i = [] then None else entry_at s i)"

definition children_of :: "session_manager \<Rightarrow> string \<Rightarrow> session_entry list" where
  "children_of s p =
     filter (\<lambda>e. parent_id e = Some p)
       (List.map_filter (\<lambda>(_, n). if n < length (file_entries s) then as_entry (file_entries s ! n) else None)
          (by_id s))"

definition label_of :: "session_manager \<Rightarrow> string \<Rightarrow> string option" where
  "label_of s i = map_of (labels_by_id s) i"

section \<open>Branching into a new file\<close>

definition document_type :: string where "document_type = ''bake.task.document.v1''"

definition evidence_type :: string where "evidence_type = ''bake.task.verification.v1''"

record relink =
  kept :: "session_entry list"
  replacement_by_label :: "(string \<times> string) list"
  pending_labels :: "string list"
  parent :: "string option"

definition first_kept_value :: "(string \<times> string) list \<Rightarrow> string \<Rightarrow> json \<Rightarrow> json" where
  "first_kept_value replaced i first_kept =
     (case as_str first_kept of
        Some k \<Rightarrow>
          if k \<noteq> i then (case map_of replaced k of Some r \<Rightarrow> JString r | None \<Rightarrow> first_kept)
          else first_kept
      | None \<Rightarrow> first_kept)"

text \<open>An entry re-chained to \<open>p\<close>; a compaction's first kept entry follows a dropped label.\<close>

definition relink_copy :: "(string \<times> string) list \<Rightarrow> string option \<Rightarrow> session_entry \<Rightarrow> session_entry" where
  "relink_copy replaced p e =
     (let copy = set_member ''parentId'' (case p of None \<Rightarrow> JNull | Some p \<Rightarrow> JString p) e
      in (case entry_get copy ''firstKeptEntryId'' of
            Some first_kept \<Rightarrow>
              if entry_type copy = ''compaction''
              then set_member ''firstKeptEntryId'' (first_kept_value replaced (entry_id e) first_kept) copy
              else copy
          | None \<Rightarrow> copy))"

text \<open>One entry of the path: a label is dropped and remembered, any other entry is re-chained to
  the last one kept.\<close>

definition relink_step :: "session_entry \<Rightarrow> relink \<Rightarrow> relink" where
  "relink_step e x =
     (if entry_type e = ''label'' then x\<lparr>pending_labels := pending_labels x @ [entry_id e]\<rparr>
      else
        (let replaced = fold (\<lambda>l m. imap_insert l (entry_id e) m) (pending_labels x) (replacement_by_label x)
         in \<lparr>kept = kept x @ [relink_copy replaced (parent x) e], replacement_by_label = replaced,
             pending_labels = [], parent = Some (entry_id e)\<rparr>))"

definition relink_path :: "session_entry list \<Rightarrow> session_entry list" where
  "relink_path path =
     kept (fold relink_step path
       \<lparr>kept = [], replacement_by_label = [], pending_labels = [], parent = None\<rparr>)"

text \<open>The label entries carried over, in the order of the label map; \<open>vs\<close> gives each its draws.\<close>

fun carry_labels ::
  "(nat \<Rightarrow> env) \<Rightarrow> (string \<times> string) list \<Rightarrow> session_entry list \<Rightarrow> nat \<Rightarrow> string list \<Rightarrow> string option \<Rightarrow>
     (string \<times> string) list \<Rightarrow> session_entry list" where
  "carry_labels vs stamps held n ids label_parent [] = []"
| "carry_labels vs stamps held n ids label_parent ((target, label) # rest) =
     (if \<not> list_ex (\<lambda>e. entry_id e = target) held
      then carry_labels vs stamps held (Suc n) ids label_parent rest
      else
        (let i = generate_entry_id (\<lambda>c. c \<in> set ids) (draw4 (vs n)) (draw16 (vs n));
             m = [(''type'', JString ''label''), (''id'', JString i),
                  (''parentId'', (case label_parent of None \<Rightarrow> JNull | Some p \<Rightarrow> JString p)),
                  (''timestamp'', (case map_of stamps target of None \<Rightarrow> JNull | Some t \<Rightarrow> JString t)),
                  (''targetId'', JString target), (''label'', JString label)]
         in \<lparr>entry_id = i, raw = m\<rparr> # carry_labels vs stamps held (Suc n) (i # ids) (Some i) rest))"

definition is_durable_task :: "session_entry \<Rightarrow> bool" where
  "is_durable_task e \<longleftrightarrow>
     entry_type e = ''custom'' \<and>
     (case Option.bind (entry_get e ''customType'') as_str of
        Some t \<Rightarrow> t = document_type \<or> t = evidence_type | None \<Rightarrow> False)"

text \<open>
  \<open>create_branched_session\<close>: \<open>header\<close> is the new session's, \<open>js_text\<close> as for \<open>build_index\<close>. The new
  file does not exist yet, so \<open>disk\<close> starts empty.
\<close>

definition create_branched_session ::
  "(json option \<Rightarrow> string) \<Rightarrow> env \<Rightarrow> (nat \<Rightarrow> env) \<Rightarrow> object \<Rightarrow> string \<Rightarrow> session_manager \<Rightarrow>
     session_manager \<times> (session_error, bool) result" where
  "create_branched_session js_text v vs header leaf s =
     (let path = branch_entries (Some leaf) s in
      if path = [] then (s, Inl (EntryNotFound leaf))
      else
        (let held = relink_path path;
             last_id = (if held = [] then None else Some (entry_id (last held)));
             label_parent = (case last_id of Some i \<Rightarrow> if i = [] then None else Some i | None \<Rightarrow> None);
             labels = carry_labels vs (label_timestamps_by_id s) held 0 (map entry_id held)
                        label_parent (labels_by_id s);
             s = s\<lparr>file_entries := Header header # map Entry held @ map Entry labels\<rparr>
         in if \<not> persist s then (build_index js_text s, Inr False)
            else
              (let s = build_index js_text (s\<lparr>has_file := True, disk := []\<rparr>);
                   durable_tasks = (flushed s \<and> list_ex is_durable_task (entries s))
               in if has_conversation s \<or> durable_tasks
                  then (case rewrite_file v s of
                          (s', Inl e) \<Rightarrow> (s', Inl e)
                        | (s', Inr _) \<Rightarrow> (s'\<lparr>flushed := True\<rparr>, Inr True))
                  else (s\<lparr>flushed := False\<rparr>, Inr True))))"

definition branched_copy ::
  "(json option \<Rightarrow> string) \<Rightarrow> env \<Rightarrow> (nat \<Rightarrow> env) \<Rightarrow> object \<Rightarrow> string \<Rightarrow> string \<Rightarrow> string \<Rightarrow> string option \<Rightarrow>
     session_manager \<Rightarrow> (session_error, session_manager) result" where
  "branched_copy js_text v vs header uuid cwd file_name leaf s =
     (case leaf of
        Some leaf \<Rightarrow>
          (case create_branched_session js_text v vs header leaf s of
             (_, Inl e) \<Rightarrow> Inl e
           | (copy, Inr _) \<Rightarrow> Inr copy)
      | None \<Rightarrow>
          (case start_session v uuid cwd
                  \<lparr>option_id = None,
                   parent_session = (if persist s \<and> has_file s then Some file_name else None)\<rparr> s of
             (_, Inl e) \<Rightarrow> Inl e
           | (copy, Inr _) \<Rightarrow> Inr copy))"

section \<open>Invariants\<close>

text \<open>The file is never ahead of memory: its lines are a subsequence of the manager's entries, in
  order, and a manager that does not persist has written none.\<close>

definition session_inv :: "session_manager \<Rightarrow> bool" where
  "session_inv s \<longleftrightarrow>
     wf_manager s \<and> subseq (disk s) (file_entries s) \<and> (persist s \<or> disk s = [])"

lemma persist_last_disk:
  assumes "file_entries s = fs @ [x]" and "subseq (disk s) fs" and "persist s \<or> disk s = []"
  shows "subseq (disk (fst (persist_last v s))) (file_entries (fst (persist_last v s)))"
    and "persist (fst (persist_last v s)) = persist s"
    and "persist s \<or> disk (fst (persist_last v s)) = []"
proof -
  have "subseq (disk s) (fs @ [x])" using assms(2) by (rule list_emb_prefix)
  moreover have "subseq (disk s @ [x]) (fs @ [x])" using assms(2) by simp
  ultimately show "subseq (disk (fst (persist_last v s))) (file_entries (fst (persist_last v s)))"
    using assms(1) by (auto simp: persist_last_def split: sum.splits)
  show "persist (fst (persist_last v s)) = persist s"
    "persist s \<or> disk (fst (persist_last v s)) = []"
    using assms(3) by (auto simp: persist_last_def split: sum.splits)
qed

lemma inv_append_entry [inv_intros]:
  assumes "session_inv s" and "map_of (by_id s) i = None"
  shows "session_inv (fst (append_entry v i m s))"
proof -
  obtain s' r where a: "append_entry v i m s = (s', r)" by fastforce
  then have s': "s' = fst (persist_last v (push_entry i m s))"
    by (auto simp: append_entry_def split: prod.splits sum.splits)
  have "file_entries (push_entry i m s) = file_entries s @ [Entry \<lparr>entry_id = i, raw = m\<rparr>]"
    "disk (push_entry i m s) = disk s" "persist (push_entry i m s) = persist s"
    by (simp_all add: push_entry_def)
  with persist_last_disk [of "push_entry i m s"] assms wf_append_entry [OF _ assms(2) a]
  show ?thesis by (simp add: a session_inv_def s')
qed

lemma inv_leaf [inv_intros]:
  "session_inv s \<Longrightarrow> (\<And>i. x = Some i \<Longrightarrow> map_of (by_id s) i \<noteq> None) \<Longrightarrow> session_inv (s\<lparr>leaf_id := x\<rparr>)"
  by (auto simp: session_inv_def wf_manager_def map_of_eq_None_iff)

lemma fresh_env_leaf [simp]: "fresh_env v (s\<lparr>leaf_id := x\<rparr>) = fresh_env v s"
  by (simp add: fresh_env_def)

text \<open>Rebuilding the index, whatever the file holds.\<close>

definition index_inv :: "file_entry list \<Rightarrow> nat \<Rightarrow> session_manager \<Rightarrow> bool" where
  "index_inv fs k s \<longleftrightarrow>
     file_entries s = fs \<and> distinct (map fst (by_id s)) \<and>
     (\<forall>(i, n) \<in> set (by_id s). n < k \<and> (\<exists>e. fs ! n = Entry e \<and> entry_id e = i)) \<and>
     (\<forall>n < k. \<forall>e. fs ! n = Entry e \<longrightarrow> entry_id e \<in> fst ` set (by_id s)) \<and>
     (\<forall>i. leaf_id s = Some i \<longrightarrow> i \<in> fst ` set (by_id s))"

lemma index_line_frame:
  "by_id (index_line js s (n, f)) =
     (case f of Entry e \<Rightarrow> imap_insert (entry_id e) n (by_id s) | _ \<Rightarrow> by_id s)"
  "leaf_id (index_line js s (n, f)) = (case f of Entry e \<Rightarrow> Some (entry_id e) | _ \<Rightarrow> leaf_id s)"
  "file_entries (index_line js s (n, f)) = file_entries s"
  "disk (index_line js s (n, f)) = disk s" "persist (index_line js s (n, f)) = persist s"
  "flushed (index_line js s (n, f)) = flushed s" "has_file (index_line js s (n, f)) = has_file s"
  by (auto simp: index_line_def Let_def split: file_entry.splits option.splits)

lemma index_inv_step:
  assumes "index_inv fs k s"
  shows "index_inv fs (Suc k) (index_line js s (k, fs ! k))"
proof (cases "fs ! k")
  case (Entry e)
  let ?m = "imap_insert (entry_id e) k (by_id s)"
  have keys: "fst ` set ?m = insert (entry_id e) (fst ` set (by_id s))" by (rule imap_insert_keys)
  have "distinct (map fst ?m)" using assms by (simp add: index_inv_def imap_insert_distinct)
  moreover have "\<forall>(i, n) \<in> set ?m. n < Suc k \<and> (\<exists>e. fs ! n = Entry e \<and> entry_id e = i)"
    using assms Entry imap_insert_subset [of "entry_id e" k "by_id s"]
    by (fastforce simp: index_inv_def)
  moreover have "\<forall>n < Suc k. \<forall>e. fs ! n = Entry e \<longrightarrow> entry_id e \<in> fst ` set ?m"
    unfolding keys using assms Entry by (auto simp: index_inv_def less_Suc_eq)
  ultimately show ?thesis
    using assms unfolding index_inv_def index_line_frame by (simp add: Entry keys)
qed (use assms in \<open>auto simp: index_inv_def index_line_frame less_Suc_eq\<close>)

lemma index_inv_foldl:
  assumes "index_inv fs 0 s" and "k \<le> length fs"
  shows "index_inv fs k (foldl (index_line js) s (enumerate 0 (take k fs)))"
  using assms(2)
proof (induction k)
  case 0
  with assms show ?case by simp
next
  case (Suc k)
  then have "take (Suc k) fs = take k fs @ [fs ! k]" by (simp add: take_Suc_conv_app_nth)
  then show ?case using Suc index_inv_step by (simp add: enumerate_append_eq)
qed

lemma foldl_index_frame:
  "disk (foldl (index_line js) s xs) = disk s" "persist (foldl (index_line js) s xs) = persist s"
  "flushed (foldl (index_line js) s xs) = flushed s" "has_file (foldl (index_line js) s xs) = has_file s"
  "file_entries (foldl (index_line js) s xs) = file_entries s"
  by (induction xs arbitrary: s) (auto simp: index_line_frame)

lemma build_index_frame [simp]:
  "disk (build_index js s) = disk s" "persist (build_index js s) = persist s"
  "flushed (build_index js s) = flushed s" "has_file (build_index js s) = has_file s"
  "file_entries (build_index js s) = file_entries s"
  by (simp_all add: build_index_def foldl_index_frame)

lemma wf_build_index [inv_intros]: "wf_manager (build_index js s)"
proof -
  let ?s = "s\<lparr>by_id := [], labels_by_id := [], label_timestamps_by_id := [], leaf_id := None\<rparr>"
  have "index_inv (file_entries s) 0 ?s" by (simp add: index_inv_def)
  from index_inv_foldl [OF this, of "length (file_entries s)" js]
  have "index_inv (file_entries s) (length (file_entries s)) (build_index js s)"
    by (simp add: build_index_def)
  then show ?thesis by (auto simp: index_inv_def wf_manager_def in_set_conv_nth)
qed

lemma inv_create_branched [inv_intros]:
  assumes "session_inv s"
  shows "session_inv (fst (create_branched_session js v vs header leaf s))"
proof (cases "branch_entries (Some leaf) s = []")
  case True
  with assms show ?thesis by (simp add: create_branched_session_def)
next
  case False
  have wf: "wf_manager (t\<lparr>disk := x, flushed := y\<rparr>) = wf_manager t"
    "wf_manager (t\<lparr>disk := x\<rparr>) = wf_manager t" "wf_manager (t\<lparr>flushed := y\<rparr>) = wf_manager t" for t x y
    by (simp_all add: wf_manager_def)
  have disk: "\<not> persist s \<Longrightarrow> disk s = []" using assms by (simp add: session_inv_def)
  show ?thesis
    using False disk
    by (simp add: create_branched_session_def Let_def rewrite_file_def session_inv_def wf wf_build_index
        split: sum.splits)
qed

section \<open>Steps\<close>

text \<open>Any operation, with any draws that keep ids unused and any outcome of the writes.\<close>

inductive session_step :: "session_manager \<Rightarrow> session_manager \<Rightarrow> bool" where
  message: "fresh_env v s \<Longrightarrow> session_step s (fst (append_message v m s))"
| thinking: "fresh_env v s \<Longrightarrow> session_step s (fst (append_thinking_level_change v level s))"
| model: "fresh_env v s \<Longrightarrow> session_step s (fst (append_model_change v provider model s))"
| usage: "fresh_env v s \<Longrightarrow> session_step s (fst (append_usage v kind provider model u note s))"
| compaction: "fresh_env v s \<Longrightarrow>
    session_step s (fst (append_compaction v now summary kept_id tokens details hook u system s))"
| custom: "fresh_env v s \<Longrightarrow> session_step s (fst (append_custom_entry v t d s))"
| info: "fresh_env v s \<Longrightarrow> session_step s (fst (append_session_info v name s))"
| custom_message: "fresh_env v s \<Longrightarrow>
    session_step s (fst (append_custom_message_entry v t content display details s))"
| edit: "fresh_env v s \<Longrightarrow> session_step s (fst (append_context_edit v target r s))"
| label: "fresh_env v s \<Longrightarrow> session_step s (fst (append_label_change v target l s))"
| move: "session_step s (fst (branch i s))"
| reset: "session_step s (reset_leaf s)"
| summary: "fresh_env v s \<Longrightarrow>
    session_step s (fst (branch_with_summary v from text details hook u s))"
| start: "session_step s (fst (start_session v uuid cwd options s))"
| rewrite: "session_step s (fst (rewrite_file v s))"
| fork: "session_step s (fst (create_branched_session js v vs header leaf s))"

lemma inv_next_id:
  "session_inv s \<Longrightarrow> fresh_env v s \<Longrightarrow> session_inv (fst (append_entry v (next_id v s) m s))"
  by (rule inv_append_entry) (simp_all add: next_id_fresh)

lemma fst_case_result:
  "fst (case x of (s, Inl e) \<Rightarrow> (s, f e) | (s, Inr y) \<Rightarrow> (s, g y)) = fst x"
  by (simp split: prod.split sum.split)

lemma inv_labels:
  "session_inv (s\<lparr>labels_by_id := x, label_timestamps_by_id := y\<rparr>) = session_inv s"
  by (simp add: session_inv_def wf_manager_def)

lemma inv_label_change:
  "session_inv s \<Longrightarrow> fresh_env v s \<Longrightarrow> session_inv (fst (append_label_change v target l s))"
  using inv_next_id [of s v]
  by (auto simp: append_label_change_def Let_def inv_labels split: prod.splits sum.splits option.splits)
    (metis fst_conv)+

lemma inv_summary:
  assumes "session_inv s" and "fresh_env v s"
  shows "session_inv (fst (branch_with_summary v from text details hook u s))"
proof (cases "from \<noteq> None \<and> map_of (by_id s) (the from) = None")
  case False
  then have "session_inv (s\<lparr>leaf_id := from\<rparr>)" using assms(1) by (intro inv_leaf) auto
  moreover have "fresh_env v (s\<lparr>leaf_id := from\<rparr>)" using assms(2) by simp
  ultimately show ?thesis using False inv_next_id by (auto simp: branch_with_summary_def Let_def)
qed (use assms in \<open>simp add: branch_with_summary_def\<close>)

lemma inv_start: "session_inv s \<Longrightarrow> session_inv (fst (start_session v uuid cwd options s))"
  by (auto simp: start_session_def session_inv_def wf_manager_def Let_def split: sum.splits)

lemma inv_rewrite: "session_inv s \<Longrightarrow> session_inv (fst (rewrite_file v s))"
  by (auto simp: rewrite_file_def session_inv_def wf_manager_def split: sum.splits)

lemma inv_move: "session_inv s \<Longrightarrow> session_inv (fst (branch i s))"
  using inv_leaf [of s "Some i"] by (auto simp: branch_def)

lemma inv_edit:
  "session_inv s \<Longrightarrow> fresh_env v s \<Longrightarrow> session_inv (fst (append_context_edit v target r s))"
  using inv_next_id [of s v]
  by (auto simp: append_context_edit_def context_edit_def Let_def split: option.splits)

lemma inv_usage:
  "session_inv s \<Longrightarrow> fresh_env v s \<Longrightarrow>
     session_inv (fst (append_usage v kind provider model u note s))"
  by (simp add: append_usage_def Let_def fst_case_result inv_next_id)

lemma session_inv_step: "session_step s s' \<Longrightarrow> session_inv s \<Longrightarrow> session_inv s'"
proof (induction rule: session_step.induct)
  case (message v s m)
  then show ?case by (auto simp: append_message_def inv_next_id split: option.splits)
next
  case (reset s)
  then show ?case using inv_leaf [of s None] by (simp add: reset_leaf_def)
qed (simp_all add: append_thinking_level_change_def append_model_change_def append_compaction_def
    append_custom_entry_def append_session_info_def append_custom_message_entry_def inv_next_id
    inv_label_change inv_summary inv_start inv_rewrite inv_move inv_edit inv_usage
    inv_create_branched Let_def)

section \<open>Properties\<close>



end
