(* ===== verification/SessionFork.thy ===== *)
theory SessionFork
  imports SessionOps
begin

text \<open>
  What branching into a new session keeps (\<open>create_branched_session\<close> of \<open>session/manager.rs\<close>):
  the path without its labels, re-chained, with the labels carried over at its end; and what a
  failed first write of the new file leaves behind.
\<close>

section \<open>Chains\<close>

text \<open>Entries each of whose parents is the entry before it; the first one's is \<open>p\<close>.\<close>

fun chain :: "string option \<Rightarrow> session_entry list \<Rightarrow> bool" where
  "chain p [] = True"
| "chain p (e # es) \<longleftrightarrow> parent_id e = p \<and> chain (Some (entry_id e)) es"

definition last_id :: "string option \<Rightarrow> session_entry list \<Rightarrow> string option" where
  "last_id p es = (if es = [] then p else Some (entry_id (last es)))"

lemma last_id_append [simp]: "last_id p (xs @ ys) = last_id (last_id p xs) ys"
  by (simp add: last_id_def)

lemma last_id_Cons [simp]: "last_id p (e # es) = last_id (Some (entry_id e)) es"
  by (simp add: last_id_def)

lemma chain_append: "chain p (xs @ ys) \<longleftrightarrow> chain p xs \<and> chain (last_id p xs) ys"
  by (induction xs arbitrary: p) (auto simp: last_id_def)

lemma path_walk_chain:
  assumes "chain None es" and "\<And>e. e \<in> set es \<Longrightarrow> map_of idx (entry_id e) = Some e"
    and "distinct (map entry_id es)" and "\<And>e. e \<in> set es \<Longrightarrow> entry_id e \<noteq> []"
    and "set (map entry_id es) \<inter> set seen = {}"
  shows "path_walk idx seen (if es = [] then None else Some (last es)) = rev es"
  using assms
proof (induction es arbitrary: seen rule: rev_induct)
  case (snoc e es)
  have next': "Option.bind (parent_link e) (map_of idx) = (if es = [] then None else Some (last es))"
  proof (cases "es = []")
    case False
    then have "parent_id e = Some (entry_id (last es))"
      using snoc.prems(1) by (simp add: chain_append last_id_def)
    moreover have "last es \<in> set es" using False by simp
    ultimately show ?thesis using snoc.prems(2,4) False by (simp add: parent_link_def)
  qed (use snoc.prems(1) in \<open>simp add: parent_link_def\<close>)
  have "path_walk idx (entry_id e # seen) (if es = [] then None else Some (last es)) = rev es"
    by (rule snoc.IH) (use snoc.prems in \<open>auto simp: chain_append\<close>)
  then show ?case using snoc.prems(5) by (simp add: next')
qed simp

section \<open>The path kept\<close>

lemma set_member_get:
  "entry_get (set_member k v e) k' = (if k = k' then Some v else entry_get e k')"
  by (auto simp: set_member_def entry_get_def Let_def split: option.splits)

lemma set_member_id: "k \<noteq> ''id'' \<Longrightarrow> entry_id (set_member k v e) = entry_id e"
  by (simp add: set_member_def)

lemma parent_id_get: "parent_id e = Option.bind (entry_get e ''parentId'') as_str"
  by (simp add: parent_id_def str_member_def entry_get_def)

definition is_label :: "session_entry \<Rightarrow> bool" where
  "is_label e \<longleftrightarrow> entry_type e = ''label''"

text \<open>What re-chaining leaves of one entry: its id and every member but two.\<close>

definition same_entry :: "session_entry \<Rightarrow> session_entry \<Rightarrow> bool" where
  "same_entry e f \<longleftrightarrow> entry_id e = entry_id f \<and>
     (\<forall>k. k \<noteq> ''parentId'' \<and> k \<noteq> ''firstKeptEntryId'' \<longrightarrow> entry_get e k = entry_get f k)"

definition relink_inv :: "session_entry list \<Rightarrow> relink \<Rightarrow> bool" where
  "relink_inv path x \<longleftrightarrow>
     chain None (kept x) \<and> parent x = last_id None (kept x) \<and>
     list_all2 same_entry (kept x) (filter (\<lambda>e. \<not> is_label e) path)"

lemma relink_copy_same: "same_entry (relink_copy replaced p e) e"
  by (auto simp: relink_copy_def Let_def same_entry_def set_member_get set_member_id
      split: option.splits)

lemma relink_copy_parent: "parent_id (relink_copy replaced p e) = p"
  by (auto simp: relink_copy_def Let_def parent_id_get set_member_get split: option.splits)

lemma relink_inv_step:
  assumes "relink_inv path x"
  shows "relink_inv (path @ [e]) (relink_step e x)"
proof (cases "is_label e")
  case True
  with assms show ?thesis by (simp add: relink_inv_def relink_step_def is_label_def)
next
  case False
  let ?r = "fold (\<lambda>l m. imap_insert l (entry_id e) m) (pending_labels x) (replacement_by_label x)"
  have "entry_id (relink_copy ?r (parent x) e) = entry_id e"
    using relink_copy_same [of ?r "parent x" e] by (simp add: same_entry_def)
  with assms False relink_copy_same [of ?r "parent x" e] show ?thesis
    by (simp add: relink_inv_def relink_step_def is_label_def Let_def chain_append relink_copy_parent
        list_all2_appendI last_id_def)
qed

lemma relink_inv_path:
  "relink_inv path (fold relink_step path
     \<lparr>kept = [], replacement_by_label = [], pending_labels = [], parent = None\<rparr>)"
proof (induction path rule: rev_induct)
  case Nil
  then show ?case by (simp add: relink_inv_def last_id_def)
next
  case (snoc e path)
  then show ?case using relink_inv_step by simp
qed

lemma relink_path_chain: "chain None (relink_path path)"
  using relink_inv_path [of path] by (simp add: relink_path_def relink_inv_def)

lemma relink_path_same:
  "list_all2 same_entry (relink_path path) (filter (\<lambda>e. \<not> is_label e) path)"
  using relink_inv_path [of path] by (simp add: relink_path_def relink_inv_def)

lemma carry_labels_chain: "chain p (carry_labels vs stamps held n ids p ls)"
  by (induction vs stamps held n ids p ls rule: carry_labels.induct)
    (auto simp: Let_def parent_id_def str_member_def split: option.splits)

lemma carry_labels_held: "carry_labels vs stamps [] n ids p ls = []"
  by (induction ls arbitrary: n) auto

section \<open>The branch of a rebuilt file\<close>

lemma foldl_index_leaf:
  "leaf_id (foldl (index_line js) s (enumerate n (map Entry es))) =
     (if es = [] then leaf_id s else Some (entry_id (last es)))"
  by (induction es arbitrary: s n) (simp_all add: index_line_frame)

lemma build_index_leaf:
  assumes "file_entries s = Header h # map Entry es"
  shows "leaf_id (build_index js s) = (if es = [] then None else Some (entry_id (last es)))"
  unfolding build_index_def assms by (simp add: foldl_index_leaf index_line_frame)

lemma build_index_entry:
  assumes fs: "file_entries s = Header h # map Entry es" and "distinct (map entry_id es)" and "e \<in> set es"
  shows "entry_at (build_index js s) (entry_id e) = Some e"
proof -
  let ?t = "build_index js s"
  have wf: "wf_manager ?t" by (rule wf_build_index)
  have "Entry e \<in> set (file_entries ?t)" using fs assms(3) by simp
  with wf have "entry_id e \<in> fst ` set (by_id ?t)" unfolding wf_manager_def by blast
  then obtain n where n: "map_of (by_id ?t) (entry_id e) = Some n"
    by (cases "map_of (by_id ?t) (entry_id e)") (auto simp: map_of_eq_None_iff)
  from wf_entry_at [OF wf n] obtain f where f: "entry_at ?t (entry_id e) = Some f"
    "file_entries ?t ! n = Entry f" "entry_id f = entry_id e" by blast
  have "n < length (file_entries ?t)"
    using wf n by (auto simp: wf_manager_def dest!: map_of_SomeD)
  then have "Entry f \<in> set (file_entries ?t)" using f(2) nth_mem by metis
  then have "f \<in> set es" using fs by auto
  with f(3) assms(2,3) have "f = e" by (auto simp: distinct_map inj_on_def)
  with f(1) show ?thesis by simp
qed

lemma branch_of_chain:
  assumes fs: "file_entries s = Header h # map Entry es" and "chain None es"
    and dist: "distinct (map entry_id es)" and ne: "[] \<notin> set (map entry_id es)"
  shows "branch_entries None (build_index js s) = es"
proof -
  let ?t = "build_index js s"
  note get = manager_index_get [OF wf_build_index, of js s]
  have last_in: "last es \<in> set es" if "es \<noteq> []" using that by simp
  have pos: "entry_id e \<noteq> []" if "e \<in> set es" for e
    using ne imageI [OF that, of entry_id] by auto
  have named: "entry_id (last es) \<noteq> []" if "es \<noteq> []"
    using that by (intro pos last_in)
  have "current_entry ?t = (if es = [] then None else Some (last es))"
    using build_index_entry [OF fs dist, of "last es" js] last_in named
    by (auto simp: current_entry_def build_index_leaf [OF fs])
  moreover have "path_walk (manager_index ?t) [] (if es = [] then None else Some (last es)) = rev es"
    using assms(2) dist pos build_index_entry [OF fs dist]
    by (intro path_walk_chain) (simp_all add: get)
  ultimately show ?thesis by (simp add: branch_entries_leaf)
qed

section \<open>Properties\<close>

text \<open>The entries of the new session: the path without its labels, and the labels carried over.\<close>

definition fork_entries :: "(nat \<Rightarrow> env) \<Rightarrow> string \<Rightarrow> session_manager \<Rightarrow> session_entry list" where
  "fork_entries vs leaf s =
     (let path = relink_path (branch_entries (Some leaf) s) in
      path @ carry_labels vs (label_timestamps_by_id s) path 0 (map entry_id path)
        (case last_id None path of Some i \<Rightarrow> if i = [] then None else Some i | None \<Rightarrow> None)
        (labels_by_id s))"

lemma fork_file:
  assumes "branch_entries (Some leaf) s \<noteq> []"
    and "create_branched_session js v vs header leaf s = (s', r)"
  shows "\<exists>t. file_entries t = Header header # map Entry (fork_entries vs leaf s) \<and>
    branch_entries None s' = branch_entries None (build_index js t)"
proof -
  let ?t = "s\<lparr>file_entries := Header header # map Entry (fork_entries vs leaf s)\<rparr>"
  let ?u = "?t\<lparr>has_file := True, disk := []\<rparr>"
  let ?t' = "if persist s then ?u else ?t"
  have fs: "file_entries ?t' = Header header # map Entry (fork_entries vs leaf s)" by simp
  have "file_entries s' = file_entries (build_index js ?t')"
    "by_id s' = by_id (build_index js ?t')" "leaf_id s' = leaf_id (build_index js ?t')"
    using assms
    by (auto simp: create_branched_session_def fork_entries_def last_id_def Let_def rewrite_file_def
        split: sum.splits if_splits)
  from branch_entries_cong [OF this] fs show ?thesis by blast
qed

lemma fork_chain:
  assumes "[] \<notin> set (map entry_id (fork_entries vs leaf s))"
  shows "chain None (fork_entries vs leaf s)"
proof -
  let ?path = "relink_path (branch_entries (Some leaf) s)"
  have "[] \<notin> entry_id ` set ?path" using assms by (auto simp: fork_entries_def Let_def)
  then have "entry_id (last ?path) \<noteq> []" if "?path \<noteq> []"
    using imageI [OF last_in_set [OF that], of entry_id] by auto
  then have "last_id None ?path \<noteq> Some []" by (auto simp: last_id_def)
  then have "(case last_id None ?path of Some i \<Rightarrow> if i = [] then None else Some i | None \<Rightarrow> None) =
      last_id None ?path"
    by (auto split: option.splits)
  then show ?thesis
    by (simp add: fork_entries_def Let_def chain_append relink_path_chain carry_labels_chain)
qed


definition sample_line :: "string \<Rightarrow> json \<Rightarrow> session_entry" where
  "sample_line i p =
     \<lparr>entry_id = i,
      raw = [(''type'', JString ''message''), (''id'', JString i), (''parentId'', p),
             (''message'', JObject [(''role'', JString ''user'')])]\<rparr>"

definition forked_from :: "bool \<Rightarrow> session_manager" where
  "forked_from p =
     build_index (\<lambda>_. '''')
       ((construct_empty p)\<lparr>flushed := p, has_file := p,
          file_entries := Header [] # map Entry [sample_line ''a'' JNull, sample_line ''b'' (JString ''a'')]\<rparr>)"

lemma forked_from_branch:
  "branch_entries (Some ''b'') (forked_from p) = [sample_line ''a'' JNull, sample_line ''b'' (JString ''a'')]"
proof -
  let ?es = "[sample_line ''a'' JNull, sample_line ''b'' (JString ''a'')]"
  let ?s = "(construct_empty p)\<lparr>flushed := p, has_file := p, file_entries := Header [] # map Entry ?es\<rparr>"
  have "chain None ?es" by (simp add: sample_line_def parent_id_def str_member_def)
  then have "branch_entries None (forked_from p) = ?es"
    unfolding forked_from_def by (intro branch_of_chain) (auto simp: sample_line_def)
  moreover have "leaf_id (forked_from p) = Some ''b''"
    using build_index_leaf [of ?s "[]" ?es] by (simp add: forked_from_def sample_line_def)
  ultimately show ?thesis by (simp add: branch_entries_def)
qed

lemma forked_from_labels: "labels_by_id (forked_from p) = []"
  by (simp add: forked_from_def build_index_def index_line_def sample_line_def entry_type_def
      str_member_def Let_def)

lemma forked_from_entries:
  "fork_entries vs ''b'' (forked_from p) = [sample_line ''a'' JNull, sample_line ''b'' (JString ''a'')]"
  by (simp add: fork_entries_def forked_from_branch forked_from_labels relink_path_def relink_step_def
      relink_copy_def sample_line_def entry_type_def str_member_def set_member_def entry_get_def Let_def)


text \<open>C28. A branch whose first write fails loses its header: when \<open>create_branched_session\<close> on a
  flushed session cannot write the new file, it fails and keeps the manager flushed, so the next
  append succeeds and leaves a file holding that one entry, without the session header or the
  path.\<close>

theorem failed_branch_headerless:
  assumes "persist s" and "flushed s" and "branch_entries (Some leaf) s \<noteq> []"
    and "has_conversation (s\<lparr>file_entries := map Entry (fork_entries vs leaf s)\<rparr>)"
    and "hold_writer v = Inr ()" and "write_bytes v = Inl msg"
    and "hold_writer v' = Inr ()" and "write_bytes v' = Inr ()"
    and "create_branched_session js v vs header leaf s = (s1, r)"
    and "append_entry v' i m s1 = (s2, r')"
  shows "r = Inl (IoError msg) \<and> r' = Inr i \<and> disk s2 = [Entry \<lparr>entry_id = i, raw = m\<rparr>]"
proof -
  have conv: "has_conversation t" if "file_entries t = Header header # map Entry (fork_entries vs leaf s)" for t
    using assms(4) that by (simp add: has_conversation_def)
  let ?t = "build_index js (s\<lparr>file_entries := Header header # map Entry (fork_entries vs leaf s),
    has_file := True, disk := []\<rparr>)"
  have "has_conversation ?t" by (rule conv) simp
  then have "s1 = ?t \<and> r = Inl (IoError msg)"
    using assms(1,3,5,6,9)
    by (simp add: create_branched_session_def fork_entries_def last_id_def Let_def rewrite_file_def)
  then show ?thesis
    using assms(1,2,7,8,10) by (auto simp: append_entry_def persist_last_def push_entry_def)
qed

lemma failed_branch_headerless_witness:
  "disk (fst (append_entry sample_env ''c'' [] (fst (create_branched_session (\<lambda>_. '''')
      (sample_env\<lparr>write_bytes := Inl ''no space''\<rparr>) (\<lambda>_. sample_env) [] ''b'' (forked_from True))))) =
     [Entry \<lparr>entry_id = ''c'', raw = []\<rparr>]"
proof -
  let ?bad = "sample_env\<lparr>write_bytes := Inl ''no space''\<rparr>"
  let ?fork = "create_branched_session (\<lambda>_. '''') ?bad (\<lambda>_. sample_env) [] ''b'' (forked_from True)"
  let ?append = "append_entry sample_env ''c'' [] (fst ?fork)"
  have "has_conversation ((forked_from True)\<lparr>file_entries :=
      map Entry (fork_entries (\<lambda>_. sample_env) ''b'' (forked_from True))\<rparr>)"
    by (simp add: forked_from_entries has_conversation_def sample_line_def message_role_def
        entry_type_def str_member_def)
  moreover have "persist (forked_from True)" "flushed (forked_from True)"
    by (simp_all add: forked_from_def construct_empty_def)
  moreover have "branch_entries (Some ''b'') (forked_from True) \<noteq> []" by (simp add: forked_from_branch)
  moreover have "hold_writer ?bad = Inr ()" "write_bytes ?bad = Inl ''no space''"
    "hold_writer sample_env = Inr ()" "write_bytes sample_env = Inr ()"
    by (simp_all add: sample_env_def)
  ultimately show ?thesis
    using failed_branch_headerless [of "forked_from True" "''b''" "\<lambda>_. sample_env" ?bad "''no space''"
      sample_env "\<lambda>_. ''''" "[]" "fst ?fork" "snd ?fork" "''c''" "[]" "fst ?append" "snd ?append"]
    by simp
qed

end
