(* ===== verification/RunControl.thy ===== *)
theory RunControl
  imports Prelude
begin

text \<open>
  The shared allowance and cancellation of one run (\<open>crates/bake-agent/src/run_control.rs\<close>). The
  control's methods are functions of the moment they run at; the admission of model calls by
  concurrent tasks, with the observer's durable write driven by whichever task polls it, is a
  step relation. Times are ticks of the monotonic clock.
\<close>

section \<open>Limits and outcomes\<close>

record run_limits =
  deadline :: "nat option"
  max_model_calls :: "nat option"

datatype budget_limit = Deadline | ModelCalls

datatype run_outcome =
    FinishedTurn
  | RunCancelled
  | BudgetExhausted budget_limit
  | RunFailed string

fun outcome_is_cancelled :: "run_outcome \<Rightarrow> bool" where
  "outcome_is_cancelled RunCancelled = True"
| "outcome_is_cancelled (BudgetExhausted _) = True"
| "outcome_is_cancelled _ = False"

fun outcome_display :: "run_outcome \<Rightarrow> string" where
  "outcome_display FinishedTurn = ''Finished turn''"
| "outcome_display RunCancelled = ''Run cancelled''"
| "outcome_display (BudgetExhausted Deadline) = ''Run deadline reached''"
| "outcome_display (BudgetExhausted ModelCalls) = ''Run model-call allowance exhausted''"
| "outcome_display (RunFailed message) = message"

datatype model_call_kind = AgentCall | SummaryCall | VerificationCall

record model =
  model_provider :: string
  model_id :: string

record model_call_admission =
  ordinal :: nat
  kind :: model_call_kind
  admitted_provider :: string
  admitted_model :: string

fun is_failed :: "run_outcome option \<Rightarrow> bool" where
  "is_failed (Some (RunFailed _)) = True"
| "is_failed _ = False"

section \<open>The control\<close>

record control =
  limits :: run_limits
  observed :: bool
  calls :: nat
  stopped_by :: "run_outcome option"
  stopped_time :: "nat option"
  aborted :: bool

definition restore :: "run_limits \<Rightarrow> nat \<Rightarrow> bool \<Rightarrow> control" where
  "restore l n obs =
     \<lparr>limits = l, observed = obs, calls = n, stopped_by = None, stopped_time = None,
      aborted = False\<rparr>"

definition new_control :: "run_limits \<Rightarrow> control" where
  "new_control l = restore l 0 False"

definition calls_fit :: "control \<Rightarrow> nat \<Rightarrow> nat \<Rightarrow> bool" where
  "calls_fit c used additional =
     (case checked_u64 (used + additional) of
        None \<Rightarrow> False
      | Some used_after \<Rightarrow>
          (case max_model_calls (limits c) of None \<Rightarrow> True | Some top_calls \<Rightarrow> used_after \<le> top_calls))"

definition set_stopped :: "nat \<Rightarrow> run_outcome \<Rightarrow> control \<Rightarrow> control" where
  "set_stopped now outcome c =
     c\<lparr>stopped_by := Some outcome,
       stopped_time := (case stopped_time c of None \<Rightarrow> Some now | Some t \<Rightarrow> Some t)\<rparr>"

definition stop :: "nat \<Rightarrow> run_outcome \<Rightarrow> bool \<Rightarrow> control \<Rightarrow> control \<times> run_outcome" where
  "stop now outcome required_failure c =
     (let c = (if stopped_by c = None \<or> required_failure \<and> \<not> is_failed (stopped_by c)
               then set_stopped now outcome c else c)
      in (c\<lparr>aborted := True\<rparr>, (case stopped_by c of Some x \<Rightarrow> x | None \<Rightarrow> outcome)))"

definition cancel :: "nat \<Rightarrow> control \<Rightarrow> control" where
  "cancel now c = fst (stop now RunCancelled False c)"

definition fail :: "nat \<Rightarrow> string \<Rightarrow> control \<Rightarrow> control \<times> run_outcome" where
  "fail now message c = stop now (RunFailed message) True c"

definition expired :: "nat \<Rightarrow> control \<Rightarrow> bool" where
  "expired now c \<longleftrightarrow> (case deadline (limits c) of None \<Rightarrow> False | Some d \<Rightarrow> d \<le> now)"

definition stopped :: "nat \<Rightarrow> control \<Rightarrow> control \<times> run_outcome option" where
  "stopped now c =
     (let c = (if expired now c then fst (stop now (BudgetExhausted Deadline) False c) else c)
      in (c, stopped_by c))"

definition settle :: "nat \<Rightarrow> run_outcome \<Rightarrow> control \<Rightarrow> control \<times> run_outcome" where
  "settle now outcome c =
     (case stopped now c of
        (c, Some x) \<Rightarrow> (c, x)
      | (c, None) \<Rightarrow> if outcome = FinishedTurn then (c, outcome) else stop now outcome False c)"

definition finish_interval :: "nat \<Rightarrow> run_outcome \<Rightarrow> control \<Rightarrow> control \<times> run_outcome" where
  "finish_interval now outcome c =
     (let c = (if stopped_by c = None
               then set_stopped now (if expired now c then BudgetExhausted Deadline else outcome) c
               else c)
      in (c\<lparr>aborted := True\<rparr>, (case stopped_by c of Some x \<Rightarrow> x | None \<Rightarrow> RunCancelled)))"

definition has_model_call_allowance :: "nat \<Rightarrow> nat \<Rightarrow> control \<Rightarrow> control \<times> bool" where
  "has_model_call_allowance now n c =
     (case stopped now c of
        (c, Some _) \<Rightarrow> (c, False)
      | (c, None) \<Rightarrow> (c, calls_fit c (calls c) n))"

text \<open>\<open>reserve\<close>: the debit under the state lock; speculative work that does not fit is \<open>Inr None\<close>
  and stops nothing.\<close>

definition refuse_call ::
  "nat \<Rightarrow> nat option \<Rightarrow> control \<Rightarrow> control \<times> (run_outcome, model_call_admission option) result" where
  "refuse_call now spare c =
     (if spare \<noteq> None then (c, Inr None)
      else map_prod id Inl (stop now (BudgetExhausted ModelCalls) False c))"

definition reserve ::
  "nat \<Rightarrow> model_call_kind \<Rightarrow> model \<Rightarrow> nat option \<Rightarrow> control \<Rightarrow>
     control \<times> (run_outcome, model_call_admission option) result" where
  "reserve now k m spare c =
     (case stopped now c of
        (c, Some outcome) \<Rightarrow> (c, Inl outcome)
      | (c, None) \<Rightarrow>
          (case checked_u64 ((case spare of None \<Rightarrow> 0 | Some n \<Rightarrow> n) + 1) of
             Some additional \<Rightarrow>
               if calls_fit c (calls c) additional
               then (c\<lparr>calls := calls c + 1\<rparr>,
                     Inr (Some \<lparr>ordinal = calls c + 1, kind = k,
                                admitted_provider = model_provider m, admitted_model = model_id m\<rparr>))
               else refuse_call now spare c
           | None \<Rightarrow> refuse_call now spare c))"

section \<open>Admission by concurrent tasks\<close>

datatype task =
    Idle
  | Asking model_call_kind model "nat option"  \<comment> \<open>in the loop of \<open>admit\<close>\<close>
  | Driving model_call_admission               \<comment> \<open>reserved, waiting for its own write\<close>
  | Dispatched model_call_admission            \<comment> \<open>\<open>admit\<close> returned the debit\<close>
  | Skipped                                    \<comment> \<open>speculative work that did not fit\<close>
  | Denied run_outcome

text \<open>\<open>pending\<close> is the write in the admission slot; \<open>reserved\<close>, \<open>synced\<close> and \<open>dispatched\<close> record the
  debits made, the writes that succeeded, and the calls let through, latest first.\<close>

record system =
  ctl :: control
  clock :: nat
  pending :: "model_call_admission option"
  tasks :: "nat \<Rightarrow> task"
  reserved :: "model_call_admission list"
  synced :: "model_call_admission list"
  failed :: "model_call_admission list"
  dispatched :: "model_call_admission list"

definition initial :: "control \<Rightarrow> system" where
  "initial c =
     \<lparr>ctl = c, clock = 0, pending = None, tasks = (\<lambda>_. Idle), reserved = [], synced = [],
      failed = [], dispatched = []\<rparr>"

text \<open>The end of \<open>admit\<close> for task \<open>i\<close> holding \<open>a\<close>: the deadline and the stop are checked once more.\<close>

definition release :: "nat \<Rightarrow> model_call_admission \<Rightarrow> system \<Rightarrow> system" where
  "release i a s =
     (case stopped (clock s) (ctl s) of
        (c, Some outcome) \<Rightarrow> s\<lparr>ctl := c, tasks := (tasks s)(i := Denied outcome)\<rparr>
      | (c, None) \<Rightarrow>
          s\<lparr>ctl := c, tasks := (tasks s)(i := Dispatched a), dispatched := a # dispatched s\<rparr>)"

text \<open>Task \<open>i\<close> finds the admission slot free.\<close>

definition try_reserve :: "nat \<Rightarrow> model_call_kind \<Rightarrow> model \<Rightarrow> nat option \<Rightarrow> system \<Rightarrow> system" where
  "try_reserve i k m spare s =
     (case reserve (clock s) k m spare (ctl s) of
        (c, Inl outcome) \<Rightarrow> s\<lparr>ctl := c, tasks := (tasks s)(i := Denied outcome)\<rparr>
      | (c, Inr None) \<Rightarrow> s\<lparr>ctl := c, tasks := (tasks s)(i := Skipped)\<rparr>
      | (c, Inr (Some a)) \<Rightarrow>
          (let s = s\<lparr>ctl := c, reserved := a # reserved s\<rparr> in
           if observed c then s\<lparr>pending := Some a, tasks := (tasks s)(i := Driving a)\<rparr>
           else release i a s))"

definition write_done :: "model_call_admission \<Rightarrow> (string, unit) result \<Rightarrow> system \<Rightarrow> system" where
  "write_done a r s =
     (case r of
        Inr _ \<Rightarrow> s\<lparr>pending := None, synced := a # synced s\<rparr>
      | Inl e \<Rightarrow> s\<lparr>ctl := fst (fail (clock s) e (ctl s)), pending := None, failed := a # failed s\<rparr>)"

inductive admission_step :: "system \<Rightarrow> system \<Rightarrow> bool" where
  tick: "clock s \<le> t \<Longrightarrow> admission_step s (s\<lparr>clock := t\<rparr>)"
| ask: "tasks s i = Idle \<Longrightarrow> admission_step s (s\<lparr>tasks := (tasks s)(i := Asking k m spare)\<rparr>)"
| enter: "tasks s i = Asking k m spare \<Longrightarrow> pending s = None \<Longrightarrow>
    admission_step s (try_reserve i k m spare s)"
| written: "pending s = Some a \<Longrightarrow> admission_step s (write_done a r s)"
| resume: "tasks s i = Driving a \<Longrightarrow> a \<in> set (synced s) \<Longrightarrow> admission_step s (release i a s)"
| resume_failed: "tasks s i = Driving a \<Longrightarrow> a \<in> set (failed s) \<Longrightarrow> stopped_by (ctl s) = Some x \<Longrightarrow>
    admission_step s (s\<lparr>tasks := (tasks s)(i := Denied x)\<rparr>)"
| denied_waiting: "tasks s i = Asking k m spare \<Longrightarrow> failed s \<noteq> [] \<Longrightarrow> stopped_by (ctl s) = Some x \<Longrightarrow>
    admission_step s (s\<lparr>tasks := (tasks s)(i := Denied x)\<rparr>)"
| dropped: "tasks s i = Driving a \<Longrightarrow>
    admission_step s (s\<lparr>ctl := cancel (clock s) (ctl s), tasks := (tasks s)(i := Denied RunCancelled)\<rparr>)"
| cancelled: "admission_step s (s\<lparr>ctl := cancel (clock s) (ctl s)\<rparr>)"
| failing: "admission_step s (s\<lparr>ctl := fst (fail (clock s) e (ctl s))\<rparr>)"
| settled: "admission_step s (s\<lparr>ctl := fst (settle (clock s) x (ctl s))\<rparr>)"
| finished: "admission_step s (s\<lparr>ctl := fst (finish_interval (clock s) x (ctl s))\<rparr>)"
| checked: "admission_step s (s\<lparr>ctl := fst (stopped (clock s) (ctl s))\<rparr>)"
| preflight: "admission_step s (s\<lparr>ctl := fst (has_model_call_allowance (clock s) n (ctl s))\<rparr>)"



section \<open>Stopping\<close>

text \<open>\<open>later c c'\<close>: the same interval later on. Its limits are unchanged, its calls only grow and
  not after a stop, a stop stays as it was unless a failure replaced a non-failure, and its moment
  is kept.\<close>

definition outranks :: "run_outcome option \<Rightarrow> run_outcome option \<Rightarrow> bool" where
  "outranks x y \<longleftrightarrow> y = x \<or> x = None \<or> \<not> is_failed x \<and> is_failed y"

definition later :: "control \<Rightarrow> control \<Rightarrow> bool" where
  "later c c' \<longleftrightarrow>
     limits c' = limits c \<and> observed c' = observed c \<and> calls c \<le> calls c' \<and>
     outranks (stopped_by c) (stopped_by c') \<and>
     (stopped_time c = None \<or> stopped_time c' = stopped_time c) \<and>
     (stopped_by c = None \<or> calls c' = calls c) \<and> (aborted c \<longrightarrow> aborted c')"

lemma outranks_refl [simp]: "outranks x x"
  by (simp add: outranks_def)

lemma outranks_trans: "outranks x y \<Longrightarrow> outranks y z \<Longrightarrow> outranks x z"
  by (auto simp: outranks_def)

lemma outranks_None: "outranks x None \<longleftrightarrow> x = None"
  by (auto simp: outranks_def)

lemma later_refl [simp]: "later c c"
  by (simp add: later_def)

lemma later_trans:
  assumes cd: "later c d" and de: "later d e"
  shows "later c e"
proof -
  have "outranks (stopped_by c) (stopped_by e)"
    using cd de outranks_trans unfolding later_def by blast
  moreover have "stopped_by c = None \<or> calls e = calls c"
    using cd de outranks_None [of "stopped_by c"] by (cases "stopped_by d") (auto simp: later_def)
  moreover have "stopped_time c = None \<or> stopped_time e = stopped_time c"
    using cd de unfolding later_def by metis
  ultimately show ?thesis using cd de by (simp add: later_def)
qed

lemma later_stop [inv_intros]:
  "(f \<Longrightarrow> is_failed (Some x)) \<Longrightarrow> later c (fst (stop now x f c))"
  by (auto simp: stop_def later_def set_stopped_def outranks_def Let_def split: option.splits)

lemma later_cancel [inv_intros]: "later c (cancel now c)"
  unfolding cancel_def by (rule later_stop) simp

lemma later_fail [inv_intros]: "later c (fst (fail now e c))"
  unfolding fail_def by (rule later_stop) simp

lemma later_stopped [inv_intros]: "later c (fst (stopped now c))"
  by (auto simp: stopped_def Let_def intro: later_stop)

lemma later_settle [inv_intros]: "later c (fst (settle now x c))"
proof -
  obtain d y where d: "stopped now c = (d, y)" by fastforce
  then have cd: "later c d" using later_stopped [of c now] by simp
  have "later c (fst (stop now x False d))"
    using later_trans [OF cd later_stop [of False x d now]] by simp
  with cd show ?thesis by (simp add: settle_def d split: option.split)
qed

lemma later_finish [inv_intros]: "later c (fst (finish_interval now x c))"
  by (auto simp: finish_interval_def later_def set_stopped_def outranks_def Let_def split: option.splits)

lemma later_allowance [inv_intros]: "later c (fst (has_model_call_allowance now n c))"
  using later_stopped [of c now]
  by (auto simp: has_model_call_allowance_def split: prod.splits option.splits)

lemma later_call: "stopped_by c = None \<Longrightarrow> later c (c\<lparr>calls := calls c + 1\<rparr>)"
  by (simp add: later_def)

lemma later_refuse: "later c (fst (refuse_call now spare c))"
  using later_stop [of False "BudgetExhausted ModelCalls" c now]
  by (simp add: refuse_call_def)

lemma refuse_no_debit: "refuse_call now spare c \<noteq> (d, Inr (Some a))"
  by (cases "stop now (BudgetExhausted ModelCalls) False c") (simp add: refuse_call_def)

lemma stopped_result: "stopped now c = (d, x) \<Longrightarrow> stopped_by d = x \<and> later c d"
  using later_stopped [of c now] by (auto simp: stopped_def Let_def)

lemma later_reserve [inv_intros]: "later c (fst (reserve now k m spare c))"
proof -
  obtain d x where d: "stopped now c = (d, x)" by fastforce
  then have cd: "later c d" and x: "stopped_by d = x" using stopped_result by blast+
  show ?thesis
  proof (cases x)
    case None
    with x have "later c (d\<lparr>calls := calls d + 1\<rparr>)" using later_trans [OF cd later_call] by simp
    with later_trans [OF cd later_refuse [of d now spare]] show ?thesis
      by (simp add: reserve_def d None split: option.split)
  qed (use d cd in \<open>simp add: reserve_def\<close>)
qed

text \<open>A debit is made only in an open interval, takes the next ordinal and fits the allowance.\<close>

lemma reserve_debit:
  assumes "reserve now k m spare c = (d, Inr (Some a))"
  shows "stopped_by c = None" and "stopped_by d = None" and "\<not> expired now c"
    and "ordinal a = calls c + 1" and "calls d = calls c + 1" and "limits d = limits c"
    and "observed d = observed c"
    and "\<And>n. max_model_calls (limits c) = Some n \<Longrightarrow> calls d \<le> n"
proof -
  obtain e x where e: "stopped now c = (e, x)" by fastforce
  have x: "x = None"
    using assms e by (cases x) (auto simp: reserve_def)
  with e have c: "e = c" "stopped_by c = None" "\<not> expired now c"
    using stopped_result [OF e] outranks_None [of "stopped_by c"]
    by (auto simp: stopped_def Let_def stop_def set_stopped_def later_def split: if_splits)
  have fit: "calls_fit c (calls c) n \<Longrightarrow> 0 < n \<Longrightarrow> max_model_calls (limits c) = Some k \<Longrightarrow> calls c + 1 \<le> k"
    for n k by (auto simp: calls_fit_def checked_u64_def split: if_splits)
  show "stopped_by c = None" "\<not> expired now c" by (rule c)+
  show "stopped_by d = None" "ordinal a = calls c + 1" "calls d = calls c + 1" "limits d = limits c"
    "observed d = observed c" "\<And>n. max_model_calls (limits c) = Some n \<Longrightarrow> calls d \<le> n"
    using assms e x c fit
    by (auto simp: reserve_def refuse_no_debit checked_u64_def split: option.splits if_splits)
qed

lemma expired_stops: "expired now c \<Longrightarrow> snd (stopped now c) \<noteq> None"
  by (auto simp: stopped_def stop_def set_stopped_def Let_def)

section \<open>The admission invariant\<close>

definition holds :: "system \<Rightarrow> nat \<Rightarrow> model_call_admission \<Rightarrow> bool" where
  "holds s i a \<longleftrightarrow> tasks s i = Driving a \<or> tasks s i = Dispatched a"

definition ledger :: "control \<Rightarrow> system \<Rightarrow> bool" where
  "ledger c s \<longleftrightarrow>
     later c (ctl s) \<and> map ordinal (reserved s) = rev [Suc (calls c) ..< Suc (calls (ctl s))] \<and>
     (\<forall>n. max_model_calls (limits c) = Some n \<longrightarrow> calls (ctl s) = calls c \<or> calls (ctl s) \<le> n)"

definition tracked :: "control \<Rightarrow> system \<Rightarrow> bool" where
  "tracked c s \<longleftrightarrow>
     (\<forall>i a. holds s i a \<longrightarrow> a \<in> set (reserved s)) \<and>
     (\<forall>i j a. holds s i a \<longrightarrow> holds s j a \<longrightarrow> i = j) \<and>
     (\<forall>a \<in> set (dispatched s). \<exists>i. tasks s i = Dispatched a) \<and>
     distinct (dispatched s) \<and>
     (\<forall>a \<in> set (dispatched s). observed c \<longrightarrow> a \<in> set (synced s)) \<and>
     (\<forall>a. pending s = Some a \<longrightarrow> a \<in> set (reserved s))"

definition admission_inv :: "control \<Rightarrow> system \<Rightarrow> bool" where
  "admission_inv c s \<longleftrightarrow> ledger c s \<and> tracked c s"

lemma ledger_ctl [inv_intros]:
  "ledger c s \<Longrightarrow> later (ctl s) d \<Longrightarrow> calls d = calls (ctl s) \<Longrightarrow> ledger c (s\<lparr>ctl := d\<rparr>)"
  using later_trans by (auto simp: ledger_def)

lemma ledger_cong:
  "ctl s' = ctl s \<Longrightarrow> reserved s' = reserved s \<Longrightarrow> ledger c s' = ledger c s"
  by (simp add: ledger_def)

lemma tracked_ctl [simp]: "tracked c (s\<lparr>ctl := d\<rparr>) = tracked c s"
  by (simp add: tracked_def holds_def)

lemma tracked_cong:
  "tasks s' = tasks s \<Longrightarrow> reserved s' = reserved s \<Longrightarrow> dispatched s' = dispatched s \<Longrightarrow>
     synced s' = synced s \<Longrightarrow> pending s' = pending s \<Longrightarrow> tracked c s' = tracked c s"
  by (simp add: tracked_def holds_def)

lemma tracked_task:
  assumes "tracked c s" and "\<And>a. tasks s i \<noteq> Dispatched a" and "\<And>a. t \<noteq> Driving a" and "\<And>a. t \<noteq> Dispatched a"
  shows "tracked c (s\<lparr>tasks := (tasks s)(i := t)\<rparr>)"
  using assms unfolding tracked_def holds_def by simp metis

lemma stop_calls [simp]: "calls (fst (stop now x f c)) = calls c"
  by (auto simp: stop_def set_stopped_def Let_def)

lemma quiet_calls [simp]:
  "calls (cancel now c) = calls c" "calls (fst (fail now e c)) = calls c"
  "calls (fst (stopped now c)) = calls c" "calls (fst (finish_interval now x c)) = calls c"
  by (auto simp: cancel_def fail_def stopped_def finish_interval_def set_stopped_def Let_def)

lemma stopped_calls: "stopped now c = (d, x) \<Longrightarrow> calls d = calls c"
  using quiet_calls(3) [of now c] by simp

lemma quiet_calls_more [simp]:
  "calls (fst (settle now x c)) = calls c" "calls (fst (has_model_call_allowance now n c)) = calls c"
  using stopped_calls [of now c]
  by (auto simp: settle_def has_model_call_allowance_def split: prod.splits option.splits)

lemma reserve_quiet:
  assumes "reserve now k m spare c = (d, r)" and "\<And>a. r \<noteq> Inr (Some a)"
  shows "calls d = calls c"
proof -
  obtain e x where e: "stopped now c = (e, x)" by fastforce
  have "calls e = calls c" using quiet_calls(3) [of now c] e by simp
  moreover have "calls (fst (refuse_call now spare e)) = calls e" by (simp add: refuse_call_def)
  ultimately show ?thesis
    using assms e by (auto simp: reserve_def split: option.splits if_splits)
qed

lemma tracked_release:
  assumes "tracked c s" and "a \<in> set (reserved s)" and "a \<notin> set (dispatched s)"
    and "\<And>j. holds s j a \<Longrightarrow> j = i" and "observed c \<Longrightarrow> a \<in> set (synced s)"
    and "\<And>b. tasks s i \<noteq> Dispatched b" 
  shows "tracked c (release i a s)"
proof -
  obtain d x where d: "stopped (clock s) (ctl s) = (d, x)" by fastforce
  show ?thesis
  proof (cases x)
    case (Some y)
    have "tracked c (s\<lparr>tasks := (tasks s)(i := Denied y)\<rparr>)"
      by (rule tracked_task) (use assms in auto)
    then show ?thesis
      by (subst tracked_cong [of _ "s\<lparr>tasks := (tasks s)(i := Denied y)\<rparr>"])
        (simp_all add: release_def d Some)
  next
    case None
    let ?s = "s\<lparr>tasks := (tasks s)(i := Dispatched a), dispatched := a # dispatched s\<rparr>"
    have held: "holds ?s j b \<longleftrightarrow> (if j = i then b = a else holds s j b)" for j b
      by (auto simp: holds_def)
    have "\<exists>j. tasks ?s j = Dispatched b" if "b \<in> set (dispatched ?s)" for b
    proof (cases "b = a")
      case False
      with that assms(1) obtain j where "tasks s j = Dispatched b" by (auto simp: tracked_def)
      moreover from this assms(6) have "j \<noteq> i" by auto
      ultimately show ?thesis by auto
    qed auto
    then have "tracked c ?s"
      using assms unfolding tracked_def held by (auto split: if_splits)
    then show ?thesis
      by (subst tracked_cong [of _ ?s]) (simp_all add: release_def d None)
  qed
qed

lemma ledger_release: "ledger c s \<Longrightarrow> ledger c (release i a s)"
proof -
  assume l: "ledger c s"
  obtain d x where d: "stopped (clock s) (ctl s) = (d, x)" by fastforce
  have "ledger c (s\<lparr>ctl := d\<rparr>)"
    using ledger_ctl [OF l, of d] stopped_result [OF d] quiet_calls(3) [of "clock s" "ctl s"] d by simp
  then show ?thesis by (cases x) (auto simp: release_def d ledger_def)
qed

lemma inv_quiet:
  assumes "admission_inv c s" and "later (ctl s) d" and "calls d = calls (ctl s)"
  shows "admission_inv c (s\<lparr>ctl := d\<rparr>)"
  using assms by (simp add: admission_inv_def ledger_ctl)

lemma inv_denied:
  assumes "admission_inv c s" and "\<And>a. tasks s i \<noteq> Dispatched a" and "\<And>a. t \<noteq> Driving a" and "\<And>a. t \<noteq> Dispatched a"
  shows "admission_inv c (s\<lparr>tasks := (tasks s)(i := t)\<rparr>)"
  using assms tracked_task [of c s i t] by (simp add: admission_inv_def ledger_def)

lemma upt_snoc: "m \<le> n \<Longrightarrow> rev [m ..< Suc n] = n # rev [m ..< n]"
  by simp

lemma inv_try_reserve:
  assumes inv: "admission_inv c s" and task: "tasks s i = Asking k m spare"
  shows "admission_inv c (try_reserve i k m spare s)"
proof -
  obtain d r where r: "reserve (clock s) k m spare (ctl s) = (d, r)" by fastforce
  have later: "later (ctl s) d" using later_reserve [of "ctl s" "clock s" k m spare] r by simp
  show ?thesis
  proof (cases "\<exists>a. r = Inr (Some a)")
    case False
    then have "admission_inv c (s\<lparr>ctl := d\<rparr>)"
      using inv_quiet [OF inv later] reserve_quiet [OF r] by blast
    then have *: "admission_inv c (s\<lparr>ctl := d, tasks := (tasks s)(i := t)\<rparr>)"
      if "\<And>a. t \<noteq> Driving a" "\<And>a. t \<noteq> Dispatched a" for t
      using inv_denied [of c "s\<lparr>ctl := d\<rparr>" i t] task that by simp
    show ?thesis
    proof (cases r)
      case (Inl x)
      with * [of "Denied x"] show ?thesis by (simp add: try_reserve_def r)
    next
      case (Inr y)
      with False * [of Skipped] show ?thesis by (cases y) (auto simp: try_reserve_def r)
    qed
  next
    case True
    then obtain a where a: "r = Inr (Some a)" by blast
    note debit = reserve_debit [OF r [unfolded a]]
    let ?s = "s\<lparr>ctl := d, reserved := a # reserved s\<rparr>"
    have led: "ledger c s" and tr: "tracked c s" using inv by (simp_all add: admission_inv_def)
    have base: "later c (ctl s)" and ords: "map ordinal (reserved s) = rev [Suc (calls c) ..< Suc (calls (ctl s))]"
      using led by (simp_all add: ledger_def)
    have "calls c \<le> calls (ctl s)" and lim: "limits (ctl s) = limits c" "observed (ctl s) = observed c"
      using base by (simp_all add: later_def)
    then have "ledger c ?s"
      using debit ords later_trans [OF base later] led by (auto simp: ledger_def upt_snoc)
    have "ordinal a \<notin> set (map ordinal (reserved s))" unfolding ords using debit by simp
    then have new: "a \<notin> set (reserved s)" by force
    then have unheld: "\<not> holds s j a" for j using tr by (auto simp: tracked_def)
    have undone: "a \<notin> set (dispatched s)" using tr unheld by (auto simp: tracked_def holds_def)
    have grown: "tracked c ?s"
      using tr unfolding tracked_def holds_def by auto
    show ?thesis
    proof (cases "observed d")
      case False
      have "tracked c (release i a ?s)"
        by (rule tracked_release [OF grown])
          (use undone unheld task False debit lim in \<open>auto simp: holds_def\<close>)
      with ledger_release [OF \<open>ledger c ?s\<close>] False show ?thesis
        by (simp add: admission_inv_def try_reserve_def r a Let_def)
    next
      case True
      let ?t = "?s\<lparr>pending := Some a, tasks := (tasks s)(i := Driving a)\<rparr>"
      have held: "holds ?t j b \<longleftrightarrow> (if j = i then b = a else holds s j b)" for j b
        using task by (auto simp: holds_def)
      have "\<exists>j. tasks ?t j = Dispatched b" if "b \<in> set (dispatched ?t)" for b
      proof -
        from that tr obtain j where "tasks s j = Dispatched b" by (auto simp: tracked_def)
        with task show ?thesis by (intro exI [of _ j]) auto
      qed
      then have "tracked c ?t"
        using tr unheld new unfolding tracked_def held by (auto split: if_splits)
      moreover have "ledger c ?t" using \<open>ledger c ?s\<close> by (subst ledger_cong [of _ ?s]) simp_all
      ultimately show ?thesis using True by (simp add: admission_inv_def try_reserve_def r a Let_def)
    qed
  qed
qed

lemma inv_step: "admission_step s s' \<Longrightarrow> admission_inv c s \<Longrightarrow> admission_inv c s'"
proof (induction rule: admission_step.induct)
  case (enter s i k m spare)
  then show ?case by (simp add: inv_try_reserve)
next
  case (written s a r)
  show ?case
  proof (cases r)
    case (Inl e)
    from written.prems have "admission_inv c (s\<lparr>ctl := fst (fail (clock s) e (ctl s))\<rparr>)"
      by (intro inv_quiet later_fail) simp_all
    with Inl show ?thesis by (auto simp: write_done_def admission_inv_def ledger_def tracked_def holds_def)
  next
    case (Inr u)
    with written.prems show ?thesis
      by (auto simp: write_done_def admission_inv_def ledger_def tracked_def holds_def)
  qed
next
  case (resume s i a)
  then have tr: "tracked c s" and led: "ledger c s" by (simp_all add: admission_inv_def)
  have held: "holds s i a" using resume by (simp add: holds_def)
  have "a \<notin> set (dispatched s)"
  proof
    assume "a \<in> set (dispatched s)"
    with tr obtain j where j: "tasks s j = Dispatched a" by (auto simp: tracked_def)
    then have "holds s j a" by (simp add: holds_def)
    with tr held have "i = j" unfolding tracked_def by blast
    with j resume show False by simp
  qed
  moreover have "a \<in> set (reserved s)" "\<And>j. holds s j a \<Longrightarrow> j = i"
    using tr held unfolding tracked_def by blast+
  ultimately have "tracked c (release i a s)"
    by (intro tracked_release tr) (use resume in auto)
  with ledger_release [OF led] show ?case by (simp add: admission_inv_def)
next
  case (dropped s i a)
  from dropped.prems have "admission_inv c (s\<lparr>ctl := cancel (clock s) (ctl s)\<rparr>)"
    by (intro inv_quiet later_cancel) simp_all
  from inv_denied [OF this, of i "Denied RunCancelled"] dropped show ?case by simp
next
  case (tick s t)
  then show ?case by (simp add: admission_inv_def ledger_def tracked_def holds_def)
qed (simp_all add: inv_quiet inv_denied later_cancel later_fail later_settle later_finish later_stopped
    later_allowance)

section \<open>Properties\<close>

lemma reachable_inv: "admission_step\<^sup>*\<^sup>* (initial c) s \<Longrightarrow> admission_inv c s"
proof (induction rule: rtranclp_induct)
  case base
  then show ?case
    by (simp add: admission_inv_def ledger_def tracked_def holds_def initial_def)
qed (rule inv_step)

text \<open>C4. The allowance of a run is never exceeded, however its tasks interleave, fail, are
  dropped or cancelled: each debit has its own ordinal, the next one; no debit is refunded; no
  call is let through twice or without a debit; and with a limit, no more calls are let through
  than the limit leaves.\<close>

theorem allowance_never_exceeded:
  assumes "admission_step\<^sup>*\<^sup>* (initial c) s"
  shows "map ordinal (reserved s) = rev [Suc (calls c) ..< Suc (calls (ctl s))] \<and>
    calls (ctl s) = calls c + length (reserved s) \<and>
    distinct (dispatched s) \<and> set (dispatched s) \<subseteq> set (reserved s) \<and>
    (\<forall>n. max_model_calls (limits c) = Some n \<longrightarrow> length (dispatched s) \<le> n - calls c)"
proof -
  from reachable_inv [OF assms] have led: "ledger c s" and tr: "tracked c s"
    by (simp_all add: admission_inv_def)
  have sub: "set (dispatched s) \<subseteq> set (reserved s)"
    using tr unfolding tracked_def holds_def by blast
  have "length (map ordinal (reserved s)) = length (rev [Suc (calls c) ..< Suc (calls (ctl s))])"
    using led by (simp only: ledger_def)
  then have len: "length (reserved s) = calls (ctl s) - calls c" by (simp del: upt_Suc)
  have ge: "calls c \<le> calls (ctl s)" using led by (simp add: ledger_def later_def)
  have dist: "distinct (dispatched s)" using tr by (simp add: tracked_def)
  then have "length (dispatched s) \<le> card (set (reserved s))"
    using sub by (metis List.finite_set card_mono distinct_card)
  then have "length (dispatched s) \<le> length (reserved s)" using card_length le_trans by blast
  moreover have "calls (ctl s) = calls c \<or> calls (ctl s) \<le> n" if "max_model_calls (limits c) = Some n" for n
    using led that by (simp add: ledger_def)
  ultimately show ?thesis using led sub dist len ge by (fastforce simp: ledger_def)
qed

text \<open>C23. No model call is let through ahead of its journal: with an observer, each call let
  through had its own debit written and acknowledged before.\<close>

theorem dispatched_after_write:
  assumes "admission_step\<^sup>*\<^sup>* (initial c) s" and "observed c"
  shows "set (dispatched s) \<subseteq> set (synced s) \<inter> set (reserved s)"
  using reachable_inv [OF assms(1)] assms(2)
  unfolding admission_inv_def tracked_def holds_def by blast

lemma still_stopped: "later c d \<Longrightarrow> stopped_by c \<noteq> None \<Longrightarrow> stopped_by d \<noteq> None"
  by (cases "stopped_by d") (auto simp: later_def outranks_def)

lemma stopped_keeps:
  assumes "stopped_by c \<noteq> None"
  shows "snd (stopped now c) \<noteq> None"
  using still_stopped [of c] assms stopped_result [of now c] by (cases "stopped now c") auto

lemma release_stopped:
  "stopped_by (ctl s) \<noteq> None \<Longrightarrow>
     dispatched (release i a s) = dispatched s \<and> reserved (release i a s) = reserved s"
  using stopped_keeps [of "ctl s" "clock s"]
  by (auto simp: release_def split: prod.splits option.splits)

lemma reserve_stopped:
  assumes "stopped_by c \<noteq> None"
  shows "\<exists>d x. reserve now k m spare c = (d, Inl x)"
  using stopped_keeps [OF assms, of now] by (cases "stopped now c") (auto simp: reserve_def)

lemma step_later: "admission_step s s' \<Longrightarrow> later (ctl s) (ctl s')"
proof (induction rule: admission_step.induct)
  case (enter s i k m spare)
  obtain d r where r: "reserve (clock s) k m spare (ctl s) = (d, r)" by fastforce
  then have "later (ctl s) d" using later_reserve [of "ctl s" "clock s" k m spare] by simp
  moreover have "later d (fst (stopped now d))" for now by (rule later_stopped)
  ultimately show ?case
    using later_trans r
    by (auto simp: try_reserve_def release_def Let_def split: prod.splits sum.splits option.splits)
      (metis fst_conv later_stopped later_trans)+
next
  case (written s a r)
  then show ?case by (auto simp: write_done_def later_fail split: sum.splits)
next
  case (resume s i a)
  then show ?case
    using later_stopped [of "ctl s" "clock s"]
    by (auto simp: release_def split: prod.splits option.splits)
qed (simp_all add: later_cancel later_fail later_settle later_finish later_stopped later_allowance)

lemma step_stopped:
  assumes "admission_step s s'" and "stopped_by (ctl s) \<noteq> None"
  shows "dispatched s' = dispatched s \<and> reserved s' = reserved s"
  using assms
proof (induction rule: admission_step.induct)
  case (enter s i k m spare)
  then show ?case
    using reserve_stopped [of "ctl s" "clock s" k m spare] by (auto simp: try_reserve_def)
next
  case (written s a r)
  then show ?case by (auto simp: write_done_def split: sum.splits)
qed (simp_all add: release_stopped)

text \<open>A stop is final: once the interval has a stopping cause, no later debit is made and no
  later call is let through, whatever happens after; and the cause stays, unless a required
  failure replaces a cause that is not a failure.\<close>

theorem stop_is_final:
  assumes "admission_step\<^sup>*\<^sup>* s s'" and "stopped_by (ctl s) = Some x"
  shows "dispatched s' = dispatched s \<and> reserved s' = reserved s \<and>
    (stopped_by (ctl s') = Some x \<or> \<not> is_failed (Some x) \<and> is_failed (stopped_by (ctl s')))"
proof -
  have "dispatched s' = dispatched s \<and> reserved s' = reserved s \<and> later (ctl s) (ctl s')"
    using assms(1)
  proof (induction rule: rtranclp_induct)
    case (step y z)
    then have "stopped_by (ctl y) \<noteq> None"
      using assms(2) still_stopped [of "ctl s" "ctl y"] by auto
    with step step_stopped [OF step.hyps(2)] step_later [OF step.hyps(2)] later_trans show ?case by metis
  qed simp
  then show ?thesis using assms(2) by (auto simp: later_def outranks_def)
qed

section \<open>A concrete run\<close>

text \<open>One task admitted through an observer, under an allowance of one call.\<close>

definition sample_control :: control where
  "sample_control = restore \<lparr>deadline = None, max_model_calls = Some 1\<rparr> 0 True"

definition sample_model :: model where
  "sample_model = \<lparr>model_provider = ''p'', model_id = ''m''\<rparr>"

definition asked_system :: system where
  "asked_system =
     (initial sample_control)\<lparr>tasks := (tasks (initial sample_control))
       (0 := Asking AgentCall sample_model None)\<rparr>"

definition reserved_system :: system where
  "reserved_system = try_reserve 0 AgentCall sample_model None asked_system"

definition first_call :: model_call_admission where
  "first_call =
     \<lparr>ordinal = 1, kind = AgentCall, admitted_provider = ''p'', admitted_model = ''m''\<rparr>"

definition written_system :: system where
  "written_system = write_done first_call (Inr ()) reserved_system"

definition released_system :: system where
  "released_system = release 0 first_call written_system"

definition closed_system :: system where
  "closed_system = released_system\<lparr>ctl := cancel (clock released_system) (ctl released_system)\<rparr>"

lemma sample_systems:
  "pending reserved_system = Some first_call" "tasks written_system 0 = Driving first_call"
  "synced written_system = [first_call]" "dispatched released_system = [first_call]"
  "reserved released_system = [first_call]" "synced released_system = [first_call]"
  "stopped_by (ctl closed_system) = Some RunCancelled" "dispatched closed_system = [first_call]"
  by (simp_all add: closed_system_def released_system_def written_system_def reserved_system_def
      asked_system_def initial_def sample_control_def restore_def try_reserve_def reserve_def
      stopped_def expired_def checked_u64_def u64_max_def calls_fit_def release_def write_done_def
      first_call_def sample_model_def cancel_def stop_def set_stopped_def Let_def)

lemma sample_run:
  "admission_step\<^sup>*\<^sup>* (initial sample_control) released_system"
proof -
  have "admission_step (initial sample_control) asked_system"
    unfolding asked_system_def by (rule admission_step.ask) (simp add: initial_def)
  moreover have "admission_step asked_system reserved_system"
    unfolding reserved_system_def
    by (rule admission_step.enter) (simp_all add: asked_system_def initial_def)
  moreover have "admission_step reserved_system written_system"
    unfolding written_system_def by (rule admission_step.written) (rule sample_systems)
  moreover have "admission_step written_system released_system"
    unfolding released_system_def by (rule admission_step.resume) (simp_all add: sample_systems)
  ultimately show ?thesis by (meson converse_rtranclp_into_rtranclp rtranclp.rtrancl_refl)
qed

lemma allowance_never_exceeded_witness:
  "dispatched released_system = [first_call] \<and> length (dispatched released_system) \<le> 1"
  using allowance_never_exceeded [OF sample_run] sample_systems
  by (simp add: sample_control_def restore_def)

lemma dispatched_after_write_witness:
  "first_call \<in> set (dispatched released_system) \<and> first_call \<in> set (synced released_system)"
  using dispatched_after_write [OF sample_run] sample_systems
  by (simp add: sample_control_def restore_def)

lemma stop_is_final_witness:
  "dispatched (closed_system\<lparr>clock := 7\<rparr>) = [first_call]"
proof -
  have "clock closed_system \<le> 7"
    by (simp add: closed_system_def released_system_def written_system_def reserved_system_def
      asked_system_def initial_def sample_control_def restore_def try_reserve_def reserve_def
      stopped_def expired_def checked_u64_def u64_max_def calls_fit_def release_def write_done_def
      first_call_def sample_model_def cancel_def stop_def set_stopped_def Let_def)
  then have "admission_step\<^sup>*\<^sup>* closed_system (closed_system\<lparr>clock := 7\<rparr>)"
    by (intro r_into_rtranclp admission_step.tick)
  from stop_is_final [OF this sample_systems(7)] show ?thesis by (simp add: sample_systems)
qed

end
