(* ===== verification/Chunks.thy ===== *)
theory Chunks
  imports Utf8
begin

text \<open>
  What a decoder fed a stream in chunks promises, as a locale: the events it returns, and the
  state it is left in, do not depend on where the chunks were cut. And the decoding of text that
  arrives in pieces: \<open>Utf8StreamDecoder\<close> of \<open>crates/bake-ai/src/utils/sse.rs\<close> and
  \<open>String::from_utf8_lossy\<close>.
\<close>

section \<open>Decoders over chunks\<close>

locale chunked =
  fixes ok :: "'s \<Rightarrow> bool" and push :: "'s \<Rightarrow> 'b list \<Rightarrow> 's \<times> 'e list"
  assumes push_ok: "ok s \<Longrightarrow> ok (fst (push s b))"
    and push_Nil: "ok s \<Longrightarrow> push s [] = (s, [])"
    and push_append:
      "ok s \<Longrightarrow> push s (a @ b) =
         (fst (push (fst (push s a)) b), snd (push s a) @ snd (push (fst (push s a)) b))"
begin

fun feed :: "'s \<Rightarrow> 'b list list \<Rightarrow> 's \<times> 'e list" where
  "feed s [] = (s, [])"
| "feed s (c # cs) = (fst (feed (fst (push s c)) cs), snd (push s c) @ snd (feed (fst (push s c)) cs))"

lemma feed_concat: "ok s \<Longrightarrow> feed s cs = push s (concat cs)"
proof (induction cs arbitrary: s)
  case Nil
  then show ?case by (simp add: push_Nil)
next
  case (Cons c cs)
  then show ?case by (simp add: push_ok push_append)
qed

lemma feed_cut: "ok s \<Longrightarrow> concat cs = concat ds \<Longrightarrow> feed s cs = feed s ds"
  by (simp add: feed_concat)

end

section \<open>Text in pieces\<close>

definition replacement :: string where
  "replacement = [CHR 0xEF, CHR 0xBF, CHR 0xBD]"

definition bom :: string where
  "bom = [CHR 0xEF, CHR 0xBB, CHR 0xBF]"

text \<open>The loop of \<open>decode\<close>: the text out, and the bytes left pending.\<close>

function decode_loop :: "string \<Rightarrow> string \<times> string" where
  "decode_loop rest =
     (case from_utf8 rest of
        Utf8_ok \<Rightarrow> (rest, [])
      | Utf8_err valid (Some invalid) \<Rightarrow>
          (case decode_loop (drop (valid + invalid) rest) of
             (out, pend) \<Rightarrow> (take valid rest @ replacement @ out, pend))
      | Utf8_err valid None \<Rightarrow> (take valid rest, drop valid rest))"
  by pat_completeness auto
termination
  by (relation "measure length") (auto dest!: from_utf8_bounds)

declare decode_loop.simps [simp del]

text \<open>The same, one sequence at a time.\<close>

lemma decode_loop_Nil [simp]: "decode_loop [] = ([], [])"
  by (simp add: decode_loop.simps)

lemma decode_loop_Scalar:
  assumes "utf8_next bs = Scalar n"
  shows "decode_loop bs = (take n bs @ fst (decode_loop (drop n bs)), snd (decode_loop (drop n bs)))"
proof -
  have n: "n \<le> length bs" using utf8_next_Scalar [OF assms] by simp
  note f = from_utf8_Scalar [OF assms]
  show ?thesis
  proof (cases "from_utf8 (drop n bs)")
    case Utf8_ok
    then show ?thesis using f by (simp add: decode_loop.simps [of bs] decode_loop.simps [of "drop n bs"])
  next
    case (Utf8_err v e)
    have v: "take (n + v) bs = take n bs @ take v (drop n bs)" by (simp add: take_add)
    show ?thesis
    proof (cases e)
      case None
      with Utf8_err f v show ?thesis
        by (simp add: decode_loop.simps [of bs] decode_loop.simps [of "drop n bs"] add.commute)
    next
      case (Some k)
      with Utf8_err f v show ?thesis
        by (simp add: decode_loop.simps [of bs] decode_loop.simps [of "drop n bs"] add.commute
            add.left_commute split: prod.split)
    qed
  qed
qed

lemma decode_loop_Bad:
  "utf8_next bs = Bad n \<Longrightarrow>
     decode_loop bs = (replacement @ fst (decode_loop (drop n bs)), snd (decode_loop (drop n bs)))"
  by (simp add: decode_loop.simps [of bs] from_utf8_Bad split: prod.split)

lemma decode_loop_Short: "utf8_next bs = Short \<Longrightarrow> decode_loop bs = ([], bs)"
  by (cases "bs = []") (simp_all add: decode_loop.simps [of bs] from_utf8_Short)

lemma decode_loop_induct [case_names Short Scalar Bad]:
  assumes "\<And>bs. utf8_next bs = Short \<Longrightarrow> P bs"
    and "\<And>bs n. utf8_next bs = Scalar n \<Longrightarrow> P (drop n bs) \<Longrightarrow> P bs"
    and "\<And>bs n. utf8_next bs = Bad n \<Longrightarrow> P (drop n bs) \<Longrightarrow> P bs"
  shows "P bs"
proof (induction bs rule: length_induct)
  case (1 bs)
  show ?case
  proof (cases "utf8_next bs")
    case (Scalar n)
    with 1 utf8_next_Scalar [OF Scalar] assms(2) show ?thesis by auto
  next
    case (Bad n)
    with 1 utf8_next_Bad [OF Bad] assms(3) show ?thesis by auto
  qed (rule assms(1))
qed

text \<open>What is pending stays pending until more bytes come.\<close>

lemma decode_loop_pending: "utf8_next (snd (decode_loop bs)) = Short"
  by (induction bs rule: decode_loop_induct)
    (simp_all add: decode_loop_Short decode_loop_Scalar decode_loop_Bad)

lemma decode_loop_append:
  "decode_loop (a @ b) =
     (fst (decode_loop a) @ fst (decode_loop (snd (decode_loop a) @ b)),
      snd (decode_loop (snd (decode_loop a) @ b)))"
proof (induction a rule: decode_loop_induct)
  case (Short bs)
  then show ?case by (simp add: decode_loop_Short)
next
  case (Scalar bs n)
  then have n: "utf8_next (bs @ b) = Scalar n" "n \<le> length bs"
    using utf8_next_append [of bs b] utf8_next_Scalar by auto
  with Scalar show ?case by (simp add: decode_loop_Scalar)
next
  case (Bad bs n)
  then have n: "utf8_next (bs @ b) = Bad n" "n \<le> length bs"
    using utf8_next_append [of bs b] utf8_next_Bad by auto
  with Bad show ?case by (simp add: decode_loop_Bad)
qed

text \<open>The output is whole characters: when it is not empty, it starts with one.\<close>

lemma decode_loop_starts:
  "fst (decode_loop bs) = c # out \<Longrightarrow> \<exists>n. utf8_next (c # out) = Scalar n"
proof (induction bs rule: decode_loop_induct)
  case (Scalar bs n)
  have "utf8_next (take n bs @ drop n bs) = Scalar n" using Scalar by simp
  then have "utf8_next (take n bs) = Scalar n"
    using utf8_next_Scalar [OF Scalar.hyps(1)]
    by (cases bs) (auto split: if_splits list.splits simp: take_Cons')
  then have "utf8_next (take n bs @ fst (decode_loop (drop n bs))) = Scalar n"
    using utf8_next_append [of "take n bs"] by simp
  with Scalar show ?case by (simp add: decode_loop_Scalar)
next
  case (Bad bs n)
  have "utf8_next replacement = Scalar 3" by (simp add: replacement_def utf8_width_def second_ok_def is_cont_def)
  then have "utf8_next (replacement @ x) = Scalar 3" for x using utf8_next_append [of replacement x] by simp
  with Bad show ?case by (metis decode_loop_Bad fst_conv)
qed (simp add: decode_loop_Short)

text \<open>\<open>String::from_utf8_lossy\<close>: an incomplete sequence at the end is one replacement character.\<close>

definition from_utf8_lossy :: "string \<Rightarrow> string" where
  "from_utf8_lossy bs =
     (case decode_loop bs of (out, pend) \<Rightarrow> if pend = [] then out else out @ replacement)"

lemma decode_loop_valid: "valid_utf8 bs \<Longrightarrow> decode_loop bs = (bs, [])"
  by (simp add: decode_loop.simps valid_utf8_def)

lemma from_utf8_lossy_valid [text_simps]: "valid_utf8 bs \<Longrightarrow> from_utf8_lossy bs = bs"
  by (simp add: from_utf8_lossy_def decode_loop_valid)

lemma decode_loop_valid_append: "valid_utf8 a \<Longrightarrow>
   decode_loop (a @ b) = (a @ fst (decode_loop b), snd (decode_loop b))"
  by (simp add: decode_loop_append decode_loop_valid)

lemma decode_loop_ascii: "byte c < 128 \<Longrightarrow>
   decode_loop (c # b) = (c # fst (decode_loop b), snd (decode_loop b))"
  by (simp add: decode_loop_Scalar utf8_width_def)

end
