(* ===== verification/Sse.thy ===== *)
theory Sse
  imports Chunks
begin

text \<open>
  The server-sent events decoder (\<open>crates/bake-ai/src/utils/sse.rs\<close>): streamed UTF-8 without a
  leading byte order mark, lines ended by CR, LF or CRLF, and events ended by an empty line.
\<close>

section \<open>The decoder\<close>

record server_sent_event =
  sse_event :: "string option"
  sse_data :: string
  sse_raw :: "string list"

record utf8_stream =
  pending_bytes :: string
  started :: bool

definition strip_bom :: "string \<Rightarrow> string" where
  "strip_bom out = (if starts_with out bom then drop (length bom) out else out)"

definition utf8_decode :: "utf8_stream \<Rightarrow> string \<Rightarrow> utf8_stream \<times> string" where
  "utf8_decode u bytes =
     (case decode_loop (pending_bytes u @ bytes) of
        (out, pend) \<Rightarrow>
          if \<not> started u \<and> out \<noteq> []
          then (\<lparr>pending_bytes = pend, started = True\<rparr>, strip_bom out)
          else (u\<lparr>pending_bytes := pend\<rparr>, out))"

definition utf8_finish :: "utf8_stream \<Rightarrow> utf8_stream \<times> string" where
  "utf8_finish u =
     (if pending_bytes u \<noteq> [] then (u\<lparr>pending_bytes := []\<rparr>, replacement) else (u, []))"

record sse_fields =
  field_event :: "string option"
  field_data :: "string list"
  field_raw :: "string list"

definition no_fields :: sse_fields where
  "no_fields = \<lparr>field_event = None, field_data = [], field_raw = []\<rparr>"

definition sse_flush :: "sse_fields \<Rightarrow> sse_fields \<times> server_sent_event list" where
  "sse_flush f =
     (if field_event f = None \<and> field_data f = [] then (f, [])
      else (no_fields,
            [\<lparr>sse_event = field_event f, sse_data = join [CHR 0x0A] (field_data f),
              sse_raw = field_raw f\<rparr>]))"

definition strip_space :: "string \<Rightarrow> string" where
  "strip_space v = (case v of c # rest \<Rightarrow> if c = CHR '' '' then rest else v | [] \<Rightarrow> [])"

definition decode_line :: "sse_fields \<Rightarrow> string \<Rightarrow> sse_fields \<times> server_sent_event list" where
  "decode_line f line =
     (if line = [] then sse_flush f
      else if hd line = CHR '':'' then (f\<lparr>field_raw := field_raw f @ [line]\<rparr>, [])
      else
        (let (field, value) = (case split_once CHR '':'' line of None \<Rightarrow> (line, []) | Some p \<Rightarrow> p);
             value = strip_space value;
             f = (if field = ''event'' then f\<lparr>field_event := Some value\<rparr>
                  else if field = ''data'' then f\<lparr>field_data := field_data f @ [value]\<rparr>
                  else f)
         in (f\<lparr>field_raw := field_raw f @ [line]\<rparr>, [])))"

fun decode_lines :: "sse_fields \<Rightarrow> string list \<Rightarrow> sse_fields \<times> server_sent_event list" where
  "decode_lines f [] = (f, [])"
| "decode_lines f (l # ls) =
     (case decode_line f l of (f, es) \<Rightarrow> (case decode_lines f ls of (f, es') \<Rightarrow> (f, es @ es')))"

text \<open>The scan of \<open>drain_lines\<close>: the complete lines of the buffer and what stays in it. A CR at
  the end of the buffer ends a line only at the end of the stream.\<close>

fun take_lines :: "bool \<Rightarrow> string \<Rightarrow> string \<Rightarrow> string list \<times> string" where
  "take_lines at_end acc [] = ([], rev acc)"
| "take_lines at_end acc (c # cs) =
     (if c = CHR 0x0A then (case take_lines at_end [] cs of (ls, r) \<Rightarrow> (rev acc # ls, r))
      else if c = CHR 0x0D then
        (case cs of
           [] \<Rightarrow> if at_end then ([rev acc], []) else ([], rev acc @ [c])
         | d # ds \<Rightarrow>
             if d = CHR 0x0A then (case take_lines at_end [] ds of (ls, r) \<Rightarrow> (rev acc # ls, r))
             else (case take_lines at_end [] (d # ds) of (ls, r) \<Rightarrow> (rev acc # ls, r)))
      else take_lines at_end (c # acc) cs)"

record sse_decoder =
  utf8 :: utf8_stream
  buffer :: string
  line_fields :: sse_fields

definition sse_new :: sse_decoder where
  "sse_new =
     \<lparr>utf8 = \<lparr>pending_bytes = [], started = False\<rparr>, buffer = [], line_fields = no_fields\<rparr>"

definition sse_push :: "sse_decoder \<Rightarrow> string \<Rightarrow> sse_decoder \<times> server_sent_event list" where
  "sse_push d bytes =
     (let (u, text) = utf8_decode (utf8 d) bytes;
          (ls, rest) = take_lines False [] (buffer d @ text);
          (f, es) = decode_lines (line_fields d) ls
      in (\<lparr>utf8 = u, buffer = rest, line_fields = f\<rparr>, es))"

definition sse_finish :: "sse_decoder \<Rightarrow> sse_decoder \<times> server_sent_event list" where
  "sse_finish d =
     (let (u, text) = utf8_finish (utf8 d);
          (ls, rest) = take_lines True [] (buffer d @ text);
          (f, es) = decode_lines (line_fields d) ls;
          (f, es') = (if rest \<noteq> [] then decode_line f rest else (f, []));
          (f, es'') = sse_flush f
      in (\<lparr>utf8 = u, buffer = [], line_fields = f\<rparr>, es @ es' @ es''))"

section \<open>Text laws\<close>

lemma strip_bom_append:
  assumes "utf8_next t = Scalar n"
  shows "strip_bom (t @ x) = strip_bom t @ x"
proof -
  have t: "0 < n" "n \<le> length t" using utf8_next_Scalar [OF assms] by auto
  have "starts_with (t @ x) bom = starts_with t bom"
  proof (cases t)
    case (Cons b bs)
    show ?thesis
    proof (cases "b = CHR 0xEF")
      case True
      then have "utf8_width b = 3" by (simp add: utf8_width_def)
      with assms Cons have "n = 3" by (auto split: if_splits list.splits)
      with t show ?thesis by (simp add: starts_with_def bom_def)
    next
      case False
      with Cons show ?thesis by (simp add: starts_with_def bom_def)
    qed
  qed (use t in simp)
  moreover have "starts_with t bom \<Longrightarrow> length bom \<le> length t"
    unfolding starts_with_def by (metis length_take min.cobounded1)
  ultimately show ?thesis by (auto simp: strip_bom_def)
qed

definition utf8_ok :: "utf8_stream \<Rightarrow> bool" where
  "utf8_ok u \<longleftrightarrow> utf8_next (pending_bytes u) = Short"

lemma utf8_decode_ok: "utf8_ok (fst (utf8_decode u b))"
  using decode_loop_pending [of "pending_bytes u @ b"]
  by (cases "decode_loop (pending_bytes u @ b)") (simp add: utf8_decode_def utf8_ok_def)

lemma utf8_decode_Nil: "utf8_ok u \<Longrightarrow> utf8_decode u [] = (u, [])"
  by (simp add: utf8_decode_def utf8_ok_def decode_loop_Short)

lemma utf8_decode_append:
  "utf8_decode u (a @ b) =
     (fst (utf8_decode (fst (utf8_decode u a)) b),
      snd (utf8_decode u a) @ snd (utf8_decode (fst (utf8_decode u a)) b))"
proof -
  obtain o1 p1 where 1: "decode_loop (pending_bytes u @ a) = (o1, p1)" by fastforce
  obtain o2 p2 where 2: "decode_loop (p1 @ b) = (o2, p2)" by fastforce
  have 12: "decode_loop (pending_bytes u @ a @ b) = (o1 @ o2, p2)"
    using decode_loop_append [of "pending_bytes u @ a" b] 1 2 by simp
  show ?thesis
  proof (cases "o1 = []")
    case True
    then show ?thesis using 1 2 12 by (simp add: utf8_decode_def)
  next
    case False
    then obtain c o1' where o1: "o1 = c # o1'" by (cases o1) auto
    then obtain n where "utf8_next o1 = Scalar n"
      using decode_loop_starts [of "pending_bytes u @ a" c o1'] 1 by auto
    then have "strip_bom (o1 @ o2) = strip_bom o1 @ o2" by (rule strip_bom_append)
    with False show ?thesis using 1 2 12 by (simp add: utf8_decode_def)
  qed
qed

definition is_break :: "char \<Rightarrow> bool" where
  "is_break c \<longleftrightarrow> c = CHR 0x0A \<or> c = CHR 0x0D"

lemma take_lines_lf:
  "take_lines e acc (CHR 0x0A # cs) =
     (rev acc # fst (take_lines e [] cs), snd (take_lines e [] cs))"
  by (simp split: prod.split)

lemma take_lines_crlf:
  "take_lines e acc (CHR 0x0D # CHR 0x0A # cs) =
     (rev acc # fst (take_lines e [] cs), snd (take_lines e [] cs))"
  by (simp split: prod.split)

lemma take_lines_cr:
  "d \<noteq> CHR 0x0A \<Longrightarrow> take_lines e acc (CHR 0x0D # d # ds) =
     (rev acc # fst (take_lines e [] (d # ds)), snd (take_lines e [] (d # ds)))"
  by (simp split: prod.split del: take_lines.simps(2) add: take_lines.simps(2) [of e acc "CHR 0x0D"])

lemma take_lines_acc:
  "list_all (\<lambda>c. \<not> is_break c) xs \<Longrightarrow>
     take_lines e acc (xs @ cs) = take_lines e (rev xs @ acc) cs"
  by (induction xs arbitrary: acc) (auto simp: is_break_def)

lemma take_lines_start:
  assumes "list_all (\<lambda>c. \<not> is_break c) acc"
  shows "take_lines e [] (rev acc @ cs) = take_lines e acc cs"
  using take_lines_acc [of "rev acc" e "[]" cs] assms by (simp add: list_all_iff)

lemma take_lines_append:
  "list_all (\<lambda>c. \<not> is_break c) acc \<Longrightarrow>
   take_lines False acc (a @ b) =
     (fst (take_lines False acc a) @ fst (take_lines False [] (snd (take_lines False acc a) @ b)),
      snd (take_lines False [] (snd (take_lines False acc a) @ b)))"
proof (induction "False" acc a rule: take_lines.induct)
  case (1 acc)
  then show ?case by (simp add: take_lines_start)
next
  case (2 acc c cs)
  consider (lf) "c = CHR 0x0A" | (cr) "c = CHR 0x0D" | (other) "\<not> is_break c"
    by (auto simp: is_break_def)
  then show ?case
  proof cases
    case lf
    with 2 show ?thesis by (simp split: prod.split)
  next
    case cr
    show ?thesis
    proof (cases cs)
      case Nil
      with cr show ?thesis using take_lines_start [OF "2.prems", of False "CHR 0x0D # b"] by simp
    next
      case (Cons d ds)
      show ?thesis
        using cr 2 Cons
        by (cases "d = CHR 0x0A") (simp_all add: take_lines_crlf take_lines_cr del: take_lines.simps)
    qed
  next
    case other
    with 2 show ?thesis by (simp add: is_break_def)
  qed
qed

lemma take_lines_rest: "list_all (\<lambda>c. \<not> is_break c) acc \<Longrightarrow>
   take_lines False [] (snd (take_lines False acc a)) = ([], snd (take_lines False acc a))"
proof (induction "False" acc a rule: take_lines.induct)
  case (1 acc)
  then show ?case using take_lines_start [OF 1, of False "[]"] by simp
next
  case (2 acc c cs)
  consider (lf) "c = CHR 0x0A" | (cr) "c = CHR 0x0D" | (other) "\<not> is_break c"
    by (auto simp: is_break_def)
  then show ?case
  proof cases
    case cr
    show ?thesis
    proof (cases cs)
      case Nil
      with cr show ?thesis using take_lines_start [OF "2.prems", of False "[CHR 0x0D]"] by simp
    next
      case (Cons d ds)
      show ?thesis
        using cr 2 Cons
        by (cases "d = CHR 0x0A") (simp_all add: take_lines_crlf take_lines_cr del: take_lines.simps)
    qed
  next
    case lf
    with 2 show ?thesis by (simp add: take_lines_lf del: take_lines.simps)
  qed (use 2 in \<open>simp add: is_break_def\<close>)
qed

lemma decode_lines_append:
  "decode_lines f (xs @ ys) =
     (fst (decode_lines (fst (decode_lines f xs)) ys),
      snd (decode_lines f xs) @ snd (decode_lines (fst (decode_lines f xs)) ys))"
  by (induction xs arbitrary: f) (simp_all split: prod.split)

section \<open>Cuts do not matter\<close>

definition sse_ok :: "sse_decoder \<Rightarrow> bool" where
  "sse_ok d \<longleftrightarrow> utf8_ok (utf8 d) \<and> take_lines False [] (buffer d) = ([], buffer d)"

lemma sse_push_parts:
  "sse_push d b =
     (\<lparr>utf8 = fst (utf8_decode (utf8 d) b),
       buffer = snd (take_lines False [] (buffer d @ snd (utf8_decode (utf8 d) b))),
       line_fields = fst (decode_lines (line_fields d)
         (fst (take_lines False [] (buffer d @ snd (utf8_decode (utf8 d) b)))))\<rparr>,
      snd (decode_lines (line_fields d)
         (fst (take_lines False [] (buffer d @ snd (utf8_decode (utf8 d) b))))))"
  by (simp add: sse_push_def Let_def split: prod.split)

interpretation sse: chunked sse_ok sse_push
proof
  fix d :: sse_decoder and b :: string
  assume ok: "sse_ok d"
  show "sse_ok (fst (sse_push d b))"
    by (simp add: sse_push_parts sse_ok_def utf8_decode_ok take_lines_rest)
  show "sse_push d [] = (d, [])"
    using ok by (simp add: sse_push_parts sse_ok_def utf8_decode_Nil)
next
  fix d :: sse_decoder and a b :: string
  assume "sse_ok d"
  show "sse_push d (a @ b) =
      (fst (sse_push (fst (sse_push d a)) b),
       snd (sse_push d a) @ snd (sse_push (fst (sse_push d a)) b))"
    using take_lines_append [of "[]" "buffer d @ snd (utf8_decode (utf8 d) a)"
        "snd (utf8_decode (fst (utf8_decode (utf8 d) a)) b)"]
    by (simp add: sse_push_parts utf8_decode_append decode_lines_append)
qed

text \<open>A whole stream, fed in chunks and ended.\<close>

definition sse_stream :: "string list \<Rightarrow> server_sent_event list" where
  "sse_stream chunks =
     snd (sse.feed sse_new chunks) @ snd (sse_finish (fst (sse.feed sse_new chunks)))"

lemma sse_new_ok: "sse_ok sse_new"
  by (simp add: sse_ok_def sse_new_def utf8_ok_def)

section \<open>Properties\<close>

text \<open>C12. The events of a stream do not depend on how the network cut it: two ways of cutting the
  same bytes give the same events, with cuts inside UTF-8 sequences, inside a CRLF or a byte order
  mark included.\<close>

theorem sse_cut_invariant:
  assumes "concat chunks = concat chunks'"
  shows "sse_stream chunks = sse_stream chunks'"
  unfolding sse_stream_def by (simp add: sse.feed_cut [OF sse_new_ok assms])

lemma sse_cut_invariant_witness:
  "sse_stream [''data: a'', [CHR 0x0D], [CHR 0x0A, CHR 0x0D], [CHR 0x0A]] =
   sse_stream [''data: a'' @ [CHR 0x0D, CHR 0x0A, CHR 0x0D, CHR 0x0A]]"
  by (rule sse_cut_invariant) simp

text \<open>One event as a server writes it, its lines ended by \<open>e\<close>.\<close>

definition event_line :: "string \<Rightarrow> string" where
  "event_line name = ''event: '' @ name"

definition data_line :: "string \<Rightarrow> string" where
  "data_line d = ''data: '' @ d"

definition write_event :: "string \<Rightarrow> string list \<Rightarrow> string" where
  "write_event name ds = concat (map (\<lambda>l. l @ [CHR 0x0A]) (event_line name # map data_line ds)) @ [CHR 0x0A]"

lemma take_lines_line:
  "list_all (\<lambda>c. \<not> is_break c) l \<Longrightarrow> take_lines e [] (l @ CHR 0x0A # rest) =
     (l # fst (take_lines e [] rest), snd (take_lines e [] rest))"
  using take_lines_acc [of l e "[]"] by (simp add: take_lines_lf del: take_lines.simps)

lemma take_lines_lines:
  assumes "\<And>l. l \<in> set ls \<Longrightarrow> list_all (\<lambda>c. \<not> is_break c) l"
  shows "take_lines e [] (concat (map (\<lambda>l. l @ [CHR 0x0A]) ls)) = (ls, [])"
  using assms by (induction ls) (simp_all add: take_lines_line)

lemma decode_loop_lines:
  assumes "\<And>l. l \<in> set ls \<Longrightarrow> valid_utf8 l"
  shows "decode_loop (concat (map (\<lambda>l. l @ [CHR 0x0A]) ls)) = (concat (map (\<lambda>l. l @ [CHR 0x0A]) ls), [])"
  using assms by (induction ls) (simp_all add: decode_loop_valid_append decode_loop_ascii)

lemma decode_event_line:
  "decode_line f (event_line name) =
     (f\<lparr>field_event := Some name, field_raw := field_raw f @ [event_line name]\<rparr>, [])"
  by (simp add: decode_line_def event_line_def strip_space_def Let_def)

lemma decode_data_line:
  "decode_line f (data_line d) =
     (f\<lparr>field_data := field_data f @ [d], field_raw := field_raw f @ [data_line d]\<rparr>, [])"
  by (simp add: decode_line_def data_line_def strip_space_def Let_def)

lemma decode_data_lines:
  "decode_lines f (map data_line ds) =
     (f\<lparr>field_data := field_data f @ ds, field_raw := field_raw f @ map data_line ds\<rparr>, [])"
  by (induction ds arbitrary: f) (simp_all add: decode_data_line)

text \<open>A server's event arrives whole: an event name and data lines of valid text without line
  breaks, written as SSE and fed in any chunks, decode to exactly that one event, the data lines
  joined by newlines and the raw lines kept.\<close>

theorem sse_event_roundtrip:
  assumes "valid_utf8 name" and "list_all (\<lambda>c. \<not> is_break c) name"
    and "\<And>d. d \<in> set ds \<Longrightarrow> valid_utf8 d \<and> list_all (\<lambda>c. \<not> is_break c) d"
    and "concat chunks = write_event name ds"
  shows "sse_stream chunks =
    [\<lparr>sse_event = Some name, sse_data = join [CHR 0x0A] ds,
      sse_raw = event_line name # map data_line ds\<rparr>]"
proof -
  let ?ls = "event_line name # map data_line ds @ [[]]"
  let ?text = "concat (map (\<lambda>l. l @ [CHR 0x0A]) ?ls)"
  have text': "write_event name ds = ?text" by (simp add: write_event_def)
  have whole: "valid_utf8 l \<and> list_all (\<lambda>c. \<not> is_break c) l" if "l \<in> set ?ls" for l
  proof -
    have "valid_utf8 (event_line name)" "list_all (\<lambda>c. \<not> is_break c) (event_line name)"
      using assms(1,2) by (simp_all add: event_line_def valid_utf8_ascii is_break_def)
    moreover have "valid_utf8 (data_line d)" "list_all (\<lambda>c. \<not> is_break c) (data_line d)" if "d \<in> set ds" for d
      using assms(3) [OF that] by (simp_all add: data_line_def valid_utf8_ascii is_break_def)
    moreover have "valid_utf8 []" by (simp add: valid_utf8_def)
    ultimately show ?thesis using that by auto
  qed
  have "decode_loop ?text = (?text, [])" by (rule decode_loop_lines) (use whole in blast)
  moreover have "strip_bom ?text = ?text"
    by (simp add: strip_bom_def starts_with_def bom_def event_line_def)
  moreover have "?text \<noteq> []" by simp
  ultimately have dec: "utf8_decode (utf8 sse_new) ?text = (\<lparr>pending_bytes = [], started = True\<rparr>, ?text)"
    by (simp add: utf8_decode_def sse_new_def)
  have lines: "take_lines False [] ?text = (?ls, [])" by (rule take_lines_lines) (use whole in blast)
  have fs: "decode_lines no_fields ?ls =
      (no_fields, [\<lparr>sse_event = Some name, sse_data = join [CHR 0x0A] ds,
        sse_raw = event_line name # map data_line ds\<rparr>])"
    by (simp add: decode_event_line decode_lines_append decode_data_lines no_fields_def)
      (simp add: decode_line_def sse_flush_def no_fields_def)
  have push: "sse_push sse_new ?text =
      (\<lparr>utf8 = \<lparr>pending_bytes = [], started = True\<rparr>, buffer = [], line_fields = no_fields\<rparr>,
       [\<lparr>sse_event = Some name, sse_data = join [CHR 0x0A] ds,
         sse_raw = event_line name # map data_line ds\<rparr>])"
    unfolding sse_push_parts dec using lines fs by (simp add: sse_new_def)
  have "sse.feed sse_new chunks = sse_push sse_new ?text"
    using sse.feed_concat [OF sse_new_ok, of chunks] assms(4) text' by simp
  then show ?thesis
    unfolding sse_stream_def push
    by (simp add: push sse_finish_def utf8_finish_def sse_flush_def no_fields_def)
qed

lemma sse_event_roundtrip_witness:
  "sse_stream [write_event ''ping'' [''a'', ''b'']] =
     [\<lparr>sse_event = Some ''ping'', sse_data = join [CHR 0x0A] [''a'', ''b''],
       sse_raw = event_line ''ping'' # map data_line [''a'', ''b'']\<rparr>]"
proof (rule sse_event_roundtrip)
  show "valid_utf8 d \<and> list_all (\<lambda>c. \<not> is_break c) d" if "d \<in> set [''a'', ''b'']" for d
    using that by (auto simp: is_break_def valid_utf8_ascii)
qed (simp_all add: is_break_def valid_utf8_ascii)

end
