(* ===== verification/Jsonl.thy ===== *)
theory Jsonl
  imports Chunks Json
begin

text \<open>
  Strict JSONL framing (\<open>rpc/jsonl.rs\<close>): records split on LF alone, before they are decoded. The
  printer of a JSON value is a parameter; it is \<open>serde_json\<close>'s, whose text holds no line feed and
  does not end in a carriage return.
\<close>

section \<open>The reader\<close>

definition lf :: char where "lf = CHR 0x0A"

definition cr :: char where "cr = CHR 0x0D"

definition serialize_json_line :: "(json \<Rightarrow> string) \<Rightarrow> json \<Rightarrow> string" where
  "serialize_json_line show_json v = show_json v @ [lf]"

definition decode_record :: "string \<Rightarrow> string" where
  "decode_record line =
     from_utf8_lossy (if line \<noteq> [] \<and> last line = cr then butlast line else line)"

text \<open>The loop of \<open>push\<close>: the records the buffer completes, and what stays in it.\<close>

function drain_records :: "string \<Rightarrow> string list \<times> string" where
  "drain_records buf =
     (case split_once lf buf of
        None \<Rightarrow> ([], buf)
      | Some (line, rest) \<Rightarrow>
          (case drain_records rest of (ls, r) \<Rightarrow> (decode_record line # ls, r)))"
  by pat_completeness auto
termination
  by (relation "measure length") (auto simp: split_once_Some)

declare drain_records.simps [simp del]

definition lines_push :: "string \<Rightarrow> string \<Rightarrow> string \<times> string list" where
  "lines_push buf chunk = (case drain_records (buf @ chunk) of (ls, r) \<Rightarrow> (r, ls))"

definition lines_finish :: "string \<Rightarrow> string \<times> string list" where
  "lines_finish buf = (if buf \<noteq> [] then ([], [decode_record buf]) else ([], []))"

text \<open>\<open>read_lines\<close> over the outcomes of its reads: an empty read or a failure ends the stream.\<close>

datatype read_outcome = Read string | ReadFailed

fun read_from :: "string \<Rightarrow> read_outcome list \<Rightarrow> string \<times> string list" where
  "read_from buf [] = (buf, [])"
| "read_from buf (ReadFailed # rs) = (buf, [])"
| "read_from buf (Read chunk # rs) =
     (if chunk = [] then (buf, [])
      else (case lines_push buf chunk of
              (buf, ls) \<Rightarrow> (case read_from buf rs of (buf, ls') \<Rightarrow> (buf, ls @ ls'))))"

definition read_lines :: "read_outcome list \<Rightarrow> string list" where
  "read_lines rs = (case read_from [] rs of (buf, ls) \<Rightarrow> ls @ snd (lines_finish buf))"

section \<open>Cuts do not matter\<close>

lemma drain_records_none:
  assumes "lf \<notin> set buf" shows "drain_records buf = ([], buf)"
proof -
  have "split_once lf buf = None" using assms by simp
  then show ?thesis by (subst drain_records.simps) (simp only: option.case)
qed

lemma drain_records_line: "lf \<notin> set line \<Longrightarrow>
   drain_records (line @ lf # rest) =
     (decode_record line # fst (drain_records rest), snd (drain_records rest))"
proof -
  assume "lf \<notin> set line"
  then have "split_once lf (line @ lf # rest) = Some (line, rest)" by (simp add: split_once_Some)
  then show ?thesis by (simp add: drain_records.simps [of "line @ lf # rest"] split: prod.split)
qed

lemma drain_records_induct [case_names rest line]:
  assumes "\<And>buf. lf \<notin> set buf \<Longrightarrow> P buf"
    and "\<And>line rest. lf \<notin> set line \<Longrightarrow> P rest \<Longrightarrow> P (line @ lf # rest)"
  shows "P buf"
proof (induction buf rule: length_induct)
  case (1 buf)
  show ?case
  proof (cases "lf \<in> set buf")
    case True
    then obtain line rest where "buf = line @ lf # rest" "lf \<notin> set line"
      by (meson split_list_first)
    with 1 assms(2) show ?thesis by auto
  qed (rule assms(1))
qed

lemma drain_records_rest: "lf \<notin> set (snd (drain_records buf))"
  by (induction buf rule: drain_records_induct) (simp_all add: drain_records_none drain_records_line)

lemma drain_records_append:
  "drain_records (a @ b) =
     (fst (drain_records a) @ fst (drain_records (snd (drain_records a) @ b)),
      snd (drain_records (snd (drain_records a) @ b)))"
  by (induction a rule: drain_records_induct) (simp_all add: drain_records_none drain_records_line)

lemma lines_push_parts:
  "lines_push buf chunk = (snd (drain_records (buf @ chunk)), fst (drain_records (buf @ chunk)))"
  by (simp add: lines_push_def split: prod.split)

interpretation jsonl: chunked "\<lambda>buf. lf \<notin> set buf" lines_push
proof
  fix buf a b :: string
  show "lf \<notin> set buf \<Longrightarrow> lines_push buf [] = (buf, [])"
    by (simp add: lines_push_parts drain_records_none)
  show "lines_push buf (a @ b) =
      (fst (lines_push (fst (lines_push buf a)) b),
       snd (lines_push buf a) @ snd (lines_push (fst (lines_push buf a)) b))"
    using drain_records_append [of "buf @ a" b] by (simp add: lines_push_parts)
qed (simp add: lines_push_parts drain_records_rest)

lemma read_from_feed:
  "[] \<notin> set chunks \<Longrightarrow> read_from buf (map Read chunks) = jsonl.feed buf chunks"
  by (induction chunks arbitrary: buf) (auto split: prod.split)

lemma drain_all:
  assumes "\<And>l. l \<in> set ls \<Longrightarrow> lf \<notin> set l"
  shows "drain_records (concat (map (\<lambda>l. l @ [lf]) ls)) = (map decode_record ls, [])"
  using assms by (induction ls) (simp_all add: drain_records_line drain_records_none)

section \<open>Properties\<close>

text \<open>Records survive the pipe: values written one after another with \<open>serialize_json_line\<close>
  and read back with \<open>read_lines\<close>, however the pipe cut the bytes, come out as exactly their
  texts in order; provided the printer's text is valid UTF-8 without a line feed and does not end
  in a carriage return.\<close>

theorem jsonl_roundtrip:
  assumes "\<And>v. v \<in> set vs \<Longrightarrow>
      valid_utf8 (show_json v) \<and> lf \<notin> set (show_json v) \<and> \<not> (\<exists>t. show_json v = t @ [cr])"
    and "concat chunks = concat (map (serialize_json_line show_json) vs)" and "[] \<notin> set chunks"
  shows "read_lines (map Read chunks) = map show_json vs"
proof -
  have "map (serialize_json_line show_json) vs = map (\<lambda>l. l @ [lf]) (map show_json vs)"
    by (induction vs) (simp_all add: serialize_json_line_def)
  then have "concat chunks = concat (map (\<lambda>l. l @ [lf]) (map show_json vs))" using assms(2) by presburger
  moreover have "drain_records (concat (map (\<lambda>l. l @ [lf]) (map show_json vs))) =
      (map decode_record (map show_json vs), [])"
    by (rule drain_all) (use assms(1) in auto)
  ultimately have "lines_push [] (concat chunks) = ([], map decode_record (map show_json vs))"
    by (simp add: lines_push_parts)
  moreover have "decode_record (show_json v) = show_json v" if "v \<in> set vs" for v
    using assms(1) [OF that] append_butlast_last_id [of "show_json v"]
    by (metis decode_record_def from_utf8_lossy_valid)
  ultimately have "jsonl.feed [] chunks = ([], map show_json vs)"
    by (simp add: jsonl.feed_concat)
  then show ?thesis by (simp add: read_lines_def read_from_feed [OF assms(3)] lines_finish_def)
qed

lemma jsonl_roundtrip_witness:
  "read_lines (map Read [''tr'', ''ue'' @ [lf] @ ''true'', [lf]]) = [''true'', ''true'']"
proof -
  let ?show = "\<lambda>_ :: json. ''true''"
  have "read_lines (map Read [''tr'', ''ue'' @ [lf] @ ''true'', [lf]]) = map ?show [JBool True, JBool True]"
  proof (rule jsonl_roundtrip)
    show "valid_utf8 (?show v) \<and> lf \<notin> set (?show v) \<and> \<not> (\<exists>t. ?show v = t @ [cr])" for v
      by (simp add: valid_utf8_ascii lf_def cr_def Cons_eq_append_conv)
  qed (simp_all add: serialize_json_line_def)
  then show ?thesis by simp
qed

end
