(* ===== verification/Version.thy ===== *)
theory Version
  imports Prelude
begin

text \<open>
  Release versions (\<open>bake-update/src/version.rs\<close>): the syntax a manifest may name and the order
  the updater compares by. The contract of a comparison that can be sorted by is the locale
  \<open>three_way\<close>; it is kept by the combinations the code builds its order from, and interpreted
  on \<open>compare_versions\<close> itself.
\<close>

section \<open>The contract of an ordering\<close>

locale three_way =
  fixes cmp :: "'a \<Rightarrow> 'a \<Rightarrow> comparison"
  assumes reversed: "cmp y x = reverse_cmp (cmp x y)"
    and less_less: "cmp x y = Less \<Longrightarrow> cmp y z = Less \<Longrightarrow> cmp x z = Less"
    and equal_left: "cmp x y = Equal \<Longrightarrow> cmp x z = cmp y z"
begin

lemma same [simp]: "cmp x x = Equal"
  using reversed [of x x] by (cases "cmp x x") simp_all

lemma equal_right: "cmp x y = Equal \<Longrightarrow> cmp z x = cmp z y"
  using equal_left [of x y z] reversed [of z x] reversed [of z y] by simp

lemma chain:
  assumes "cmp x y \<noteq> Greater" and "cmp y z \<noteq> Greater"
  shows "cmp x z = then_cmp (cmp x y) (cmp y z)"
proof (cases "cmp x y")
  case Less
  show ?thesis
  proof (cases "cmp y z")
    case Less
    with \<open>cmp x y = Less\<close> show ?thesis using less_less [of x y z] by simp
  next
    case Equal
    with \<open>cmp x y = Less\<close> show ?thesis using equal_right [of y z x] by simp
  qed (use assms(2) in simp)
next
  case Equal
  then show ?thesis using equal_left [of x y z] by simp
qed (use assms(1) in simp)

lemma not_greater_chain:
  "cmp x y \<noteq> Greater \<Longrightarrow> cmp y z \<noteq> Greater \<Longrightarrow> cmp x z \<noteq> Greater"
  using chain [of x y z] by (cases "cmp x y") simp_all

end

text \<open>\<open>Ord::cmp\<close> of lists and the combinations of orderings.\<close>

fun lex_cmp :: "('a \<Rightarrow> 'a \<Rightarrow> comparison) \<Rightarrow> 'a list \<Rightarrow> 'a list \<Rightarrow> comparison" where
  "lex_cmp c [] [] = Equal"
| "lex_cmp c [] (y # ys) = Less"
| "lex_cmp c (x # xs) [] = Greater"
| "lex_cmp c (x # xs) (y # ys) = then_cmp (c x y) (lex_cmp c xs ys)"

lemma then_cmp_Less: "then_cmp c d = Less \<longleftrightarrow> c = Less \<or> c = Equal \<and> d = Less"
  by (cases c) simp_all

lemma then_cmp_Equal: "then_cmp c d = Equal \<longleftrightarrow> c = Equal \<and> d = Equal"
  by (cases c) simp_all

lemma then_cmp_same [simp]: "then_cmp c Equal = c"
  by (cases c) simp_all

lemma three_way_cmp_of: "three_way (cmp_of :: 'a::linorder \<Rightarrow> 'a \<Rightarrow> comparison)"
proof
  fix x y z :: 'a
  show "cmp_of y x = reverse_cmp (cmp_of x y)" by (rule cmp_of_reverse)
  show "cmp_of x y = Less \<Longrightarrow> cmp_of y z = Less \<Longrightarrow> cmp_of x z = Less" by simp
  show "cmp_of x y = Equal \<Longrightarrow> cmp_of x z = cmp_of y z" by simp
qed

lemma three_way_on: "three_way c \<Longrightarrow> three_way (\<lambda>x y. c (f x) (f y))"
  unfolding three_way_def by blast

lemma three_way_then:
  assumes "three_way c" and "three_way d"
  shows "three_way (\<lambda>x y. then_cmp (c x y) (d x y))"
proof
  fix x y z
  show "then_cmp (c y x) (d y x) = reverse_cmp (then_cmp (c x y) (d x y))"
    using three_way.reversed [OF assms(1), of y x] three_way.reversed [OF assms(2), of y x] by simp
  show "then_cmp (c x z) (d x z) = Less"
    if "then_cmp (c x y) (d x y) = Less" and "then_cmp (c y z) (d y z) = Less"
    using that three_way.less_less [OF assms(1), of x y z] three_way.equal_left [OF assms(1), of x y z]
      three_way.equal_right [OF assms(1), of y z x] three_way.less_less [OF assms(2), of x y z]
    unfolding then_cmp_Less by metis
  show "then_cmp (c x z) (d x z) = then_cmp (c y z) (d y z)" if "then_cmp (c x y) (d x y) = Equal"
    using that three_way.equal_left [OF assms(1), of x y z] three_way.equal_left [OF assms(2), of x y z]
    unfolding then_cmp_Equal by simp
qed

lemma three_way_lex:
  assumes "three_way c" shows "three_way (lex_cmp c)"
proof
  show "lex_cmp c y x = reverse_cmp (lex_cmp c x y)" for x y
  proof (induction x arbitrary: y)
    case Nil
    then show ?case by (cases y) simp_all
  next
    case (Cons a x)
    then show ?case
      by (cases y) (simp_all add: three_way.reversed [OF assms, of _ a])
  qed
  show "lex_cmp c x y = Less \<Longrightarrow> lex_cmp c y z = Less \<Longrightarrow> lex_cmp c x z = Less" for x y z
  proof (induction x arbitrary: y z)
    case Nil
    then show ?case by (cases y; cases z) simp_all
  next
    case (Cons a x)
    then obtain b y' where y: "y = b # y'" by (cases y) simp_all
    with Cons.prems obtain d z' where z: "z = d # z'" by (cases z) simp_all
    from Cons.prems have ab: "c a b = Less \<or> c a b = Equal \<and> lex_cmp c x y' = Less"
      and bd: "c b d = Less \<or> c b d = Equal \<and> lex_cmp c y' z' = Less"
      by (simp_all add: y z then_cmp_Less)
    then have "c a d = Less \<or> c a d = Equal \<and> lex_cmp c x z' = Less"
      using three_way.less_less [OF assms, of a b d] three_way.equal_left [OF assms, of a b d]
        three_way.equal_right [OF assms, of b d a] Cons.IH [of y' z'] by metis
    then show ?case by (simp add: z then_cmp_Less)
  qed
  show "lex_cmp c x y = Equal \<Longrightarrow> lex_cmp c x z = lex_cmp c y z" for x y z
  proof (induction x arbitrary: y z)
    case Nil
    then show ?case by (cases y) simp_all
  next
    case (Cons a x)
    then obtain b y' where y: "y = b # y'" by (cases y) simp_all
    with Cons.prems have eq: "c a b = Equal" "lex_cmp c x y' = Equal" by (simp_all add: then_cmp_Equal)
    show ?case
      using three_way.equal_left [OF assms eq(1)] Cons.IH [OF eq(2)] by (cases z) (simp_all add: y)
  qed
qed

section \<open>The code\<close>

text \<open>Byte-wise order of text, \<open>str::cmp\<close>.\<close>

definition cmp_byte :: "char \<Rightarrow> char \<Rightarrow> comparison" where
  "cmp_byte a b = cmp_of (of_char a :: nat) (of_char b)"

definition cmp_text :: "string \<Rightarrow> string \<Rightarrow> comparison" where
  "cmp_text = lex_cmp cmp_byte"

definition is_digits :: "string \<Rightarrow> bool" where
  "is_digits part \<longleftrightarrow> part \<noteq> [] \<and> list_all is_digit part"

definition is_number :: "string \<Rightarrow> bool" where
  "is_number part \<longleftrightarrow> is_digits part \<and> (part = ''0'' \<or> \<not> starts_with part ''0'')"

definition is_alphanumeric :: "char \<Rightarrow> bool" where
  "is_alphanumeric b \<longleftrightarrow>
     (let n = (of_char b :: nat) in 48 \<le> n \<and> n \<le> 57 \<or> 65 \<le> n \<and> n \<le> 90 \<or> 97 \<le> n \<and> n \<le> 122)"

definition split_version :: "string \<Rightarrow> string \<times> string option" where
  "split_version v =
     (case split_once CHR ''-'' v of None \<Rightarrow> (v, None) | Some (core, pre) \<Rightarrow> (core, Some pre))"

definition identifier_ok :: "string \<Rightarrow> bool" where
  "identifier_ok i \<longleftrightarrow> i \<noteq> [] \<and> list_all (\<lambda>b. is_alphanumeric b \<or> b = CHR ''-'') i
     \<and> (\<not> is_digits i \<or> is_number i)"

definition is_release_version :: "string \<Rightarrow> bool" where
  "is_release_version v \<longleftrightarrow>
     (case split_version v of (core, pre) \<Rightarrow>
       (let numbers = split_on CHR ''.'' core in
        length numbers = 3 \<and> list_all is_number numbers \<and>
        (case pre of None \<Rightarrow> True
         | Some p \<Rightarrow> list_all identifier_ok (split_on CHR ''.'' p))))"

definition trim_zeros :: "string \<Rightarrow> string" where
  "trim_zeros = dropWhile (\<lambda>c. c = CHR ''0'')"

definition compare_numbers :: "string \<Rightarrow> string \<Rightarrow> comparison" where
  "compare_numbers l r =
     (let l = trim_zeros l; r = trim_zeros r in
      then_cmp (cmp_of (length l) (length r)) (cmp_text l r))"

text \<open>The loop body's \<open>next().filter(is_digits).unwrap_or("0")\<close>, on what is left of the iterator.\<close>

definition next_number :: "string list \<Rightarrow> string" where
  "next_number parts =
     (case parts of [] \<Rightarrow> ''0'' | p # _ \<Rightarrow> if is_digits p then p else ''0'')"

fun compare_core :: "nat \<Rightarrow> string list \<Rightarrow> string list \<Rightarrow> comparison" where
  "compare_core 0 ls rs = Equal"
| "compare_core (Suc n) ls rs =
     (let order = compare_numbers (next_number ls) (next_number rs) in
      if order \<noteq> Equal then order else compare_core n (tl ls) (tl rs))"

definition compare_identifier :: "string \<Rightarrow> string \<Rightarrow> comparison" where
  "compare_identifier l r =
     (case (is_digits l, is_digits r) of
        (True, True) \<Rightarrow> compare_numbers l r
      | (True, False) \<Rightarrow> Less
      | (False, True) \<Rightarrow> Greater
      | (False, False) \<Rightarrow> cmp_text l r)"

fun compare_identifiers :: "string list \<Rightarrow> string list \<Rightarrow> comparison" where
  "compare_identifiers [] [] = Equal"
| "compare_identifiers [] (r # rs) = Less"
| "compare_identifiers (l # ls) [] = Greater"
| "compare_identifiers (l # ls) (r # rs) =
     (let order = compare_identifier l r in
      if order \<noteq> Equal then order else compare_identifiers ls rs)"

definition compare_prerelease :: "string \<Rightarrow> string \<Rightarrow> comparison" where
  "compare_prerelease l r = compare_identifiers (split_on CHR ''.'' l) (split_on CHR ''.'' r)"

fun compare_pre :: "string option \<Rightarrow> string option \<Rightarrow> comparison" where
  "compare_pre None None = Equal"
| "compare_pre None (Some _) = Greater"
| "compare_pre (Some _) None = Less"
| "compare_pre (Some l) (Some r) = compare_prerelease l r"

definition compare_versions :: "string \<Rightarrow> string \<Rightarrow> comparison" where
  "compare_versions l r =
     (case split_version l of (left_core, left_pre) \<Rightarrow>
      case split_version r of (right_core, right_pre) \<Rightarrow>
      (let order = compare_core 3 (split_on CHR ''.'' left_core) (split_on CHR ''.'' right_core) in
       if order \<noteq> Equal then order else compare_pre left_pre right_pre))"

section \<open>The order is total and transitive\<close>

lemma cmp_text_three_way: "three_way cmp_text"
  unfolding cmp_text_def cmp_byte_def [abs_def]
  by (rule three_way_lex [OF three_way_on [OF three_way_cmp_of]])

lemma compare_numbers_three_way: "three_way compare_numbers"
proof -
  have "three_way (\<lambda>l r. then_cmp (cmp_of (length (trim_zeros l)) (length (trim_zeros r)))
          (cmp_text (trim_zeros l) (trim_zeros r)))"
    by (rule three_way_then [OF three_way_on [OF three_way_cmp_of] three_way_on [OF cmp_text_three_way]])
  then show ?thesis by (simp add: compare_numbers_def [abs_def] Let_def)
qed

lemma if_then_cmp: "(if c \<noteq> Equal then c else d) = then_cmp c d"
  by (cases c) simp_all

lemma compare_core_three_way: "three_way (compare_core n)"
proof (induction n)
  case 0
  have "compare_core 0 = (\<lambda>_ _. Equal)" by (simp add: fun_eq_iff)
  then show ?case by (simp add: three_way_def)
next
  case (Suc n)
  have "compare_core (Suc n) = (\<lambda>l r. then_cmp (compare_numbers (next_number l) (next_number r))
          (compare_core n (tl l) (tl r)))"
    by (simp add: fun_eq_iff Let_def if_then_cmp)
  then show ?case
    using three_way_then [OF three_way_on [OF compare_numbers_three_way] three_way_on [OF Suc]] by simp
qed

lemma compare_identifier_three_way: "three_way compare_identifier"
proof
  fix x y z
  note tw = compare_numbers_three_way cmp_text_three_way
  show "compare_identifier y x = reverse_cmp (compare_identifier x y)"
    using three_way.reversed [OF tw(1), of y x] three_way.reversed [OF tw(2), of y x]
    by (simp add: compare_identifier_def split: bool.split)
  show "compare_identifier x y = Less \<Longrightarrow> compare_identifier y z = Less \<Longrightarrow> compare_identifier x z = Less"
    using three_way.less_less [OF tw(1), of x y z] three_way.less_less [OF tw(2), of x y z]
    by (simp add: compare_identifier_def split: bool.splits)
  show "compare_identifier x y = Equal \<Longrightarrow> compare_identifier x z = compare_identifier y z"
    using three_way.equal_left [OF tw(1), of x y z] three_way.equal_left [OF tw(2), of x y z]
    by (simp add: compare_identifier_def split: bool.splits)
qed

lemma compare_identifiers_lex: "compare_identifiers l r = lex_cmp compare_identifier l r"
proof (induction l r rule: compare_identifiers.induct)
  case (4 l ls r rs)
  then show ?case by (cases "compare_identifier l r") simp_all
qed simp_all

lemma compare_pre_three_way: "three_way compare_pre"
proof -
  have p: "three_way compare_prerelease"
    using three_way_on [OF three_way_lex [OF compare_identifier_three_way], of "split_on CHR ''.''"]
    by (simp add: compare_prerelease_def [abs_def] compare_identifiers_lex)
  show ?thesis
  proof
    fix x y z
    show "compare_pre y x = reverse_cmp (compare_pre x y)"
      by (cases x; cases y) (auto intro: three_way.reversed [OF p])
    show "compare_pre x y = Less \<Longrightarrow> compare_pre y z = Less \<Longrightarrow> compare_pre x z = Less"
      by (cases x; cases y; cases z) (simp_all add: three_way.less_less [OF p])
    show "compare_pre x y = Equal \<Longrightarrow> compare_pre x z = compare_pre y z"
      by (cases x; cases y; cases z) (simp_all add: three_way.equal_left [OF p])
  qed
qed

lemma compare_versions_parts:
  "compare_versions l r =
     then_cmp (compare_core 3 (split_on CHR ''.'' (fst (split_version l))) (split_on CHR ''.'' (fst (split_version r))))
       (compare_pre (snd (split_version l)) (snd (split_version r)))"
  by (simp add: compare_versions_def Let_def if_then_cmp split: prod.split)

interpretation version: three_way compare_versions
proof -
  have "three_way (\<lambda>l r. then_cmp
      (compare_core 3 (split_on CHR ''.'' (fst (split_version l))) (split_on CHR ''.'' (fst (split_version r))))
      (compare_pre (snd (split_version l)) (snd (split_version r))))"
    by (rule three_way_then [OF three_way_on [OF compare_core_three_way] three_way_on [OF compare_pre_three_way]])
  then show "three_way compare_versions" by (simp add: compare_versions_parts [abs_def])
qed

section \<open>Release versions\<close>

lemma cmp_text_Equal [simp]: "cmp_text a b = Equal \<longleftrightarrow> a = b"
proof (induction a arbitrary: b)
  case Nil
  then show ?case by (cases b) (simp_all add: cmp_text_def)
next
  case (Cons x a)
  then show ?case by (cases b) (simp_all add: cmp_text_def cmp_byte_def then_cmp_Equal)
qed

lemma compare_numbers_Equal: "compare_numbers l r = Equal \<longleftrightarrow> trim_zeros l = trim_zeros r"
  by (auto simp: compare_numbers_def Let_def then_cmp_Equal)

lemma is_number_canonical:
  assumes "is_number a" and "is_number b" and "trim_zeros a = trim_zeros b"
  shows "a = b"
proof -
  have kept: "trim_zeros n = (if n = ''0'' then [] else n)" if "is_number n" for n
    using that by (cases n) (auto simp: is_number_def is_digits_def starts_with_def trim_zeros_def)
  have "a \<noteq> []" and "b \<noteq> []" using assms(1,2) by (auto simp: is_number_def is_digits_def)
  with assms show ?thesis by (simp add: kept split: if_splits)
qed

lemma compare_identifier_Equal:
  assumes "identifier_ok l" and "identifier_ok r" and "compare_identifier l r = Equal"
  shows "l = r"
  using assms is_number_canonical [of l r]
  by (auto simp: compare_identifier_def identifier_ok_def compare_numbers_Equal split: bool.splits)

lemma compare_identifiers_Equal:
  "list_all identifier_ok ls \<Longrightarrow> list_all identifier_ok rs \<Longrightarrow>
   compare_identifiers ls rs = Equal \<Longrightarrow> ls = rs"
  by (induction ls rs rule: compare_identifiers.induct)
    (auto simp: Let_def compare_identifier_Equal split: if_splits)

lemma three_parts: "length ps = 3 \<longleftrightarrow> (\<exists>a b c. ps = [a, b, c])"
  by (auto simp: numeral_3_eq_3 length_Suc_conv)

lemma compare_core_numbers:
  assumes "list_all is_number [a, b, c]" and "list_all is_number [x, y, z]"
  shows "compare_core 3 [a, b, c] [x, y, z] =
           then_cmp (compare_numbers a x) (then_cmp (compare_numbers b y) (compare_numbers c z))"
  using assms
  by (simp add: numeral_3_eq_3 next_number_def is_number_def Let_def if_then_cmp)

lemma split_version_inject: "split_version v = split_version w \<Longrightarrow> v = w"
  by (auto simp: split_version_def split_once_Some split: option.splits prod.splits)

lemma is_release_version_parts:
  assumes "is_release_version v"
  obtains a b c where "split_on CHR ''.'' (fst (split_version v)) = [a, b, c]"
    and "list_all is_number [a, b, c]"
    and "\<forall>p. snd (split_version v) = Some p \<longrightarrow> list_all identifier_ok (split_on CHR ''.'' p)"
proof -
  obtain core pre where v: "split_version v = (core, pre)" by (cases "split_version v")
  with assms have "length (split_on CHR ''.'' core) = 3"
    and numbers: "list_all is_number (split_on CHR ''.'' core)"
    by (simp_all add: is_release_version_def Let_def)
  then obtain a b c where "split_on CHR ''.'' core = [a, b, c]" by (auto simp: three_parts)
  moreover from this numbers have "list_all is_number [a, b, c]" by simp
  moreover have "\<forall>p. pre = Some p \<longrightarrow> list_all identifier_ok (split_on CHR ''.'' p)"
    using assms v by (auto simp: is_release_version_def Let_def)
  ultimately show thesis using that v fst_conv snd_conv by metis
qed

text \<open>Over the versions a manifest may name the order is total on texts: two release versions
  compare equal exactly when they are the same text.\<close>

theorem release_versions_equal:
  assumes "is_release_version v" and "is_release_version w"
  shows "compare_versions v w = Equal \<longleftrightarrow> v = w"
proof
  assume eq: "compare_versions v w = Equal"
  from assms(1) obtain a b c where v: "split_on CHR ''.'' (fst (split_version v)) = [a, b, c]"
      "list_all is_number [a, b, c]"
      "\<forall>p. snd (split_version v) = Some p \<longrightarrow> list_all identifier_ok (split_on CHR ''.'' p)"
    by (rule is_release_version_parts)
  from assms(2) obtain x y z where w: "split_on CHR ''.'' (fst (split_version w)) = [x, y, z]"
      "list_all is_number [x, y, z]"
      "\<forall>p. snd (split_version w) = Some p \<longrightarrow> list_all identifier_ok (split_on CHR ''.'' p)"
    by (rule is_release_version_parts)
  have "[a, b, c] = [x, y, z]"
    using eq v(1,2) w(1,2) is_number_canonical
    by (auto simp: compare_versions_parts compare_core_numbers then_cmp_Equal compare_numbers_Equal)
  then have core: "fst (split_version v) = fst (split_version w)"
    using v(1) w(1) split_on_inject by metis
  have pre: "compare_pre (snd (split_version v)) (snd (split_version w)) = Equal"
    using eq by (simp add: compare_versions_parts then_cmp_Equal)
  from pre have "snd (split_version v) = snd (split_version w)"
  proof (cases "snd (split_version v)"; cases "snd (split_version w)")
    fix p q
    assume "snd (split_version v) = Some p" "snd (split_version w) = Some q"
    with pre v(3) w(3) have "split_on CHR ''.'' p = split_on CHR ''.'' q"
      by (intro compare_identifiers_Equal) (simp_all add: compare_prerelease_def)
    then have "p = q" by (rule split_on_inject)
    then show ?thesis using \<open>snd (split_version v) = Some p\<close> \<open>snd (split_version w) = Some q\<close> by simp
  qed (use pre in simp_all)
  with core show "v = w" by (simp add: prod_eq_iff split_version_inject)
qed simp

lemma release_versions_equal_witness:
  "compare_versions ''1.2.3-rc.1'' ''1.2.3-rc.1'' = Equal \<longleftrightarrow> ''1.2.3-rc.1'' = ''1.2.3-rc.1''"
  by (rule release_versions_equal) code_simp+

text \<open>The order is a total preorder on every text, release version or not: swapping the
  arguments reverses the answer, and two steps that do not go down compose to one that does not,
  equal only when both were equal.\<close>

theorem version_order_transitive:
  assumes "compare_versions u v \<noteq> Greater" and "compare_versions v w \<noteq> Greater"
  shows "compare_versions u w = then_cmp (compare_versions u v) (compare_versions v w)
    \<and> compare_versions w u = reverse_cmp (compare_versions u w)"
  using version.chain [OF assms] version.reversed [of w u] by simp

lemma version_order_transitive_witness:
  "compare_versions ''1.0.0-9'' ''1.0.0'' =
     then_cmp (compare_versions ''1.0.0-9'' ''1.0.0-10'') (compare_versions ''1.0.0-10'' ''1.0.0'')
   \<and> compare_versions ''1.0.0'' ''1.0.0-9'' = reverse_cmp (compare_versions ''1.0.0-9'' ''1.0.0'')"
  by (rule version_order_transitive) code_simp+

section \<open>Numbers compare by value\<close>

lemma number_value_Cons:
  "number_value (c # s) = digit_value c * 10 ^ length s + number_value s"
proof (induction s rule: rev_induct)
  case (snoc d s)
  then show ?case using number_value_append [of "c # s" d] by (simp add: number_value_append)
qed (simp add: number_value_def)

lemma number_value_less: "list_all is_digit s \<Longrightarrow> number_value s < 10 ^ length s"
proof (induction s)
  case (Cons c s)
  then have "digit_value c \<le> 9" by (simp add: is_digit_def digit_value_def le_diff_conv)
  then have "digit_value c * 10 ^ length s \<le> 9 * 10 ^ length s" by (rule mult_le_mono1)
  moreover have "number_value s < 10 ^ length s" using Cons by simp
  ultimately show ?case unfolding number_value_Cons length_Cons power_Suc by linarith
qed (simp add: number_value_def)

lemma number_value_trim: "number_value (trim_zeros s) = number_value s"
  by (induction s) (auto simp: trim_zeros_def number_value_Cons digit_value_def)

lemma trim_zeros_lower:
  assumes "list_all is_digit s" and "trim_zeros s = c # u"
  shows "10 ^ length u \<le> number_value s"
proof -
  have "c \<noteq> CHR ''0''" using assms(2) by (auto simp: trim_zeros_def dropWhile_eq_Cons_conv)
  have "c \<in> set s" using assms(2) set_dropWhileD [of c "\<lambda>c. c = CHR ''0''" s] by (simp add: trim_zeros_def)
  with assms(1) have "is_digit c" by (simp add: list_all_iff)
  have "digit_value c \<noteq> 0"
  proof
    assume "digit_value c = 0"
    with \<open>is_digit c\<close> have "(of_char c :: nat) = 48" by (simp add: digit_value_def is_digit_def)
    then have "(of_char c :: nat) = of_char CHR ''0''" by simp
    with \<open>c \<noteq> CHR ''0''\<close> show False by (simp only: of_char_eq_iff)
  qed
  then have "1 * 10 ^ length u \<le> digit_value c * 10 ^ length u" by (intro mult_le_mono1) simp
  moreover have "number_value s = digit_value c * 10 ^ length u + number_value u"
    using number_value_trim [of s] by (simp add: assms(2) number_value_Cons)
  ultimately show ?thesis by linarith
qed

lemma cmp_text_value:
  "length a = length b \<Longrightarrow> list_all is_digit a \<Longrightarrow> list_all is_digit b \<Longrightarrow>
   cmp_text a b = cmp_of (number_value a) (number_value b)"
proof (induction a b rule: list_induct2)
  case (Cons x a y b)
  let ?k = "10 ^ length b :: nat"
  have x: "(of_char x :: nat) = digit_value x + 48" and y: "(of_char y :: nat) = digit_value y + 48"
    using Cons.prems by (simp_all add: digit_value_def is_digit_def)
  have a: "number_value a < ?k" and b: "number_value b < ?k"
    using number_value_less [of a] number_value_less [of b] Cons by simp_all
  have low: "m * ?k + i < n * ?k + j" if "m < n" "i < ?k" for m n i j :: nat
  proof -
    from \<open>m < n\<close> have "(m + 1) * ?k \<le> n * ?k" by (intro mult_le_mono1) simp
    with \<open>i < ?k\<close> show ?thesis by (simp add: algebra_simps)
  qed
  consider "digit_value x < digit_value y" | "digit_value x = digit_value y" | "digit_value y < digit_value x"
    by linarith
  then show ?case
  proof cases
    case 1
    then show ?thesis using low [OF 1 a, of "number_value b"] Cons.hyps
      by (simp add: cmp_text_def cmp_byte_def x y number_value_Cons cmp_of_def)
  next
    case 2
    then show ?thesis using Cons
      by (simp add: cmp_text_def cmp_byte_def x y number_value_Cons cmp_of_def)
  next
    case 3
    then show ?thesis using low [OF 3 b, of "number_value a"] Cons.hyps
      by (simp add: cmp_text_def cmp_byte_def x y number_value_Cons cmp_of_def)
  qed
qed (simp add: cmp_text_def number_value_def cmp_of_def)

lemma compare_numbers_value:
  assumes "list_all is_digit l" and "list_all is_digit r"
  shows "compare_numbers l r = cmp_of (number_value l) (number_value r)"
proof -
  let ?l = "trim_zeros l" and ?r = "trim_zeros r"
  have digits: "list_all is_digit (trim_zeros s)" if "list_all is_digit s" for s
    using that by (auto simp: trim_zeros_def list_all_iff dest: set_dropWhileD)
  have shorter: "number_value s < number_value t"
    if ds: "list_all is_digit s" and dt: "list_all is_digit t"
      and len: "length (trim_zeros s) < length (trim_zeros t)" for s t
  proof -
    obtain c u where t: "trim_zeros t = c # u" using len by (cases "trim_zeros t") auto
    have "number_value s < 10 ^ length (trim_zeros s)"
      using number_value_less [OF digits [OF ds]] by (simp add: number_value_trim)
    also have "\<dots> \<le> 10 ^ length u" using len t by (intro power_increasing) auto
    also have "\<dots> \<le> number_value t" by (rule trim_zeros_lower [OF dt t])
    finally show ?thesis .
  qed
  consider "length ?l < length ?r" | "length ?l = length ?r" | "length ?r < length ?l" by linarith
  then show ?thesis
  proof cases
    case 1
    with shorter [OF assms 1] show ?thesis by (simp add: compare_numbers_def Let_def cmp_of_def)
  next
    case 2
    with cmp_text_value [OF 2] digits assms show ?thesis
      by (simp add: compare_numbers_def Let_def number_value_trim) (simp add: cmp_of_def)
  next
    case 3
    with shorter [OF assms(2,1) 3] show ?thesis by (simp add: compare_numbers_def Let_def cmp_of_def)
  qed
qed

text \<open>The precedence of semantic versioning, over parsed versions.\<close>

datatype pre_identifier = Num nat | Word string

fun identifier_cmp :: "pre_identifier \<Rightarrow> pre_identifier \<Rightarrow> comparison" where
  "identifier_cmp (Num m) (Num n) = cmp_of m n"
| "identifier_cmp (Num _) (Word _) = Less"
| "identifier_cmp (Word _) (Num _) = Greater"
| "identifier_cmp (Word a) (Word b) = cmp_text a b"

definition parse_identifier :: "string \<Rightarrow> pre_identifier" where
  "parse_identifier i = (if is_digits i then Num (number_value i) else Word i)"

definition parse_version :: "string \<Rightarrow> nat list \<times> pre_identifier list option" where
  "parse_version v =
     (map number_value (split_on CHR ''.'' (fst (split_version v))),
      map_option (\<lambda>p. map parse_identifier (split_on CHR ''.'' p)) (snd (split_version v)))"

fun pre_cmp :: "pre_identifier list option \<Rightarrow> pre_identifier list option \<Rightarrow> comparison" where
  "pre_cmp None None = Equal"
| "pre_cmp None (Some _) = Greater"
| "pre_cmp (Some _) None = Less"
| "pre_cmp (Some l) (Some r) = lex_cmp identifier_cmp l r"

definition precedence :: "nat list \<times> pre_identifier list option \<Rightarrow> nat list \<times> pre_identifier list option \<Rightarrow> comparison" where
  "precedence v w = then_cmp (lex_cmp cmp_of (fst v) (fst w)) (pre_cmp (snd v) (snd w))"

lemma compare_identifier_parse:
  "compare_identifier l r = identifier_cmp (parse_identifier l) (parse_identifier r)"
  by (auto simp: compare_identifier_def parse_identifier_def is_digits_def compare_numbers_value
      split: bool.split)

lemma lex_cmp_map: "lex_cmp c (map f xs) (map f ys) = lex_cmp (\<lambda>x y. c (f x) (f y)) xs ys"
proof (induction xs arbitrary: ys)
  case Nil
  then show ?case by (cases ys) simp_all
next
  case (Cons x xs)
  then show ?case by (cases ys) simp_all
qed

text \<open>C26. The comparison on texts implements semantic-versioning precedence on parsed versions:
  core numbers by value whatever their length, a prerelease before its release, prerelease
  identifiers in turn, numbers by value and before words.\<close>

theorem compare_versions_precedence:
  assumes "is_release_version v" and "is_release_version w"
  shows "compare_versions v w = precedence (parse_version v) (parse_version w)"
proof -
  from assms(1) obtain a b c where v: "split_on CHR ''.'' (fst (split_version v)) = [a, b, c]"
      "list_all is_number [a, b, c]" by (rule is_release_version_parts)
  from assms(2) obtain x y z where w: "split_on CHR ''.'' (fst (split_version w)) = [x, y, z]"
      "list_all is_number [x, y, z]" by (rule is_release_version_parts)
  have "compare_core 3 [a, b, c] [x, y, z] =
      lex_cmp cmp_of (map number_value [a, b, c]) (map number_value [x, y, z])"
    using v(2) w(2) unfolding compare_core_numbers [OF v(2) w(2)]
    by (simp add: is_number_def is_digits_def compare_numbers_value)
  moreover have "compare_pre p q = pre_cmp
      (map_option (\<lambda>p. map parse_identifier (split_on CHR ''.'' p)) p)
      (map_option (\<lambda>p. map parse_identifier (split_on CHR ''.'' p)) q)" for p q
    by (cases p; cases q)
      (simp_all add: compare_prerelease_def compare_identifiers_lex lex_cmp_map
        compare_identifier_parse [abs_def, symmetric])
  ultimately show ?thesis
    by (simp add: compare_versions_parts precedence_def parse_version_def v w)
qed

lemma compare_versions_precedence_witness:
  "compare_versions ''1.0.0-18446744073709551616'' ''1.0.0-0a'' =
     precedence (parse_version ''1.0.0-18446744073709551616'') (parse_version ''1.0.0-0a'')"
  by (rule compare_versions_precedence) code_simp+

end
