(* ===== verification/SessionContext.thy ===== *)
theory SessionContext
  imports SessionFork
begin

text \<open>
  What an agent resumes with (\<open>session/context.rs\<close> and the context views of
  \<open>session/manager.rs\<close>): the path to a leaf, the entries a compaction leaves of it, the messages
  each entry contributes after context edits, and the settings the path leaves. A stored message
  is the JSON object it was stored as. \<open>round\<close> is the conversion of a floating-point time that
  \<open>js_date_ms\<close> takes as its parameter.
\<close>

section \<open>Paths\<close>

datatype leaf_selector = LeafLast | LeafEmpty | LeafId string

fun leaf_selector_from :: "string option \<Rightarrow> leaf_selector" where
  "leaf_selector_from None = LeafEmpty"
| "leaf_selector_from (Some i) = LeafId i"

definition index_entries :: "session_entry list \<Rightarrow> entry_index" where
  "index_entries es = foldl (\<lambda>m e. imap_insert (entry_id e) e m) [] es"

definition last_entry :: "session_entry list \<Rightarrow> session_entry option" where
  "last_entry es = (if es = [] then None else Some (last es))"

definition session_path :: "session_entry list \<Rightarrow> leaf_selector \<Rightarrow> entry_index \<Rightarrow> session_entry list" where
  "session_path es leaf idx =
     (case leaf of
        LeafEmpty \<Rightarrow> []
      | LeafLast \<Rightarrow> path_to_root (last_entry es) idx
      | LeafId i \<Rightarrow>
          path_to_root
            (case map_of idx i of
               Some e \<Rightarrow> if i \<noteq> [] then Some e else last_entry es
             | None \<Rightarrow> last_entry es) idx)"

section \<open>Settings\<close>

record model_ref =
  ref_provider :: string
  ref_model :: string

definition model_ref_of :: "string option \<Rightarrow> string option \<Rightarrow> model_ref option" where
  "model_ref_of provider model =
     (case (provider, model) of
        (Some p, Some m) \<Rightarrow> Some \<lparr>ref_provider = p, ref_model = m\<rparr>
      | _ \<Rightarrow> None)"

definition settings_step ::
  "session_entry \<Rightarrow> string \<times> model_ref option \<Rightarrow> string \<times> model_ref option" where
  "settings_step e st =
     (case st of (level, model) \<Rightarrow>
       if entry_type e = ''thinking_level_change'' then
         (case str_member (raw e) ''thinkingLevel'' of
            Some l \<Rightarrow> (l, model)
          | None \<Rightarrow> (level, model))
       else if entry_type e = ''model_change'' then
         (level, model_ref_of (str_member (raw e) ''provider'') (str_member (raw e) ''modelId''))
       else if entry_type e = ''message'' \<and> message_role e = Some ''assistant'' then
         (level, Option.bind (Option.bind (entry_get e ''message'') as_object) (\<lambda>m.
            model_ref_of (str_member m ''provider'') (str_member m ''model'')))
       else (level, model))"

definition context_settings :: "session_entry list \<Rightarrow> string \<times> model_ref option" where
  "context_settings path = fold settings_step path (''off'', None)"

section \<open>Messages of an entry\<close>

definition copy_member :: "object \<Rightarrow> string \<Rightarrow> object \<Rightarrow> object" where
  "copy_member source k target =
     (case obj_get source k of Some v \<Rightarrow> obj_insert k v target | None \<Rightarrow> target)"

definition timestamp_value :: "(number \<Rightarrow> int option) \<Rightarrow> session_entry \<Rightarrow> json" where
  "timestamp_value round e =
     (case js_date_ms round (entry_get e ''timestamp'') of Some ms \<Rightarrow> json_i64 ms | None \<Rightarrow> JNull)"

definition role_object :: "string \<Rightarrow> object" where
  "role_object r = [(''role'', JString r)]"

definition missing_content :: "object \<Rightarrow> bool" where
  "missing_content m \<longleftrightarrow> obj_get m ''content'' = None \<or> obj_get m ''content'' = Some JNull"

definition default_content :: "object \<Rightarrow> object" where
  "default_content m =
     (case str_member m ''role'' of
        Some r \<Rightarrow>
          if r = ''system'' \<and> missing_content m then obj_insert ''content'' (JString '''') m
          else if r \<in> {''user'', ''assistant'', ''toolResult''} \<and> missing_content m
            then obj_insert ''content'' (JArray []) m
          else m
      | None \<Rightarrow> m)"

definition session_entry_to_context_messages ::
  "(number \<Rightarrow> int option) \<Rightarrow> session_entry \<Rightarrow> object list" where
  "session_entry_to_context_messages round e =
     (if entry_type e = ''message'' then
        (case obj_get (raw e) ''message'' of Some (JObject m) \<Rightarrow> [default_content m] | _ \<Rightarrow> [])
      else if entry_type e = ''custom_message'' then
        (let content = (case obj_get (raw e) ''content'' of
                          None \<Rightarrow> JArray [] | Some JNull \<Rightarrow> JArray [] | Some c \<Rightarrow> c)
         in [obj_insert ''timestamp'' (timestamp_value round e)
              (copy_member (raw e) ''details'' (copy_member (raw e) ''display''
                (obj_insert ''content'' content
                  (copy_member (raw e) ''customType'' (role_object ''custom'')))))])
      else if entry_type e = ''branch_summary'' \<and> js_truthy (obj_get (raw e) ''summary'') then
        [obj_insert ''timestamp'' (timestamp_value round e)
          (copy_member (raw e) ''fromId'' (copy_member (raw e) ''summary'' (role_object ''branchSummary'')))]
      else if entry_type e = ''compaction'' then
        (let summary = obj_insert ''timestamp'' (timestamp_value round e)
               (copy_member (raw e) ''tokensBefore''
                 (copy_member (raw e) ''summary'' (role_object ''compactionSummary'')))
         in (case obj_get (raw e) ''systemMessage'' of
               Some (JObject system) \<Rightarrow> [system, summary]
             | _ \<Rightarrow> [summary]))
      else [])"

section \<open>Compaction\<close>

fun kept_entries :: "string option \<Rightarrow> bool \<Rightarrow> session_entry list \<Rightarrow> session_entry list" where
  "kept_entries first_kept found [] = []"
| "kept_entries first_kept found (e # es) =
     (let found = (found \<or> Some (entry_id e) = first_kept) in
      (if found \<and> message_role e \<noteq> Some ''system'' then [e] else []) @ kept_entries first_kept found es)"

definition context_entries :: "session_entry list \<Rightarrow> session_entry list" where
  "context_entries path =
     (case rposition (\<lambda>e. entry_type e = ''compaction'') path of
        None \<Rightarrow> path
      | Some n \<Rightarrow>
          (let compaction = path ! n;
               first_kept = str_member (raw compaction) ''firstKeptEntryId''
           in [compaction] @ kept_entries first_kept False (take n path) @ drop (n + 1) path))"

section \<open>Context edits\<close>

definition edit_message :: "json option \<Rightarrow> object \<Rightarrow> object" where
  "edit_message content m =
     (let role = (case str_member m ''role'' of Some r \<Rightarrow> r | None \<Rightarrow> '''') in
      if role \<notin> {''user'', ''assistant'', ''toolResult'', ''custom''} then m
      else (case content of
              Some (JString text) \<Rightarrow>
                if role = ''assistant'' \<or> role = ''toolResult''
                then obj_insert ''content'' (text_blocks text) m
                else obj_insert ''content'' (JString text) m
            | Some c \<Rightarrow> obj_insert ''content'' c m
            | None \<Rightarrow> obj_remove ''content'' m))"

definition project_entry ::
  "(number \<Rightarrow> int option) \<Rightarrow> session_entry \<Rightarrow> session_entry option \<Rightarrow> object list" where
  "project_entry round e edit =
     (let messages = session_entry_to_context_messages round e in
      (case edit of
         None \<Rightarrow> messages
       | Some edit \<Rightarrow>
           (case entry_get edit ''replacement'' of
              None \<Rightarrow> messages
            | Some JNull \<Rightarrow> []
            | Some replacement \<Rightarrow>
                (let content = Option.bind (as_object replacement) (\<lambda>m. obj_get m ''content'')
                 in map (edit_message content) messages))))"

definition edit_step :: "session_entry \<Rightarrow> entry_index \<Rightarrow> entry_index" where
  "edit_step e edits =
     (if entry_type e = ''context_edit'' then
        (case str_member (raw e) ''targetId'' of
           Some target \<Rightarrow> imap_insert target e edits
         | None \<Rightarrow> edits)
      else edits)"

definition context_edits :: "session_entry list \<Rightarrow> entry_index" where
  "context_edits context = fold edit_step context []"

section \<open>The projection\<close>

record projected_entry =
  source_entry :: session_entry
  projected_messages :: "object list"

record session_projection =
  projected :: "projected_entry list"
  proj_messages :: "object list"
  proj_thinking :: string
  proj_model :: "model_ref option"

record session_context =
  ctx_messages :: "object list"
  ctx_thinking :: string
  ctx_model :: "model_ref option"

definition project_at ::
  "(number \<Rightarrow> int option) \<Rightarrow> entry_index \<Rightarrow> nat \<times> session_entry \<Rightarrow> projected_entry" where
  "project_at round edits x =
     (case x of (n, e) \<Rightarrow>
       \<lparr>source_entry = e,
        projected_messages =
          (if entry_type e = ''compaction'' \<and> 0 < n then []
           else project_entry round e (map_of edits (entry_id e)))\<rparr>)"

definition projection_of_path :: "(number \<Rightarrow> int option) \<Rightarrow> session_entry list \<Rightarrow> session_projection" where
  "projection_of_path round path =
     (let context = context_entries path;
          edits = context_edits context;
          projected = map (project_at round edits) (enumerate 0 context)
      in \<lparr>projected = projected, proj_messages = concat (map projected_messages projected),
          proj_thinking = fst (context_settings path), proj_model = snd (context_settings path)\<rparr>)"

definition projection ::
  "(number \<Rightarrow> int option) \<Rightarrow> session_entry list \<Rightarrow> leaf_selector \<Rightarrow> entry_index \<Rightarrow> session_projection" where
  "projection round es leaf idx = projection_of_path round (session_path es leaf idx)"

definition to_context :: "session_projection \<Rightarrow> session_context" where
  "to_context p =
     \<lparr>ctx_messages = proj_messages p, ctx_thinking = proj_thinking p, ctx_model = proj_model p\<rparr>"

definition build_context_entries :: "session_entry list \<Rightarrow> leaf_selector \<Rightarrow> session_entry list" where
  "build_context_entries es leaf = context_entries (session_path es leaf (index_entries es))"

definition build_session_projection ::
  "(number \<Rightarrow> int option) \<Rightarrow> session_entry list \<Rightarrow> leaf_selector \<Rightarrow> session_projection" where
  "build_session_projection round es leaf = projection round es leaf (index_entries es)"

definition build_session_context ::
  "(number \<Rightarrow> int option) \<Rightarrow> session_entry list \<Rightarrow> leaf_selector \<Rightarrow> session_context" where
  "build_session_context round es leaf = to_context (build_session_projection round es leaf)"

definition get_latest_compaction_entry :: "session_entry list \<Rightarrow> session_entry option" where
  "get_latest_compaction_entry es = find (\<lambda>e. entry_type e = ''compaction'') (rev es)"

definition context_to_json :: "session_context \<Rightarrow> json" where
  "context_to_json c =
     JObject
       [(''messages'', JArray (map JObject (ctx_messages c))),
        (''thinkingLevel'', JString (ctx_thinking c)),
        (''model'',
          (case ctx_model c of
             Some m \<Rightarrow> JObject [(''provider'', JString (ref_provider m)), (''modelId'', JString (ref_model m))]
           | None \<Rightarrow> JNull))]"

text \<open>The manager's own views, for its leaf pointer.\<close>

definition manager_projection :: "(number \<Rightarrow> int option) \<Rightarrow> session_manager \<Rightarrow> session_projection" where
  "manager_projection round s =
     projection round (entries s) (leaf_selector_from (leaf_id s)) (index_entries (entries s))"

definition manager_context_entries :: "session_manager \<Rightarrow> session_entry list" where
  "manager_context_entries s =
     context_entries (session_path (entries s) (leaf_selector_from (leaf_id s)) (index_entries (entries s)))"

definition manager_context :: "(number \<Rightarrow> int option) \<Rightarrow> session_manager \<Rightarrow> session_context" where
  "manager_context round s = to_context (manager_projection round s)"

section \<open>The index and the path\<close>

lemma index_entries_get:
  "map_of (index_entries es) i = find (\<lambda>e. entry_id e = i) (rev es)"
  unfolding index_entries_def by (induction es rule: rev_induct) auto

lemma find_unique:
  assumes "distinct (map entry_id es)" and "e \<in> set es"
  shows "find (\<lambda>x. entry_id x = entry_id e) (rev es) = Some e"
  using assms by (induction es rule: rev_induct) (auto simp: image_iff)

lemma entries_set: "e \<in> set (entries s) \<longleftrightarrow> Entry e \<in> set (file_entries s)"
proof -
  have "as_entry f = Some e \<longleftrightarrow> f = Entry e" for f by (cases f) auto
  then show ?thesis by (force simp: entries_def List.map_filter_def)
qed

lemma entry_at_entries:
  assumes "wf_manager s" and "distinct (map entry_id (entries s))"
  shows "map_of (index_entries (entries s)) = entry_at s"
proof
  fix i
  have known: "e \<in> set (entries s)" if "entry_at s i = Some e" for e
    using that by (auto simp: entry_at_def entries_set bind_eq_Some_conv split: if_splits)
      (metis as_entry.elims nth_mem option.distinct(1) option.inject)
  show "map_of (index_entries (entries s)) i = entry_at s i"
  proof (cases "entry_at s i")
    case None
    have "entry_id e \<noteq> i" if "e \<in> set (entries s)" for e
    proof
      assume "entry_id e = i"
      with that assms(1) have "i \<in> fst ` set (by_id s)"
        unfolding wf_manager_def entries_set by blast
      then obtain n where "map_of (by_id s) i = Some n" by (metis map_of_eq_None_iff not_None_eq)
      with wf_entry_at [OF assms(1), of i n] None show False by auto
    qed
    then show ?thesis using None by (simp add: index_entries_get find_None_iff)
  next
    case (Some e)
    then show ?thesis
      using find_unique [OF assms(2) known [OF Some]] wf_entry_at_id [OF assms(1) Some]
      by (simp add: index_entries_get)
  qed
qed

lemma path_walk_map_cong:
  "map_of idx = map_of idx' \<Longrightarrow> path_walk idx seen cur = path_walk idx' seen cur"
  by (induction idx seen cur rule: path_walk.induct) auto

lemma manager_path:
  assumes "wf_manager s" and "distinct (map entry_id (entries s))" and "leaf_id s \<noteq> Some []"
  shows "session_path (entries s) (leaf_selector_from (leaf_id s)) (index_entries (entries s)) =
           branch_entries None s"
proof (cases "leaf_id s")
  case None
  then show ?thesis by (simp add: session_path_def branch_entries_def)
next
  case (Some i)
  with assms(3) have "i \<noteq> []" by simp
  have "i \<in> fst ` set (by_id s)" using assms(1) Some by (simp add: wf_manager_def)
  then obtain n where "map_of (by_id s) i = Some n" by (metis map_of_eq_None_iff not_None_eq)
  then obtain e where e: "entry_at s i = Some e" using wf_entry_at [OF assms(1)] by blast
  have "map_of (index_entries (entries s)) = map_of (manager_index s)"
    by (simp add: entry_at_entries [OF assms(1,2)] manager_index_get [OF assms(1)])
  from path_walk_map_cong [OF this] show ?thesis
    using Some \<open>i \<noteq> []\<close> e
    by (simp add: session_path_def path_to_root_def branch_entries_leaf current_entry_def
        entry_at_entries [OF assms(1,2)] manager_index_get [OF assms(1)])
qed

lemma manager_projection_path:
  assumes "wf_manager s" and "distinct (map entry_id (entries s))" and "leaf_id s \<noteq> Some []"
  shows "manager_projection round s = projection_of_path round (branch_entries None s)"
  by (simp add: manager_projection_def projection_def manager_path [OF assms])

section \<open>What a compaction leaves\<close>

lemma kept_entries_found:
  "kept_entries k True es = filter (\<lambda>e. message_role e \<noteq> Some ''system'') es"
  by (induction es) simp_all

lemma kept_entries_from:
  "kept_entries (Some k) False es =
     filter (\<lambda>e. message_role e \<noteq> Some ''system'') (dropWhile (\<lambda>e. entry_id e \<noteq> k) es)"
  by (induction es) (simp_all add: kept_entries_found)

lemma kept_entries_none: "kept_entries None False es = []"
  by (induction es) simp_all

lemma kept_entries_subset: "set (kept_entries k found es) \<subseteq> set es"
  by (induction es arbitrary: found) (auto simp: Let_def split: if_splits)

lemma context_entries_snoc:
  assumes "entry_type e \<noteq> ''compaction''"
  shows "context_entries (path @ [e]) = context_entries path @ [e]"
proof (cases "rposition (\<lambda>e. entry_type e = ''compaction'') path")
  case (Some n)
  with rposition_bound [OF Some] show ?thesis
    using assms by (simp add: context_entries_def rposition_snoc nth_append Let_def)
qed (use assms in \<open>simp add: context_entries_def rposition_snoc\<close>)

lemma context_entries_subset: "set (context_entries path) \<subseteq> set path"
proof (cases "rposition (\<lambda>e. entry_type e = ''compaction'') path")
  case (Some n)
  have "set (kept_entries k f (take n path)) \<subseteq> set path" for k f
    using kept_entries_subset [of k f "take n path"] set_take_subset [of n path] by blast
  with rposition_bound [OF Some] show ?thesis
    using set_drop_subset [of "Suc n" path] by (auto simp: context_entries_def Some Let_def)
qed (simp add: context_entries_def)


text \<open>C29. A compaction leaves its summary first, then the entries from the first kept one on, system
  messages excepted, then everything after it; what is before the first kept entry is gone, and
  without a first kept entry all that was before the compaction is.\<close>

theorem context_after_compaction:
  assumes "entry_type c = ''compaction''" and "\<And>e. e \<in> set b \<Longrightarrow> entry_type e \<noteq> ''compaction''"
  shows "context_entries (a @ c # b) =
    c # filter (\<lambda>e. message_role e \<noteq> Some ''system'')
          (case str_member (raw c) ''firstKeptEntryId'' of
             Some k \<Rightarrow> dropWhile (\<lambda>e. entry_id e \<noteq> k) a
           | None \<Rightarrow> [])
      @ b"
proof -
  have "rposition (\<lambda>e. entry_type e = ''compaction'') (a @ c # b) = Some (length a)"
    using assms by (rule rposition_last)
  then show ?thesis
    by (simp add: context_entries_def Let_def nth_append kept_entries_from kept_entries_none
        split: option.split)
qed

section \<open>Appending to the context\<close>

lemma context_edits_from:
  "map_of (context_edits es) i = Some d \<Longrightarrow>
     d \<in> set es \<and> entry_type d = ''context_edit'' \<and> str_member (raw d) ''targetId'' = Some i"
proof (induction es rule: rev_induct)
  case (snoc e es)
  have "context_edits (es @ [e]) = edit_step e (context_edits es)" by (simp add: context_edits_def)
  with snoc show ?case by (auto simp: edit_step_def split: if_splits option.splits)
qed (simp add: context_edits_def)

lemma projection_snoc:
  assumes "entry_type e \<noteq> ''compaction''" and "entry_type e \<noteq> ''context_edit''"
    and "\<And>d. d \<in> set path \<Longrightarrow> entry_type d = ''context_edit'' \<Longrightarrow>
           str_member (raw d) ''targetId'' \<noteq> Some (entry_id e)"
  shows "projection_of_path round (path @ [e]) =
    \<lparr>projected = projected (projection_of_path round path) @
       [\<lparr>source_entry = e, projected_messages = session_entry_to_context_messages round e\<rparr>],
     proj_messages = proj_messages (projection_of_path round path) @ session_entry_to_context_messages round e,
     proj_thinking = fst (settings_step e (context_settings path)),
     proj_model = snd (settings_step e (context_settings path))\<rparr>"
proof -
  have ctx: "context_entries (path @ [e]) = context_entries path @ [e]"
    by (rule context_entries_snoc) (rule assms(1))
  have edits: "context_edits (context_entries path @ [e]) = context_edits (context_entries path)"
    using assms(2) by (simp add: context_edits_def edit_step_def)
  have "map_of (context_edits (context_entries path)) (entry_id e) = None"
    using context_edits_from [of "context_entries path" "entry_id e"] context_entries_subset assms(3)
    by (cases "map_of (context_edits (context_entries path)) (entry_id e)") blast+
  with assms(1) show ?thesis
    by (simp add: projection_of_path_def Let_def ctx edits enumerate_append_eq project_at_def
        project_entry_def context_settings_def)
qed

text \<open>An append of the manager, as the context sees it.\<close>

lemma append_entry_keeps:
  assumes "wf_manager s" and "distinct (map entry_id (entries s))" and "fresh_env v s"
    and "append_entry v (next_id v s) m s = (s', r)"
  shows "entries s' = entries s @ [\<lparr>entry_id = next_id v s, raw = m\<rparr>]"
    and "distinct (map entry_id (entries s'))" and "leaf_id s' \<noteq> Some []"
proof -
  note frame = append_entry_frame [OF assms(4)]
  show e: "entries s' = entries s @ [\<lparr>entry_id = next_id v s, raw = m\<rparr>]"
    by (simp add: entries_def frame(1) push_entry_def List.map_filter_def)
  have "entry_id e \<in> fst ` set (by_id s)" if "e \<in> set (entries s)" for e
    using that assms(1) unfolding entries_set wf_manager_def by blast
  moreover have "next_id v s \<notin> fst ` set (by_id s)"
    using next_id_fresh [OF assms(3)] by (simp add: map_of_eq_None_iff)
  ultimately have "next_id v s \<notin> entry_id ` set (entries s)" by fastforce
  with assms(2) show "distinct (map entry_id (entries s'))"
    unfolding e by (simp only: map_append distinct_append list.map set_map) simp
  show "leaf_id s' \<noteq> Some []"
    using next_id_nonempty [OF assms(3)] by (simp add: frame(3) push_entry_def)
qed

lemma append_projection:
  assumes "wf_manager s" and "distinct (map entry_id (entries s))" and "fresh_env v s"
    and "str_member m ''parentId'' = leaf_id s"
    and "append_entry v (next_id v s) m s = (s', r)"
  shows "manager_projection round s' =
    projection_of_path round (branch_entries None s @ [\<lparr>entry_id = next_id v s, raw = m\<rparr>])"
  using append_entry_extends [OF assms(1,3,4,5)] append_entry_keeps [OF assms(1,2,3,5)]
  by (simp add: manager_projection_path)


lemma message_object:
  "obj_get (obj_insert ''message'' (JObject m) (base v s ''message'' i)) k =
     (if k = ''message'' then Some (JObject m) else obj_get (base v s ''message'' i) k)"
  by simp

lemma base_link [simp]: "obj_get (base v s t i) ''parentId'' = Some (parent_value s)"
  "obj_get (base v s t i) ''type'' = Some (JString t)"
  by (simp_all add: base_def)

text \<open>A message appended to a session is what the next resume adds: whether or not the write
  reached the disk, the context's messages are those of before followed by that message, with
  missing content filled in, and the thinking level is kept; provided no context edit on the
  branch already names the fresh id.\<close>

theorem append_message_resumes:
  assumes "wf_manager s" and "distinct (map entry_id (entries s))" and "leaf_id s \<noteq> Some []"
    and "fresh_env v s"
    and "\<forall>d \<in> set (branch_entries None s). entry_type d = ''context_edit'' \<longrightarrow>
           str_member (raw d) ''targetId'' \<noteq> Some (next_id v s)"
    and "append_message v m s = (s', r)" and "r \<noteq> Inl (SummaryMessage role)"
    and "role = (case str_member m ''role'' of Some r \<Rightarrow> r | None \<Rightarrow> '''')"
  shows "ctx_messages (manager_context round s') = ctx_messages (manager_context round s) @ [default_content m]
    \<and> ctx_thinking (manager_context round s') = ctx_thinking (manager_context round s)"
proof -
  let ?m = "obj_insert ''message'' (JObject m) (base v s ''message'' (next_id v s))"
  let ?e = "\<lparr>entry_id = next_id v s, raw = ?m\<rparr>"
  have a: "append_entry v (next_id v s) ?m s = (s', r)"
    using assms(6,7,8) by (auto simp: append_message_def split: option.splits if_splits)
  have link: "str_member ?m ''parentId'' = leaf_id s"
    using parent_value_str [of s] by (simp add: str_member_def)
  have type: "entry_type ?e = ''message''" by (simp add: entry_type_def str_member_def)
  have messages: "session_entry_to_context_messages round ?e = [default_content m]"
    by (simp add: session_entry_to_context_messages_def type)
  have thinking: "fst (settings_step ?e st) = fst st" for st
    by (cases st) (simp add: settings_step_def type)
  have "projection_of_path round (branch_entries None s @ [?e]) =
    \<lparr>projected = projected (projection_of_path round (branch_entries None s)) @
       [\<lparr>source_entry = ?e, projected_messages = session_entry_to_context_messages round ?e\<rparr>],
     proj_messages = proj_messages (projection_of_path round (branch_entries None s)) @
       session_entry_to_context_messages round ?e,
     proj_thinking = fst (settings_step ?e (context_settings (branch_entries None s))),
     proj_model = snd (settings_step ?e (context_settings (branch_entries None s)))\<rparr>"
    by (rule projection_snoc) (use type assms(5) in auto)
  then show ?thesis
    using append_projection [OF assms(1,2,4) link a] manager_projection_path [OF assms(1-3)]
    by (simp add: manager_context_def to_context_def messages thinking projection_of_path_def Let_def)
qed

lemma sample_session_entries: "entries sample_session = []"
  by (simp add: sample_session_def start_session_def construct_empty_def entries_def
      List.map_filter_def Let_def)

lemma append_message_resumes_witness:
  "ctx_messages (manager_context (\<lambda>_. None)
     (fst (append_message sample_env [(''role'', JString ''user'')] sample_session))) =
   [[(''role'', JString ''user''), (''content'', JArray [])]]"
proof -
  let ?m = "[(''role'', JString ''user'')]"
  let ?a = "append_message sample_env ?m sample_session"
  have "snd ?a \<noteq> Inl (SummaryMessage ''user'')"
    by (simp add: append_message_def str_member_def append_entry_def persist_last_def push_entry_def
        sample_session_def start_session_def construct_empty_def Let_def)
  moreover have "''user'' = (case str_member ?m ''role'' of Some r \<Rightarrow> r | None \<Rightarrow> '''')"
    by (simp add: str_member_def)
  ultimately have "ctx_messages (manager_context (\<lambda>_. None) (fst ?a)) =
      ctx_messages (manager_context (\<lambda>_. None) sample_session) @ [default_content ?m]"
    using append_message_resumes [of sample_session sample_env ?m "fst ?a" "snd ?a" "''user''" "\<lambda>_. None"]
    by (simp add: sample_session_simps sample_session_entries)
  moreover have "ctx_messages (manager_context (\<lambda>_. None) sample_session) = []"
    by (simp add: manager_context_def manager_projection_path sample_session_simps
        sample_session_entries to_context_def projection_of_path_def context_entries_def
        rposition_def context_edits_def)
  ultimately show ?thesis
    by (simp add: default_content_def str_member_def missing_content_def)
qed


section \<open>Edits\<close>

lemma branch_entry_at:
  assumes "wf_manager s" and "e \<in> set (branch_entries None s)"
  shows "entry_at s (entry_id e) = Some e"
proof -
  have "current_entry s = Some e \<or> e \<in> snd ` set (manager_index s)"
    using assms(2) path_walk_known [of e "manager_index s" "[]" "current_entry s"]
    by (simp add: branch_entries_leaf)
  then obtain i where "entry_at s i = Some e"
    using manager_index_values [of e s]
    by (auto simp: current_entry_def split: option.splits if_splits)
  with wf_entry_at_id [OF assms(1) this] show ?thesis by simp
qed

definition edited_messages ::
  "(number \<Rightarrow> int option) \<Rightarrow> edit_content option \<Rightarrow> string \<Rightarrow> session_entry \<Rightarrow> object list" where
  "edited_messages round replacement role e =
     (case replacement of
        None \<Rightarrow> []
      | Some c \<Rightarrow> map (edit_message (Some (edit_value role c))) (session_entry_to_context_messages round e))"

lemma project_entry_edited:
  assumes "entry_get d ''replacement'' = Some (case replacement of
      None \<Rightarrow> JNull | Some c \<Rightarrow> JObject [(''content'', edit_value role c)])"
  shows "project_entry round e (Some d) = edited_messages round replacement role e"
  using assms by (cases replacement) (simp_all add: project_entry_def edited_messages_def)

lemma projection_edit:
  assumes "entry_type d = ''context_edit''" and "str_member (raw d) ''targetId'' = Some target"
    and "\<And>e. e \<in> set path \<Longrightarrow> entry_id e = target \<Longrightarrow> entry_type e \<noteq> ''compaction''"
  shows "projected (projection_of_path round (path @ [d])) =
    map (\<lambda>p. if entry_id (source_entry p) = target
             then p\<lparr>projected_messages := project_entry round (source_entry p) (Some d)\<rparr> else p)
      (projected (projection_of_path round path)) @ [\<lparr>source_entry = d, projected_messages = []\<rparr>]"
proof -
  have ctx: "context_entries (path @ [d]) = context_entries path @ [d]"
    using assms(1) by (intro context_entries_snoc) simp
  have edits: "context_edits (context_entries path @ [d]) = imap_insert target d (context_edits (context_entries path))"
    using assms(1,2) by (simp add: context_edits_def edit_step_def)
  have none: "session_entry_to_context_messages round d = []"
    using assms(1) by (simp add: session_entry_to_context_messages_def)
  have empty: "project_entry round d x = []" for x
    by (simp add: project_entry_def none split: option.split json.split)
  have one: "project_at round (imap_insert target d (context_edits (context_entries path))) x =
      (let p = project_at round (context_edits (context_entries path)) x in
       if entry_id (source_entry p) = target
       then p\<lparr>projected_messages := project_entry round (source_entry p) (Some d)\<rparr> else p)"
    if "x \<in> set (enumerate 0 (context_entries path))" for x
  proof -
    have "snd x \<in> set (context_entries path)"
      using that nth_mem [of "fst x" "context_entries path"] by (simp add: in_set_enumerate_eq)
    then have "snd x \<in> set path" using context_entries_subset by blast
    with assms(3) show ?thesis by (cases x) (auto simp: project_at_def Let_def)
  qed
  have "map (project_at round (imap_insert target d (context_edits (context_entries path))))
      (enumerate 0 (context_entries path)) =
    map (\<lambda>p. if entry_id (source_entry p) = target
             then p\<lparr>projected_messages := project_entry round (source_entry p) (Some d)\<rparr> else p)
      (map (project_at round (context_edits (context_entries path))) (enumerate 0 (context_entries path)))"
    unfolding map_map comp_def by (rule map_cong [OF refl]) (simp add: one Let_def)
  then show ?thesis
    by (simp add: projection_of_path_def Let_def ctx edits enumerate_append_eq project_at_def empty)
qed

text \<open>A context edit rewrites exactly its target: after \<open>append_context_edit\<close> the resumed context
  has every entry's messages as before, but the target's, which are gone when the edit omits it
  and have the new content otherwise; the edit itself contributes nothing.\<close>

theorem append_context_edit_exact:
  assumes "wf_manager s" and "distinct (map entry_id (entries s))" and "leaf_id s \<noteq> Some []"
    and "fresh_env v s"
    and "context_edit v target replacement s = Inr im"
    and "append_context_edit v target replacement s = (s', r)"
  shows "\<exists>role d. map_option edit_role (entry_at s target) = Some (Some role) \<and>
    projected (manager_projection round s') =
      map (\<lambda>p. if entry_id (source_entry p) = target
               then p\<lparr>projected_messages := edited_messages round replacement role (source_entry p)\<rparr>
               else p) (projected (manager_projection round s)) @
      [\<lparr>source_entry = d, projected_messages = []\<rparr>]"
proof -
  from assms(5) obtain t role where t: "entry_at s target = Some t" "edit_role t = Some role"
    by (auto simp: context_edit_def split: option.splits if_splits)
  let ?r = "case replacement of None \<Rightarrow> JNull | Some c \<Rightarrow> JObject [(''content'', edit_value role c)]"
  let ?m = "obj_insert ''replacement'' ?r (obj_insert ''targetId'' (JString target)
      (base v s ''context_edit'' (next_id v s)))"
  let ?d = "\<lparr>entry_id = next_id v s, raw = ?m\<rparr>"
  have a: "append_entry v (next_id v s) ?m s = (s', r)"
    using assms(5,6) t by (auto simp: append_context_edit_def context_edit_def Let_def split: if_splits)
  have link: "str_member ?m ''parentId'' = leaf_id s"
    using parent_value_str [of s] by (simp add: str_member_def)
  have d: "entry_type ?d = ''context_edit''" "str_member (raw ?d) ''targetId'' = Some target"
    "entry_get ?d ''replacement'' = Some ?r"
    by (simp_all add: entry_type_def str_member_def entry_get_def)
  have "entry_type e \<noteq> ''compaction''" if "e \<in> set (branch_entries None s)" "entry_id e = target" for e
    using branch_entry_at [OF assms(1) that(1)] t that(2)
    by (auto simp: edit_role_def message_role_def split: if_splits option.splits)
  from projection_edit [OF d(1,2) this, where round = round]
  have "projected (manager_projection round s') =
      map (\<lambda>p. if entry_id (source_entry p) = target
               then p\<lparr>projected_messages := edited_messages round replacement role (source_entry p)\<rparr>
               else p) (projected (manager_projection round s)) @
      [\<lparr>source_entry = ?d, projected_messages = []\<rparr>]"
    unfolding append_projection [OF assms(1,2,4) link a] manager_projection_path [OF assms(1-3)]
    by (simp only: project_entry_edited [OF d(3)])
  with t show ?thesis by (intro exI [of _ role] exI [of _ ?d]) simp
qed


lemma forked_from_facts:
  "by_id (forked_from False) = [(''a'', 1), (''b'', 2)]" "leaf_id (forked_from False) = Some ''b''"
  "wf_manager (forked_from False)" "file_entries (forked_from False) =
     Header [] # map Entry [sample_line ''a'' JNull, sample_line ''b'' (JString ''a'')]"
proof -
  show "wf_manager (forked_from False)" by (simp add: forked_from_def wf_build_index)
qed (simp_all add: forked_from_def build_index_def index_line_def sample_line_def entry_type_def
    str_member_def Let_def)

lemma append_context_edit_exact_witness:
  "\<exists>d. projected (manager_projection (\<lambda>_. None)
       (fst (append_context_edit sample_env ''a'' None (forked_from False)))) =
     map (\<lambda>p. if entry_id (source_entry p) = ''a'' then p\<lparr>projected_messages := []\<rparr> else p)
       (projected (manager_projection (\<lambda>_. None) (forked_from False))) @
     [\<lparr>source_entry = d, projected_messages = []\<rparr>]"
proof -
  let ?s = "forked_from False"
  let ?im = "context_edit sample_env ''a'' None ?s"
  have a: "entry_at ?s ''a'' = Some (sample_line ''a'' JNull)"
    by (simp add: entry_at_def forked_from_facts)
  have leaf: "branch_entries None ?s = branch_entries (Some ''b'') ?s"
    by (simp add: branch_entries_def forked_from_facts Let_def)
  have "edit_role (sample_line ''a'' JNull) = Some ''user''"
    by (simp add: edit_role_def sample_line_def message_role_def entry_type_def str_member_def)
  then have "\<exists>im. ?im = Inr im"
    by (simp add: context_edit_def a leaf forked_from_branch Let_def) (simp add: sample_line_def)
  then obtain im where im: "?im = Inr im" by blast
  have "entries ?s = [sample_line ''a'' JNull, sample_line ''b'' (JString ''a'')]"
    by (simp add: entries_def forked_from_facts List.map_filter_def)
  then have "distinct (map entry_id (entries ?s))" by (simp add: sample_line_def)
  moreover have "leaf_id ?s \<noteq> Some []" "wf_manager ?s" by (simp_all add: forked_from_facts)
  moreover have "fresh_env sample_env ?s"
    by (simp add: fresh_env_def forked_from_facts sample_env_def uuid_v4_def format_uuid_def)
  moreover obtain s' r where "append_context_edit sample_env ''a'' None ?s = (s', r)" by fastforce
  ultimately show ?thesis
    using append_context_edit_exact [of ?s sample_env "''a''" None im s' r "\<lambda>_. None"] im
    by (auto simp: edited_messages_def)
qed

lemma context_after_compaction_witness:
  "context_entries [sample_line ''a'' JNull, sample_line ''b'' (JString ''a''),
      \<lparr>entry_id = ''c'', raw = [(''type'', JString ''compaction''), (''firstKeptEntryId'', JString ''b'')]\<rparr>,
      sample_line ''d'' (JString ''c'')] =
    [\<lparr>entry_id = ''c'', raw = [(''type'', JString ''compaction''), (''firstKeptEntryId'', JString ''b'')]\<rparr>,
     sample_line ''b'' (JString ''a''), sample_line ''d'' (JString ''c'')]"
  using context_after_compaction
    [of "\<lparr>entry_id = ''c'', raw = [(''type'', JString ''compaction''), (''firstKeptEntryId'', JString ''b'')]\<rparr>"
        "[sample_line ''d'' (JString ''c'')]" "[sample_line ''a'' JNull, sample_line ''b'' (JString ''a'')]"]
  by (simp add: sample_line_def entry_type_def str_member_def message_role_def)

end
