(* ===== verification/Messages.thy ===== *)
theory Messages
  imports Json
begin

text \<open>
  Messages: the transcript types of \<open>bake-ai/src/types.rs\<close>, and the live messages of
  \<open>session/messages.rs\<close> with their conversion to model messages. Token counts are natural
  numbers up to \<open>u64_max\<close>; a floating-point number is its 64 bits, and their addition is a
  parameter where the code adds them. Reading a stored object as one of these types is the
  deserializer \<open>serde\<close> derives, which is generated code: the readers are a parameter.
\<close>

section \<open>Thinking levels\<close>

datatype thinking_level = Minimal | Low | Medium | High | Xhigh | Max

fun thinking_level_text :: "thinking_level \<Rightarrow> string" where
  "thinking_level_text Minimal = ''minimal''"
| "thinking_level_text Low = ''low''"
| "thinking_level_text Medium = ''medium''"
| "thinking_level_text High = ''high''"
| "thinking_level_text Xhigh = ''xhigh''"
| "thinking_level_text Max = ''max''"

datatype model_thinking_level = Off | OffMinimal | OffLow | OffMedium | OffHigh | OffXhigh | OffMax

fun model_thinking_level_text :: "model_thinking_level \<Rightarrow> string" where
  "model_thinking_level_text Off = ''off''"
| "model_thinking_level_text OffMinimal = ''minimal''"
| "model_thinking_level_text OffLow = ''low''"
| "model_thinking_level_text OffMedium = ''medium''"
| "model_thinking_level_text OffHigh = ''high''"
| "model_thinking_level_text OffXhigh = ''xhigh''"
| "model_thinking_level_text OffMax = ''max''"

fun level_of :: "model_thinking_level \<Rightarrow> thinking_level option" where
  "level_of Off = None"
| "level_of OffMinimal = Some Minimal"
| "level_of OffLow = Some Low"
| "level_of OffMedium = Some Medium"
| "level_of OffHigh = Some High"
| "level_of OffXhigh = Some Xhigh"
| "level_of OffMax = Some Max"

fun from_level :: "thinking_level \<Rightarrow> model_thinking_level" where
  "from_level Minimal = OffMinimal"
| "from_level Low = OffLow"
| "from_level Medium = OffMedium"
| "from_level High = OffHigh"
| "from_level Xhigh = OffXhigh"
| "from_level Max = OffMax"

lemma level_of_from [simp]: "level_of (from_level l) = Some l"
  by (cases l) simp_all

lemma level_texts [simp]: "model_thinking_level_text (from_level l) = thinking_level_text l"
  by (cases l) simp_all

section \<open>Content\<close>

record text_content =
  content_text :: string
  text_signature :: "string option"

definition text_new :: "string \<Rightarrow> text_content" where
  "text_new t = \<lparr>content_text = t, text_signature = None\<rparr>"

record thinking_content =
  thinking_text :: string
  thinking_signature :: "string option"
  redacted :: "bool option"

definition is_redacted :: "thinking_content \<Rightarrow> bool" where
  "is_redacted t \<longleftrightarrow> redacted t = Some True"

record image_content =
  image_data :: string
  image_mime :: string

record tool_call_block =
  call_id :: string
  call_name :: string
  call_arguments :: object
  thought_signature :: "string option"
  call_namespace :: "string option"

datatype user_block = UserText text_content | UserImage image_content

datatype assistant_block =
    TextBlock text_content
  | ThinkingBlock thinking_content
  | CallBlock tool_call_block

datatype user_content = PlainText string | Blocks "user_block list"

datatype system_content = SystemText string | SystemBlocks "text_content list"

type_synonym sections = "(string \<times> string option) list"

datatype strict_preference = Prefer | Require

datatype constrained_sampling =
    SamplingDisabled
  | JsonSchema strict_preference
  | Grammar object

record tool =
  tool_name :: string
  tool_description :: string
  tool_parameters :: json
  tool_sampling :: "constrained_sampling option"

section \<open>Usage\<close>

type_synonym f64 = "64 word"

record usage_cost =
  cost_input :: f64
  cost_output :: f64
  cost_cache_read :: f64
  cost_cache_write :: f64
  cost_total :: f64

record usage =
  usage_input :: nat
  usage_output :: nat
  usage_cache_read :: nat
  usage_cache_write :: nat
  usage_cache_write_1h :: "nat option"
  usage_reasoning :: "nat option"
  usage_total :: nat
  usage_cost :: usage_cost

definition saturating_add :: "nat \<Rightarrow> nat \<Rightarrow> nat" where
  "saturating_add a b = min (a + b) u64_max"

definition optional_sum :: "nat option \<Rightarrow> nat option \<Rightarrow> nat option" where
  "optional_sum a b =
     (if a \<noteq> None \<or> b \<noteq> None
      then Some (saturating_add (case a of None \<Rightarrow> 0 | Some n \<Rightarrow> n) (case b of None \<Rightarrow> 0 | Some n \<Rightarrow> n))
      else None)"

definition combine_usage :: "(f64 \<Rightarrow> f64 \<Rightarrow> f64) \<Rightarrow> usage \<Rightarrow> usage \<Rightarrow> usage" where
  "combine_usage add a b =
     \<lparr>usage_input = saturating_add (usage_input a) (usage_input b),
      usage_output = saturating_add (usage_output a) (usage_output b),
      usage_cache_read = saturating_add (usage_cache_read a) (usage_cache_read b),
      usage_cache_write = saturating_add (usage_cache_write a) (usage_cache_write b),
      usage_cache_write_1h = optional_sum (usage_cache_write_1h a) (usage_cache_write_1h b),
      usage_reasoning = optional_sum (usage_reasoning a) (usage_reasoning b),
      usage_total = saturating_add (usage_total a) (usage_total b),
      usage_cost =
        \<lparr>cost_input = add (cost_input (usage_cost a)) (cost_input (usage_cost b)),
         cost_output = add (cost_output (usage_cost a)) (cost_output (usage_cost b)),
         cost_cache_read = add (cost_cache_read (usage_cost a)) (cost_cache_read (usage_cost b)),
         cost_cache_write = add (cost_cache_write (usage_cost a)) (cost_cache_write (usage_cost b)),
         cost_total = add (cost_total (usage_cost a)) (cost_total (usage_cost b))\<rparr>\<rparr>"

definition component_sum :: "usage \<Rightarrow> nat" where
  "component_sum u =
     saturating_add (saturating_add (saturating_add (usage_input u) (usage_output u))
       (usage_cache_read u)) (usage_cache_write u)"

definition input_sum :: "usage \<Rightarrow> nat" where
  "input_sum u =
     saturating_add (saturating_add (usage_input u) (usage_cache_read u)) (usage_cache_write u)"

lemma saturating_add_simps:
  "saturating_add a b \<le> u64_max" "saturating_add a b = saturating_add b a"
  "saturating_add (saturating_add a b) c = saturating_add a (saturating_add b c)"
  by (simp_all add: saturating_add_def min_def)

section \<open>Messages\<close>

datatype stop_reason = Pending | Stop | Length | ToolUse | ErrorStop | Aborted | Deferred

fun stop_reason_text :: "stop_reason \<Rightarrow> string" where
  "stop_reason_text Pending = ''pending''"
| "stop_reason_text Stop = ''stop''"
| "stop_reason_text Length = ''length''"
| "stop_reason_text ToolUse = ''toolUse''"
| "stop_reason_text ErrorStop = ''error''"
| "stop_reason_text Aborted = ''aborted''"
| "stop_reason_text Deferred = ''deferred''"

record deferred_handle =
  deferred_provider :: string
  deferred_model :: string
  deferred_api :: string
  deferred_id :: string
  deferred_expires :: "int option"
  deferred_poll :: "nat option"
  deferred_data :: "json option"

record diagnostic_error =
  diag_name :: "string option"
  diag_message :: string
  diag_stack :: "string option"
  diag_code :: "json option"

record diagnostic =
  diag_kind :: string
  diag_timestamp :: int
  diag_error :: "diagnostic_error option"
  diag_details :: "object option"

record system_message =
  system_body :: system_content
  system_sections :: "sections option"
  tools_added :: "tool list option"
  tools_removed :: "string list option"
  system_timestamp :: int

record user_message =
  user_body :: user_content
  user_timestamp :: int

record assistant_message =
  blocks :: "assistant_block list"
  made_api :: string
  made_provider :: string
  made_model :: string
  response_model :: "string option"
  response_id :: "string option"
  provider_thinking_level :: "string option"
  asked_thinking_level :: "model_thinking_level option"
  diagnostics :: "diagnostic list option"
  made_usage :: usage
  stop_reason :: stop_reason
  made_deferred :: "deferred_handle option"
  error_message :: "string option"
  raw_stop_reason :: "string option"
  end_turn :: "bool option"
  made_timestamp :: int
  made_duration :: "nat option"

definition tool_calls :: "assistant_message \<Rightarrow> tool_call_block list" where
  "tool_calls a = List.map_filter (\<lambda>b. case b of CallBlock c \<Rightarrow> Some c | _ \<Rightarrow> None) (blocks a)"

record nested_call =
  nested_id :: string
  nested_name :: string
  nested_arguments :: "object option"
  nested_arguments_bytes :: "nat option"
  nested_status :: string
  nested_duration :: "nat option"
  nested_error :: "string option"

record nested_calls =
  nested_list :: "nested_call list"
  nested_complete :: bool

record tool_result =
  result_call :: string
  result_tool :: string
  result_content :: "user_block list"
  result_details :: "json option"
  result_usage :: "usage option"
  result_nested :: "nested_calls option"
  result_is_error :: bool
  result_timestamp :: int
  result_duration :: "nat option"

datatype message =
    System system_message
  | User user_message
  | Assistant assistant_message
  | ToolResult tool_result

fun message_role_text :: "message \<Rightarrow> string" where
  "message_role_text (System _) = ''system''"
| "message_role_text (User _) = ''user''"
| "message_role_text (Assistant _) = ''assistant''"
| "message_role_text (ToolResult _) = ''toolResult''"

fun message_timestamp :: "message \<Rightarrow> int" where
  "message_timestamp (System m) = system_timestamp m"
| "message_timestamp (User m) = user_timestamp m"
| "message_timestamp (Assistant m) = made_timestamp m"
| "message_timestamp (ToolResult m) = result_timestamp m"

end
