(* ===== verification/Transform.thy ===== *)
theory Transform
  imports Messages Utf8
begin

text \<open>
  The request transform (\<open>bake-ai/src/api/transform_messages.rs\<close>): images become placeholders
  for a model without vision, thinking of another model becomes text, tool-call ids are
  normalized, failed turns are dropped, and every call without a result is closed with a
  synthetic error. The clock that stamps the synthetic results is a parameter, read once for
  each; the normalizer is the caller's closure.
\<close>

section \<open>The target model\<close>

datatype input_modality = TextInput | ImageInput

text \<open>The members of \<open>Model\<close> the transform reads.\<close>

record target_model =
  target_id :: string
  target_api :: string
  target_provider :: string
  target_input :: "input_modality list"

definition accepts_images :: "target_model \<Rightarrow> bool" where
  "accepts_images m \<longleftrightarrow> ImageInput \<in> set (target_input m)"

section \<open>Images\<close>

definition user_image_placeholder :: string where
  "user_image_placeholder = ''(image omitted: model does not support images)''"

definition tool_image_placeholder :: string where
  "tool_image_placeholder = ''(tool image omitted: model does not support images)''"

fun replace_from :: "string \<Rightarrow> bool \<Rightarrow> user_block list \<Rightarrow> user_block list" where
  "replace_from placeholder previous [] = []"
| "replace_from placeholder previous (UserImage i # bs) =
     (if previous then [] else [UserText (text_new placeholder)]) @ replace_from placeholder True bs"
| "replace_from placeholder previous (UserText t # bs) =
     UserText t # replace_from placeholder (content_text t = placeholder) bs"

definition replace_images_with_placeholder :: "user_block list \<Rightarrow> string \<Rightarrow> user_block list" where
  "replace_images_with_placeholder content placeholder = replace_from placeholder False content"

fun downgrade_message :: "message \<Rightarrow> message" where
  "downgrade_message (User u) =
     (case user_body u of
        Blocks bs \<Rightarrow>
          User (u\<lparr>user_body := Blocks (replace_images_with_placeholder bs user_image_placeholder)\<rparr>)
      | PlainText _ \<Rightarrow> User u)"
| "downgrade_message (ToolResult r) =
     ToolResult (r\<lparr>result_content :=
       replace_images_with_placeholder (result_content r) tool_image_placeholder\<rparr>)"
| "downgrade_message m = m"

definition downgrade_unsupported_images :: "message list \<Rightarrow> target_model \<Rightarrow> message list" where
  "downgrade_unsupported_images ms model =
     (if accepts_images model then ms else map downgrade_message ms)"

section \<open>The first pass\<close>

type_synonym normalizer = "string \<Rightarrow> target_model \<Rightarrow> assistant_message \<Rightarrow> string"

type_synonym id_map = "(string \<times> string) list"

definition same_model :: "target_model \<Rightarrow> assistant_message \<Rightarrow> bool" where
  "same_model model a \<longleftrightarrow> made_provider a = target_provider model \<and>
     made_api a = target_api model \<and> made_model a = target_id model"

definition transform_thinking :: "bool \<Rightarrow> thinking_content \<Rightarrow> assistant_block list" where
  "transform_thinking same t =
     (if is_redacted t then (if same then [ThinkingBlock t] else [])
      else if same \<and> (case thinking_signature t of Some s \<Rightarrow> s \<noteq> [] | None \<Rightarrow> False)
        then [ThinkingBlock t]
      else if trim (thinking_text t) = [] then []
      else if same then [ThinkingBlock t] else [TextBlock (text_new (thinking_text t))])"

definition transform_call ::
  "normalizer option \<Rightarrow> target_model \<Rightarrow> assistant_message \<Rightarrow> tool_call_block \<Rightarrow> id_map \<Rightarrow>
     tool_call_block \<times> id_map" where
  "transform_call renamer model a c ids =
     (if same_model model a then (c, ids)
      else (let c = c\<lparr>thought_signature := None\<rparr> in
            (case renamer of
               None \<Rightarrow> (c, ids)
             | Some f \<Rightarrow>
                 (let i = f (call_id c) model a in
                  if i \<noteq> call_id c then (c\<lparr>call_id := i\<rparr>, imap_insert (call_id c) i ids)
                  else (c, ids)))))"

fun transform_blocks ::
  "normalizer option \<Rightarrow> target_model \<Rightarrow> assistant_message \<Rightarrow> id_map \<Rightarrow> assistant_block list \<Rightarrow>
     assistant_block list \<times> id_map" where
  "transform_blocks renamer model a ids [] = ([], ids)"
| "transform_blocks renamer model a ids (ThinkingBlock t # bs) =
     (case transform_blocks renamer model a ids bs of
        (bs, ids) \<Rightarrow> (transform_thinking (same_model model a) t @ bs, ids))"
| "transform_blocks renamer model a ids (TextBlock t # bs) =
     (case transform_blocks renamer model a ids bs of
        (bs, ids) \<Rightarrow>
          (TextBlock (if same_model model a then t else text_new (content_text t)) # bs, ids))"
| "transform_blocks renamer model a ids (CallBlock c # bs) =
     (case transform_call renamer model a c ids of
        (c, ids) \<Rightarrow>
          (case transform_blocks renamer model a ids bs of
             (bs, ids) \<Rightarrow> (CallBlock c # bs, ids)))"

fun transform_message ::
  "normalizer option \<Rightarrow> target_model \<Rightarrow> id_map \<Rightarrow> message \<Rightarrow> message \<times> id_map" where
  "transform_message renamer model ids (ToolResult r) =
     (case map_of ids (result_call r) of
        Some i \<Rightarrow> (ToolResult (if i \<noteq> result_call r then r\<lparr>result_call := i\<rparr> else r), ids)
      | None \<Rightarrow> (ToolResult r, ids))"
| "transform_message renamer model ids (Assistant a) =
     (case transform_blocks renamer model a ids (blocks a) of
        (bs, ids) \<Rightarrow> (Assistant (a\<lparr>blocks := bs\<rparr>), ids))"
| "transform_message renamer model ids m = (m, ids)"

fun first_pass :: "normalizer option \<Rightarrow> target_model \<Rightarrow> id_map \<Rightarrow> message list \<Rightarrow> message list" where
  "first_pass renamer model ids [] = []"
| "first_pass renamer model ids (m # ms) =
     (case transform_message renamer model ids m of
        (m, ids) \<Rightarrow> m # first_pass renamer model ids ms)"

section \<open>The second pass\<close>

record request =
  out :: "message list"
  pending_calls :: "tool_call_block list"
  existing :: "string list"
  held_system :: "message list"

definition new_request :: request where
  "new_request = \<lparr>out = [], pending_calls = [], existing = [], held_system = []\<rparr>"

definition synthetic_result :: "int \<Rightarrow> tool_call_block \<Rightarrow> message" where
  "synthetic_result now c =
     ToolResult
       \<lparr>result_call = call_id c, result_tool = call_name c,
        result_content = [UserText (text_new ''No result provided'')], result_details = None,
        result_usage = None, result_nested = None, result_is_error = True,
        result_timestamp = now, result_duration = None\<rparr>"

definition answer_missing ::
  "(nat \<Rightarrow> int) \<Rightarrow> string list \<Rightarrow> tool_call_block list \<Rightarrow> message list \<Rightarrow> message list" where
  "answer_missing clock answered calls ms =
     foldl (\<lambda>ms c. if call_id c \<in> set answered then ms
                   else ms @ [synthetic_result (clock (length ms)) c]) ms calls"

definition close_pending :: "(nat \<Rightarrow> int) \<Rightarrow> request \<Rightarrow> request" where
  "close_pending clock st =
     (let st = (if pending_calls st = [] then st
                else st\<lparr>out := answer_missing clock (existing st) (pending_calls st) (out st),
                        pending_calls := [], existing := []\<rparr>)
      in st\<lparr>out := out st @ held_system st, held_system := []\<rparr>)"

definition failed_turn :: "assistant_message \<Rightarrow> bool" where
  "failed_turn a \<longleftrightarrow> stop_reason a = ErrorStop \<or> stop_reason a = Aborted"

fun request_step :: "(nat \<Rightarrow> int) \<Rightarrow> message \<Rightarrow> request \<Rightarrow> request" where
  "request_step clock (Assistant a) st =
     (let st = close_pending clock st in
      if failed_turn a then st
      else (let calls = tool_calls a;
                st = (if calls \<noteq> [] then st\<lparr>pending_calls := calls, existing := []\<rparr> else st)
            in st\<lparr>out := out st @ [Assistant a]\<rparr>))"
| "request_step clock (ToolResult r) st =
     st\<lparr>existing := result_call r # existing st, out := out st @ [ToolResult r]\<rparr>"
| "request_step clock (System m) st =
     (if pending_calls st = [] then st\<lparr>out := out st @ [System m]\<rparr>
      else st\<lparr>held_system := held_system st @ [System m]\<rparr>)"
| "request_step clock (User u) st =
     (let st = close_pending clock st in st\<lparr>out := out st @ [User u]\<rparr>)"

definition second_pass :: "(nat \<Rightarrow> int) \<Rightarrow> message list \<Rightarrow> message list" where
  "second_pass clock ms = out (close_pending clock (fold (request_step clock) ms new_request))"

definition transform_messages ::
  "(nat \<Rightarrow> int) \<Rightarrow> message list \<Rightarrow> target_model \<Rightarrow> normalizer option \<Rightarrow> message list" where
  "transform_messages clock ms model renamer =
     second_pass clock (first_pass renamer model [] (downgrade_unsupported_images ms model))"

section \<open>The shape of a request\<close>

text \<open>
  What a provider accepts: after an assistant message with tool calls come results, until every
  call has one, before a system message or a turn of the user or the assistant; and no turn that
  failed. In the strict shape no result follows the system messages of a settled turn.
\<close>

datatype phase = Free | Calling "string list" | Settled

fun open_calls :: "phase \<Rightarrow> string list" where
  "open_calls (Calling ids) = ids"
| "open_calls _ = []"

fun shape_step :: "bool \<Rightarrow> message \<Rightarrow> phase \<Rightarrow> phase option" where
  "shape_step strict (Assistant a) ph =
     (if failed_turn a \<or> open_calls ph \<noteq> [] then None
      else Some (if tool_calls a = [] then Free else Calling (map call_id (tool_calls a))))"
| "shape_step strict (User u) ph = (if open_calls ph \<noteq> [] then None else Some Free)"
| "shape_step strict (ToolResult r) ph =
     (case ph of
        Free \<Rightarrow> Some Free
      | Calling ids \<Rightarrow> Some (Calling (filter (\<lambda>i. i \<noteq> result_call r) ids))
      | Settled \<Rightarrow> if strict then None else Some Settled)"
| "shape_step strict (System m) ph =
     (if open_calls ph \<noteq> [] then None else Some (if ph = Free then Free else Settled))"

fun shape :: "bool \<Rightarrow> phase \<Rightarrow> message list \<Rightarrow> phase option" where
  "shape strict ph [] = Some ph"
| "shape strict ph (m # ms) = Option.bind (shape_step strict m ph) (\<lambda>ph. shape strict ph ms)"

definition request_shape :: "bool \<Rightarrow> message list \<Rightarrow> bool" where
  "request_shape strict ms \<longleftrightarrow>
     (case shape strict Free ms of Some ph \<Rightarrow> open_calls ph = [] | None \<Rightarrow> False)"

lemma shape_append [simp]:
  "shape strict ph (a @ b) = Option.bind (shape strict ph a) (\<lambda>ph. shape strict ph b)"
  by (induction a arbitrary: ph) (simp_all add: bind_assoc)

section \<open>Every call is answered\<close>

lemma answer_missing_shape:
  "shape strict Free ms = Some (Calling ids) \<Longrightarrow>
   \<forall>i \<in> set ids. i \<notin> set answered \<and> i \<in> call_id ` set calls \<Longrightarrow>
   shape strict Free (answer_missing clock answered calls ms) = Some (Calling [])"
proof (induction calls arbitrary: ms ids)
  case (Cons c calls)
  show ?case
  proof (cases "call_id c \<in> set answered")
    case True
    with Cons.prems have "\<forall>i \<in> set ids. i \<notin> set answered \<and> i \<in> call_id ` set calls" by auto
    from Cons.IH [OF Cons.prems(1) this] True show ?thesis by (simp add: answer_missing_def)
  next
    case False
    let ?ms = "ms @ [synthetic_result (clock (length ms)) c]"
    let ?ids = "filter (\<lambda>i. i \<noteq> call_id c) ids"
    have "shape strict Free ?ms = Some (Calling ?ids)"
      using Cons.prems(1) by (simp add: synthetic_result_def)
    moreover have "\<forall>i \<in> set ?ids. i \<notin> set answered \<and> i \<in> call_id ` set calls"
      using Cons.prems(2) by auto
    ultimately have "shape strict Free (answer_missing clock answered calls ?ms) = Some (Calling [])"
      by (rule Cons.IH)
    with False show ?thesis by (simp add: answer_missing_def)
  qed
qed (simp add: answer_missing_def)

fun is_system :: "message \<Rightarrow> bool" where
  "is_system (System _) = True"
| "is_system _ = False"

lemma shape_systems:
  "list_all is_system ms \<Longrightarrow> open_calls ph = [] \<Longrightarrow>
   \<exists>ph'. shape strict ph ms = Some ph' \<and> open_calls ph' = []"
proof (induction ms arbitrary: ph)
  case (Cons m ms)
  then obtain s where "m = System s" by (cases m) auto
  with Cons show ?case by simp
qed simp

definition request_inv :: "request \<Rightarrow> bool" where
  "request_inv st \<longleftrightarrow>
     list_all is_system (held_system st) \<and>
     (if pending_calls st = []
      then held_system st = [] \<and> (\<exists>ph. shape False Free (out st) = Some ph \<and> open_calls ph = [])
      else shape False Free (out st) =
             Some (Calling (filter (\<lambda>i. i \<notin> set (existing st)) (map call_id (pending_calls st)))))"

lemma close_pending_inv [inv_intros]:
  assumes "request_inv st"
  shows "request_inv (close_pending clock st)" and "pending_calls (close_pending clock st) = []"
proof -
  show "pending_calls (close_pending clock st) = []" by (simp add: close_pending_def Let_def)
  show "request_inv (close_pending clock st)"
  proof (cases "pending_calls st = []")
    case False
    let ?out = "answer_missing clock (existing st) (pending_calls st) (out st)"
    have "shape False Free ?out = Some (Calling [])"
      by (rule answer_missing_shape) (use assms False in \<open>auto simp: request_inv_def\<close>)
    moreover obtain ph where "shape False (Calling []) (held_system st) = Some ph" "open_calls ph = []"
      using shape_systems [of "held_system st" "Calling []" False] assms by (auto simp: request_inv_def)
    ultimately show ?thesis using False by (simp add: close_pending_def request_inv_def)
  qed (use assms in \<open>simp add: close_pending_def request_inv_def\<close>)
qed

lemma request_step_inv [inv_intros]:
  assumes "request_inv st" shows "request_inv (request_step clock m st)"
proof (cases m)
  case (System s)
  with assms show ?thesis by (auto simp: request_inv_def)
next
  case (User u)
  with close_pending_inv [OF assms, of clock] show ?thesis by (auto simp: request_inv_def Let_def)
next
  case (Assistant a)
  note closed = close_pending_inv [OF assms, of clock]
  show ?thesis
  proof (cases "failed_turn a")
    case False
    with closed Assistant show ?thesis by (auto simp: request_inv_def Let_def)
  qed (use closed Assistant in \<open>simp add: Let_def\<close>)
next
  case (ToolResult r)
  show ?thesis
  proof (cases "pending_calls st = []")
    case True
    with assms ToolResult show ?thesis by (auto simp: request_inv_def split: phase.split)
  next
    case False
    have "filter (\<lambda>i. i \<noteq> result_call r) (filter (\<lambda>i. i \<notin> set (existing st)) xs) =
        filter (\<lambda>i. i \<notin> set (result_call r # existing st)) xs" for xs
      by (auto intro: filter_cong)
    with False assms ToolResult show ?thesis by (simp add: request_inv_def)
  qed
qed

lemma fold_request_inv: "request_inv st \<Longrightarrow> request_inv (fold (request_step clock) ms st)"
  by (induction ms arbitrary: st) (simp_all add: request_step_inv)

lemma new_request_inv: "request_inv new_request"
  by (simp add: request_inv_def new_request_def)

text \<open>C31. A request never leaves a tool call open: whatever the transcript, the transformed
  messages answer every call of an assistant message, with a stored or a synthetic result, before
  the next system message or turn and before the end, and hold no failed turn.\<close>

theorem transform_answers_calls:
  "request_shape False (transform_messages clock ms model renamer)"
proof -
  let ?ms = "first_pass renamer model [] (downgrade_unsupported_images ms model)"
  let ?st = "fold (request_step clock) ?ms new_request"
  have "request_inv (close_pending clock ?st)" and "pending_calls (close_pending clock ?st) = []"
    using close_pending_inv fold_request_inv [OF new_request_inv] by blast+
  then show ?thesis
    by (auto simp: transform_messages_def second_pass_def request_shape_def request_inv_def)
qed

section \<open>A request of the strict shape is left as it is\<close>

lemma answer_missing_none:
  "\<forall>c \<in> set calls. call_id c \<in> set answered \<Longrightarrow> answer_missing clock answered calls ms = ms"
  by (induction calls arbitrary: ms) (simp_all add: answer_missing_def)

definition at_phase :: "phase \<Rightarrow> request \<Rightarrow> bool" where
  "at_phase ph st \<longleftrightarrow>
     (case ph of
        Free \<Rightarrow> pending_calls st = [] \<and> held_system st = []
      | Calling ids \<Rightarrow> pending_calls st \<noteq> [] \<and> held_system st = [] \<and>
          ids = filter (\<lambda>i. i \<notin> set (existing st)) (map call_id (pending_calls st))
      | Settled \<Rightarrow> pending_calls st \<noteq> [] \<and> (\<forall>c \<in> set (pending_calls st). call_id c \<in> set (existing st)))"

lemma at_phase_answered:
  "at_phase ph st \<Longrightarrow> open_calls ph = [] \<Longrightarrow> \<forall>c \<in> set (pending_calls st). call_id c \<in> set (existing st)"
  by (cases ph) (auto simp: at_phase_def filter_empty_conv)

lemma close_pending_settled:
  assumes "at_phase ph st" and "open_calls ph = []"
  shows "out (close_pending clock st) = out st @ held_system st"
    and "at_phase Free (close_pending clock st)"
  using answer_missing_none [OF at_phase_answered [OF assms], of clock "out st"]
  by (auto simp: close_pending_def Let_def at_phase_def)

lemma request_step_strict:
  assumes "shape_step True m ph = Some ph'" and "at_phase ph st"
  shows "at_phase ph' (request_step clock m st) \<and>
    out (request_step clock m st) @ held_system (request_step clock m st) = out st @ held_system st @ [m]"
proof (cases m)
  case (System s)
  with assms(1) have "open_calls ph = []" and ph': "ph' = (if ph = Free then Free else Settled)"
    by (auto split: if_splits)
  note answered = at_phase_answered [OF assms(2) this(1)]
  show ?thesis
  proof (cases "ph = Free")
    case True
    with assms(2) ph' System show ?thesis by (simp add: at_phase_def)
  next
    case False
    then have "pending_calls st \<noteq> []" using assms(2) by (cases ph) (simp_all add: at_phase_def)
    with False answered ph' System show ?thesis by (simp add: at_phase_def)
  qed
next
  case (User u)
  with assms have "open_calls ph = []" "ph' = Free" by (auto split: if_splits)
  with close_pending_settled [OF assms(2), of clock] User show ?thesis
    by (simp add: at_phase_def Let_def)
next
  case (Assistant a)
  with assms have open_none: "open_calls ph = []" "\<not> failed_turn a"
    and ph': "ph' = (if tool_calls a = [] then Free else Calling (map call_id (tool_calls a)))"
    by (auto split: if_splits)
  with close_pending_settled [OF assms(2) open_none(1), of clock] Assistant show ?thesis
    by (auto simp: at_phase_def Let_def)
next
  case (ToolResult r)
  have "filter (\<lambda>i. i \<noteq> result_call r) (filter (\<lambda>i. i \<notin> set (existing st)) xs) =
      filter (\<lambda>i. i \<notin> set (result_call r # existing st)) xs" for xs
    by (auto intro: filter_cong)
  note filter_more = this
  show ?thesis
  proof (cases ph)
    case Free
    with ToolResult assms show ?thesis by (simp add: at_phase_def)
  next
    case (Calling ids)
    with ToolResult assms(1) have ph': "ph' = Calling (filter (\<lambda>i. i \<noteq> result_call r) ids)" by simp
    from Calling assms(2) have st: "pending_calls st \<noteq> []" "held_system st = []"
      "ids = filter (\<lambda>i. i \<notin> set (existing st)) (map call_id (pending_calls st))"
      by (simp_all add: at_phase_def)
    show ?thesis unfolding ph' st(3) filter_more using st(1,2) by (simp add: ToolResult at_phase_def)
  qed (use ToolResult assms(1) in simp)
qed

lemma fold_request_strict:
  "shape True ph ms = Some ph' \<Longrightarrow> at_phase ph st \<Longrightarrow>
   at_phase ph' (fold (request_step clock) ms st) \<and>
   out (fold (request_step clock) ms st) @ held_system (fold (request_step clock) ms st) =
     out st @ held_system st @ ms"
proof (induction ms arbitrary: ph st)
  case (Cons m ms)
  from Cons.prems(1) obtain ph1 where ph1: "shape_step True m ph = Some ph1" "shape True ph1 ms = Some ph'"
    by (auto simp: bind_eq_Some_conv)
  from request_step_strict [OF ph1(1) Cons.prems(2), of clock] Cons.IH [OF ph1(2)]
  show ?case by fastforce
qed simp

lemma second_pass_strict:
  assumes "request_shape True ms" shows "second_pass clock ms = ms"
proof -
  from assms obtain ph where ph: "shape True Free ms = Some ph" "open_calls ph = []"
    by (auto simp: request_shape_def split: option.splits)
  have "at_phase Free new_request" by (simp add: at_phase_def new_request_def)
  from fold_request_strict [OF ph(1) this, of clock]
  have "at_phase ph (fold (request_step clock) ms new_request)"
    and "out (fold (request_step clock) ms new_request) @
      held_system (fold (request_step clock) ms new_request) = ms"
    by (simp_all add: new_request_def)
  with close_pending_settled(1) [OF this(1) ph(2), of clock] show ?thesis
    by (simp add: second_pass_def)
qed

section \<open>The first pass again\<close>

definition first_message :: "target_model \<Rightarrow> message \<Rightarrow> message" where
  "first_message model m = fst (transform_message None model [] m)"

lemma transform_blocks_plain: "snd (transform_blocks None model a [] bs) = []"
proof (induction bs)
  case (Cons b bs)
  then show ?case
    by (cases b; cases "transform_blocks None model a [] bs") (simp_all add: transform_call_def Let_def)
qed simp

lemma transform_message_plain: "snd (transform_message None model [] m) = []"
  using transform_blocks_plain by (cases m) (auto split: prod.split simp: prod_eq_iff)

lemma first_pass_plain: "first_pass None model [] ms = map (first_message model) ms"
proof (induction ms)
  case (Cons m ms)
  then show ?case
    using transform_message_plain [of model m]
    by (cases "transform_message None model [] m") (simp add: first_message_def)
qed simp

lemma transform_blocks_append:
  "fst (transform_blocks None model a [] (bs @ cs)) =
     fst (transform_blocks None model a [] bs) @ fst (transform_blocks None model a [] cs)"
proof (induction bs)
  case (Cons b bs)
  then show ?case by (cases b) (auto simp: transform_call_def Let_def split: prod.splits)
qed simp

lemma transform_blocks_again:
  assumes "same_model model a' = same_model model a"
  shows "fst (transform_blocks None model a' [] (fst (transform_blocks None model a [] bs))) =
    fst (transform_blocks None model a [] bs)"
proof (induction bs)
  case (Cons b bs)
  show ?case
  proof (cases b)
    case (ThinkingBlock t)
    have again: "fst (transform_blocks None model a' [] (transform_thinking (same_model model a) t)) =
        transform_thinking (same_model model a) t"
      using assms by (auto simp: transform_thinking_def text_new_def)
    have "fst (transform_blocks None model a [] (b # bs)) =
        transform_thinking (same_model model a) t @ fst (transform_blocks None model a [] bs)"
      by (simp add: ThinkingBlock split: prod.split)
    then show ?thesis by (simp add: transform_blocks_append again Cons)
  next
    case (CallBlock c)
    obtain bs' ids where "transform_blocks None model a [] bs = (bs', ids)" by fastforce
    moreover from this have "ids = []" using transform_blocks_plain [of model a bs] by simp
    moreover obtain bs'' ids' where "transform_blocks None model a' [] bs' = (bs'', ids')" by fastforce
    ultimately show ?thesis
      using Cons assms by (simp add: CallBlock transform_call_def Let_def)
  next
    case (TextBlock t)
    then show ?thesis
      using Cons assms by (auto simp: text_new_def split: prod.splits)
  qed
qed simp

lemma first_message_again: "first_message model (first_message model m) = first_message model m"
proof (cases m)
  case (Assistant a)
  obtain bs ids where bs: "transform_blocks None model a [] (blocks a) = (bs, ids)" by fastforce
  let ?a = "a\<lparr>blocks := bs\<rparr>"
  have "fst (transform_blocks None model ?a [] bs) = bs"
    using transform_blocks_again [of model ?a a "blocks a"] bs by (simp add: same_model_def)
  then show ?thesis
    by (cases "transform_blocks None model ?a [] bs") (simp add: Assistant first_message_def bs)
qed (simp_all add: first_message_def)

lemma replace_from_again:
  "replace_from p' q (replace_from p q' bs) = replace_from p q' bs"
  by (induction p q' bs arbitrary: q rule: replace_from.induct) simp_all

lemma downgrade_again: "downgrade_message (downgrade_message m) = downgrade_message m"
  by (cases m) (auto simp: replace_images_with_placeholder_def replace_from_again split: user_content.split)

lemma downgrade_first: "downgrade_message (first_message model m) = first_message model (downgrade_message m)"
  by (cases m) (auto simp: first_message_def split: user_content.split prod.split)

definition plain_message :: "target_model \<Rightarrow> message \<Rightarrow> message" where
  "plain_message model m =
     first_message model (if accepts_images model then m else downgrade_message m)"

lemma transform_messages_plain:
  "transform_messages clock ms model None = second_pass clock (map (plain_message model) ms)"
  by (cases "accepts_images model")
    (simp_all add: transform_messages_def first_pass_plain downgrade_unsupported_images_def
      plain_message_def [abs_def] comp_def)

lemma plain_message_again: "plain_message model (plain_message model m) = plain_message model m"
  by (simp add: plain_message_def downgrade_first downgrade_again first_message_again)

lemma plain_synthetic: "plain_message model (synthetic_result now c) = synthetic_result now c"
  by (simp add: plain_message_def synthetic_result_def first_message_def replace_images_with_placeholder_def)

lemma answer_missing_parts:
  "x \<in> set (answer_missing clock answered calls ms) \<Longrightarrow> x \<in> set ms \<or> (\<exists>now c. x = synthetic_result now c)"
  by (induction calls arbitrary: ms) (auto simp: answer_missing_def split: if_splits, fastforce+)


definition parts_from :: "message set \<Rightarrow> request \<Rightarrow> bool" where
  "parts_from M st \<longleftrightarrow>
     (\<forall>x \<in> set (out st) \<union> set (held_system st). x \<in> M \<or> (\<exists>now c. x = synthetic_result now c))"

lemma close_pending_parts: "parts_from M st \<Longrightarrow> parts_from M (close_pending clock st)"
  using answer_missing_parts [of _ clock "existing st" "pending_calls st" "out st"]
  by (auto simp: close_pending_def parts_from_def Let_def)

lemma request_step_parts:
  assumes "parts_from M st" and "m \<in> M" shows "parts_from M (request_step clock m st)"
proof (cases m)
  case (Assistant a)
  with close_pending_parts [OF assms(1), of clock] assms(2) show ?thesis
    by (auto simp: parts_from_def Let_def)
next
  case (User u)
  with close_pending_parts [OF assms(1), of clock] assms(2) show ?thesis
    by (auto simp: parts_from_def Let_def)
qed (use assms in \<open>auto simp: parts_from_def\<close>)

lemma second_pass_parts:
  assumes "x \<in> set (second_pass clock ms)"
  shows "x \<in> set ms \<or> (\<exists>now c. x = synthetic_result now c)"
proof -
  have fold: "parts_from (set ms) (fold (request_step clock) xs st)"
    if "parts_from (set ms) st" "set xs \<subseteq> set ms" for xs st
    using that by (induction xs arbitrary: st) (simp_all add: request_step_parts)
  have "parts_from (set ms) (close_pending clock (fold (request_step clock) ms new_request))"
    by (rule close_pending_parts, rule fold) (simp_all add: parts_from_def new_request_def)
  with assms show ?thesis by (auto simp: second_pass_def parts_from_def)
qed

text \<open>Transforming a request again changes nothing, at any later time: when the transformed
  messages have the strict shape, no result following the system messages of a settled turn, they
  are their own transform for the same model without an id rewrite.\<close>

theorem transform_again:
  assumes "request_shape True (transform_messages clock ms model None)"
  shows "transform_messages clock' (transform_messages clock ms model None) model None =
    transform_messages clock ms model None"
proof -
  let ?ms = "transform_messages clock ms model None"
  have "plain_message model x = x" if "x \<in> set ?ms" for x
    using second_pass_parts [OF that [unfolded transform_messages_plain]]
    by (auto simp: plain_message_again plain_synthetic)
  then have "map (plain_message model) ?ms = ?ms" by (rule map_idI)
  then show ?thesis
    unfolding transform_messages_plain [of clock' ?ms] using second_pass_strict [OF assms] by simp
qed

definition sample_usage :: usage where
  "sample_usage =
     \<lparr>usage_input = 0, usage_output = 0, usage_cache_read = 0, usage_cache_write = 0,
      usage_cache_write_1h = None, usage_reasoning = None, usage_total = 0,
      usage_cost = \<lparr>cost_input = 0, cost_output = 0, cost_cache_read = 0, cost_cache_write = 0,
        cost_total = 0\<rparr>\<rparr>"

definition sample_assistant :: "assistant_block list \<Rightarrow> assistant_message" where
  "sample_assistant bs =
     \<lparr>blocks = bs, made_api = ''faux'', made_provider = ''p'', made_model = ''m'',
      response_model = None, response_id = None, provider_thinking_level = None,
      asked_thinking_level = None, diagnostics = None, made_usage = sample_usage,
      stop_reason = ToolUse, made_deferred = None, error_message = None, raw_stop_reason = None,
      end_turn = None, made_timestamp = 1, made_duration = None\<rparr>"

definition sample_call :: "string \<Rightarrow> tool_call_block" where
  "sample_call i =
     \<lparr>call_id = i, call_name = ''read'', call_arguments = [], thought_signature = None,
      call_namespace = None\<rparr>"

definition sample_transcript :: "message list" where
  "sample_transcript =
     [Assistant (sample_assistant [CallBlock (sample_call ''a''), CallBlock (sample_call ''b'')]),
      System \<lparr>system_body = SystemText ''update'', system_sections = None, tools_added = None,
        tools_removed = None, system_timestamp = 2\<rparr>,
      ToolResult \<lparr>result_call = ''a'', result_tool = ''read'', result_content = [],
        result_details = None, result_usage = None, result_nested = None, result_is_error = False,
        result_timestamp = 3, result_duration = None\<rparr>,
      User \<lparr>user_body = PlainText ''next'', user_timestamp = 4\<rparr>]"

definition sample_target :: target_model where
  "sample_target = \<lparr>target_id = ''m'', target_api = ''faux'', target_provider = ''p'',
     target_input = [TextInput]\<rparr>"

lemma transform_again_witness:
  "transform_messages (\<lambda>_. 9) (transform_messages (\<lambda>_. 5) sample_transcript sample_target None)
     sample_target None = transform_messages (\<lambda>_. 5) sample_transcript sample_target None"
  by (rule transform_again) code_simp

end
