(* ===== verification/LiveMessages.thy ===== *)
theory LiveMessages
  imports Messages Utf8
begin

text \<open>
  Live messages (\<open>session/messages.rs\<close>): the agent's message union over a stored object, and the
  conversion of a transcript to model messages. Reading an object as one of the typed messages is
  the deserializer \<open>serde\<close> derives, generated code: the record \<open>readers\<close> is a parameter, whose
  members fail where that deserializer does.
\<close>

section \<open>The coding agent's kinds\<close>

record bash_execution =
  bash_command :: string
  bash_output :: string
  bash_exit_code :: "int option"
  bash_cancelled :: bool
  bash_truncated :: bool
  bash_full_output :: "string option"
  bash_timestamp :: int
  bash_excluded :: "bool option"

record custom_message =
  custom_kind :: string
  custom_content :: user_content
  custom_display :: bool
  custom_details :: "json option"
  custom_timestamp :: int

record branch_summary =
  branch_text :: string
  branch_from :: "string option"
  branch_timestamp :: int

record compaction_summary =
  compaction_text :: string
  compaction_tokens :: nat
  compaction_timestamp :: int

datatype live_message =
    Llm message
  | BashExecution bash_execution
  | Custom custom_message
  | BranchSummary branch_summary
  | CompactionSummary compaction_summary
  | Opaque object

record readers =
  read_message :: "object \<Rightarrow> message option"
  read_bash :: "object \<Rightarrow> bash_execution option"
  read_custom :: "object \<Rightarrow> custom_message option"
  read_branch :: "object \<Rightarrow> branch_summary option"
  read_compaction :: "object \<Rightarrow> compaction_summary option"

definition member_role :: "object \<Rightarrow> string" where
  "member_role m = (case str_member m ''role'' of Some r \<Rightarrow> r | None \<Rightarrow> '''')"

definition live_from_json :: "readers \<Rightarrow> object \<Rightarrow> live_message" where
  "live_from_json rd m =
     (let role = member_role m;
          untagged = obj_swap_remove ''role'' m;
          read = (if role \<in> {''system'', ''user'', ''assistant'', ''toolResult''}
                    then map_option Llm (read_message rd m)
                  else if role = ''bashExecution'' then map_option BashExecution (read_bash rd untagged)
                  else if role = ''custom'' then map_option Custom (read_custom rd untagged)
                  else if role = ''branchSummary'' then map_option BranchSummary (read_branch rd untagged)
                  else if role = ''compactionSummary''
                    then map_option CompactionSummary (read_compaction rd untagged)
                  else None)
      in (case read of Some l \<Rightarrow> l | None \<Rightarrow> Opaque m))"

fun live_role :: "live_message \<Rightarrow> string" where
  "live_role (Llm m) = message_role_text m"
| "live_role (BashExecution _) = ''bashExecution''"
| "live_role (Custom _) = ''custom''"
| "live_role (BranchSummary _) = ''branchSummary''"
| "live_role (CompactionSummary _) = ''compactionSummary''"
| "live_role (Opaque m) = member_role m"

section \<open>Text of a command\<close>

definition int_text :: "int \<Rightarrow> string" where
  "int_text i = (if i < 0 then ''-'' @ nat_text (nat (- i)) else nat_text (nat i))"

definition newline :: string where "newline = [CHR 0x0A]"

definition bash_execution_to_text :: "bash_execution \<Rightarrow> string" where
  "bash_execution_to_text m =
     ''Ran `'' @ bash_command m @ ''`'' @ newline @
     (if bash_output m = [] then ''(no output)''
      else ''```'' @ newline @ bash_output m @ newline @ ''```'') @
     (if bash_cancelled m then newline @ newline @ ''(command cancelled)''
      else (case bash_exit_code m of
              Some code \<Rightarrow>
                if code \<noteq> 0 then newline @ newline @ ''Command exited with code '' @ int_text code
                else []
            | None \<Rightarrow> [])) @
     (case bash_full_output m of
        Some path \<Rightarrow>
          if bash_truncated m \<and> path \<noteq> []
          then newline @ newline @ ''[Output truncated. Full output: '' @ path @ '']'' else []
      | None \<Rightarrow> [])"

section \<open>Model messages\<close>

definition compaction_summary_prefix :: string where
  "compaction_summary_prefix =
     ''The conversation history before this point was compacted into the following summary:'' @
     newline @ newline @ ''<summary>'' @ newline"

definition compaction_summary_suffix :: string where
  "compaction_summary_suffix = newline @ ''</summary>''"

definition branch_summary_prefix :: string where
  "branch_summary_prefix =
     ''The following is a summary of a branch that this conversation came back from:'' @
     newline @ newline @ ''<summary>'' @ newline"

definition branch_summary_suffix :: string where
  "branch_summary_suffix = ''</summary>''"

definition text_message :: "string \<Rightarrow> int \<Rightarrow> message" where
  "text_message text timestamp =
     User \<lparr>user_body = Blocks [UserText (text_new text)], user_timestamp = timestamp\<rparr>"

fun convert_one :: "live_message \<Rightarrow> message option" where
  "convert_one (Llm m) = Some m"
| "convert_one (BashExecution b) =
     (if bash_excluded b = Some True then None
      else Some (text_message (bash_execution_to_text b) (bash_timestamp b)))"
| "convert_one (Custom c) =
     Some (User
       \<lparr>user_body = (case custom_content c of
                      PlainText text \<Rightarrow> Blocks [UserText (text_new text)]
                    | Blocks bs \<Rightarrow> Blocks bs),
        user_timestamp = custom_timestamp c\<rparr>)"
| "convert_one (BranchSummary b) =
     Some (text_message (branch_summary_prefix @ branch_text b @ branch_summary_suffix)
       (branch_timestamp b))"
| "convert_one (CompactionSummary c) =
     Some (text_message (compaction_summary_prefix @ compaction_text c @ compaction_summary_suffix)
       (compaction_timestamp c))"
| "convert_one (Opaque _) = None"

definition convert_to_llm :: "live_message list \<Rightarrow> message list" where
  "convert_to_llm ls = List.map_filter convert_one ls"

lemma convert_to_llm_append [simp]:
  "convert_to_llm (a @ b) = convert_to_llm a @ convert_to_llm b"
  by (simp add: convert_to_llm_def List.map_filter_def)

end
