(* ===== verification/Unanswered.thy ===== *)
theory Unanswered
  imports SessionContext LiveMessages Transform
begin

text \<open>
  Unanswered tool calls (\<open>session/unanswered.rs\<close>): the scan that derives, from the session's
  projection alone, the calls the next request closes with a synthetic result; and its agreement
  with the request transform, which is in another crate and never consulted by it.
\<close>

section \<open>The scan\<close>

record unanswered_call =
  unanswered_entry :: string
  unanswered_id :: string
  unanswered_tool :: string

record scan =
  scan_pending :: "unanswered_call list"
  scan_answered :: "string list"
  scan_unanswered :: "unanswered_call list"

definition new_scan :: scan where
  "new_scan = \<lparr>scan_pending = [], scan_answered = [], scan_unanswered = []\<rparr>"

definition scan_close :: "scan \<Rightarrow> scan" where
  "scan_close s =
     (if scan_pending s = [] then s
      else s\<lparr>scan_pending := [], scan_answered := [],
             scan_unanswered := scan_unanswered s @
               filter (\<lambda>c. unanswered_id c \<notin> set (scan_answered s)) (scan_pending s)\<rparr>)"

definition call_of :: "string \<Rightarrow> tool_call_block \<Rightarrow> unanswered_call" where
  "call_of entry c =
     \<lparr>unanswered_entry = entry, unanswered_id = call_id c, unanswered_tool = call_name c\<rparr>"

fun scan_message :: "string \<times> message \<Rightarrow> scan \<Rightarrow> scan" where
  "scan_message (entry, Assistant a) s =
     (let s = scan_close s in
      if failed_turn a then s
      else (let calls = map (call_of entry) (tool_calls a) in
            if calls \<noteq> [] then s\<lparr>scan_pending := calls, scan_answered := []\<rparr> else s))"
| "scan_message (entry, ToolResult r) s = s\<lparr>scan_answered := result_call r # scan_answered s\<rparr>"
| "scan_message (entry, System _) s = s"
| "scan_message (entry, User _) s = scan_close s"

definition entry_messages :: "readers \<Rightarrow> projected_entry \<Rightarrow> (string \<times> message) list" where
  "entry_messages rd p =
     map (Pair (entry_id (source_entry p)))
       (convert_to_llm (map (live_from_json rd) (projected_messages p)))"

definition unanswered_tool_calls :: "readers \<Rightarrow> session_projection \<Rightarrow> unanswered_call list" where
  "unanswered_tool_calls rd p =
     scan_unanswered (scan_close
       (fold scan_message (concat (map (entry_messages rd) (projected p))) new_scan))"

definition build_unanswered_tool_calls ::
  "(number \<Rightarrow> int option) \<Rightarrow> readers \<Rightarrow> session_entry list \<Rightarrow> leaf_selector \<Rightarrow> unanswered_call list" where
  "build_unanswered_tool_calls round rd es leaf =
     unanswered_tool_calls rd (build_session_projection round es leaf)"

section \<open>Agreement with the transform\<close>

definition is_synthetic :: "message \<Rightarrow> bool" where
  "is_synthetic m \<longleftrightarrow> (\<exists>now c. m = synthetic_result now c)"

fun result_pair :: "message \<Rightarrow> string \<times> string" where
  "result_pair (ToolResult r) = (result_call r, result_tool r)"
| "result_pair _ = ([], [])"

definition call_pair :: "unanswered_call \<Rightarrow> string \<times> string" where
  "call_pair c = (unanswered_id c, unanswered_tool c)"

definition synthetic_pairs :: "message list \<Rightarrow> (string \<times> string) list" where
  "synthetic_pairs ms = map result_pair (filter is_synthetic ms)"

lemma synthetic_simps [simp]:
  "is_synthetic (synthetic_result now c)" "result_pair (synthetic_result now c) = (call_id c, call_name c)"
  by (auto simp: is_synthetic_def) (simp add: synthetic_result_def)

lemma synthetic_pairs_append [simp]:
  "synthetic_pairs (a @ b) = synthetic_pairs a @ synthetic_pairs b"
  by (simp add: synthetic_pairs_def)

lemma synthetic_pairs_none: "(\<And>m. m \<in> set ms \<Longrightarrow> \<not> is_synthetic m) \<Longrightarrow> synthetic_pairs ms = []"
  by (simp add: synthetic_pairs_def filter_empty_conv)

lemma answer_missing_pairs:
  "synthetic_pairs (answer_missing clock answered calls ms) =
     synthetic_pairs ms @
       map (\<lambda>c. (call_id c, call_name c)) (filter (\<lambda>c. call_id c \<notin> set answered) calls)"
  by (induction calls arbitrary: ms) (simp_all add: answer_missing_def synthetic_pairs_def)

definition agree :: "scan \<Rightarrow> request \<Rightarrow> bool" where
  "agree s st \<longleftrightarrow>
     map call_pair (scan_pending s) = map (\<lambda>c. (call_id c, call_name c)) (pending_calls st) \<and>
     scan_answered s = existing st \<and>
     map call_pair (scan_unanswered s) = synthetic_pairs (out st) \<and>
     list_all is_system (held_system st)"

lemma system_not_synthetic: "list_all is_system ms \<Longrightarrow> synthetic_pairs ms = []"
proof (rule synthetic_pairs_none)
  fix m assume "list_all is_system ms" "m \<in> set ms"
  then have "is_system m" by (simp add: list_all_iff)
  then show "\<not> is_synthetic m" by (cases m) (simp_all add: is_synthetic_def synthetic_result_def)
qed

lemma filter_pairs:
  "map call_pair cs = map (\<lambda>c. (call_id c, call_name c)) ds \<Longrightarrow>
   map call_pair (filter (\<lambda>c. unanswered_id c \<notin> A) cs) =
     map (\<lambda>c. (call_id c, call_name c)) (filter (\<lambda>c. call_id c \<notin> A) ds)"
proof (induction cs arbitrary: ds)
  case (Cons c cs)
  then show ?case by (cases ds) (auto simp: call_pair_def)
qed simp

lemma agree_close:
  assumes "agree s st" shows "agree (scan_close s) (close_pending clock st)"
proof -
  have empty: "scan_pending s = [] \<longleftrightarrow> pending_calls st = []"
    using assms by (auto simp: agree_def dest: map_eq_imp_length_eq)
  show ?thesis
    using assms empty
    by (auto simp: agree_def scan_close_def close_pending_def Let_def answer_missing_pairs
        system_not_synthetic filter_pairs)
qed

lemma message_not_synthetic:
  "\<not> is_synthetic (System s)" "\<not> is_synthetic (User u)" "\<not> is_synthetic (Assistant a)"
  by (simp_all add: is_synthetic_def synthetic_result_def)

lemma call_pair_of [simp]: "call_pair (call_of i c) = (call_id c, call_name c)"
  by (simp add: call_of_def call_pair_def)

lemma agree_step:
  assumes "agree s st" and "\<not> is_synthetic m"
  shows "agree (scan_message (i, m) s) (request_step clock m st)"
proof (cases m)
  case (Assistant a)
  note closed = agree_close [OF assms(1), of clock]
  show ?thesis
    using closed message_not_synthetic(3) [of a]
    by (auto simp: Assistant agree_def Let_def synthetic_pairs_def)
next
  case (User u)
  with agree_close [OF assms(1), of clock] message_not_synthetic(2) [of u] show ?thesis
    by (simp add: agree_def Let_def synthetic_pairs_def)
next
  case (System x)
  with assms message_not_synthetic(1) [of x] show ?thesis
    by (simp add: agree_def synthetic_pairs_def)
next
  case (ToolResult r)
  with assms show ?thesis by (simp add: agree_def synthetic_pairs_def)
qed

lemma agree_fold:
  assumes "agree s st" and "\<And>m. m \<in> snd ` set ms \<Longrightarrow> \<not> is_synthetic m"
  shows "agree (fold scan_message ms s) (fold (request_step clock) (map snd ms) st)"
  using assms
proof (induction ms arbitrary: s st)
  case (Cons x ms)
  obtain i m where x: "x = (i, m)" by (cases x)
  with Cons.prems(2) have "\<not> is_synthetic m" by simp
  from agree_step [OF Cons.prems(1) this, of i clock] Cons show ?case by (simp add: x)
qed simp

lemma scan_second_pass:
  assumes "\<And>m. m \<in> snd ` set ms \<Longrightarrow> \<not> is_synthetic m"
  shows "map call_pair (scan_unanswered (scan_close (fold scan_message ms new_scan))) =
    synthetic_pairs (second_pass clock (map snd ms))"
proof -
  have "agree new_scan new_request"
    by (simp add: agree_def new_scan_def new_request_def synthetic_pairs_def)
  from agree_close [where clock = clock, OF agree_fold [where clock = clock, OF this assms]] show ?thesis
    by (simp add: agree_def second_pass_def)
qed

section \<open>Through the first pass\<close>

lemma tool_calls_append:
  "tool_calls (a\<lparr>blocks := bs @ cs\<rparr>) = tool_calls (a\<lparr>blocks := bs\<rparr>) @ tool_calls (a\<lparr>blocks := cs\<rparr>)"
  by (simp add: tool_calls_def List.map_filter_def)

lemma transform_blocks_calls:
  "map (call_of i) (List.map_filter (\<lambda>b. case b of CallBlock c \<Rightarrow> Some c | _ \<Rightarrow> None)
      (fst (transform_blocks None model a [] bs))) =
   map (call_of i) (List.map_filter (\<lambda>b. case b of CallBlock c \<Rightarrow> Some c | _ \<Rightarrow> None) bs)"
proof (induction bs)
  case (Cons b bs)
  obtain bs' ids where bs': "transform_blocks None model a [] bs = (bs', ids)" by fastforce
  then have "ids = []" using transform_blocks_plain [of model a bs] by simp
  with Cons bs' show ?case
    by (cases b) (auto simp: transform_call_def transform_thinking_def call_of_def List.map_filter_def Let_def)
qed simp

lemma scan_plain: "scan_message (i, plain_message model m) s = scan_message (i, m) s"
proof (cases m)
  case (Assistant a)
  obtain bs ids where bs: "transform_blocks None model a [] (blocks a) = (bs, ids)" by fastforce
  have "map (call_of i) (tool_calls (a\<lparr>blocks := bs\<rparr>)) = map (call_of i) (tool_calls a)"
    using transform_blocks_calls [of i model a "blocks a"] bs by (simp add: tool_calls_def)
  moreover have "plain_message model m = Assistant (a\<lparr>blocks := bs\<rparr>)"
    by (simp add: Assistant plain_message_def first_message_def bs)
  moreover have "failed_turn (a\<lparr>blocks := bs\<rparr>) = failed_turn a" by (simp add: failed_turn_def)
  ultimately show ?thesis unfolding Assistant by (simp only: scan_message.simps)
next
  case (User u)
  then show ?thesis by (auto simp: plain_message_def first_message_def split: user_content.split)
qed (auto simp: plain_message_def first_message_def)

lemma replace_from_single:
  assumes "replace_from p False bs = [UserText t]" and "content_text t \<noteq> p"
  shows "bs = [UserText t]"
proof (cases bs)
  case (Cons b bs')
  with assms have "b = UserText t" and rest: "replace_from p False bs' = []"
    by (cases b; auto simp: text_new_def)+
  moreover have "bs' = []" using rest by (cases bs'; cases "hd bs'") auto
  ultimately show ?thesis by (simp add: Cons)
qed (use assms in simp)

lemma synthetic_plain: "is_synthetic (plain_message model m) \<longleftrightarrow> is_synthetic m"
proof
  assume "is_synthetic m"
  then obtain now c where "plain_message model m = synthetic_result now c"
    by (auto simp: is_synthetic_def plain_synthetic)
  then show "is_synthetic (plain_message model m)" by simp
next
  assume "is_synthetic (plain_message model m)"
  then obtain now c where c: "plain_message model m = synthetic_result now c" by (auto simp: is_synthetic_def)
  then obtain r where m: "m = ToolResult r"
    by (cases m) (auto simp: plain_message_def first_message_def synthetic_result_def
        split: if_splits prod.splits user_content.splits)
  show "is_synthetic m"
  proof (cases "accepts_images model")
    case True
    with c m show ?thesis by (auto simp: plain_message_def first_message_def is_synthetic_def)
  next
    case False
    let ?t = "text_new ''No result provided''"
    from c m False have "result_content (r\<lparr>result_content :=
        replace_from tool_image_placeholder False (result_content r)\<rparr>) = [UserText ?t]"
      by (simp add: plain_message_def first_message_def synthetic_result_def replace_images_with_placeholder_def)
    then have "replace_from tool_image_placeholder False (result_content r) = [UserText ?t]" by simp
    then have "result_content r = [UserText ?t]"
      by (rule replace_from_single) (simp add: text_new_def tool_image_placeholder_def)
    then have "r\<lparr>result_content := [UserText ?t]\<rparr> = r" by simp
    with c m False show ?thesis
      by (auto simp: plain_message_def first_message_def is_synthetic_def
          replace_images_with_placeholder_def \<open>result_content r = [UserText ?t]\<close> synthetic_result_def)
  qed
qed

lemma fold_scan_plain:
  "fold scan_message (map (\<lambda>(i, m). (i, plain_message model m)) ms) s = fold scan_message ms s"
  by (induction ms arbitrary: s) (auto simp: scan_plain)

lemma proj_messages_concat:
  "proj_messages (projection_of_path round path) =
     concat (map projected_messages (projected (projection_of_path round path)))"
  by (simp only: projection_of_path_def Let_def session_projection.simps)

lemma projection_messages:
  "map snd (concat (map (entry_messages rd) ps)) =
     convert_to_llm (map (live_from_json rd) (concat (map projected_messages ps)))"
proof (induction ps)
  case (Cons p ps)
  then show ?case by (simp add: entry_messages_def comp_def)
qed (simp add: convert_to_llm_def List.map_filter_def)

text \<open>C30. The unfinished calls the session reports are exactly the calls the next request closes: over
  the context of any leaf, and for any target model and clock, the scan lists in order the ids
  and tools of the synthetic results the transform puts into the request, provided no stored
  result already has the synthetic form and ids are not rewritten.\<close>

theorem unanswered_are_closed:
  assumes "\<forall>m \<in> set (convert_to_llm (map (live_from_json rd)
             (ctx_messages (build_session_context round es leaf)))). \<not> is_synthetic m"
  shows "map call_pair (build_unanswered_tool_calls round rd es leaf) =
    synthetic_pairs (transform_messages clock
      (convert_to_llm (map (live_from_json rd) (ctx_messages (build_session_context round es leaf))))
      model None)"
proof -
  let ?p = "build_session_projection round es leaf"
  let ?ms = "concat (map (entry_messages rd) (projected ?p))"
  let ?plain = "map (\<lambda>(i, m). (i, plain_message model m)) ?ms"
  have llm: "convert_to_llm (map (live_from_json rd) (ctx_messages (build_session_context round es leaf))) =
      map snd ?ms"
    by (simp add: projection_messages build_session_context_def to_context_def
        build_session_projection_def projection_def proj_messages_concat)
  have snd_plain: "map snd ?plain = map (plain_message model) (map snd ?ms)"
    by (simp add: comp_def case_prod_unfold)
  have stored: "\<forall>m \<in> set (map snd ?ms). \<not> is_synthetic m" using assms unfolding llm .
  have "\<not> is_synthetic m" if m: "m \<in> snd ` set ?plain" for m
  proof -
    from m have "m \<in> set (map snd ?plain)" by (simp only: set_map)
    then have "m \<in> set (map (plain_message model) (map snd ?ms))" unfolding snd_plain .
    then obtain x where "x \<in> set (map snd ?ms)" "m = plain_message model x" by auto
    with stored show ?thesis using synthetic_plain by blast
  qed
  from scan_second_pass [of ?plain clock, OF this] show ?thesis
    unfolding llm transform_messages_plain build_unanswered_tool_calls_def unanswered_tool_calls_def
      fold_scan_plain snd_plain .
qed


definition sample_readers :: readers where
  "sample_readers =
     \<lparr>read_message = (\<lambda>m. if member_role m = ''assistant''
        then Some (Assistant (sample_assistant [CallBlock (sample_call ''t'')])) else None),
      read_bash = (\<lambda>_. None), read_custom = (\<lambda>_. None), read_branch = (\<lambda>_. None),
      read_compaction = (\<lambda>_. None)\<rparr>"

definition sample_assistant_entry :: session_entry where
  "sample_assistant_entry =
     \<lparr>entry_id = ''a'',
      raw = [(''type'', JString ''message''), (''id'', JString ''a''), (''parentId'', JNull),
             (''message'', JObject [(''role'', JString ''assistant'')])]\<rparr>"

lemma unanswered_are_closed_witness:
  "synthetic_pairs (transform_messages (\<lambda>_. 7)
     [Assistant (sample_assistant [CallBlock (sample_call ''t'')])] sample_target None) =
   [(''t'', ''read'')]"
proof -
  let ?c = "build_session_context (\<lambda>_. None) [sample_assistant_entry] LeafLast"
  have llm: "convert_to_llm (map (live_from_json sample_readers) (ctx_messages ?c)) =
      [Assistant (sample_assistant [CallBlock (sample_call ''t'')])]"
    by code_simp
  have "map call_pair (build_unanswered_tool_calls (\<lambda>_. None) sample_readers [sample_assistant_entry] LeafLast) =
      [(''t'', ''read'')]"
    by code_simp
  moreover have "\<forall>m \<in> set (convert_to_llm (map (live_from_json sample_readers) (ctx_messages ?c))). \<not> is_synthetic m"
    unfolding llm by (simp add: message_not_synthetic)
  ultimately show ?thesis
    using unanswered_are_closed [where rd = sample_readers and round = "\<lambda>_. None" and
        es = "[sample_assistant_entry]" and leaf = LeafLast and clock = "\<lambda>_. 7" and model = sample_target]
    unfolding llm by simp
qed

end
