(* ===== verification/Truncate.thy ===== *)
theory Truncate
  imports Utf8
begin

text \<open>
  Limits on tool output (\<open>tools/truncate.rs\<close> and \<open>tools/head.rs\<close>): the head, the tail and the
  middle of a text under limits of lines and bytes, and the collector that computes the head of
  lines that arrive one at a time in bounded memory. A \<open>usize\<close> is a natural number; a
  subtraction the code relies on not to underflow is shown not to.
\<close>

section \<open>Options and results\<close>

definition default_max_lines :: nat where "default_max_lines = 2000"

definition default_max_bytes :: nat where "default_max_bytes = 50 * 1024"

definition grep_max_line_length :: nat where "grep_max_line_length = 500"

record truncation_options =
  opt_lines :: nat
  opt_bytes :: nat

definition default_options :: truncation_options where
  "default_options = \<lparr>opt_lines = default_max_lines, opt_bytes = default_max_bytes\<rparr>"

datatype truncated_by = ByLines | ByBytes

record truncation_result =
  tr_content :: string
  tr_truncated :: bool
  tr_by :: "truncated_by option"
  tr_total_lines :: nat
  tr_total_bytes :: nat
  tr_output_lines :: nat
  tr_output_bytes :: nat
  tr_last_partial :: bool
  tr_first_exceeds :: bool
  tr_max_lines :: nat
  tr_max_bytes :: nat

abbreviation nl :: char where "nl \<equiv> CHR 0x0A"

definition content_lines :: "string \<Rightarrow> string list" where
  "content_lines s = split_terminator nl s"

definition format_size :: "nat \<Rightarrow> string" where
  "format_size bytes =
     (if bytes < 1024 then nat_text bytes @ ''B''
      else (let (unit, suffix) = (if bytes < 1024 * 1024 then (1024, ''KB'') else (1024 * 1024, ''MB''));
                tenths = (bytes * 10 + unit div 2) div unit
            in nat_text (tenths div 10) @ ''.'' @ nat_text (tenths mod 10) @ suffix))"

definition initial_result :: "string \<Rightarrow> truncation_options \<Rightarrow> truncation_result" where
  "initial_result s o' =
     (let total = length (content_lines s);
          truncated = (total > opt_lines o' \<or> length s > opt_bytes o')
      in \<lparr>tr_content = [], tr_truncated = truncated,
          tr_by = (if truncated then Some ByLines else None), tr_total_lines = total,
          tr_total_bytes = length s, tr_output_lines = 0, tr_output_bytes = 0,
          tr_last_partial = False, tr_first_exceeds = False, tr_max_lines = opt_lines o',
          tr_max_bytes = opt_bytes o'\<rparr>)"

definition unchanged :: "truncation_result \<Rightarrow> string \<Rightarrow> truncation_result" where
  "unchanged r s =
     r\<lparr>tr_content := s, tr_output_bytes := tr_total_bytes r, tr_output_lines := tr_total_lines r\<rparr>"

section \<open>The head\<close>

fun head_loop :: "nat \<Rightarrow> string list \<Rightarrow> truncation_result \<Rightarrow> truncation_result" where
  "head_loop max_bytes [] r = r"
| "head_loop max_bytes (l # ls) r =
     (let separator = (if 0 < tr_output_lines r then 1 else 0) in
      if length l + separator > max_bytes - tr_output_bytes r then r\<lparr>tr_by := Some ByBytes\<rparr>
      else (let content = tr_content r @ (if 0 < separator then [nl] else []) @ l
            in head_loop max_bytes ls
                 (r\<lparr>tr_content := content, tr_output_lines := tr_output_lines r + 1,
                    tr_output_bytes := length content\<rparr>)))"

definition truncate_head :: "string \<Rightarrow> truncation_options \<Rightarrow> truncation_result" where
  "truncate_head s o' =
     (let r = initial_result s o' in
      if \<not> tr_truncated r then unchanged r s
      else if (case content_lines s of [] \<Rightarrow> False | l # _ \<Rightarrow> length l > opt_bytes o')
        then r\<lparr>tr_by := Some ByBytes, tr_first_exceeds := True\<rparr>
      else head_loop (opt_bytes o') (take (opt_lines o') (content_lines s)) r)"

section \<open>Character boundaries\<close>

definition is_char_boundary :: "string \<Rightarrow> nat \<Rightarrow> bool" where
  "is_char_boundary s n \<longleftrightarrow> n = 0 \<or> n = length s \<or> n < length s \<and> \<not> is_cont (s ! n)"

fun floor_boundary :: "string \<Rightarrow> nat \<Rightarrow> nat" where
  "floor_boundary s 0 = 0"
| "floor_boundary s (Suc n) = (if is_char_boundary s (Suc n) then Suc n else floor_boundary s n)"

function ceil_boundary :: "string \<Rightarrow> nat \<Rightarrow> nat" where
  "ceil_boundary s n =
     (if length s \<le> n \<or> is_char_boundary s n then n else ceil_boundary s (n + 1))"
  by pat_completeness auto
termination by (relation "measure (\<lambda>(s, n). length s - n)") auto

declare ceil_boundary.simps [simp del]

section \<open>The tail\<close>

record tail_state =
  tail_kept :: "string list"
  tail_bytes :: nat
  tail_by :: "truncated_by option"
  tail_partial :: bool

text \<open>Over the lines last first; \<open>tail_kept\<close> is in the order they were pushed.\<close>

fun tail_loop :: "nat \<Rightarrow> string list \<Rightarrow> tail_state \<Rightarrow> tail_state" where
  "tail_loop max_bytes [] t = t"
| "tail_loop max_bytes (l # ls) t =
     (let separator = (if tail_kept t \<noteq> [] then 1 else 0) in
      if length l + separator > max_bytes - tail_bytes t
      then (let t = t\<lparr>tail_by := Some ByBytes\<rparr> in
            if tail_kept t = [] then
              (let start = ceil_boundary l (length l - max_bytes)
               in t\<lparr>tail_kept := tail_kept t @ [drop start l], tail_bytes := length l - start,
                    tail_partial := True\<rparr>)
            else t)
      else tail_loop max_bytes ls
             (t\<lparr>tail_kept := tail_kept t @ [l],
                tail_bytes := tail_bytes t + (separator + length l)\<rparr>))"

definition truncate_tail :: "string \<Rightarrow> truncation_options \<Rightarrow> truncation_result" where
  "truncate_tail s o' =
     (let r = initial_result s o' in
      if \<not> tr_truncated r then unchanged r s
      else (let t = tail_loop (opt_bytes o') (take (opt_lines o') (rev (content_lines s)))
                      \<lparr>tail_kept = [], tail_bytes = 0, tail_by = tr_by r, tail_partial = False\<rparr>
            in r\<lparr>tr_by := (if length (tail_kept t) \<ge> opt_lines o' \<and> tail_bytes t \<le> opt_bytes o'
                           then Some ByLines else tail_by t),
                 tr_output_lines := length (tail_kept t), tr_output_bytes := tail_bytes t,
                 tr_last_partial := tail_partial t, tr_content := join [nl] (rev (tail_kept t))\<rparr>))"

section \<open>One line and the middle\<close>

record line_truncation =
  line_text :: string
  line_truncated :: bool

text \<open>UTF-16: a character above the basic plane is two units; a cut inside one leaves a lone
  surrogate, which \<open>from_utf16_lossy\<close> replaces.\<close>

definition utf16_width :: "string \<Rightarrow> nat" where
  "utf16_width c = (if code_point c < 65536 then 1 else 2)"

definition replacement_char :: string where
  "replacement_char = [CHR 0xEF, CHR 0xBF, CHR 0xBD]"

fun utf16_take :: "nat \<Rightarrow> string list \<Rightarrow> string" where
  "utf16_take n [] = []"
| "utf16_take n (c # cs) =
     (if n = 0 then []
      else if utf16_width c \<le> n then c @ utf16_take (n - utf16_width c) cs
      else replacement_char)"

definition truncate_line :: "string \<Rightarrow> nat \<Rightarrow> line_truncation" where
  "truncate_line l max_chars =
     (if sum_list (map utf16_width (utf8_chars l)) \<le> max_chars
      then \<lparr>line_text = l, line_truncated = False\<rparr>
      else \<lparr>line_text = utf16_take max_chars (utf8_chars l) @ ''... [truncated]'',
            line_truncated = True\<rparr>)"

record middle_truncation =
  mid_content :: string
  mid_truncated :: bool
  mid_removed :: nat
  mid_total_bytes :: nat
  mid_total_lines :: nat

definition truncate_middle :: "string \<Rightarrow> nat \<Rightarrow> middle_truncation" where
  "truncate_middle s max_bytes =
     (let r = \<lparr>mid_content = s, mid_truncated = False, mid_removed = 0, mid_total_bytes = length s,
               mid_total_lines = length (content_lines s)\<rparr> in
      if length s \<le> max_bytes then r
      else (let head_end = floor_boundary s (max_bytes div 2);
                tail_start = ceil_boundary s (length s - (max_bytes - max_bytes div 2));
                removed = length (utf8_chars (drop head_end (take tail_start s)))
            in r\<lparr>mid_truncated := True, mid_removed := removed,
                 mid_content := take head_end s @ ellipsis @ nat_text removed @ '' chars truncated'' @
                   ellipsis @ drop tail_start s\<rparr>))"

section \<open>The collector\<close>

record collector =
  col_options :: truncation_options
  held_lines :: "string list"
  held_bytes :: nat
  holding :: bool
  line_count :: nat
  col_bytes :: nat
  last_empty :: bool

definition usize_max :: nat where "usize_max = 18446744073709551615"

definition usize_add :: "nat \<Rightarrow> nat \<Rightarrow> nat" where "usize_add a b = min (a + b) usize_max"

definition collector_new :: "truncation_options \<Rightarrow> collector" where
  "collector_new o' =
     \<lparr>col_options = o', held_lines = [], held_bytes = 0, holding = True, line_count = 0,
      col_bytes = 0, last_empty = False\<rparr>"

definition record_line :: "nat \<Rightarrow> collector \<Rightarrow> collector" where
  "record_line n c =
     c\<lparr>col_bytes := usize_add (if 0 < line_count c then usize_add (col_bytes c) 1 else col_bytes c) n,
       line_count := line_count c + 1, last_empty := (n = 0)\<rparr>"

definition hold_line :: "nat \<Rightarrow> string \<Rightarrow> collector \<Rightarrow> collector" where
  "hold_line n text c =
     (let bytes = usize_add (if held_lines c \<noteq> [] then usize_add (held_bytes c) 1 else held_bytes c) n;
          held = held_lines c @ [text]
      in c\<lparr>held_bytes := bytes, held_lines := held,
           holding := (if usize_add (opt_lines (col_options c)) 2 \<le> length held \<or>
                          opt_bytes (col_options c) < bytes then False else holding c)\<rparr>)"

definition push_line :: "string \<Rightarrow> collector \<Rightarrow> collector" where
  "push_line l c =
     (let c = record_line (length l) c in if holding c then hold_line (length l) l c else c)"

definition push_len :: "nat \<Rightarrow> collector \<Rightarrow> collector" where
  "push_len n c =
     (let c = record_line n c in
      if holding c
      then hold_line n (replicate (usize_add (opt_bytes (col_options c)) 1) CHR ''x'') c else c)"

definition finish_head :: "collector \<Rightarrow> truncation_result" where
  "finish_head c =
     (let total_lines = line_count c - (if last_empty c then 1 else 0);
          held = (if length (held_lines c) < line_count c then held_lines c @ [''x''] else held_lines c);
          r = truncate_head (join [nl] held) (col_options c);
          truncated = (total_lines > opt_lines (col_options c) \<or> col_bytes c > opt_bytes (col_options c));
          by = (if truncated \<and> \<not> tr_truncated r then Some ByLines else tr_by r)
      in r\<lparr>tr_total_lines := total_lines, tr_total_bytes := col_bytes c, tr_truncated := truncated,
           tr_by := (if truncated then by else None)\<rparr>)"

text \<open>The collector's contract with its callers: a line's text when it is wanted and can be kept,
  its length otherwise.\<close>

definition wants_text :: "collector \<Rightarrow> bool" where "wants_text c = holding c"

definition max_line_bytes :: "collector \<Rightarrow> nat" where "max_line_bytes c = opt_bytes (col_options c)"

definition feed_line :: "string \<Rightarrow> collector \<Rightarrow> collector" where
  "feed_line l c =
     (if wants_text c \<and> length l \<le> max_line_bytes c then push_line l c
      else push_len (length l) c)"

definition collect_head :: "string list \<Rightarrow> truncation_options \<Rightarrow> truncation_result" where
  "collect_head ls o' = finish_head (fold feed_line ls (collector_new o'))"

section \<open>Lines\<close>

lemma join_snoc: "join d (ks @ [l]) = (if ks = [] then l else join d ks @ d @ l)"
proof (induction ks)
  case (Cons k ks)
  then show ?case by (cases ks) simp_all
qed simp

lemma join_snoc_length:
  "length (join [d] (ks @ [l])) = (if ks = [] then length l else length (join [d] ks) + 1 + length l)"
  by (simp add: join_snoc)

lemma join_prefix_length: "length (join [d] ks) \<le> length (join [d] (ks @ ls))"
proof (induction ls rule: rev_induct)
  case (snoc l ls)
  then show ?case using join_snoc_length [of d "ks @ ls" l] by (simp split: if_splits)
qed simp

lemma join_count: "length ls \<le> length (join [d] ls) + 1"
proof (induction ls rule: rev_induct)
  case (snoc l ls)
  then show ?case by (simp add: join_snoc_length)
qed simp

lemma content_lines_join:
  assumes "\<And>l. l \<in> set ls \<Longrightarrow> nl \<notin> set l"
  shows "content_lines (join [nl] ls) = (if ls \<noteq> [] \<and> last ls = [] then butlast ls else ls)"
proof (cases "ls = []")
  case False
  with assms have "split_on nl (join [nl] ls) = ls" by (intro split_on_join)
  with False show ?thesis by (simp add: content_lines_def split_terminator_def Let_def)
qed (simp add: content_lines_def split_terminator_def)

section \<open>The head keeps a maximal prefix of lines\<close>

definition head_at :: "nat \<Rightarrow> string list \<Rightarrow> truncation_result \<Rightarrow> bool" where
  "head_at max_bytes ks r \<longleftrightarrow>
     tr_output_lines r = length ks \<and> tr_content r = join [nl] ks \<and>
     tr_output_bytes r = length (join [nl] ks) \<and> length (join [nl] ks) \<le> max_bytes"

lemma head_step_over:
  "head_at mb ks r \<Longrightarrow>
     length l + (if 0 < tr_output_lines r then 1 else 0) > mb - tr_output_bytes r \<longleftrightarrow>
     mb < length (join [nl] (ks @ [l]))"
  by (auto simp: head_at_def join_snoc_length)

lemma head_loop_over:
  "head_at mb ks r \<Longrightarrow> mb < length (join [nl] (ks @ [l])) \<Longrightarrow>
     head_loop mb (l # ls) r = r\<lparr>tr_by := Some ByBytes\<rparr>"
  using head_step_over [of mb ks r l] by (simp add: Let_def)

lemma head_loop_fits:
  assumes "head_at mb ks r" and "length (join [nl] (ks @ [l])) \<le> mb"
  obtains r' where "head_loop mb (l # ls) r = head_loop mb ls r'" "head_at mb (ks @ [l]) r'"
    "tr_truncated r' = tr_truncated r" "tr_by r' = tr_by r" "tr_total_lines r' = tr_total_lines r"
    "tr_total_bytes r' = tr_total_bytes r" "tr_max_lines r' = tr_max_lines r"
    "tr_max_bytes r' = tr_max_bytes r" "tr_last_partial r' = tr_last_partial r"
    "tr_first_exceeds r' = tr_first_exceeds r"
proof -
  let ?r = "r\<lparr>tr_content := join [nl] (ks @ [l]), tr_output_lines := tr_output_lines r + 1,
              tr_output_bytes := length (join [nl] (ks @ [l]))\<rparr>"
  have "head_at mb (ks @ [l]) ?r" using assms by (simp add: head_at_def)
  moreover have "head_loop mb (l # ls) r = head_loop mb ls ?r"
    using head_step_over [OF assms(1), of l] assms
    by (auto simp: head_at_def join_snoc Let_def)
  ultimately show thesis using that [of ?r] by simp
qed

lemma head_loop_spec:
  "head_at mb ks r \<Longrightarrow> \<exists>n \<le> length ls.
     head_at mb (ks @ take n ls) (head_loop mb ls r) \<and>
     (n < length ls \<longrightarrow> mb < length (join [nl] (ks @ take (Suc n) ls))) \<and>
     tr_truncated (head_loop mb ls r) = tr_truncated r \<and>
     tr_by (head_loop mb ls r) = (if n < length ls then Some ByBytes else tr_by r) \<and>
     tr_first_exceeds (head_loop mb ls r) = tr_first_exceeds r"
proof (induction ls arbitrary: ks r)
  case (Cons l ls)
  show ?case
  proof (cases "mb < length (join [nl] (ks @ [l]))")
    case True
    from head_loop_over [OF Cons.prems True] Cons.prems True show ?thesis
      by (intro exI [of _ 0]) (simp add: head_at_def)
  next
    case False
    then have fits: "length (join [nl] (ks @ [l])) \<le> mb" by simp
    obtain r' where r': "head_loop mb (l # ls) r = head_loop mb ls r'" "head_at mb (ks @ [l]) r'"
      "tr_truncated r' = tr_truncated r" "tr_by r' = tr_by r" "tr_first_exceeds r' = tr_first_exceeds r"
      by (rule head_loop_fits [OF Cons.prems fits, of ls])
    from Cons.IH [OF r'(2)] obtain n where "n \<le> length ls"
      "head_at mb (ks @ take (Suc n) (l # ls)) (head_loop mb ls r')"
      "n < length ls \<longrightarrow> mb < length (join [nl] (ks @ take (Suc (Suc n)) (l # ls)))"
      "tr_truncated (head_loop mb ls r') = tr_truncated r'"
      "tr_by (head_loop mb ls r') = (if n < length ls then Some ByBytes else tr_by r')"
      "tr_first_exceeds (head_loop mb ls r') = tr_first_exceeds r'"
      by auto
    then show ?thesis unfolding r'(1) using r'(3-5) by (intro exI [of _ "Suc n"]) auto
  qed
qed (intro exI [of _ 0], simp)

lemma head_loop_same:
  assumes "head_at mb ks r" and "mb < length (join [nl] (ks @ p @ [k]))"
    and "mb < length (join [nl] (ks @ p @ [k']))"
  shows "head_loop mb (p @ k # q) r = head_loop mb (p @ k' # q') r"
  using assms
proof (induction p arbitrary: ks r)
  case Nil
  then show ?case by (simp add: head_loop_over del: head_loop.simps)
next
  case (Cons l p)
  show ?case
  proof (cases "mb < length (join [nl] (ks @ [l]))")
    case True
    with Cons.prems(1) show ?thesis by (simp add: head_loop_over del: head_loop.simps)
  next
    case False
    let ?r = "r\<lparr>tr_content := join [nl] (ks @ [l]), tr_output_lines := tr_output_lines r + 1,
              tr_output_bytes := length (join [nl] (ks @ [l]))\<rparr>"
    have at: "head_at mb (ks @ [l]) ?r" using False Cons.prems(1) by (simp add: head_at_def)
    have step: "head_loop mb (l # ls) r = head_loop mb ls ?r" for ls
      using head_step_over [OF Cons.prems(1), of l] Cons.prems(1) False
      by (auto simp: head_at_def join_snoc Let_def)
    show ?thesis
      using Cons.IH [OF at] Cons.prems(2,3) by (simp only: step append_Cons append_assoc append_Nil)
  qed
qed


definition with_totals :: "nat \<Rightarrow> nat \<Rightarrow> truncation_result \<Rightarrow> truncation_result" where
  "with_totals a b r = r\<lparr>tr_total_lines := a, tr_total_bytes := b\<rparr>"

lemma head_loop_totals:
  "with_totals a b (head_loop mb ls r) = head_loop mb ls (with_totals a b r)"
proof (induction ls arbitrary: r)
  case (Cons l ls)
  then show ?case by (cases r) (simp add: with_totals_def Let_def)
qed (simp add: with_totals_def)

lemma initial_totals:
  assumes "tr_truncated (initial_result s x)" and "tr_truncated (initial_result t x)"
  shows "with_totals a b (initial_result s x) = with_totals a b (initial_result t x)"
  using assms by (simp add: initial_result_def with_totals_def Let_def)

lemma head_at_initial: "head_at (opt_bytes x) [] (initial_result s x)"
  by (simp add: head_at_def initial_result_def Let_def)

definition first_exceeds :: "nat \<Rightarrow> string list \<Rightarrow> bool" where
  "first_exceeds mb ls \<longleftrightarrow> (case ls of [] \<Rightarrow> False | l # _ \<Rightarrow> length l > mb)"

lemma truncate_head_cong:
  assumes "tr_truncated (initial_result s x)" and "tr_truncated (initial_result t x)"
    and "first_exceeds (opt_bytes x) (content_lines s) = first_exceeds (opt_bytes x) (content_lines t)"
    and "head_loop (opt_bytes x) (take (opt_lines x) (content_lines s)) (with_totals a b (initial_result t x)) =
         head_loop (opt_bytes x) (take (opt_lines x) (content_lines t)) (with_totals a b (initial_result t x))"
  shows "with_totals a b (truncate_head s x) = with_totals a b (truncate_head t x)"
proof -
  have head: "truncate_head u x = (if first_exceeds (opt_bytes x) (content_lines u)
      then (initial_result u x)\<lparr>tr_by := Some ByBytes, tr_first_exceeds := True\<rparr>
      else head_loop (opt_bytes x) (take (opt_lines x) (content_lines u)) (initial_result u x))"
    if "tr_truncated (initial_result u x)" for u
    using that by (simp add: truncate_head_def first_exceeds_def Let_def)
  show ?thesis
  proof (cases "first_exceeds (opt_bytes x) (content_lines t)")
    case True
    then show ?thesis
      using assms(3) initial_totals [OF assms(1,2), of a b]
      by (cases "initial_result s x"; cases "initial_result t x")
        (simp add: head [OF assms(1)] head [OF assms(2)] with_totals_def)
  next
    case False
    then show ?thesis
      using assms(3,4) initial_totals [OF assms(1,2), of a b]
      by (simp add: head [OF assms(1)] head [OF assms(2)] head_loop_totals)
  qed
qed

text \<open>Two contents whose lines agree up to a line that is over the limit in both, or on more
  lines than the limit allows.\<close>

definition alike :: "truncation_options \<Rightarrow> string list \<Rightarrow> string list \<Rightarrow> bool" where
  "alike x us vs \<longleftrightarrow> us = vs \<or>
     (\<exists>p k k' q q'. us = p @ k # q \<and> vs = p @ k' # q' \<and>
        (opt_lines x < length p \<or>
         opt_bytes x < length (join [nl] (p @ [k])) \<and> opt_bytes x < length (join [nl] (p @ [k']))))"

lemma alike_first: "alike x us vs \<Longrightarrow> first_exceeds (opt_bytes x) us = first_exceeds (opt_bytes x) vs"
  by (auto simp: alike_def first_exceeds_def split: list.split)
    (auto simp: append_eq_Cons_conv Cons_eq_append_conv)

lemma alike_loop:
  assumes "alike x us vs" and "head_at (opt_bytes x) [] r"
  shows "head_loop (opt_bytes x) (take (opt_lines x) us) r = head_loop (opt_bytes x) (take (opt_lines x) vs) r"
proof (cases "us = vs")
  case False
  with assms(1) obtain p k k' q q' where *: "us = p @ k # q" "vs = p @ k' # q'"
    "opt_lines x < length p \<or> opt_bytes x < length (join [nl] (p @ [k])) \<and>
       opt_bytes x < length (join [nl] (p @ [k']))"
    unfolding alike_def by blast
  show ?thesis
  proof (cases "opt_lines x \<le> length p")
    case True
    then show ?thesis by (simp add: *)
  next
    case False
    then obtain n where "opt_lines x - length p = Suc n" by (cases "opt_lines x - length p") auto
    with False * head_loop_same [OF assms(2), of p k k' "take n q" "take n q'"] show ?thesis by simp
  qed
qed simp

lemma truncate_head_alike:
  assumes "tr_truncated (initial_result s x)" and "tr_truncated (initial_result t x)"
    and "alike x (content_lines s) (content_lines t)"
  shows "with_totals a b (truncate_head s x) = with_totals a b (truncate_head t x)"
proof (rule truncate_head_cong [OF assms(1,2) alike_first [OF assms(3)]])
  have "head_at (opt_bytes x) [] (with_totals a b (initial_result t x))"
    using head_at_initial [of x t] by (simp add: head_at_def with_totals_def)
  with assms(3) show "head_loop (opt_bytes x) (take (opt_lines x) (content_lines s))
      (with_totals a b (initial_result t x)) =
    head_loop (opt_bytes x) (take (opt_lines x) (content_lines t)) (with_totals a b (initial_result t x))"
    by (rule alike_loop)
qed

section \<open>The collector holds enough\<close>

definition over :: "truncation_options \<Rightarrow> string list \<Rightarrow> string \<Rightarrow> string \<Rightarrow> bool" where
  "over x p k k' \<longleftrightarrow>
     k' = k \<and> opt_lines x < length p \<or>
     opt_bytes x < length (join [nl] (p @ [k])) \<and> opt_bytes x < length (join [nl] (p @ [k'])) \<and>
       (k' = k \<or> k \<noteq> [] \<and> k' \<noteq> [] \<and> nl \<notin> set k')"

definition collected :: "truncation_options \<Rightarrow> string list \<Rightarrow> collector \<Rightarrow> bool" where
  "collected x ps c \<longleftrightarrow>
     col_options c = x \<and> col_bytes c = length (join [nl] ps) \<and> line_count c = length ps \<and>
     last_empty c = (ps \<noteq> [] \<and> last ps = []) \<and>
     (if holding c
      then held_lines c = ps \<and> held_bytes c = length (join [nl] ps) \<and>
        length (join [nl] ps) \<le> opt_bytes x
      else \<exists>p k k' rest. ps = p @ k # rest \<and> held_lines c = p @ [k'] \<and> over x p k k')"

lemma record_line_collected:
  assumes "collected x ps c" and "length (join [nl] (ps @ [l])) \<le> usize_max"
  shows "col_bytes (record_line (length l) c) = length (join [nl] (ps @ [l]))"
    and "line_count (record_line (length l) c) = length (ps @ [l])"
    and "last_empty (record_line (length l) c) = (l = [])"
  using assms by (auto simp: collected_def record_line_def usize_add_def join_snoc_length split: if_splits)


lemma feed_line_collected:
  assumes "collected x ps c" and "nl \<notin> set l"
    and fits: "length (join [nl] (ps @ [l])) \<le> usize_max" and few: "length ps + 1 < usize_max"
  shows "collected x (ps @ [l]) (feed_line l c)"
proof (cases "holding c")
  case False
  from assms(1) False obtain p k k' rest where "ps = p @ k # rest" "held_lines c = p @ [k']" "over x p k k'"
    unfolding collected_def by auto
  then have "\<exists>p k k' rest'. ps @ [l] = p @ k # rest' \<and> held_lines c = p @ [k'] \<and> over x p k k'"
    by (intro exI [of _ p] exI [of _ k] exI [of _ k'] exI [of _ "rest @ [l]"]) simp
  with False record_line_collected [OF assms(1) fits] assms(1) show ?thesis
    by (simp add: feed_line_def wants_text_def push_len_def Let_def collected_def) (simp add: record_line_def)
next
  case True
  let ?text = "if length l \<le> opt_bytes x then l else replicate (usize_add (opt_bytes x) 1) CHR ''x''"
  let ?r = "record_line (length l) c"
  from True assms(1) have c: "col_options c = x" "held_lines c = ps"
    "held_bytes c = length (join [nl] ps)" "length (join [nl] ps) \<le> opt_bytes x"
    by (simp_all add: collected_def)
  have r: "col_options ?r = x" "held_lines ?r = ps" "held_bytes ?r = length (join [nl] ps)" "holding ?r"
    using c True by (simp_all add: record_line_def)
  have feed: "feed_line l c = hold_line (length l) ?text ?r"
    using True r by (simp add: feed_line_def wants_text_def max_line_bytes_def push_line_def push_len_def Let_def c)
  have bytes: "usize_add (if ps \<noteq> [] then usize_add (length (join [nl] ps)) 1
      else length (join [nl] ps)) (length l) = length (join [nl] (ps @ [l]))"
    using fits by (auto simp: usize_add_def join_snoc_length)
  define stop where "stop \<longleftrightarrow> usize_add (opt_lines x) 2 \<le> length ps + 1 \<or>
      opt_bytes x < length (join [nl] (ps @ [l]))"
  have held: "hold_line (length l) ?text ?r =
      ?r\<lparr>held_bytes := length (join [nl] (ps @ [l])), held_lines := ps @ [?text],
        holding := (if usize_add (opt_lines x) 2 \<le> length (ps @ [?text]) \<or>
                       opt_bytes x < length (join [nl] (ps @ [l])) then False else True)\<rparr>"
    unfolding hold_line_def Let_def r bytes by (simp only: r(4))
  have hold: "held_lines (feed_line l c) = ps @ [?text]" "holding (feed_line l c) = (\<not> stop)"
    "held_bytes (feed_line l c) = length (join [nl] (ps @ [l]))" "col_options (feed_line l c) = col_options ?r"
    "col_bytes (feed_line l c) = col_bytes ?r" "line_count (feed_line l c) = line_count ?r"
    "last_empty (feed_line l c) = last_empty ?r"
    by (simp_all add: feed held stop_def)
  have long: "opt_bytes x < length l \<Longrightarrow> opt_bytes x < length (join [nl] (ps @ [l]))"
    by (simp add: join_snoc_length)
  have over: "over x ps l ?text" if stop
  proof (cases "opt_bytes x < length (join [nl] (ps @ [l]))")
    case True
    have "length l \<le> usize_max" using fits by (simp add: join_snoc_length split: if_splits)
    then have "\<not> length l \<le> opt_bytes x \<Longrightarrow> usize_add (opt_bytes x) 1 = opt_bytes x + 1"
      by (simp add: usize_add_def)
    with True show ?thesis by (auto simp: over_def join_snoc_length)
  next
    case False
    with that few have "opt_lines x < length ps"
      by (auto simp: stop_def usize_add_def split: if_splits)
    moreover have "?text = l" using False long by auto
    ultimately show ?thesis by (simp add: over_def)
  qed
  have kept: "\<not> stop \<Longrightarrow> ?text = l" using long by (auto simp: stop_def)
  show ?thesis
    unfolding collected_def hold r record_line_collected [OF assms(1) fits]
    using over kept by (cases stop) (auto simp: stop_def)
qed

lemma fold_feed_collected:
  assumes "\<And>l. l \<in> set ls \<Longrightarrow> nl \<notin> set l" and "length (join [nl] (ps @ ls)) + 1 < usize_max"
    and "collected x ps c"
  shows "collected x (ps @ ls) (fold feed_line ls c)"
  using assms
proof (induction ls arbitrary: ps c)
  case (Cons l ls)
  have "length (join [nl] (ps @ [l])) + 1 < usize_max"
    using Cons.prems(2) join_prefix_length [of nl "ps @ [l]" ls] by simp
  moreover from this have "length ps + 1 < usize_max" using join_count [of "ps @ [l]" nl] by simp
  ultimately have "collected x (ps @ [l]) (feed_line l c)"
    using Cons.prems by (intro feed_line_collected) simp_all
  with Cons.IH [of "ps @ [l]" "feed_line l c"] Cons.prems show ?case by simp
qed simp

lemma collector_new_collected: "collected x [] (collector_new x)"
  by (simp add: collected_def collector_new_def)

section \<open>The collector computes the head\<close>

lemma truncate_head_facts:
  "with_totals (length (content_lines s)) (length s) (truncate_head s x) = truncate_head s x"
  "tr_truncated (truncate_head s x) = tr_truncated (initial_result s x)"
  "\<not> tr_truncated (initial_result s x) \<Longrightarrow> tr_by (truncate_head s x) = None"
proof -
  let ?i = "initial_result s x"
  have i: "with_totals (length (content_lines s)) (length s) ?i = ?i"
    by (simp add: with_totals_def initial_result_def Let_def)
  have e: "with_totals a b (r\<lparr>tr_by := u, tr_first_exceeds := v\<rparr>) =
      (with_totals a b r)\<lparr>tr_by := u, tr_first_exceeds := v\<rparr>" for a b r u v
    by (cases r) (simp add: with_totals_def)
  show "with_totals (length (content_lines s)) (length s) (truncate_head s x) = truncate_head s x"
    unfolding truncate_head_def Let_def
    by (simp add: e head_loop_totals i) (simp add: with_totals_def unchanged_def initial_result_def Let_def)
  from head_loop_spec [OF head_at_initial [of x s], of "take (opt_lines x) (content_lines s)"]
  show "tr_truncated (truncate_head s x) = tr_truncated ?i"
    unfolding truncate_head_def Let_def by (auto simp: unchanged_def)
  show "\<not> tr_truncated ?i \<Longrightarrow> tr_by (truncate_head s x) = None"
    by (simp add: truncate_head_def Let_def unchanged_def) (simp add: initial_result_def Let_def)
qed

lemma finish_head_same:
  assumes "collected x ls c" and "\<And>l. l \<in> set ls \<Longrightarrow> nl \<notin> set l"
    and held: "held = (if length (held_lines c) < length ls then held_lines c @ [''x''] else held_lines c)"
    and "tr_truncated (initial_result (join [nl] held) x) = tr_truncated (initial_result (join [nl] ls) x)"
    and "with_totals (length (content_lines (join [nl] ls))) (length (join [nl] ls))
           (truncate_head (join [nl] held) x) = truncate_head (join [nl] ls) x"
  shows "finish_head c = truncate_head (join [nl] ls) x"
proof -
  let ?s = "join [nl] ls" and ?r = "truncate_head (join [nl] held) x"
  let ?t = "tr_truncated (initial_result ?s x)"
  have lines: "line_count c - (if last_empty c then 1 else 0) = length (content_lines ?s)"
    using assms(1) content_lines_join [OF assms(2)] by (auto simp: collected_def)
  have c: "col_options c = x" "line_count c = length ls" "col_bytes c = length ?s"
    using assms(1) by (simp_all add: collected_def)
  have t: "(length (content_lines ?s) > opt_lines x \<or> length ?s > opt_bytes x) = ?t"
    by (simp add: initial_result_def Let_def)
  have trby: "tr_truncated ?r = ?t" "\<not> ?t \<Longrightarrow> tr_by ?r = None"
    using truncate_head_facts(2,3) [of "join [nl] held" x] assms(4) by auto
  have "finish_head c = (with_totals (length (content_lines ?s)) (length ?s) ?r)
      \<lparr>tr_truncated := ?t, tr_by := (if ?t then tr_by ?r else None)\<rparr>"
    unfolding finish_head_def Let_def lines unfolding c held [symmetric] t
    using trby by (simp add: with_totals_def)
  also have "\<dots> = with_totals (length (content_lines ?s)) (length ?s) ?r"
    using trby by (cases ?r) (auto simp: with_totals_def)
  finally show ?thesis unfolding assms(5) .
qed


lemma collected_stopped:
  "collected x ls c \<Longrightarrow> \<not> holding c \<Longrightarrow>
     \<exists>p k k' rest. ls = p @ k # rest \<and> held_lines c = p @ [k'] \<and> over x p k k'"
  by (simp add: collected_def)

lemma over_alike:
  assumes "over x p k k'" and "\<And>l. l \<in> set (p @ k # rest) \<Longrightarrow> nl \<notin> set l"
  shows "tr_truncated (initial_result (join [nl] (p @ k # rest)) x)"
    and "tr_truncated (initial_result (join [nl] (if rest = [] then p @ [k'] else p @ [k', ''x''])) x)"
    and "alike x (content_lines (join [nl] (if rest = [] then p @ [k'] else p @ [k', ''x''])))
           (content_lines (join [nl] (p @ k # rest)))"
proof -
  let ?ls = "p @ k # rest" and ?held = "if rest = [] then p @ [k'] else p @ [k', ''x'']"
  have fresh: "nl \<notin> set l" if "l \<in> set ?held" for l
    using that assms by (auto simp: over_def split: if_splits)
  have empty: "k' = [] \<longleftrightarrow> k = []" using assms(1) by (auto simp: over_def)
  let ?rest = "if rest \<noteq> [] \<and> last rest = [] then butlast rest else rest"
  have s: "content_lines (join [nl] ?ls) = (if rest = [] \<and> k = [] then p else p @ k # ?rest)"
    using content_lines_join [of ?ls, OF assms(2)] by (auto simp: butlast_append)
  have t: "content_lines (join [nl] ?held) =
      (if rest = [] \<and> k = [] then p else p @ k' # (if rest = [] then [] else [''x'']))"
    using content_lines_join [of ?held, OF fresh] empty by (auto simp: butlast_append)
  have size: "length (join [nl] (p @ [k])) \<le> length (join [nl] ?ls)"
    "length (join [nl] (p @ [k'])) \<le> length (join [nl] ?held)"
    using join_prefix_length [of nl "p @ [k]" rest] join_prefix_length [of nl "p @ [k']" "[''x'']"]
    by simp_all
  show "tr_truncated (initial_result (join [nl] ?ls) x)"
    using assms(1) size(1) unfolding initial_result_def Let_def s over_def by auto
  show "tr_truncated (initial_result (join [nl] ?held) x)"
    using assms(1) size(2) unfolding initial_result_def Let_def t over_def by auto
  show "alike x (content_lines (join [nl] ?held)) (content_lines (join [nl] ?ls))"
  proof (cases "rest = [] \<and> k = []")
    case False
    from assms(1) have "opt_lines x < length p \<or>
        opt_bytes x < length (join [nl] (p @ [k'])) \<and> opt_bytes x < length (join [nl] (p @ [k]))"
      by (auto simp: over_def)
    with False show ?thesis unfolding s t alike_def by auto
  next
    case True
    show ?thesis
      unfolding alike_def s [unfolded if_P [OF True]] t [unfolded if_P [OF True]] by (rule disjI1) (rule refl)
  qed
qed

text \<open>The bounded collector is exact: over any lines, whose texts together with their line
  breaks a \<open>usize\<close> can count, feeding them one at a time and finishing gives the very result of
  \<open>truncate_head\<close> on the whole text, with its totals, its flags and its content, although only a
  bounded prefix was held.\<close>

theorem collect_head_exact:
  assumes "\<And>l. l \<in> set ls \<Longrightarrow> nl \<notin> set l" and "length (join [nl] ls) + 1 < usize_max"
  shows "collect_head ls x = truncate_head (join [nl] ls) x"
proof -
  define col where "col = fold feed_line ls (collector_new x)"
  have c: "collected x ls col"
    unfolding col_def using fold_feed_collected [of ls "[]" x, OF assms(1) _ collector_new_collected] assms(2) by simp
  have "finish_head col = truncate_head (join [nl] ls) x"
  proof (cases "holding col")
    case True
    with c have "held_lines col = ls" by (simp add: collected_def)
    then show ?thesis
      by (intro finish_head_same [OF c assms(1) refl]) (simp_all add: truncate_head_facts)
  next
    case False
    obtain p k k' rest where *: "ls = p @ k # rest" "held_lines col = p @ [k']" "over x p k k'"
      using collected_stopped [OF c False] by blast
    have held: "(if length (held_lines col) < length ls then held_lines col @ [''x''] else held_lines col) =
        (if rest = [] then p @ [k'] else p @ [k', ''x''])"
      by (simp add: *)
    note alike = over_alike [OF *(3), of rest, folded *(1), OF assms(1)]
    show ?thesis
    proof (rule finish_head_same [OF c assms(1) held [symmetric]])
      show "with_totals (length (content_lines (join [nl] ls))) (length (join [nl] ls))
          (truncate_head (join [nl] (if rest = [] then p @ [k'] else p @ [k', ''x''])) x) =
        truncate_head (join [nl] ls) x"
        using truncate_head_alike [OF alike(2,1,3)] truncate_head_facts(1) [of "join [nl] ls" x] by simp
    qed (use alike in simp_all)
  qed
  then show ?thesis by (simp add: collect_head_def col_def)
qed

lemma collect_head_exact_witness:
  "collect_head [''one'', ''two'', ''three''] \<lparr>opt_lines = 1, opt_bytes = 5\<rparr> =
     truncate_head (join [nl] [''one'', ''two'', ''three'']) \<lparr>opt_lines = 1, opt_bytes = 5\<rparr>"
  by (rule collect_head_exact) (auto simp: usize_max_def)

text \<open>The head is the longest run of whole first lines within both limits: a text within them is
  returned as it is; otherwise the content is the first lines joined, no more lines and bytes
  than allowed, and one more line would break a limit; and an overlong first line leaves the
  content empty.\<close>

theorem truncate_head_longest:
  "\<exists>n. (let r = truncate_head s x; ls = content_lines s in
     tr_truncated r = (length ls > opt_lines x \<or> length s > opt_bytes x) \<and>
     tr_content r = (if tr_truncated r then join [nl] (take n ls) else s) \<and>
     tr_output_lines r = (if tr_truncated r then n else length ls) \<and>
     tr_output_bytes r = length (tr_content r) \<and> length (tr_content r) \<le> opt_bytes x \<and>
     n \<le> length ls \<and> n \<le> opt_lines x \<and>
     (n = length ls \<or> n = opt_lines x \<or> opt_bytes x < length (join [nl] (take (Suc n) ls))))"
proof -
  let ?i = "initial_result s x" and ?ls = "content_lines s"
  have i: "tr_truncated ?i = (length ?ls > opt_lines x \<or> length s > opt_bytes x)"
    by (simp add: initial_result_def Let_def)
  consider "\<not> tr_truncated ?i" | "tr_truncated ?i" "first_exceeds (opt_bytes x) ?ls"
    | "tr_truncated ?i" "\<not> first_exceeds (opt_bytes x) ?ls" by blast
  then show ?thesis
  proof cases
    case 1
    then have "truncate_head s x = unchanged ?i s" by (simp add: truncate_head_def Let_def)
    with 1 i show ?thesis
      by (intro exI [of _ "length ?ls"]) (auto simp: unchanged_def initial_result_def Let_def)
  next
    case 2
    then obtain l ls where ls: "?ls = l # ls" "opt_bytes x < length l"
      by (auto simp: first_exceeds_def split: list.splits)
    have "truncate_head s x = ?i\<lparr>tr_by := Some ByBytes, tr_first_exceeds := True\<rparr>"
      using 2 by (simp add: truncate_head_def first_exceeds_def Let_def)
    with 2 i ls show ?thesis
      by (intro exI [of _ 0]) (auto simp: initial_result_def Let_def)
  next
    case 3
    let ?take = "take (opt_lines x) ?ls"
    have head: "truncate_head s x = head_loop (opt_bytes x) ?take ?i"
      using 3 by (simp add: truncate_head_def first_exceeds_def Let_def)
    note spec = head_loop_spec [OF head_at_initial [of x s], of ?take, folded head, unfolded append_Nil]
    from spec obtain n where n: "n \<le> length ?take"
      "head_at (opt_bytes x) (take n ?take) (truncate_head s x)"
      "n < length ?take \<longrightarrow> opt_bytes x < length (join [nl] (take (Suc n) ?take))"
      "tr_truncated (truncate_head s x) = tr_truncated ?i"
      by blast
    then have "n \<le> opt_lines x" "n \<le> length ?ls" by simp_all
    then have "take n ?take = take n ?ls" "n < length ?take \<Longrightarrow> take (Suc n) ?take = take (Suc n) ?ls"
      by (simp_all add: min_absorb1)
    with n i 3(1) show ?thesis
      by (intro exI [of _ n]) (auto simp: head_at_def Let_def min_def split: if_splits)
  qed
qed


section \<open>Cuts at character boundaries\<close>

lemma second_ok_cont: "second_ok b c \<Longrightarrow> is_cont c"
  by (auto simp: second_ok_def is_cont_def Let_def split: if_splits)

lemma utf8_next_cont:
  assumes "utf8_next bs = Scalar k" and "0 < i" and "i < k" shows "is_cont (bs ! i)"
proof -
  have "i = 1 \<or> i = 2 \<or> i = 3" and "k \<le> 4"
    using assms by (cases bs; auto split: if_splits list.splits)+
  with assms show ?thesis
    by (cases bs) (auto split: if_splits list.splits dest: second_ok_cont)
qed

lemma utf8_next_width: "utf8_next bs = Scalar k \<Longrightarrow> k \<le> 4"
  by (cases bs) (auto split: if_splits list.splits)

lemma utf8_next_take: "utf8_next bs = Scalar k \<Longrightarrow> utf8_next (take k bs) = Scalar k"
  by (cases bs; cases k) (auto split: if_splits list.splits)

lemma valid_utf8_Scalar: "utf8_next bs = Scalar k \<Longrightarrow> valid_utf8 bs = valid_utf8 (drop k bs)"
  by (simp add: valid_utf8_def from_utf8_Scalar)

lemma valid_utf8_induct [consumes 1, case_names Nil Scalar]:
  assumes "valid_utf8 s" and "P []"
    and "\<And>s k. utf8_next s = Scalar k \<Longrightarrow> valid_utf8 (drop k s) \<Longrightarrow> 0 < k \<Longrightarrow> k \<le> length s \<Longrightarrow>
           P (drop k s) \<Longrightarrow> P s"
  shows "P s"
  using assms(1)
proof (induction s rule: length_induct)
  case (1 s)
  show ?case
  proof (cases "s = []")
    case False
    with 1 obtain k where "utf8_next s = Scalar k" "valid_utf8 (drop k s)" "0 < k" "k \<le> length s"
      by (blast elim: valid_utf8_cases)
    with 1 assms(3) show ?thesis by simp
  qed (use assms(2) in simp)
qed

lemma valid_utf8_append: "valid_utf8 a \<Longrightarrow> valid_utf8 b \<Longrightarrow> valid_utf8 (a @ b)"
proof (induction a rule: valid_utf8_induct)
  case (Scalar s k)
  then have "utf8_next (s @ b) = Scalar k" by (simp add: utf8_next_append)
  with Scalar show ?case by (simp add: valid_utf8_Scalar)
qed simp

lemma char_boundary_shift:
  assumes "utf8_next s = Scalar k" and "k \<le> length s" and "is_char_boundary s n"
  shows "n = 0 \<or> k \<le> n \<and> is_char_boundary (drop k s) (n - k)"
proof (cases "n < k")
  case True
  show ?thesis
  proof (cases "n = 0")
    case False
    with True utf8_next_cont [OF assms(1), of n] have "is_cont (s ! n)" by simp
    with False True assms show ?thesis by (simp add: is_char_boundary_def)
  qed simp
next
  case False
  with assms show ?thesis by (auto simp: is_char_boundary_def)
qed

lemma char_boundary_split:
  "valid_utf8 s \<Longrightarrow> is_char_boundary s n \<Longrightarrow> valid_utf8 (take n s) \<and> valid_utf8 (drop n s)"
proof (induction s arbitrary: n rule: valid_utf8_induct)
  case (Scalar s k)
  from char_boundary_shift [OF Scalar(1,4) Scalar.prems] show ?case
  proof
    assume "n = 0"
    then show ?thesis using Scalar by (simp add: valid_utf8_Scalar)
  next
    assume n: "k \<le> n \<and> is_char_boundary (drop k s) (n - k)"
    with Scalar.IH have ih: "valid_utf8 (take (n - k) (drop k s))" "valid_utf8 (drop (n - k) (drop k s))"
      by blast+
    have "valid_utf8 (take k s)"
      using utf8_next_take [OF Scalar(1)] by (simp add: valid_utf8_Scalar)
    moreover have "take n s = take k s @ take (n - k) (drop k s)"
      using n take_add [of k "n - k" s] by simp
    ultimately show ?thesis using ih n valid_utf8_append by simp
  qed
qed simp

lemma char_boundary_near:
  "valid_utf8 s \<Longrightarrow> n \<le> length s \<Longrightarrow>
     (\<exists>m \<le> n. n \<le> m + 3 \<and> is_char_boundary s m) \<and>
     (\<exists>m \<ge> n. m \<le> n + 3 \<and> m \<le> length s \<and> is_char_boundary s m)"
proof (induction s arbitrary: n rule: valid_utf8_induct)
  case (Scalar s k)
  have k4: "k \<le> 4" by (rule utf8_next_width [OF Scalar(1)])
  have shift: "is_char_boundary s (k + m)" if "is_char_boundary (drop k s) m" "0 < m \<or> drop k s = []" for m
    using that Scalar(4) by (auto simp: is_char_boundary_def)
  have at_k: "is_char_boundary s k"
  proof (cases "drop k s")
    case (Cons c cs)
    with Scalar(2) have "\<not> is_cont c"
      by (auto simp: valid_utf8_def from_utf8.simps [of "c # cs"] utf8_width_def is_cont_def Let_def)
    moreover have "s ! k = c" "k < length s"
      using Cons nth_drop [of k s 0] Scalar(4) by (auto simp: not_less dest: arg_cong [of _ _ length])
    ultimately show ?thesis by (simp add: is_char_boundary_def)
  qed (use Scalar(4) in \<open>simp add: is_char_boundary_def\<close>)
  show ?case
  proof (cases "n < k")
    case True
    have "is_char_boundary s 0" by (simp add: is_char_boundary_def)
    with True k4 have "\<exists>m \<le> n. n \<le> m + 3 \<and> is_char_boundary s m" by (intro exI [of _ 0]) auto
    moreover have "\<exists>m \<ge> n. m \<le> n + 3 \<and> m \<le> length s \<and> is_char_boundary s m"
    proof (cases "n = 0")
      case False
      with True k4 at_k Scalar(4) show ?thesis by (intro exI [of _ k]) auto
    qed (use \<open>is_char_boundary s 0\<close> in \<open>intro exI [of _ 0], simp\<close>)
    ultimately show ?thesis ..
  next
    case False
    have "n - k \<le> length (drop k s)" using Scalar.prems by simp
    from Scalar.IH [OF this] obtain i j where
      i: "i \<le> n - k" "n - k \<le> i + 3" "is_char_boundary (drop k s) i" and
      j: "n - k \<le> j" "j \<le> n - k + 3" "j \<le> length (drop k s)" "is_char_boundary (drop k s) j"
      by blast
    have "is_char_boundary s (k + m)" if "is_char_boundary (drop k s) m" for m
      using shift [OF that] at_k by (cases "m = 0") auto
    with i(3) j(4) have "is_char_boundary s (k + i)" "is_char_boundary s (k + j)" by auto
    moreover have "k + i \<le> n" "n \<le> k + i + 3" "n \<le> k + j" "k + j \<le> n + 3" "k + j \<le> length s"
      using i j False Scalar(4) by simp_all
    ultimately show ?thesis by blast
  qed
qed (auto simp: is_char_boundary_def)

lemma floor_boundary_le: "floor_boundary s n \<le> n"
  by (induction n) (auto intro: le_SucI)

lemma floor_boundary_at: "is_char_boundary s (floor_boundary s n)"
  by (induction n) (simp_all add: is_char_boundary_def)

lemma floor_boundary_greatest: "m \<le> n \<Longrightarrow> is_char_boundary s m \<Longrightarrow> m \<le> floor_boundary s n"
  by (induction n) (auto simp: le_Suc_eq)

lemma ceil_boundary_facts:
  "n \<le> length s \<Longrightarrow> n \<le> ceil_boundary s n \<and> ceil_boundary s n \<le> length s \<and>
     is_char_boundary s (ceil_boundary s n) \<and>
     (\<forall>m. n \<le> m \<longrightarrow> is_char_boundary s m \<longrightarrow> ceil_boundary s n \<le> m)"
proof (induction s n rule: ceil_boundary.induct)
  case (1 s n)
  show ?case
  proof (cases "length s \<le> n \<or> is_char_boundary s n")
    case True
    with "1.prems" show ?thesis
      by (auto simp: ceil_boundary.simps [of s n] is_char_boundary_def)
  next
    case False
    with 1 have "n + 1 \<le> ceil_boundary s (n + 1) \<and> ceil_boundary s (n + 1) \<le> length s \<and>
        is_char_boundary s (ceil_boundary s (n + 1)) \<and>
        (\<forall>m. n + 1 \<le> m \<longrightarrow> is_char_boundary s m \<longrightarrow> ceil_boundary s (n + 1) \<le> m)" by simp
    moreover have "n + 1 \<le> m" if "n \<le> m" "is_char_boundary s m" for m
      using False that by (cases "m = n") auto
    moreover have "ceil_boundary s n = ceil_boundary s (n + 1)"
      using False by (simp add: ceil_boundary.simps [of s n])
    ultimately show ?thesis by (metis add_leD1)
  qed
qed

section \<open>The middle goes and the ends stay\<close>

lemma floor_boundary_near:
  assumes "valid_utf8 s" and "n \<le> length s"
  shows "n \<le> floor_boundary s n + 3"
proof -
  from char_boundary_near [OF assms] obtain m where "m \<le> n" "n \<le> m + 3" "is_char_boundary s m" by blast
  with floor_boundary_greatest [of m n s] show ?thesis by simp
qed

lemma ceil_boundary_near:
  assumes "valid_utf8 s" and "n \<le> length s"
  shows "ceil_boundary s n \<le> n + 3"
proof -
  from char_boundary_near [OF assms] obtain m where "n \<le> m" "m \<le> n + 3" "is_char_boundary s m" by blast
  with ceil_boundary_facts [OF assms(2)] show ?thesis by (meson le_trans)
qed

lemma char_boundary_drop:
  assumes "is_char_boundary s n" and "m \<le> n" and "n \<le> length s"
  shows "is_char_boundary (drop m s) (n - m)"
  using assms by (auto simp: is_char_boundary_def)

lemma nat_text_ascii: "c \<in> set (nat_text n) \<Longrightarrow> byte c < 128"
  using nat_text_digits [of c n] by (simp add: is_digit_def)

lemma valid_utf8_all_ascii: "(\<And>c. c \<in> set s \<Longrightarrow> byte c < 128) \<Longrightarrow> valid_utf8 s"
  by (induction s) (simp_all add: valid_utf8_ascii)

lemma marker_valid: "valid_utf8 (ellipsis @ nat_text n @ '' chars truncated'' @ ellipsis)"
proof -
  have "valid_utf8 ellipsis" by code_simp
  moreover have "valid_utf8 (nat_text n @ '' chars truncated'')"
    by (rule valid_utf8_all_ascii) (auto dest: nat_text_ascii)
  ultimately show ?thesis using valid_utf8_append by (metis append.assoc)
qed

text \<open>A text over the limit keeps a head and a tail of whole characters, within the limit
  together and at most six bytes short of it, around a marker that counts the characters between
  them; and the result is valid UTF-8.\<close>

theorem truncate_middle_ends:
  assumes "valid_utf8 s" and "m < length s"
  shows "\<exists>h mid t. s = h @ mid @ t \<and> valid_utf8 h \<and> valid_utf8 mid \<and> valid_utf8 t \<and>
     length h \<le> m div 2 \<and> length t \<le> m - m div 2 \<and> m \<le> length h + length t + 6 \<and>
     (let r = truncate_middle s m in mid_truncated r \<and> mid_removed r = length (utf8_chars mid) \<and>
       mid_content r = h @ ellipsis @ nat_text (mid_removed r) @ '' chars truncated'' @ ellipsis @ t \<and>
       valid_utf8 (mid_content r))"
proof -
  define i where "i = floor_boundary s (m div 2)"
  define n where "n = length s - (m - m div 2)"
  define j where "j = ceil_boundary s n"
  have n: "n \<le> length s" "m div 2 \<le> n" "m div 2 \<le> length s" using assms(2) by (auto simp: n_def)
  have i: "i \<le> m div 2" "m div 2 \<le> i + 3" "is_char_boundary s i"
    unfolding i_def using assms(1) n(3) by (simp_all add: floor_boundary_le floor_boundary_near floor_boundary_at)
  have j: "n \<le> j" "j \<le> n + 3" "j \<le> length s" "is_char_boundary s j"
    unfolding j_def using ceil_boundary_facts [OF n(1)] ceil_boundary_near [OF assms(1) n(1)] by simp_all
  have ij: "i \<le> j" using i(1) j(1) n(2) by simp
  let ?h = "take i s" and ?mid = "drop i (take j s)" and ?t = "drop j s"
  have valid: "valid_utf8 ?h" "valid_utf8 ?t" "valid_utf8 ?mid"
    using char_boundary_split [OF assms(1) i(3)] char_boundary_split [OF assms(1) j(4)]
      char_boundary_split [OF _ char_boundary_drop [OF j(4) ij j(3)]] by (simp_all add: drop_take)
  have "take j s = ?h @ ?mid" using ij append_take_drop_id [of i "take j s"] by (simp add: min_absorb1)
  then have s: "s = ?h @ ?mid @ ?t" by (metis append.assoc append_take_drop_id)
  have r: "truncate_middle s m = \<lparr>mid_content = ?h @ ellipsis @ nat_text (length (utf8_chars ?mid)) @
      '' chars truncated'' @ ellipsis @ ?t, mid_truncated = True,
      mid_removed = length (utf8_chars ?mid), mid_total_bytes = length s,
      mid_total_lines = length (content_lines s)\<rparr>"
    using assms(2) by (simp add: truncate_middle_def Let_def i_def j_def n_def)
  have "valid_utf8 (?h @ (ellipsis @ nat_text (length (utf8_chars ?mid)) @ '' chars truncated'' @ ellipsis) @ ?t)"
    by (intro valid_utf8_append valid marker_valid)
  moreover have "length ?h = i" "length ?t = length s - j" using i(1) n(3) by simp_all
  moreover have "length s - j \<le> m - m div 2" "m \<le> i + (length s - j) + 6"
    using i(2) j(1,2) assms(2) unfolding n_def by linarith+
  ultimately show ?thesis using s valid i(1) unfolding r Let_def by (intro exI conjI) simp_all
qed

lemma truncate_middle_ends_witness:
  "\<exists>h mid t. ''abcdef'' = h @ mid @ t \<and> valid_utf8 h \<and> valid_utf8 mid \<and> valid_utf8 t \<and>
     length h \<le> 2 div 2 \<and> length t \<le> 2 - 2 div 2 \<and> 2 \<le> length h + length t + 6 \<and>
     (let r = truncate_middle ''abcdef'' 2 in mid_truncated r \<and> mid_removed r = length (utf8_chars mid) \<and>
       mid_content r = h @ ellipsis @ nat_text (mid_removed r) @ '' chars truncated'' @ ellipsis @ t \<and>
       valid_utf8 (mid_content r))"
  by (rule truncate_middle_ends) (simp_all add: valid_utf8_ascii)

section \<open>The tail keeps a maximal suffix of lines\<close>

text \<open>\<open>ks\<close> are the lines kept, last first.\<close>

definition tail_at :: "nat \<Rightarrow> string list \<Rightarrow> tail_state \<Rightarrow> bool" where
  "tail_at max_bytes ks t \<longleftrightarrow> tail_kept t = ks \<and> \<not> tail_partial t \<and>
     tail_bytes t = length (join [nl] (rev ks)) \<and> length (join [nl] (rev ks)) \<le> max_bytes"

lemma join_cons_length:
  "length (join [d] (l # ks)) = (if ks = [] then length l else length l + 1 + length (join [d] ks))"
  by (cases ks) simp_all

lemma tail_step_over:
  "tail_at mb ks t \<Longrightarrow>
     length l + (if tail_kept t \<noteq> [] then 1 else 0) > mb - tail_bytes t \<longleftrightarrow>
     mb < length (join [nl] (l # rev ks))"
  by (auto simp: tail_at_def join_cons_length)

lemma tail_loop_spec:
  "tail_at mb ks t \<Longrightarrow>
   (\<exists>n \<le> length ls. tail_at mb (ks @ take n ls) (tail_loop mb ls t) \<and>
      (n < length ls \<longrightarrow> mb < length (join [nl] (rev (ks @ take (Suc n) ls))) \<and>
         tail_by (tail_loop mb ls t) = Some ByBytes \<and> ks @ take n ls \<noteq> []) \<and>
      (n = length ls \<longrightarrow> tail_by (tail_loop mb ls t) = tail_by t)) \<or>
   (\<exists>l ls'. ks = [] \<and> ls = l # ls' \<and> mb < length l \<and>
      tail_loop mb ls t = t\<lparr>tail_by := Some ByBytes, tail_kept := [drop (ceil_boundary l (length l - mb)) l],
        tail_bytes := length l - ceil_boundary l (length l - mb), tail_partial := True\<rparr>)"
proof (induction ls arbitrary: ks t)
  case Nil
  then show ?case by simp
next
  case (Cons l ls)
  show ?case
  proof (cases "mb < length (join [nl] (l # rev ks))")
    case True
    with tail_step_over [OF Cons.prems] have over:
      "length l + (if tail_kept t \<noteq> [] then 1 else 0) > mb - tail_bytes t" by blast
    show ?thesis
    proof (cases "ks = []")
      case False
      with Cons.prems have "tail_kept t \<noteq> []" by (simp add: tail_at_def)
      with over have "tail_loop mb (l # ls) t = t\<lparr>tail_by := Some ByBytes\<rparr>" by (simp add: Let_def)
      with False True Cons.prems show ?thesis
        by (intro disjI1 exI [of _ 0]) (simp add: tail_at_def)
    next
      case empty: True
      with Cons.prems have "tail_kept t = []" by (simp add: tail_at_def)
      with over empty True show ?thesis by (intro disjI2) (simp add: Let_def)
    qed
  next
    case False
    with tail_step_over [OF Cons.prems] have fits:
      "\<not> length l + (if tail_kept t \<noteq> [] then 1 else 0) > mb - tail_bytes t" by blast
    define t' where "t' = t\<lparr>tail_kept := tail_kept t @ [l],
      tail_bytes := tail_bytes t + ((if tail_kept t \<noteq> [] then 1 else 0) + length l)\<rparr>"
    have step: "tail_loop mb (l # ls) t = tail_loop mb ls t'" and "tail_by t' = tail_by t"
      using fits by (simp_all add: t'_def Let_def)
    moreover have "tail_at mb (ks @ [l]) t'"
      using False Cons.prems by (auto simp: tail_at_def t'_def join_cons_length)
    note Cons.IH [OF this]
    ultimately obtain n where n: "n \<le> length ls" "tail_at mb ((ks @ [l]) @ take n ls) (tail_loop mb ls t')"
      "n < length ls \<Longrightarrow> mb < length (join [nl] (rev ((ks @ [l]) @ take (Suc n) ls))) \<and>
         tail_by (tail_loop mb ls t') = Some ByBytes"
      "n = length ls \<Longrightarrow> tail_by (tail_loop mb ls t') = tail_by t" by auto
    show ?thesis
      unfolding step using n by (intro disjI1 exI [of _ "Suc n"]) simp
  qed
qed

lemma tail_at_initial: "tail_at mb [] \<lparr>tail_kept = [], tail_bytes = 0, tail_by = b, tail_partial = False\<rparr>"
  by (simp add: tail_at_def)

lemma rev_take_rev: "rev (take n (rev ls)) = drop (length ls - n) ls"
  by (simp add: rev_take)

text \<open>The limit on a cut: the longest suffix of a line that starts at a character and fits.\<close>

definition longest_suffix :: "nat \<Rightarrow> string \<Rightarrow> string \<Rightarrow> bool" where
  "longest_suffix mb l t \<longleftrightarrow> (\<exists>i \<le> length l. t = drop i l \<and> is_char_boundary l i \<and> length t \<le> mb \<and>
     (\<forall>j. is_char_boundary l j \<longrightarrow> length l - j \<le> mb \<longrightarrow> i \<le> j))"

lemma cut_longest:
  assumes "mb < length l"
  shows "longest_suffix mb l (drop (ceil_boundary l (length l - mb)) l)"
proof -
  have n: "length l - mb \<le> length l" by simp
  note facts = ceil_boundary_facts [OF n]
  show ?thesis
    unfolding longest_suffix_def
    using facts assms by (intro exI [of _ "ceil_boundary l (length l - mb)"]) auto
qed

text \<open>The tail is the longest run of whole last lines within both limits; and when the last line
  alone is too long, the longest suffix of it that fits and starts at a character. Its byte count
  is that of its content, which never exceeds the limit.\<close>

theorem truncate_tail_longest:
  "(let r = truncate_tail s x; ls = content_lines s in
     tr_truncated r = (length ls > opt_lines x \<or> length s > opt_bytes x) \<and>
     (\<not> tr_truncated r \<longrightarrow> tr_content r = s) \<and>
     (tr_truncated r \<longrightarrow> tr_output_lines r \<le> opt_lines x) \<and>
     tr_output_bytes r = length (tr_content r) \<and> length (tr_content r) \<le> opt_bytes x \<and>
     (tr_truncated r \<and> \<not> tr_last_partial r \<longrightarrow>
        (\<exists>n \<le> length ls. tr_output_lines r = n \<and> tr_content r = join [nl] (drop (length ls - n) ls) \<and>
           (n = length ls \<or> n = opt_lines x \<or>
            opt_bytes x < length (join [nl] (drop (length ls - Suc n) ls))))) \<and>
     (tr_last_partial r \<longrightarrow> ls \<noteq> [] \<and> opt_bytes x < length (last ls) \<and> tr_output_lines r = 1 \<and>
        longest_suffix (opt_bytes x) (last ls) (tr_content r)))"
proof -
  let ?i = "initial_result s x" and ?ls = "content_lines s"
  have i: "tr_truncated ?i = (length ?ls > opt_lines x \<or> length s > opt_bytes x)"
    by (simp add: initial_result_def Let_def)
  show ?thesis
  proof (cases "tr_truncated ?i")
    case False
    then have "truncate_tail s x = unchanged ?i s" by (simp add: truncate_tail_def Let_def)
    with False i show ?thesis by (simp add: unchanged_def initial_result_def Let_def)
  next
    case True
    let ?rev = "take (opt_lines x) (rev ?ls)"
    define rv where "rv = ?rev"
    define t where "t = tail_loop (opt_bytes x) rv
      \<lparr>tail_kept = [], tail_bytes = 0, tail_by = tr_by ?i, tail_partial = False\<rparr>"
    have r: "tr_truncated (truncate_tail s x)" "tr_output_lines (truncate_tail s x) = length (tail_kept t)"
      "tr_output_bytes (truncate_tail s x) = tail_bytes t" "tr_last_partial (truncate_tail s x) = tail_partial t"
      "tr_content (truncate_tail s x) = join [nl] (rev (tail_kept t))"
      using True by (simp_all add: truncate_tail_def Let_def t_def rv_def)
    from tail_loop_spec [OF tail_at_initial [of "opt_bytes x" "tr_by ?i"], of rv, folded t_def]
    consider n where "n \<le> length rv" "tail_at (opt_bytes x) (take n rv) t"
        "n < length rv \<longrightarrow> opt_bytes x < length (join [nl] (rev (take (Suc n) rv)))"
      | l rest where "rv = l # rest" "opt_bytes x < length l"
        "tail_kept t = [drop (ceil_boundary l (length l - opt_bytes x)) l]"
        "tail_bytes t = length l - ceil_boundary l (length l - opt_bytes x)" "tail_partial t"
      unfolding append_Nil by (elim disjE exE conjE) (blast, simp)
    then show ?thesis
    proof cases
      case 1
      note 1 = 1 [unfolded rv_def]
      then have n: "n \<le> opt_lines x" "n \<le> length ?ls" by simp_all
      then have "take n ?rev = take n (rev ?ls)"
        "n < length ?rev \<Longrightarrow> take (Suc n) ?rev = take (Suc n) (rev ?ls)"
        by (simp_all add: min_absorb1)
      with 1 n have "tail_at (opt_bytes x) (take n (rev ?ls)) t"
        "n = length ?ls \<or> n = opt_lines x \<or> opt_bytes x < length (join [nl] (rev (take (Suc n) (rev ?ls))))"
        by (auto simp: min_def split: if_splits)
      with n r i True show ?thesis
        unfolding Let_def tail_at_def rev_take_rev by (auto simp: rev_take_rev)
    next
      case 2
      note 2 = 2 [unfolded rv_def]
      then obtain k where k: "opt_lines x = Suc k" by (cases "opt_lines x") auto
      obtain tl' where "rev ?ls = l # tl'" using 2(1) unfolding k by (cases "rev ?ls") auto
      then have "?ls = rev tl' @ [l]" by (metis rev_rev_ident rev.simps(2))
      then have "l = last ?ls" "?ls \<noteq> []" "0 < opt_lines x" using k by simp_all
      with 2 cut_longest [OF 2(2)] r i True show ?thesis
        by (auto simp: Let_def longest_suffix_def)
    qed
  qed
qed

lemma truncate_tail_longest_witness:
  "(let r = truncate_tail ''bcdef'' \<lparr>opt_lines = 1, opt_bytes = 2\<rparr> in
     tr_last_partial r \<and> longest_suffix 2 (last (content_lines ''bcdef'')) (tr_content r)) \<and>
   (let r = truncate_tail [CHR ''a'', nl, CHR ''b''] \<lparr>opt_lines = 1, opt_bytes = 9\<rparr> in
     tr_truncated r \<and> \<not> tr_last_partial r \<and> tr_output_lines r \<le> 1)"
proof -
  have "tr_last_partial (truncate_tail ''bcdef'' \<lparr>opt_lines = 1, opt_bytes = 2\<rparr>)" by code_simp
  moreover have "tr_truncated (truncate_tail [CHR ''a'', nl, CHR ''b''] \<lparr>opt_lines = 1, opt_bytes = 9\<rparr>)"
    by code_simp
  moreover have "\<not> tr_last_partial (truncate_tail [CHR ''a'', nl, CHR ''b''] \<lparr>opt_lines = 1, opt_bytes = 9\<rparr>)"
    by code_simp
  ultimately show ?thesis
    using truncate_tail_longest [of "''bcdef''" "\<lparr>opt_lines = 1, opt_bytes = 2\<rparr>"]
      truncate_tail_longest [of "[CHR ''a'', nl, CHR ''b'']" "\<lparr>opt_lines = 1, opt_bytes = 9\<rparr>"]
    unfolding Let_def by simp
qed

end
