(* ===== verification/MutationQueue.thy ===== *)
theory MutationQueue
  imports Prelude
begin

text \<open>
  The queue of file mutations (\<open>tools/file_mutation_queue/queue.rs\<close>): callers on any number of
  threads register a mutation of a file, wait for the one registered before it on that file,
  run it, and release the next. A step of the relation below is one critical section of one
  thread: a registration under the lock of \<open>tails\<close>, one look at \<open>done\<close> under the lock of a
  completion, the wake-up of a condition variable (also a spurious one), the store to \<open>done\<close>, the
  \<open>notify_all\<close>, the removal of a tail. A call is named by the number of its registration; the same
  number names its \<open>Completion\<close>, so that \<open>Arc::ptr_eq\<close> is equality of numbers. A mutation reads its
  file when it starts and stores \<open>mutate n v\<close>, for any function \<open>mutate\<close>, when it returns, fails or
  unwinds; the key of a path comes from \<open>resolve\<close>, which may fail.
\<close>

section \<open>The queue and its operations\<close>

datatype ('k, 'v) call_phase =
    Unregistered
  | Checking 'k nat
  | Sleeping 'k nat
  | Ready 'k
  | Operating 'k 'v
  | Finishing 'k
  | Notifying 'k
  | Releasing 'k
  | Returned 'k

record ('k, 'v) mutation_queue =
  tails :: "'k \<rightharpoonup> nat"
  completed :: "nat \<Rightarrow> bool"
  registered :: nat
  calls :: "nat \<Rightarrow> ('k, 'v) call_phase"
  files :: "'k \<Rightarrow> 'v"

definition queue_new :: "('k \<Rightarrow> 'v) \<Rightarrow> ('k, 'v) mutation_queue" where
  "queue_new fs = \<lparr>tails = Map.empty, completed = (\<lambda>_. False), registered = 0,
                   calls = (\<lambda>_. Unregistered), files = fs\<rparr>"

definition set_phase :: "nat \<Rightarrow> ('k, 'v) call_phase \<Rightarrow> ('k, 'v) mutation_queue \<Rightarrow> ('k, 'v) mutation_queue" where
  "set_phase n p q = q\<lparr>calls := (calls q)(n := p)\<rparr>"

text \<open>The first part of \<open>run\<close>: the key is resolved and the completion inserted under one lock.\<close>

definition register :: "(string + 'k) \<Rightarrow> ('k, 'v) mutation_queue \<Rightarrow> (string + nat) \<times> ('k, 'v) mutation_queue" where
  "register resolve q =
     (case resolve of
        Inl e \<Rightarrow> (Inl e, q)
      | Inr k \<Rightarrow>
          (let n = registered q; previous = tails q k in
           (Inr n, q\<lparr>tails := (tails q)(k \<mapsto> n), completed := (completed q)(n := False),
                     registered := n + 1,
                     calls := (calls q)(n := (case previous of None \<Rightarrow> Ready k | Some p \<Rightarrow> Checking k p))\<rparr>)))"

text \<open>One turn of the loop of \<open>Completion::wait\<close>.\<close>

definition wait_turn :: "nat \<Rightarrow> 'k \<Rightarrow> nat \<Rightarrow> ('k, 'v) mutation_queue \<Rightarrow> ('k, 'v) mutation_queue" where
  "wait_turn n k p q = set_phase n (if completed q p then Ready k else Sleeping k p) q"

text \<open>\<open>Completion::finish\<close>: the store, then the notification.\<close>

definition finish_store :: "nat \<Rightarrow> 'k \<Rightarrow> ('k, 'v) mutation_queue \<Rightarrow> ('k, 'v) mutation_queue" where
  "finish_store n k q = set_phase n (Notifying k) (q\<lparr>completed := (completed q)(n := True)\<rparr>)"

definition woken :: "nat \<Rightarrow> ('k, 'v) call_phase \<Rightarrow> ('k, 'v) call_phase" where
  "woken n p = (case p of Sleeping k m \<Rightarrow> if m = n then Checking k m else p | _ \<Rightarrow> p)"

definition finish_notify :: "nat \<Rightarrow> 'k \<Rightarrow> ('k, 'v) mutation_queue \<Rightarrow> ('k, 'v) mutation_queue" where
  "finish_notify n k q = set_phase n (Releasing k) (q\<lparr>calls := (\<lambda>i. woken n (calls q i))\<rparr>)"

text \<open>The rest of \<open>Release::drop\<close>: only the caller whose completion is still the tail removes it.\<close>

definition release_tail :: "nat \<Rightarrow> 'k \<Rightarrow> ('k, 'v) mutation_queue \<Rightarrow> ('k, 'v) mutation_queue" where
  "release_tail n k q =
     set_phase n (Returned k)
       (if tails q k = Some n then q\<lparr>tails := (tails q)(k := None)\<rparr> else q)"

definition begin_operation :: "nat \<Rightarrow> 'k \<Rightarrow> ('k, 'v) mutation_queue \<Rightarrow> ('k, 'v) mutation_queue" where
  "begin_operation n k q = set_phase n (Operating k (files q k)) q"

definition end_operation ::
  "(nat \<Rightarrow> 'v \<Rightarrow> 'v) \<Rightarrow> nat \<Rightarrow> 'k \<Rightarrow> 'v \<Rightarrow> ('k, 'v) mutation_queue \<Rightarrow> ('k, 'v) mutation_queue" where
  "end_operation mutate n k v q = set_phase n (Finishing k) (q\<lparr>files := (files q)(k := mutate n v)\<rparr>)"

text \<open>\<open>call_step\<close> is what a registered call does by itself; \<open>queue_step\<close> adds the
  registrations and the spurious wake-ups.\<close>

inductive call_step ::
  "(nat \<Rightarrow> 'v \<Rightarrow> 'v) \<Rightarrow> ('k, 'v) mutation_queue \<Rightarrow> ('k, 'v) mutation_queue \<Rightarrow> bool" for mutate where
  Turn: "calls q n = Checking k p \<Longrightarrow> call_step mutate q (wait_turn n k p q)"
| Begin: "calls q n = Ready k \<Longrightarrow> call_step mutate q (begin_operation n k q)"
| End: "calls q n = Operating k v \<Longrightarrow> call_step mutate q (end_operation mutate n k v q)"
| Store: "calls q n = Finishing k \<Longrightarrow> call_step mutate q (finish_store n k q)"
| Notify: "calls q n = Notifying k \<Longrightarrow> call_step mutate q (finish_notify n k q)"
| Release: "calls q n = Releasing k \<Longrightarrow> call_step mutate q (release_tail n k q)"

inductive queue_step ::
  "(nat \<Rightarrow> 'v \<Rightarrow> 'v) \<Rightarrow> ('k, 'v) mutation_queue \<Rightarrow> ('k, 'v) mutation_queue \<Rightarrow> bool" for mutate where
  Call: "call_step mutate q q' \<Longrightarrow> queue_step mutate q q'"
| Register: "queue_step mutate q (snd (register resolve q))"
| Spurious: "calls q n = Sleeping k p \<Longrightarrow> queue_step mutate q (set_phase n (Checking k p) q)"

inductive queue_reachable ::
  "(nat \<Rightarrow> 'v \<Rightarrow> 'v) \<Rightarrow> ('k \<Rightarrow> 'v) \<Rightarrow> ('k, 'v) mutation_queue \<Rightarrow> bool" for mutate fs where
  Start: "queue_reachable mutate fs (queue_new fs)"
| Step: "queue_reachable mutate fs q \<Longrightarrow> queue_step mutate q q' \<Longrightarrow> queue_reachable mutate fs q'"

section \<open>The invariant\<close>

fun phase_key :: "('k, 'v) call_phase \<Rightarrow> 'k option" where
  "phase_key Unregistered = None"
| "phase_key (Checking k p) = Some k"
| "phase_key (Sleeping k p) = Some k"
| "phase_key (Ready k) = Some k"
| "phase_key (Operating k v) = Some k"
| "phase_key (Finishing k) = Some k"
| "phase_key (Notifying k) = Some k"
| "phase_key (Releasing k) = Some k"
| "phase_key (Returned k) = Some k"

text \<open>The mutation has run.\<close>

fun past_operation :: "('k, 'v) call_phase \<Rightarrow> bool" where
  "past_operation (Finishing k) = True"
| "past_operation (Notifying k) = True"
| "past_operation (Releasing k) = True"
| "past_operation (Returned k) = True"
| "past_operation p = False"

text \<open>Its completion says so.\<close>

fun past_store :: "('k, 'v) call_phase \<Rightarrow> bool" where
  "past_store (Notifying k) = True"
| "past_store (Releasing k) = True"
| "past_store (Returned k) = True"
| "past_store p = False"

fun waits_for :: "('k, 'v) call_phase \<Rightarrow> nat option" where
  "waits_for (Checking k p) = Some p"
| "waits_for (Sleeping k p) = Some p"
| "waits_for p = None"

abbreviation key_at :: "('k, 'v) mutation_queue \<Rightarrow> nat \<Rightarrow> 'k option" where
  "key_at q n \<equiv> phase_key (calls q n)"

definition queue_order :: "('k, 'v) mutation_queue \<Rightarrow> 'k \<Rightarrow> nat list" where
  "queue_order q k = filter (\<lambda>n. key_at q n = Some k) [0..<registered q]"

definition has_run :: "('k, 'v) mutation_queue \<Rightarrow> 'k \<Rightarrow> nat list" where
  "has_run q k = filter (\<lambda>n. past_operation (calls q n)) (queue_order q k)"
definition order_inv :: "('k, 'v) mutation_queue \<Rightarrow> bool" where
  "order_inv q \<longleftrightarrow>
     (\<forall>n. calls q n = Unregistered \<longleftrightarrow> registered q \<le> n) \<and>
     (\<forall>n < registered q. completed q n = past_store (calls q n)) \<and>
     (\<forall>n p. waits_for (calls q n) = Some p \<longrightarrow> p < n \<and> key_at q p = key_at q n \<and>
        (\<forall>m. p < m \<longrightarrow> m < n \<longrightarrow> key_at q m \<noteq> key_at q n)) \<and>
     (\<forall>n m. calls q n \<noteq> Unregistered \<longrightarrow> waits_for (calls q n) = None \<longrightarrow> m < n \<longrightarrow>
        key_at q m = key_at q n \<longrightarrow> past_store (calls q m))"

definition tail_inv :: "('k, 'v) mutation_queue \<Rightarrow> bool" where
  "tail_inv q \<longleftrightarrow>
     (\<forall>k m. tails q k = Some m \<longrightarrow> key_at q m = Some k \<and> calls q m \<noteq> Returned k \<and>
        (\<forall>n. key_at q n = Some k \<longrightarrow> n \<le> m)) \<and>
     (\<forall>k n. tails q k = None \<longrightarrow> key_at q n = Some k \<longrightarrow> past_store (calls q n))"

text \<open>No lost wake-up: who sleeps on a completion will be notified.\<close>

definition sleep_inv :: "('k, 'v) mutation_queue \<Rightarrow> bool" where
  "sleep_inv q \<longleftrightarrow>
     (\<forall>n k p. calls q n = Sleeping k p \<longrightarrow> past_store (calls q p) \<longrightarrow> calls q p = Notifying k)"

definition file_inv ::
  "(nat \<Rightarrow> 'v \<Rightarrow> 'v) \<Rightarrow> ('k \<Rightarrow> 'v) \<Rightarrow> ('k, 'v) mutation_queue \<Rightarrow> bool" where
  "file_inv mutate fs q \<longleftrightarrow>
     (\<forall>n k v. calls q n = Operating k v \<longrightarrow> files q k = v) \<and>
     (\<forall>k. files q k = fold mutate (has_run q k) (fs k))"

lemma phase_key_None [simp]: "phase_key p = None \<longleftrightarrow> p = Unregistered"
  by (cases p) simp_all

lemma woken_simps [simp]:
  "phase_key (woken n p) = phase_key p" "past_operation (woken n p) = past_operation p"
  "past_store (woken n p) = past_store p" "waits_for (woken n p) = waits_for p"
  "woken n p = Unregistered \<longleftrightarrow> p = Unregistered" "woken n p = Returned k \<longleftrightarrow> p = Returned k"
  "woken n p = Operating k v \<longleftrightarrow> p = Operating k v" "woken n p = Notifying k \<longleftrightarrow> p = Notifying k"
  "woken n p = Sleeping k m \<longleftrightarrow> p = Sleeping k m \<and> m \<noteq> n"
  by (auto simp: woken_def split: call_phase.splits)

lemmas queue_operations = set_phase_def wait_turn_def finish_store_def finish_notify_def release_tail_def
  begin_operation_def end_operation_def

lemma set_phase_simps [simp]:
  "calls (set_phase n p q) = (calls q)(n := p)" "tails (set_phase n p q) = tails q"
  "completed (set_phase n p q) = completed q" "registered (set_phase n p q) = registered q"
  "files (set_phase n p q) = files q"
  by (simp_all add: set_phase_def)

text \<open>Whatever moves one call forward, or notifies, keeps the order: keys and registrations stay, a
  call leaves its wait only when its predecessor is complete, and a store is never undone.\<close>

definition moves :: "nat \<Rightarrow> ('k, 'v) mutation_queue \<Rightarrow> ('k, 'v) mutation_queue \<Rightarrow> bool" where
  "moves n q q' \<longleftrightarrow>
     registered q' = registered q \<and> (\<forall>m. key_at q' m = key_at q m) \<and>
     (\<forall>m. m \<noteq> n \<longrightarrow> completed q' m = completed q m \<and> past_store (calls q' m) = past_store (calls q m) \<and>
        waits_for (calls q' m) = waits_for (calls q m)) \<and>
     calls q n \<noteq> Unregistered \<and> completed q' n = past_store (calls q' n) \<and>
     (past_store (calls q n) \<longrightarrow> past_store (calls q' n)) \<and>
     (waits_for (calls q' n) = waits_for (calls q n) \<or>
        waits_for (calls q' n) = None \<and> (\<forall>p. waits_for (calls q n) = Some p \<longrightarrow> completed q p))"

lemma order_inv_moves:
  assumes inv: "order_inv q" and "moves n q q'" shows "order_inv q'"
proof -
  have key: "key_at q' m = key_at q m" and reg: "registered q' = registered q" for m
    using assms(2) by (simp_all add: moves_def)
  have unregistered: "calls q' m = Unregistered \<longleftrightarrow> calls q m = Unregistered" for m
    using key [of m] phase_key_None by metis
  have other: "m \<noteq> n \<Longrightarrow> completed q' m = completed q m \<and> past_store (calls q' m) = past_store (calls q m) \<and>
      waits_for (calls q' m) = waits_for (calls q m)" for m
    using assms(2) by (simp add: moves_def)
  have store: "past_store (calls q m) \<Longrightarrow> past_store (calls q' m)" for m
    using assms(2) other [of m] by (cases "m = n") (auto simp: moves_def)
  have flag: "m < registered q \<Longrightarrow> completed q' m = past_store (calls q' m)" for m
    using assms other [of m] by (cases "m = n") (auto simp: moves_def order_inv_def)
  have wait: "waits_for (calls q' m) = Some p \<Longrightarrow> waits_for (calls q m) = Some p" for m p
    using assms(2) other [of m] by (cases "m = n") (auto simp: moves_def)
  have ready: "past_store (calls q m)"
    if "calls q i \<noteq> Unregistered" "waits_for (calls q' i) = None" "m < i" "key_at q m = key_at q i" for i m
  proof (cases "waits_for (calls q i)")
    case None
    with that inv show ?thesis unfolding order_inv_def by blast
  next
    case (Some p)
    with that(2) other [of i] have "i = n" by auto
    with Some that(2) assms(2) have "completed q p" by (auto simp: moves_def)
    from inv Some have p: "p < i" "key_at q p = key_at q i"
      "\<And>m. p < m \<Longrightarrow> m < i \<Longrightarrow> key_at q m \<noteq> key_at q i"
      unfolding order_inv_def by blast+
    have "calls q p \<noteq> Unregistered" using p(2) that(1) by (metis phase_key_None)
    with inv \<open>completed q p\<close> have store: "past_store (calls q p)"
      unfolding order_inv_def by (metis not_le)
    have "m = p \<or> m < p" using p(3) [of m] that(3,4) by (meson linorder_neqE_nat)
    then consider "m = p" | "m < p" by blast
    then show ?thesis
    proof cases
      case 2
      moreover have "waits_for (calls q p) = None" using store by (cases "calls q p") simp_all
      moreover have "key_at q m = key_at q p" using p(2) that(4) by simp
      ultimately show ?thesis using inv \<open>calls q p \<noteq> Unregistered\<close> unfolding order_inv_def by blast
    qed (use store in simp)
  qed
  show ?thesis
    unfolding order_inv_def reg key unregistered
  proof (intro conjI allI impI)
    fix i m assume "calls q i \<noteq> Unregistered" "waits_for (calls q' i) = None" "m < i" "key_at q m = key_at q i"
    then show "past_store (calls q' m)" by (intro store ready)
  next
    fix i show "(calls q i = Unregistered) = (registered q \<le> i)" using inv by (simp add: order_inv_def)
  next
    fix i p assume "waits_for (calls q' i) = Some p"
    note wait = wait [OF this]
    show "p < i" "key_at q p = key_at q i" using inv wait unfolding order_inv_def by blast+
    fix m assume "p < m" "m < i"
    then show "key_at q m \<noteq> key_at q i" using inv wait unfolding order_inv_def by blast
  qed (rule flag)
qed

lemma call_step_moves:
  assumes "call_step mutate q q'" and "order_inv q" shows "\<exists>n. moves n q q'"
proof -
  have flag: "calls q n \<noteq> Unregistered \<Longrightarrow> completed q n = past_store (calls q n)" for n
    using assms(2) unfolding order_inv_def by (metis not_le)
  show ?thesis
    using assms(1)
  proof cases
    case (Turn n k p)
    with flag [of n] show ?thesis by (intro exI [of _ n]) (simp add: moves_def wait_turn_def)
  next
    case (Begin n k)
    with flag [of n] show ?thesis by (intro exI [of _ n]) (simp add: moves_def begin_operation_def)
  next
    case (End n k v)
    with flag [of n] show ?thesis by (intro exI [of _ n]) (simp add: moves_def end_operation_def)
  next
    case (Store n k)
    with flag [of n] show ?thesis by (intro exI [of _ n]) (simp add: moves_def finish_store_def)
  next
    case (Notify n k)
    with flag [of n] show ?thesis by (intro exI [of _ n]) (simp add: moves_def finish_notify_def)
  next
    case (Release n k)
    with flag [of n] show ?thesis by (intro exI [of _ n]) (simp add: moves_def release_tail_def)
  qed
qed

lemma order_inv_register:
  fixes q :: "('k, 'v) mutation_queue"
  assumes inv: "order_inv q" and tail: "tail_inv q" shows "order_inv (snd (register r q))"
proof (cases r)
  case (Inr k)
  define n where "n = registered q"
  define p :: "('k, 'v) call_phase" where "p = (case tails q k of None \<Rightarrow> Ready k | Some p \<Rightarrow> Checking k p)"
  define q' where "q' = snd (register r q)"
  have q': "calls q' = (calls q)(n := p)" "registered q' = n + 1" "completed q' = (completed q)(n := False)"
    by (simp_all add: q'_def register_def Inr Let_def n_def p_def)
  have fresh: "calls q m = Unregistered \<longleftrightarrow> n \<le> m" for m using inv by (simp add: order_inv_def n_def)
  then have old: "m < n" if "key_at q m = Some k" for m k
    using that by (metis not_le option.distinct(1) phase_key.simps(1))
  have p: "phase_key p = Some k" "\<not> past_store p" "p \<noteq> Unregistered" "waits_for p = tails q k"
    by (auto simp: p_def split: option.splits)
  have previous: "m < n \<and> key_at q m = Some k \<and> (\<forall>i. m < i \<longrightarrow> key_at q i \<noteq> Some k)" if "tails q k = Some m" for m
    using tail that old unfolding tail_inv_def by (metis not_le)
  have first: "past_store (calls q m)" if "tails q k = None" "key_at q m = Some k" for m
    using tail that by (simp add: tail_inv_def)
  have wait: "i < m \<and> key_at q i = key_at q m \<and> (\<forall>j. i < j \<longrightarrow> j < m \<longrightarrow> key_at q j \<noteq> key_at q m)"
    if "waits_for (calls q m) = Some i" for m i using inv that by (simp add: order_inv_def)
  have registered: "m < n" if "waits_for (calls q m) = Some i" for m i
    using that fresh [of m] by (cases "calls q m") auto
  have ready: "past_store (calls q i)" if "calls q m \<noteq> Unregistered" "waits_for (calls q m) = None"
      "i < m" "key_at q i = key_at q m" for i m
    using inv that unfolding order_inv_def by blast
  have "order_inv q'"
    unfolding order_inv_def
  proof (intro conjI allI impI)
    fix m show "(calls q' m = Unregistered) = (registered q' \<le> m)"
      using fresh [of m] p(3) by (auto simp: q')
  next
    fix m assume "m < registered q'"
    then show "completed q' m = past_store (calls q' m)"
      using inv p(2) by (auto simp: q' order_inv_def n_def)
  next
    fix m i assume w: "waits_for (calls q' m) = Some i"
    show "i < m" "key_at q' i = key_at q' m"
      using w p previous [of i] wait [of m i] registered [of m i] by (auto simp: q' split: if_splits)
    fix j assume "i < j" "j < m"
    then show "key_at q' j \<noteq> key_at q' m"
      using w p previous [of i] wait [of m i] registered [of m i] by (auto simp: q' split: if_splits)
  next
    fix m i assume *: "calls q' m \<noteq> Unregistered" "waits_for (calls q' m) = None" "i < m" "key_at q' i = key_at q' m"
    then have "m \<le> n" "i < n" using fresh [of m] by (auto simp: q' split: if_splits)
    with * p first [of i] ready [of m i] show "past_store (calls q' i)"
      by (auto simp: q' split: if_splits)
  qed
  then show ?thesis by (simp add: q'_def)
qed (use inv in \<open>simp add: register_def\<close>)

lemma order_inv_spurious:
  assumes "order_inv q" and "calls q n = Sleeping k p"
  shows "order_inv (set_phase n (Checking k p) q)"
proof (rule order_inv_moves [OF assms(1)])
  have "completed q n = past_store (calls q n)"
    using assms unfolding order_inv_def by (metis not_le call_phase.distinct(3))
  with assms show "moves n q (set_phase n (Checking k p) q)" by (simp add: moves_def)
qed

lemma tail_inv_same:
  assumes "tail_inv q" and "tails q' = tails q" and "\<And>m. key_at q' m = key_at q m"
    and "\<And>m k. calls q' m = Returned k \<Longrightarrow> calls q m = Returned k"
    and "\<And>m. past_store (calls q m) \<Longrightarrow> past_store (calls q' m)"
  shows "tail_inv q'"
  using assms unfolding tail_inv_def by metis

lemma tail_inv_release:
  assumes "tail_inv q" and "order_inv q" and c: "calls q n = Releasing k"
  shows "tail_inv (release_tail n k q)"
proof -
  let ?q = "release_tail n k q"
  have key: "key_at ?q m = key_at q m" and store: "past_store (calls ?q m) = past_store (calls q m)" for m
    using c by (simp_all add: release_tail_def)
  have tails: "tails ?q = (if tails q k = Some n then (tails q)(k := None) else tails q)"
    by (simp add: release_tail_def)
  have returned: "calls ?q m = Returned k' \<longleftrightarrow> m = n \<and> k' = k \<or> calls q m = Returned k'" for m k'
    using c by (auto simp: release_tail_def)
  have last: "past_store (calls q m)" if "tails q k = Some n" "key_at q m = Some k" for m
  proof -
    from assms(1) that have "m \<le> n" by (auto simp: tail_inv_def)
    moreover have "calls q n \<noteq> Unregistered" "waits_for (calls q n) = None" "key_at q m = key_at q n"
      using c that by simp_all
    then have "m < n \<Longrightarrow> past_store (calls q m)" using assms(2) unfolding order_inv_def by blast
    ultimately show ?thesis using c by (cases "m = n") auto
  qed
  show ?thesis
    unfolding tail_inv_def key store returned tails
    using assms(1) last unfolding tail_inv_def by (auto split: if_splits)
qed

lemma tail_inv_call:
  assumes step: "call_step mutate q q'" and inv: "tail_inv q" "order_inv q" shows "tail_inv q'"
  using step
proof cases
  case (Release n k)
  with tail_inv_release [OF inv] show ?thesis by simp
qed (auto intro!: tail_inv_same [OF inv(1)] simp: queue_operations split: if_splits)

lemma tail_inv_register:
  assumes inv: "tail_inv q" "order_inv q" shows "tail_inv (snd (register r q))"
proof (cases r)
  case (Inr k)
  have "key_at q m = Some k' \<Longrightarrow> m < registered q" for m k'
    using inv(2) unfolding order_inv_def by (metis not_le option.distinct(1) phase_key.simps(1))
  then have old: "key_at q m = Some k' \<Longrightarrow> m \<le> registered q \<and> m \<noteq> registered q" for m k' by fastforce
  let ?q = "snd (register r q)" and ?n = "registered q"
  have new: "key_at ?q ?n = Some k" "calls ?q ?n \<noteq> Returned k'" "tails ?q = (tails q)(k \<mapsto> ?n)"
    "m \<noteq> ?n \<Longrightarrow> calls ?q m = calls q m" for k' m
    by (auto simp: register_def Inr Let_def split: option.split)
  show ?thesis
    unfolding tail_inv_def new(3)
  proof (intro conjI allI impI)
    fix k' m assume t: "((tails q)(k \<mapsto> ?n)) k' = Some m"
    then have t': "k' \<noteq> k \<Longrightarrow> tails q k' = Some m" by simp
    show "key_at ?q m = Some k'"
      using t t' inv(1) new(1) new(4) [of m] old [of m k'] by (cases "k' = k") (auto simp: tail_inv_def)
    show "calls ?q m \<noteq> Returned k'"
      using t t' inv(1) new(2) new(4) [of m] old [of m k'] by (cases "k' = k") (auto simp: tail_inv_def)
    fix i assume "key_at ?q i = Some k'"
    then show "i \<le> m"
      using t t' inv(1) new(1) new(4) [of i] old [of i k'] by (cases "i = ?n"; cases "k' = k") (auto simp: tail_inv_def)
  next
    fix k' i assume "((tails q)(k \<mapsto> ?n)) k' = None" "key_at ?q i = Some k'"
    then show "past_store (calls ?q i)"
      using inv(1) new(1) new(4) [of i] by (cases "i = ?n") (auto simp: tail_inv_def split: if_splits)
  qed
qed (use inv in \<open>simp add: register_def\<close>)

lemma order_inv_sleeper:
  assumes "order_inv q" and "calls q n = Sleeping k p"
  shows "p < n" and "key_at q p = Some k" and "completed q p = past_store (calls q p)"
    and "n < registered q"
proof -
  have w: "waits_for (calls q n) = Some p" "key_at q n = Some k" using assms(2) by simp_all
  with assms(1) have "p < n \<and> key_at q p = key_at q n" unfolding order_inv_def by blast
  with w show "p < n" "key_at q p = Some k" by simp_all
  then have "calls q p \<noteq> Unregistered" by auto
  with assms show "completed q p = past_store (calls q p)" "n < registered q"
    unfolding order_inv_def by (metis not_le, metis not_le call_phase.distinct(3))
qed

lemma sleep_inv_call:
  assumes step: "call_step mutate q q'" and inv: "sleep_inv q" "order_inv q" shows "sleep_inv q'"
proof -
  have sleeper: "key_at q p = Some k \<and> p < i \<and> (past_store (calls q p) \<longrightarrow> calls q p = Notifying k)"
    if "calls q i = Sleeping k p" for i k p
    using inv(1) order_inv_sleeper [OF inv(2) that] that unfolding sleep_inv_def by blast
  show ?thesis
    using step
  proof cases
    case (Turn n k p)
    have "waits_for (calls q n) = Some p" "key_at q n = Some k" using Turn by simp_all
    with inv(2) have p: "p < n" "key_at q p = Some k" unfolding order_inv_def by metis+
    then have "calls q p \<noteq> Unregistered" by auto
    with inv(2) have "completed q p = past_store (calls q p)" unfolding order_inv_def by (metis not_le)
    with p show ?thesis
      unfolding sleep_inv_def Turn(1) using Turn(2) by (auto simp: wait_turn_def dest: sleeper split: if_splits)
  next
    case (Begin n k)
    then show ?thesis unfolding sleep_inv_def by (auto simp: begin_operation_def dest: sleeper)
  next
    case (End n k v)
    then show ?thesis unfolding sleep_inv_def by (auto simp: end_operation_def dest: sleeper)
  next
    case (Store n k)
    then show ?thesis unfolding sleep_inv_def by (auto simp: finish_store_def dest: sleeper)
  next
    case (Notify n k)
    then show ?thesis unfolding sleep_inv_def by (auto simp: finish_notify_def dest: sleeper)
  next
    case (Release n k)
    then show ?thesis unfolding sleep_inv_def by (auto simp: release_tail_def dest: sleeper)
  qed
qed

lemma register_calls:
  assumes "order_inv q"
  shows "m < registered q \<Longrightarrow> calls (snd (register r q)) m = calls q m"
    and "calls (snd (register r q)) (registered q) \<noteq> Sleeping k p"
    and "calls (snd (register r q)) (registered q) \<noteq> Operating k v"
    and "\<not> past_operation (calls (snd (register r q)) (registered q))"
    and "registered q < m \<Longrightarrow> calls (snd (register r q)) m = Unregistered"
    and "registered q \<le> registered (snd (register r q))"
    and "registered (snd (register r q)) \<le> registered q + 1"
    and "files (snd (register r q)) = files q"
proof -
  have "calls q i = Unregistered \<longleftrightarrow> registered q \<le> i" for i using assms by (simp add: order_inv_def)
  then have "calls q (registered q) = Unregistered" "registered q < m \<Longrightarrow> calls q m = Unregistered" for m
    by simp_all
  then show "m < registered q \<Longrightarrow> calls (snd (register r q)) m = calls q m"
    "calls (snd (register r q)) (registered q) \<noteq> Sleeping k p"
    "calls (snd (register r q)) (registered q) \<noteq> Operating k v"
    "\<not> past_operation (calls (snd (register r q)) (registered q))"
    "registered q < m \<Longrightarrow> calls (snd (register r q)) m = Unregistered"
    "registered q \<le> registered (snd (register r q))"
    "registered (snd (register r q)) \<le> registered q + 1" "files (snd (register r q)) = files q"
    by (simp_all add: register_def Let_def split: sum.split option.split)
qed

lemma sleep_inv_register:
  assumes inv: "sleep_inv q" "order_inv q" shows "sleep_inv (snd (register r q))"
  unfolding sleep_inv_def
proof (intro allI impI)
  fix n k p assume *: "calls (snd (register r q)) n = Sleeping k p" "past_store (calls (snd (register r q)) p)"
  then have "n < registered q" using register_calls(2,5) [OF inv(2), where r = r] by (metis linorder_neqE_nat call_phase.distinct(3))
  moreover then have sleeping: "calls q n = Sleeping k p" using * register_calls(1) [OF inv(2), where r = r and m = n] by simp
  ultimately have "p < registered q" using order_inv_sleeper(1) [OF inv(2)] by fastforce
  then have same: "calls (snd (register r q)) p = calls q p" by (rule register_calls(1) [OF inv(2)])
  show "calls (snd (register r q)) p = Notifying k"
    using inv(1) sleeping *(2) unfolding same sleep_inv_def by blast
qed

section \<open>The files follow the order of registration\<close>

lemma has_run_same:
  assumes "registered q' = registered q" and "\<And>m. key_at q' m = key_at q m"
    and "\<And>m. past_operation (calls q' m) = past_operation (calls q m)"
  shows "has_run q' k = has_run q k"
  by (simp add: has_run_def queue_order_def assms)

lemma has_run_end:
  assumes inv: "order_inv q" and c: "calls q n = Operating k v"
  shows "has_run (end_operation mutate n k v q) k' = (if k' = k then has_run q k @ [n] else has_run q k')"
proof -
  let ?q = "end_operation mutate n k v q"
  have n: "n < registered q" using inv c unfolding order_inv_def by (metis not_le call_phase.distinct(7))
  then have upt: "[0..<registered q] = [0..<n] @ n # [Suc n..<registered q]"
    by (metis le_add1 less_imp_le plus_nat.add_0 upt_add_eq_append upt_conv_Cons le_add_diff_inverse)
  have later: "\<not> past_operation (calls q m)" if "n < m" "key_at q m = Some k" for m
  proof
    assume "past_operation (calls q m)"
    then have "waits_for (calls q m) = None" "calls q m \<noteq> Unregistered" by (cases "calls q m"; simp)+
    with inv that c have "past_store (calls q n)" unfolding order_inv_def by (metis phase_key.simps(5))
    with c show False by simp
  qed
  have key: "key_at ?q m = key_at q m" for m using c by (simp add: end_operation_def)
  have past: "past_operation (calls ?q m) = (m = n \<or> past_operation (calls q m))" for m
    by (simp add: end_operation_def)
  have reg: "registered ?q = registered q" by (simp add: end_operation_def)
  have tail: "filter (\<lambda>m. m \<noteq> n \<and> P m) [Suc n..<registered q] = filter P [Suc n..<registered q]" for P
    by (rule filter_cong) auto
  show ?thesis
  proof (cases "k' = k")
    case True
    then show ?thesis
      unfolding has_run_def queue_order_def key past reg upt filter_filter
      using c later by (auto simp: filter_empty_conv intro!: filter_cong)
  next
    case False
    with c have "key_at q m = Some k' \<and> (m = n \<or> past_operation (calls q m)) \<longleftrightarrow>
        key_at q m = Some k' \<and> past_operation (calls q m)" for m by auto
    with False show ?thesis unfolding has_run_def queue_order_def key past reg filter_filter by simp
  qed
qed

lemma one_operating:
  assumes "order_inv q" and "calls q n = Operating k v" and "calls q m = Operating k w"
  shows "m = n"
proof -
  have "past_store (calls q j)" if "calls q i = Operating k u" "calls q j = Operating k x" "j < i" for i j u x
  proof -
    have "calls q i \<noteq> Unregistered" "waits_for (calls q i) = None" "key_at q j = key_at q i" using that by simp_all
    with assms(1) \<open>j < i\<close> show ?thesis unfolding order_inv_def by blast
  qed
  from this [OF assms(2,3)] this [OF assms(3,2)] assms(2,3) show ?thesis by (cases m n rule: linorder_cases) auto
qed

lemma file_inv_call:
  assumes step: "call_step mutate q q'" and inv: "file_inv mutate fs q" "order_inv q"
  shows "file_inv mutate fs q'"
proof -
  have same: "file_inv mutate fs q'" if "registered q' = registered q" "\<And>m. key_at q' m = key_at q m"
    "\<And>m. past_operation (calls q' m) = past_operation (calls q m)" "files q' = files q"
    "\<And>m k v. calls q' m = Operating k v \<Longrightarrow> calls q m = Operating k v \<or> files q k = v"
  proof -
    have run: "has_run q' k = has_run q k" for k by (rule has_run_same) (use that in auto)
    show ?thesis using inv(1) that(5) unfolding file_inv_def run that(4) by blast
  qed
  show ?thesis
    using step
  proof cases
    case (End n k v)
    have current: "files q k = v" using inv(1) End(2) unfolding file_inv_def by blast
    show ?thesis
      unfolding file_inv_def
    proof (intro conjI allI impI)
      fix m j w assume "calls q' m = Operating j w"
      then have "m \<noteq> n" "calls q m = Operating j w" by (auto simp: End(1) end_operation_def split: if_splits)
      with one_operating [OF inv(2) End(2)] have "j \<noteq> k" by auto
      moreover have "files q j = w" using inv(1) \<open>calls q m = _\<close> unfolding file_inv_def by blast
      ultimately show "files q' j = w" by (simp add: End(1) end_operation_def)
    next
      fix j
      have "files q j = fold mutate (has_run q j) (fs j)" "files q k = fold mutate (has_run q k) (fs k)"
        using inv(1) unfolding file_inv_def by blast+
      with current show "files q' j = fold mutate (has_run q' j) (fs j)"
        unfolding End(1) has_run_end [OF inv(2) End(2)] by (simp add: end_operation_def)
    qed
  qed (intro same; simp add: queue_operations; auto split: if_splits)+
qed

lemma file_inv_register:
  assumes inv: "file_inv mutate fs q" "order_inv q" shows "file_inv mutate fs (snd (register r q))"
proof -
  let ?q = "snd (register r q)"
  note calls = register_calls [OF inv(2), where r = r]
  have upt: "[0..<registered ?q] = [0..<registered q] \<or> [0..<registered ?q] = [0..<registered q] @ [registered q]"
    using calls(6,7) by (metis Suc_eq_plus1 le_SucE le_antisym upt_Suc_append zero_le)
  have old: "filter P [0..<registered q] = filter P' [0..<registered q]"
    if "\<And>m. m < registered q \<Longrightarrow> P m = P' m" for P P' :: "nat \<Rightarrow> bool"
    using that by (intro filter_cong) auto
  have "has_run ?q k = has_run q k" for k
    unfolding has_run_def queue_order_def filter_filter
    using upt calls(4) by (auto simp: calls(1) intro!: old)
  moreover have "calls q m = Operating k v" if "calls ?q m = Operating k v" for m k v
    using that calls(1) [where m = m] calls(3) calls(5) [where m = m] by (metis linorder_neqE_nat call_phase.distinct(7))
  ultimately show ?thesis using inv(1) unfolding file_inv_def calls(8) by metis
qed

definition queue_inv ::
  "(nat \<Rightarrow> 'v \<Rightarrow> 'v) \<Rightarrow> ('k \<Rightarrow> 'v) \<Rightarrow> ('k, 'v) mutation_queue \<Rightarrow> bool" where
  "queue_inv mutate fs q \<longleftrightarrow> order_inv q \<and> tail_inv q \<and> sleep_inv q \<and> file_inv mutate fs q"

lemma queue_inv_new: "queue_inv mutate fs (queue_new fs)"
  by (simp add: queue_inv_def order_inv_def tail_inv_def sleep_inv_def file_inv_def queue_new_def
    has_run_def queue_order_def)

lemma queue_inv_call: "queue_inv mutate fs q \<Longrightarrow> call_step mutate q q' \<Longrightarrow> queue_inv mutate fs q'"
  using call_step_moves order_inv_moves tail_inv_call sleep_inv_call file_inv_call
  unfolding queue_inv_def by metis

lemma queue_inv_step:
  assumes "queue_step mutate q q'" and inv: "queue_inv mutate fs q" shows "queue_inv mutate fs q'"
  using assms(1)
proof cases
  case Call
  with inv show ?thesis by (rule queue_inv_call)
next
  case (Register r)
  with inv show ?thesis
    by (simp add: queue_inv_def order_inv_register tail_inv_register sleep_inv_register file_inv_register)
next
  case (Spurious n k p)
  let ?q = "set_phase n (Checking k p) q"
  have "tail_inv ?q"
    by (rule tail_inv_same [of q]) (use inv Spurious(2) in \<open>auto simp: queue_inv_def split: if_splits\<close>)
  moreover have "sleep_inv ?q" using inv Spurious(2) by (auto simp: queue_inv_def sleep_inv_def)
  moreover have "has_run ?q j = has_run q j" for j
    by (rule has_run_same) (use Spurious(2) in auto)
  then have "file_inv mutate fs ?q" using inv by (auto simp: queue_inv_def file_inv_def)
  moreover have "order_inv ?q" using inv Spurious(2) by (auto simp: queue_inv_def intro: order_inv_spurious)
  ultimately show ?thesis by (simp add: Spurious(1) queue_inv_def)
qed

lemma reachable_queue_inv: "queue_reachable mutate fs q \<Longrightarrow> queue_inv mutate fs q"
  by (induction rule: queue_reachable.induct) (auto intro: queue_inv_new queue_inv_step)

lemma filter_prefix:
  assumes "sorted xs" and "distinct xs" and "\<And>x y. y \<in> set xs \<Longrightarrow> y < x \<Longrightarrow> P x \<Longrightarrow> x \<in> set xs \<Longrightarrow> P y"
  shows "filter P xs = take (length (filter P xs)) xs"
  using assms
proof (induction xs)
  case (Cons a xs)
  show ?case
  proof (cases "P a")
    case True
    have "filter P xs = take (length (filter P xs)) xs"
      by (rule Cons.IH) (use Cons.prems in auto)
    with True show ?thesis by simp
  next
    case False
    have "\<not> P x" if "x \<in> set xs" for x
    proof -
      have "a < x" using Cons.prems(1,2) that by (auto simp: le_less)
      with Cons.prems(3) [of a x] False that show ?thesis by auto
    qed
    then have "filter P xs = []" by (simp add: filter_empty_conv)
    with False show ?thesis by simp
  qed
qed simp

text \<open>C32. The queue serialises the mutations of each file in the order of their registrations: in
  every reachable state, for any interleaving of the callers, the file is what the first \<open>j\<close>
  registered mutations make of the initial file one after the other; they are the ones that
  have run, and only the next one can be running.\<close>

theorem mutations_run_in_order:
  assumes "queue_reachable mutate fs q"
  shows "\<exists>j \<le> length (queue_order q k).
     files q k = fold mutate (take j (queue_order q k)) (fs k) \<and>
     (\<forall>i < length (queue_order q k).
        past_operation (calls q (queue_order q k ! i)) = (i < j) \<and>
        ((\<exists>v. calls q (queue_order q k ! i) = Operating k v) \<longrightarrow> i = j))"
proof -
  let ?o = "queue_order q k" and ?P = "\<lambda>n. past_operation (calls q n)"
  have inv: "order_inv q" "file_inv mutate fs q"
    using reachable_queue_inv [OF assms] by (simp_all add: queue_inv_def)
  have sorted: "sorted ?o" "distinct ?o" by (simp_all add: queue_order_def sorted_wrt_filter)
  have key: "key_at q n = Some k" if "n \<in> set ?o" for n using that by (simp add: queue_order_def)
  have earlier: "past_store (calls q m)"
    if "m \<in> set ?o" "n \<in> set ?o" "m < n" "waits_for (calls q n) = None" for m n
  proof -
    have "calls q n \<noteq> Unregistered" "key_at q m = key_at q n" using key [OF that(1)] key [OF that(2)] by auto
    with that inv(1) show ?thesis unfolding order_inv_def by blast
  qed
  have stored: "?P m" if "past_store (calls q m)" for m using that by (cases "calls q m") simp_all
  have free: "waits_for (calls q m) = None" if "?P m" for m using that by (cases "calls q m") simp_all
  define j where "j = length (has_run q k)"
  have run: "has_run q k = take j ?o"
    unfolding j_def has_run_def by (rule filter_prefix [OF sorted]) (blast intro: stored earlier free)
  have le: "j \<le> length ?o" by (simp add: j_def has_run_def)
  have past: "?P (?o ! i) = (i < j)" if i: "i < length ?o" for i
  proof
    assume "?P (?o ! i)"
    with i have "?o ! i \<in> set (take j ?o)" unfolding run [symmetric] by (simp add: has_run_def)
    then obtain i' where i': "i' < j" "i' < length ?o" "?o ! i' = ?o ! i" by (auto simp: in_set_conv_nth)
    with i sorted(2) show "i < j" by (simp add: nth_eq_iff_index_eq)
  next
    assume "i < j"
    with i have "?o ! i \<in> set (take j ?o)" by (auto simp: in_set_conv_nth)
    then show "?P (?o ! i)" unfolding run [symmetric] by (simp add: has_run_def)
  qed
  have "i = j" if i: "i < length ?o" and op: "calls q (?o ! i) = Operating k v" for i v
  proof -
    have "\<not> i < j" using past [OF i] op by simp
    moreover have "\<not> j < i"
    proof
      assume "j < i"
      then have "j < length ?o" "?o ! j < ?o ! i"
        using i sorted_nth_mono [OF sorted(1), of j i] sorted(2) by (auto simp: nth_eq_iff_index_eq le_less)
      then have "past_store (calls q (?o ! j))" using i op earlier [of "?o ! j" "?o ! i"] by simp
      with stored past [OF \<open>j < length ?o\<close>] show False by simp
    qed
    ultimately show ?thesis by simp
  qed
  moreover have "files q k = fold mutate (has_run q k) (fs k)" using inv(2) unfolding file_inv_def by blast
  ultimately show ?thesis using le past unfolding run by blast
qed

section \<open>Nobody waits for ever\<close>

fun stage :: "('k, 'v) call_phase \<Rightarrow> nat" where
  "stage Unregistered = 0"
| "stage (Checking k p) = 6"
| "stage (Sleeping k p) = 6"
| "stage (Ready k) = 5"
| "stage (Operating k v) = 4"
| "stage (Finishing k) = 3"
| "stage (Notifying k) = 2"
| "stage (Releasing k) = 1"
| "stage (Returned k) = 0"

definition awake :: "('k, 'v) call_phase \<Rightarrow> nat" where
  "awake p = (case p of Checking k m \<Rightarrow> 1 | _ \<Rightarrow> 0)"

definition remaining :: "('k, 'v) mutation_queue \<Rightarrow> nat \<times> nat" where
  "remaining q = (\<Sum>n<registered q. stage (calls q n), \<Sum>n<registered q. awake (calls q n))"

lemma stage_woken [simp]: "stage (woken n p) = stage p"
  by (cases p) (simp_all add: woken_def)

lemma sum_upd_less:
  fixes f g :: "nat \<Rightarrow> nat"
  assumes "n < b" and "g n < f n" and "\<And>m. m \<noteq> n \<Longrightarrow> g m = f m"
  shows "(\<Sum>m<b. g m) < (\<Sum>m<b. f m)"
  by (rule sum_strict_mono_ex1) (use assms in \<open>auto intro: le_less_trans simp: le_less, metis\<close>)

lemma call_step_remaining:
  assumes "call_step mutate q q'" and inv: "order_inv q"
  shows "(remaining q', remaining q) \<in> less_than <*lex*> less_than"
proof -
  have bound: "n < registered q" if "calls q n \<noteq> Unregistered" for n
    using inv that unfolding order_inv_def by (metis not_le)
  have down: ?thesis if "registered q' = registered q" "n < registered q"
      "stage (calls q' n) < stage (calls q n)" "\<And>m. m \<noteq> n \<Longrightarrow> stage (calls q' m) = stage (calls q m)" for n
    using sum_upd_less [OF that(2), of "\<lambda>m. stage (calls q' m)" "\<lambda>m. stage (calls q m)"] that
    by (simp add: remaining_def)
  show ?thesis
    using assms(1)
  proof cases
    case (Turn n k p)
    have n: "n < registered q" using bound [of n] Turn(2) by simp
    show ?thesis
    proof (cases "completed q p")
      case True
      with Turn n show ?thesis by (intro down [of n]) (simp_all add: wait_turn_def)
    next
      case False
      have "(\<Sum>m<registered q. awake (calls q' m)) < (\<Sum>m<registered q. awake (calls q m))"
        by (rule sum_upd_less [OF n]) (use Turn False in \<open>simp_all add: wait_turn_def awake_def\<close>)
      moreover have "stage (calls q' m) = stage (calls q m)" for m
        using Turn False by (simp add: wait_turn_def)
      moreover have "registered q' = registered q" using Turn by (simp add: wait_turn_def)
      ultimately show ?thesis by (simp add: remaining_def)
    qed
  next
    case (Begin n k)
    then show ?thesis using bound [of n] by (intro down [of n]) (simp_all add: begin_operation_def)
  next
    case (End n k v)
    then show ?thesis using bound [of n] by (intro down [of n]) (simp_all add: end_operation_def)
  next
    case (Store n k)
    then show ?thesis using bound [of n] by (intro down [of n]) (simp_all add: finish_store_def)
  next
    case (Notify n k)
    then show ?thesis using bound [of n] by (intro down [of n]) (simp_all add: finish_notify_def)
  next
    case (Release n k)
    then show ?thesis using bound [of n] by (intro down [of n]) (simp_all add: release_tail_def)
  qed
qed

lemma stuck_returned:
  assumes inv: "queue_inv mutate fs q" and stuck: "\<And>q'. \<not> call_step mutate q q'" and n: "n < registered q"
  shows "\<exists>k. calls q n = Returned k"
  using n
proof (induction n rule: less_induct)
  case (less n)
  have order: "order_inv q" using inv by (simp add: queue_inv_def)
  with less.prems have "calls q n \<noteq> Unregistered" by (simp add: order_inv_def)
  moreover have "calls q n \<noteq> Sleeping k p" for k p
  proof
    assume sleeping: "calls q n = Sleeping k p"
    note p = order_inv_sleeper [OF order this]
    with less obtain k' where returned: "calls q p = Returned k'" by force
    have "past_store (calls q p) \<longrightarrow> calls q p = Notifying k"
      using inv sleeping unfolding queue_inv_def sleep_inv_def by blast
    with returned show False by simp
  qed
  ultimately show ?case using stuck by (cases "calls q n") (blast intro: call_step.intros)+
qed

text \<open>The queue always drains and leaks nothing: from any reachable state the registered calls,
  in any order of their steps and without help from new calls or spurious wake-ups, can take
  only finitely many steps; and a state in which none of them can move is one where every call
  has returned and the table of tails is empty. No wake-up is lost and no cycle of waits forms.\<close>

theorem queue_drains:
  assumes "queue_reachable mutate fs q"
  shows "(\<nexists>run. run 0 = q \<and> (\<forall>i. call_step mutate (run i) (run (Suc i)))) \<and>
     ((\<exists>q'. call_step mutate q q') \<or>
      (\<forall>n < registered q. \<exists>k. calls q n = Returned k) \<and> tails q = Map.empty)"
proof
  note inv = reachable_queue_inv [OF assms]
  show "\<nexists>run. run 0 = q \<and> (\<forall>i. call_step mutate (run i) (run (Suc i)))"
  proof
    assume "\<exists>run. run 0 = q \<and> (\<forall>i. call_step mutate (run i) (run (Suc i)))"
    then obtain run where run: "run 0 = q" "\<And>i. call_step mutate (run i) (run (Suc i))" by blast
    have "queue_inv mutate fs (run i)" for i
    proof (induction i)
      case (Suc i)
      from queue_inv_call [OF Suc run(2)] show ?case .
    qed (use inv run in simp)
    then have "(remaining (run (Suc i)), remaining (run i)) \<in> less_than <*lex*> less_than" for i
      using call_step_remaining [OF run(2)] by (simp add: queue_inv_def)
    moreover have "wf (less_than <*lex*> less_than)" by blast
    ultimately show False
      unfolding wf_iff_no_infinite_down_chain by (meson exI [of _ "\<lambda>i. remaining (run i)"])
  qed
  show "(\<exists>q'. call_step mutate q q') \<or>
      (\<forall>n < registered q. \<exists>k. calls q n = Returned k) \<and> tails q = Map.empty"
  proof (rule disjCI)
    assume "\<not> ((\<forall>n < registered q. \<exists>k. calls q n = Returned k) \<and> tails q = Map.empty)"
    moreover have "\<exists>k m. tails q k = Some m" if "tails q \<noteq> Map.empty"
      using that by (auto simp: fun_eq_iff)
    ultimately consider n where "n < registered q" "\<nexists>k. calls q n = Returned k" | k m where
      "\<forall>n < registered q. \<exists>k. calls q n = Returned k" "tails q k = Some m" by blast
    then show "\<exists>q'. call_step mutate q q'"
    proof cases
      case 1
      with stuck_returned [OF inv] show ?thesis by blast
    next
      case 2
      with inv have "key_at q m = Some k" "calls q m \<noteq> Returned k" by (auto simp: queue_inv_def tail_inv_def)
      moreover have "m < registered q"
        using inv \<open>key_at q m = Some k\<close> unfolding queue_inv_def order_inv_def
        by (metis not_le option.distinct(1) phase_key.simps(1))
      ultimately show ?thesis using 2(1) by fastforce
    qed
  qed
qed

section \<open>Applications\<close>

text \<open>Two calls on one file; the first has written, the second waits.\<close>

definition append_number :: "nat \<Rightarrow> nat list \<Rightarrow> nat list" where
  "append_number n v = v @ [n]"

definition sample_queue :: "(string, nat list) mutation_queue" where
  "sample_queue =
     end_operation append_number 0 ''a'' []
       (begin_operation 0 ''a''
         (snd (register (Inr ''a'') (snd (register (Inr ''a'') (queue_new (\<lambda>_. [])))))))"

lemma sample_reachable: "queue_reachable append_number (\<lambda>_. []) sample_queue"
proof -
  let ?q = "snd (register (Inr ''a'') (snd (register (Inr ''a'') (queue_new (\<lambda>_. [] :: nat list)))))"
  have q: "queue_reachable append_number (\<lambda>_. []) ?q"
    by (rule queue_reachable.Step [OF queue_reachable.Step [OF queue_reachable.Start Register] Register])
  have "calls ?q 0 = Ready ''a''" "files ?q ''a'' = []"
    by (simp_all add: register_def queue_new_def Let_def)
  then have "queue_step append_number ?q (begin_operation 0 ''a'' ?q)"
    "calls (begin_operation 0 ''a'' ?q) 0 = Operating ''a'' []"
    using Call [OF Begin [of ?q 0 "''a''" append_number]] by (simp_all add: begin_operation_def)
  then show ?thesis
    unfolding sample_queue_def by (blast intro: q queue_reachable.Step Call End)
qed

lemma mutations_run_in_order_witness:
  "files sample_queue ''a'' = [0] \<and> queue_order sample_queue ''a'' = [0, 1] \<and>
   (\<exists>j \<le> length (queue_order sample_queue ''a'').
     files sample_queue ''a'' = fold append_number (take j (queue_order sample_queue ''a'')) [] \<and>
     (\<forall>i < length (queue_order sample_queue ''a'').
        past_operation (calls sample_queue (queue_order sample_queue ''a'' ! i)) = (i < j) \<and>
        ((\<exists>v. calls sample_queue (queue_order sample_queue ''a'' ! i) = Operating ''a'' v) \<longrightarrow> i = j)))"
proof -
  have "files sample_queue ''a'' = [0]" "queue_order sample_queue ''a'' = [0, 1]"
    by (simp_all add: sample_queue_def queue_order_def end_operation_def begin_operation_def register_def
      queue_new_def Let_def append_number_def)
  with mutations_run_in_order [OF sample_reachable, of "''a''"] show ?thesis by blast
qed

lemma queue_drains_witness:
  "(\<nexists>run. run 0 = sample_queue \<and> (\<forall>i. call_step append_number (run i) (run (Suc i)))) \<and>
     ((\<exists>q'. call_step append_number sample_queue q') \<or>
      (\<forall>n < registered sample_queue. \<exists>k. calls sample_queue n = Returned k) \<and>
      tails sample_queue = Map.empty)"
  by (rule queue_drains [OF sample_reachable])

end
