(* ===== verification/SessionForest.thy ===== *)
theory SessionForest
  imports SessionStore "HOL-Library.Multiset"
begin

text \<open>
  The session as a tree (\<open>session/manager.rs\<close>, \<open>stable_sort\<close> and \<open>SessionManager::tree\<close>): an arena
  of nodes, one per entry in file order, each with the indexes of its children ordered by time.
  The sort is the bottom-up merge sort of the code, with a comparator that need not be an order;
  \<open>len\<close> and the two cursors of a merge are the lists still to be read. The reading of a
  floating-point time is the parameter \<open>clip\<close>.
\<close>

section \<open>The sort\<close>

fun merge_runs :: "('a \<Rightarrow> 'a \<Rightarrow> bool) \<Rightarrow> 'a list \<Rightarrow> 'a list \<Rightarrow> 'a list" where
  "merge_runs before (a # as) (b # bs) =
     (if before b a then b # merge_runs before (a # as) bs else a # merge_runs before as (b # bs))"
| "merge_runs before as [] = as"
| "merge_runs before [] bs = bs"

text \<open>One pass over runs of \<open>width\<close>, into the buffer.\<close>

function merge_pass :: "('a \<Rightarrow> 'a \<Rightarrow> bool) \<Rightarrow> nat \<Rightarrow> 'a list \<Rightarrow> 'a list" where
  "merge_pass before width xs =
     (if xs = [] \<or> width = 0 then []
      else merge_runs before (take width xs) (take width (drop width xs)) @
           merge_pass before width (drop (2 * width) xs))"
  by pat_completeness auto
termination by (relation "measure (\<lambda>(_, _, xs). length xs)") auto

function sort_passes :: "('a \<Rightarrow> 'a \<Rightarrow> bool) \<Rightarrow> nat \<Rightarrow> 'a list \<Rightarrow> 'a list" where
  "sort_passes before width xs =
     (if 0 < width \<and> width < length xs
      then sort_passes before (width * 2) (merge_pass before width xs) else xs)"
  by pat_completeness auto

declare merge_pass.simps [simp del]

lemma mset_merge_runs [simp]: "mset (merge_runs before as bs) = mset as + mset bs"
  by (induction before as bs rule: merge_runs.induct) auto

lemma mset_merge_pass: "0 < width \<Longrightarrow> mset (merge_pass before width xs) = mset xs"
proof (induction before width xs rule: merge_pass.induct)
  case (1 before width xs)
  show ?case
  proof (cases "xs = []")
    case False
    have "mset (take width xs) + (mset (take width (drop width xs)) + mset (drop (2 * width) xs)) = mset xs"
      by (metis append_take_drop_id drop_drop mset_append mult_2)
    with 1 False show ?thesis by (simp add: merge_pass.simps [of before width xs] add.assoc)
  qed (simp add: merge_pass.simps)
qed

lemma length_merge_pass [simp]: "0 < width \<Longrightarrow> length (merge_pass before width xs) = length xs"
  by (metis mset_merge_pass size_mset)

termination sort_passes
  by (relation "measure (\<lambda>(_, width, xs). length xs - width)") auto

declare sort_passes.simps [simp del]

definition stable_sort :: "('a \<Rightarrow> 'a \<Rightarrow> bool) \<Rightarrow> 'a list \<Rightarrow> 'a list" where
  "stable_sort before items = sort_passes before 1 items"

lemma mset_sort_passes: "mset (sort_passes before width xs) = mset xs"
  by (induction before width xs rule: sort_passes.induct) (subst sort_passes.simps, simp add: mset_merge_pass)

text \<open>Whatever the comparator, the sort permutes.\<close>

lemma mset_stable_sort [simp]: "mset (stable_sort before xs) = mset xs"
  by (simp add: stable_sort_def mset_sort_passes)

section \<open>The sort by a key is the stable sort by it\<close>

definition by_key :: "('a \<Rightarrow> 'k::linorder) \<Rightarrow> ('a \<Rightarrow> 'a \<Rightarrow> bool) \<Rightarrow> 'a set \<Rightarrow> bool" where
  "by_key f before A \<longleftrightarrow> (\<forall>a \<in> A. \<forall>b \<in> A. before a b \<longleftrightarrow> f a < f b)"

lemma by_key_mono: "by_key f before A \<Longrightarrow> B \<subseteq> A \<Longrightarrow> by_key f before B"
  by (auto simp: by_key_def)

lemma sorted_merge_runs:
  "by_key f before (set as \<union> set bs) \<Longrightarrow> sorted (map f as) \<Longrightarrow> sorted (map f bs) \<Longrightarrow>
     sorted (map f (merge_runs before as bs))"
proof (induction before as bs rule: merge_runs.induct)
  case (1 before a as b bs)
  have members: "set (merge_runs before xs ys) = set xs \<union> set ys" for xs ys
    by (metis mset_merge_runs set_mset_mset set_mset_union)
  show ?case
  proof (cases "before b a")
    case True
    with 1 show ?thesis by (auto simp: by_key_def members)
  next
    case False
    with 1 show ?thesis by (auto simp: by_key_def members)
  qed
qed simp_all

lemma filter_merge_runs:
  "by_key f before (set as \<union> set bs) \<Longrightarrow> sorted (map f as) \<Longrightarrow>
     filter (\<lambda>x. f x = k) (merge_runs before as bs) = filter (\<lambda>x. f x = k) as @ filter (\<lambda>x. f x = k) bs"
proof (induction before as bs rule: merge_runs.induct)
  case (1 before a as b bs)
  show ?case
  proof (cases "before b a")
    case True
    with "1.prems" have "f b < f x" if "x \<in> set (a # as)" for x
      using that by (auto simp: by_key_def)
    then have "f b = k \<Longrightarrow> filter (\<lambda>x. f x = k) (a # as) = []" by (fastforce simp: filter_empty_conv)
    moreover have "by_key f before (set (a # as) \<union> set bs)"
      using "1.prems"(1) by (rule by_key_mono) auto
    ultimately show ?thesis using True "1.IH"(1) "1.prems"(2) by (auto simp del: filter.simps simp: filter.simps(2) [of _ b])
  next
    case False
    moreover have "by_key f before (set as \<union> set (b # bs))"
      using "1.prems"(1) by (rule by_key_mono) auto
    ultimately show ?thesis using "1.IH"(2) "1.prems"(2) by simp
  qed
qed simp_all

text \<open>Every run of \<open>width\<close> is sorted.\<close>

function sorted_runs :: "('a \<Rightarrow> 'k::linorder) \<Rightarrow> nat \<Rightarrow> 'a list \<Rightarrow> bool" where
  "sorted_runs f width xs \<longleftrightarrow>
     (if xs = [] \<or> width = 0 then True
      else sorted (map f (take width xs)) \<and> sorted_runs f width (drop width xs))"
  by pat_completeness auto
termination by (relation "measure (\<lambda>(_, _, xs). length xs)") auto

declare sorted_runs.simps [simp del]

lemma sorted_runs_Nil [simp]: "sorted_runs f width []"
  by (subst sorted_runs.simps) simp

lemma merge_pass_Nil [simp]: "merge_pass before width [] = []"
  by (subst merge_pass.simps) simp

lemma sorted_runs_take: "0 < width \<Longrightarrow> sorted_runs f width xs \<Longrightarrow> sorted (map f (take width xs))"
  by (cases "xs = []") (simp, subst (asm) sorted_runs.simps, simp)

lemma sorted_runs_drop: "0 < width \<Longrightarrow> sorted_runs f width xs \<Longrightarrow> sorted_runs f width (drop width xs)"
  by (cases "xs = []") (simp, subst (asm) sorted_runs.simps, simp)

lemma sorted_runs_one: "sorted_runs f 1 xs"
proof (induction xs)
  case (Cons x xs)
  then show ?case by (subst sorted_runs.simps) simp
qed simp

lemma merge_pass_runs:
  assumes "0 < width" and "by_key f before (set xs)" and "sorted_runs f width xs"
  shows "sorted_runs f (2 * width) (merge_pass before width xs) \<and>
     filter (\<lambda>x. f x = k) (merge_pass before width xs) = filter (\<lambda>x. f x = k) xs"
  using assms
proof (induction before width xs rule: merge_pass.induct)
  case (1 before width xs)
  show ?case
  proof (cases "xs = []")
    case False
    let ?a = "take width xs" and ?b = "take width (drop width xs)" and ?r = "drop (2 * width) xs"
    have xs: "xs = ?a @ ?b @ ?r" by (metis append_take_drop_id drop_drop mult_2)
    have pass: "merge_pass before width xs = merge_runs before ?a ?b @ merge_pass before width ?r"
      using False 1(2) by (simp add: merge_pass.simps [of before width xs])
    have sorted: "sorted (map f ?a)" "sorted (map f ?b)" "sorted_runs f width ?r"
      using 1(2,4) sorted_runs_take sorted_runs_drop by (metis drop_drop mult_2)+
    have key: "by_key f before (set ?a \<union> set ?b)" "by_key f before (set ?r)"
      using 1(3) by (auto elim!: by_key_mono dest: in_set_takeD in_set_dropD)
    have ih: "sorted_runs f (2 * width) (merge_pass before width ?r)"
      "filter (\<lambda>x. f x = k) (merge_pass before width ?r) = filter (\<lambda>x. f x = k) ?r"
      using 1(1) [OF _ 1(2) key(2) sorted(3)] False 1(2) by auto
    let ?m = "merge_runs before ?a ?b"
    have size: "length ?m = min (2 * width) (length xs)"
    proof -
      have "length ?m = length ?a + length ?b" by (metis mset_merge_runs size_mset size_union)
      then show ?thesis by simp
    qed
    have "take (2 * width) (?m @ merge_pass before width ?r) = ?m"
    proof (cases "length xs \<le> 2 * width")
      case True
      then show ?thesis using size by simp
    qed (simp add: size)
    moreover have "drop (2 * width) (?m @ merge_pass before width ?r) = merge_pass before width ?r"
    proof (cases "length xs \<le> 2 * width")
      case True
      then show ?thesis using size by simp
    qed (simp add: size)
    moreover have "sorted (map f ?m)" by (rule sorted_merge_runs [OF key(1) sorted(1,2)])
    ultimately have "sorted_runs f (2 * width) (merge_pass before width xs)"
      unfolding pass using ih(1) by (subst sorted_runs.simps) simp
    moreover have "filter (\<lambda>x. f x = k) (merge_pass before width xs) = filter (\<lambda>x. f x = k) xs"
      unfolding pass filter_append filter_merge_runs [OF key(1) sorted(1)] ih(2)
      by (subst (4) xs) simp
    ultimately show ?thesis ..
  qed simp
qed

lemma sort_passes_sorted:
  assumes "0 < width" and "by_key f before (set xs)" and "sorted_runs f width xs"
  shows "sorted (map f (sort_passes before width xs)) \<and>
     filter (\<lambda>x. f x = k) (sort_passes before width xs) = filter (\<lambda>x. f x = k) xs"
  using assms
proof (induction before width xs rule: sort_passes.induct)
  case (1 before width xs)
  show ?case
  proof (cases "width < length xs")
    case True
    note pass = merge_pass_runs [OF 1(2-4)]
    have "set (merge_pass before width xs) = set xs" using mset_merge_pass [OF 1(2)] by (metis set_mset_mset)
    with 1 True pass show ?thesis by (simp add: sort_passes.simps [of before width xs] mult.commute)
  next
    case False
    then have "sort_passes before width xs = xs" by (simp add: sort_passes.simps)
    moreover have "sorted (map f xs)" using sorted_runs_take [OF 1(2,4)] False by simp
    ultimately show ?thesis by simp
  qed
qed

lemma stable_sort_by_key:
  assumes "by_key f before (set xs)" shows "stable_sort before xs = sort_key f xs"
proof (rule properties_for_sort_key [symmetric])
  note sorted = sort_passes_sorted [OF _ assms sorted_runs_one, folded stable_sort_def]
  then show "sorted (map f (stable_sort before xs))" by simp
  fix k
  show "filter (\<lambda>x. f k = f x) (stable_sort before xs) = filter (\<lambda>x. f k = f x) xs"
    using sorted [of "f k"] by (simp add: eq_commute)
qed simp

section \<open>The tree\<close>

record tree_node =
  node_entry :: session_entry
  node_children :: "nat list"
  node_label :: "string option"
  node_label_time :: "string option"

record session_tree =
  tree_nodes :: "tree_node list"
  tree_roots :: "nat list"

definition node_of :: "session_entry list \<Rightarrow> string \<rightharpoonup> nat" where
  "node_of es = fold (\<lambda>(index, e) m. m(entry_id e \<mapsto> index)) (enumerate 0 es) Map.empty"

definition parent_node :: "session_entry list \<Rightarrow> session_entry \<Rightarrow> nat option" where
  "parent_node es e =
     (case parent_id e of
        None \<Rightarrow> None
      | Some p \<Rightarrow> if p \<noteq> entry_id e then node_of es p else None)"

definition link_entry ::
  "session_entry list \<Rightarrow> nat \<times> session_entry \<Rightarrow> tree_node list \<times> nat list \<Rightarrow> tree_node list \<times> nat list" where
  "link_entry es = (\<lambda>(index, e) (nodes, roots).
     (case Option.bind (parent_node es e) (\<lambda>p. if p < length nodes then Some p else None) of
        Some p \<Rightarrow> (nodes[p := (nodes ! p)\<lparr>node_children := node_children (nodes ! p) @ [index]\<rparr>], roots)
      | None \<Rightarrow> (nodes, roots @ [index])))"

definition entry_time :: "(number \<Rightarrow> int option) \<Rightarrow> session_entry list \<Rightarrow> nat \<Rightarrow> int option" where
  "entry_time clip es index =
     (if index < length es then js_date_ms clip (entry_get (es ! index) ''timestamp'') else None)"

definition time_before :: "(nat \<Rightarrow> int option) \<Rightarrow> nat \<Rightarrow> nat \<Rightarrow> bool" where
  "time_before time a b = (case (time a, time b) of (Some x, Some y) \<Rightarrow> x < y | _ \<Rightarrow> False)"

definition session_tree_of :: "(number \<Rightarrow> int option) \<Rightarrow> session_manager \<Rightarrow> session_tree" where
  "session_tree_of clip s =
     (let es = entries s;
          nodes = map (\<lambda>e. \<lparr>node_entry = e, node_children = [], node_label = map_of (labels_by_id s) (entry_id e),
                            node_label_time = map_of (label_timestamps_by_id s) (entry_id e)\<rparr>) es;
          (nodes, roots) = fold (link_entry es) (enumerate 0 es) (nodes, [])
      in \<lparr>tree_nodes = map (\<lambda>n. n\<lparr>node_children :=
                               stable_sort (time_before (entry_time clip es)) (node_children n)\<rparr>) nodes,
          tree_roots = roots\<rparr>)"

definition tree_node_at :: "session_tree \<Rightarrow> nat \<Rightarrow> tree_node option" where
  "tree_node_at t index = (if index < length (tree_nodes t) then Some (tree_nodes t ! index) else None)"

definition root_nodes :: "session_tree \<Rightarrow> tree_node list" where
  "root_nodes t = List.map_filter (tree_node_at t) (tree_roots t)"

definition child_nodes :: "session_tree \<Rightarrow> tree_node \<Rightarrow> tree_node list" where
  "child_nodes t n = List.map_filter (tree_node_at t) (node_children n)"

definition find_node :: "session_tree \<Rightarrow> string \<Rightarrow> tree_node option" where
  "find_node t i = find (\<lambda>n. entry_id (node_entry n) = i) (tree_nodes t)"

lemma enumerate_snoc: "enumerate n (es @ [e]) = enumerate n es @ [(n + length es, e)]"
  by (simp add: enumerate_append_eq)

lemma node_of_Nil [simp]: "node_of [] = Map.empty"
  by (simp add: node_of_def)

lemma node_of_snoc: "node_of (es @ [e]) = (node_of es)(entry_id e \<mapsto> length es)"
  by (simp add: node_of_def enumerate_snoc)

lemma node_of_bound: "node_of es i = Some j \<Longrightarrow> j < length es \<and> entry_id (es ! j) = i"
proof (induction es arbitrary: j rule: rev_induct)
  case (snoc e es)
  then show ?case by (fastforce simp: node_of_snoc nth_append split: if_splits)
qed simp

lemma node_of_None: "node_of es i = None \<longleftrightarrow> i \<notin> entry_id ` set es"
  by (induction es rule: rev_induct) (auto simp: node_of_snoc)

lemma parent_node_bound: "parent_node es e = Some j \<Longrightarrow> j < length es"
  by (auto simp: parent_node_def dest: node_of_bound split: option.splits if_splits)

text \<open>After linking the first \<open>m\<close> entries.\<close>

lemma link_entries:
  fixes es :: "session_entry list" and nodes :: "tree_node list"
  assumes "length nodes = length es" and "\<And>n. n \<in> set nodes \<Longrightarrow> node_children n = []" and "m \<le> length es"
  shows "fold (link_entry es) (take m (enumerate 0 es)) (nodes, []) =
     (map (\<lambda>j. (nodes ! j)\<lparr>node_children := filter (\<lambda>i. parent_node es (es ! i) = Some j) [0..<m]\<rparr>)
        [0..<length es],
      filter (\<lambda>i. parent_node es (es ! i) = None) [0..<m])"
  using assms(3)
proof (induction m)
  case 0
  have "(nodes ! j)\<lparr>node_children := []\<rparr> = nodes ! j" if "j < length es" for j
    using assms(1,2) that by (metis (mono_tags, lifting) nth_mem tree_node.surjective tree_node.update_convs(2))
  then have "map (\<lambda>j. (nodes ! j)\<lparr>node_children := []\<rparr>) [0..<length es] = nodes"
    using assms(1) by (intro nth_equalityI) simp_all
  then show ?case by simp
next
  case (Suc m)
  then have m: "m < length es" by simp
  then have step: "take (Suc m) (enumerate 0 es) = take m (enumerate 0 es) @ [(m, es ! m)]"
    by (simp add: take_Suc_conv_app_nth nth_enumerate_eq)
  show ?case
  proof (cases "parent_node es (es ! m)")
    case None
    with Suc m show ?thesis unfolding step by (simp add: link_entry_def)
  next
    case (Some p)
    with parent_node_bound have p: "p < length es" by blast
    with Some Suc m show ?thesis
      unfolding step by (auto simp: link_entry_def intro!: nth_equalityI simp: nth_list_update)
  qed
qed

lemma time_before_key:
  assumes "\<And>i. i \<in> A \<Longrightarrow> time i \<noteq> None"
  shows "by_key (\<lambda>i. the (time i)) (time_before time) A"
  unfolding by_key_def time_before_def using assms by (fastforce split: option.splits)


section \<open>Application\<close>

definition dated_line :: "string \<Rightarrow> json \<Rightarrow> string \<Rightarrow> session_entry" where
  "dated_line i p d =
     \<lparr>entry_id = i, raw = [(''type'', JString ''label''), (''id'', JString i), (''parentId'', p), (''timestamp'', JString d)]\<rparr>"

text \<open>Two children of \<open>a\<close>, the younger first in the file.\<close>

definition sample_forest :: session_manager where
  "sample_forest =
     \<lparr>persist = False, flushed = False, has_file = False,
      file_entries = Header [] # map Entry
        [dated_line ''a'' JNull ''2026-01-01T00:00:00.000Z'',
         dated_line ''b'' (JString ''a'') ''2026-01-03T00:00:00.000Z'',
         dated_line ''c'' (JString ''a'') ''2026-01-02T00:00:00.000Z''],
      by_id = [], labels_by_id = [], label_timestamps_by_id = [], leaf_id = None, disk = []\<rparr>"


end
