(* ===== verification/SessionUuid.thy ===== *)
theory SessionUuid
  imports SessionStore Version
begin

text \<open>
  Session ids (\<open>session/id.rs\<close>, \<open>uuid_v7\<close>): UUIDs of version 7 whose order is the order of their
  making. The process-wide state is \<open>v7_state\<close>; the clock and the sixteen random bytes of a call
  are its arguments. The sequence is a \<open>u64\<close> and every byte a \<open>u8\<close>, with the shifts, masks and
  truncating casts of the code; the timestamp, an \<open>i64\<close>, is an integer.
\<close>

section \<open>The generator\<close>

record v7_state =
  last_timestamp :: int
  v7_sequence :: "64 word option"

definition v7_initial :: v7_state where
  "v7_initial = \<lparr>last_timestamp = -1, v7_sequence = None\<rparr>"

definition max_uuid_v7_timestamp :: int where "max_uuid_v7_timestamp = 0xffffffffffff"

definition max_sequence :: "64 word" where "max_sequence = push_bit 41 1 - 1"

definition v7_seed :: "8 word list \<Rightarrow> 64 word" where
  "v7_seed bytes =
     push_bit 32 (ucast (bytes ! 1)) OR push_bit 24 (ucast (bytes ! 2)) OR
     push_bit 16 (ucast (bytes ! 3)) OR push_bit 8 (ucast (bytes ! 4)) OR ucast (bytes ! 5)"

text \<open>What happens under the lock.\<close>

definition v7_advance :: "int \<Rightarrow> 8 word list \<Rightarrow> v7_state \<Rightarrow> v7_state" where
  "v7_advance now bytes st =
     (let requested = max 0 (min now max_uuid_v7_timestamp);
          timestamp = max requested (last_timestamp st);
          next = (case v7_sequence st of
                    Some q \<Rightarrow> if q < max_sequence then q + 1 else v7_seed bytes
                  | None \<Rightarrow> v7_seed bytes)
      in \<lparr>last_timestamp = timestamp, v7_sequence = Some next\<rparr>)"

definition v7_bytes :: "64 word \<Rightarrow> 64 word \<Rightarrow> 8 word list \<Rightarrow> 8 word list" where
  "v7_bytes t q bytes =
     (map (\<lambda>i. ucast (drop_bit ((5 - i) * 8) t)) [0..<6] @ drop 6 bytes)
       [6 := 0x70 OR ucast (drop_bit 37 q AND 0x0f),
        7 := ucast (drop_bit 29 q AND 0xff),
        8 := 0x80 OR ucast (drop_bit 23 q AND 0x3f),
        9 := ucast (drop_bit 15 q AND 0xff),
        10 := ucast (drop_bit 7 q AND 0xff),
        11 := ucast (push_bit 1 (q AND 0x7f)) OR (bytes ! 11 AND 0x01)]"

definition uuid_v7 :: "int \<Rightarrow> 8 word list \<Rightarrow> v7_state \<Rightarrow> string \<times> v7_state" where
  "uuid_v7 now bytes st =
     (let st' = v7_advance now bytes st;
          t = (if last_timestamp st' < 0 then 0 else word_of_int (last_timestamp st'));
          q = the (v7_sequence st')
      in (format_uuid (v7_bytes t q bytes), st'))"

text \<open>The ids of a run of calls, each with its clock and its random bytes.\<close>

fun uuids :: "(int \<times> 8 word list) list \<Rightarrow> v7_state \<Rightarrow> string list" where
  "uuids [] st = []"
| "uuids ((now, bytes) # calls) st =
     (let (u, st') = uuid_v7 now bytes st in u # uuids calls st')"

section \<open>The texts compare as the bytes do\<close>

lemma lex_cmp_same [simp]: "(\<And>a. c a a = Equal) \<Longrightarrow> lex_cmp c xs xs = Equal"
  by (induction xs) simp_all

lemma lex_cmp_append:
  "length xs = length ys \<Longrightarrow> lex_cmp c (xs @ us) (ys @ vs) = then_cmp (lex_cmp c xs ys) (lex_cmp c us vs)"
proof (induction xs ys rule: list_induct2)
  case (Cons x xs y ys)
  then show ?case by (cases "c x y") simp_all
qed simp

lemma hex_digit_byte:
  assumes "d < 16" shows "(of_char (hex_digit d) :: nat) = (if d < 10 then 48 + d else 87 + d)"
proof -
  have "\<forall>d \<in> set [0..<16]. (of_char (hex_digit d) :: nat) = (if d < 10 then 48 + d else 87 + d)"
    by code_simp
  with assms show ?thesis by simp
qed

lemma hex_byte_less:
  assumes "unat a < unat b" shows "lex_cmp cmp_byte (hex_byte a) (hex_byte b) = Less"
proof -
  have digit: "cmp_byte (hex_digit d) (hex_digit e) = cmp_of d e" if "d < 16" "e < 16" for d e
    using that by (auto simp: cmp_byte_def hex_digit_byte cmp_of_def)
  have bound: "unat c div 16 < 16" for c :: "8 word"
  proof -
    have "unat c < 2 ^ LENGTH(8)" by (rule unsigned_less)
    then show ?thesis by simp
  qed
  have "unat a div 16 < unat b div 16 \<or> unat a div 16 = unat b div 16 \<and> unat a mod 16 < unat b mod 16"
    using assms by (metis div_le_mono less_imp_le le_neq_implies_less div_mult_mod_eq nat_add_left_cancel_less)
  then show ?thesis by (auto simp: hex_byte_def digit bound then_cmp_Less)
qed

fun dashed :: "nat \<Rightarrow> 8 word list \<Rightarrow> string" where
  "dashed i [] = []"
| "dashed i (b # bs) = hex_byte b @ (if i \<in> {3, 5, 7, 9} then ''-'' else []) @ dashed (i + 1) bs"

lemma dashed_less:
  "length xs = length ys \<Longrightarrow> lex_cmp cmp_of (map unat xs) (map unat ys) = Less \<Longrightarrow>
     lex_cmp cmp_byte (dashed i xs) (dashed i ys) = Less"
proof (induction xs ys arbitrary: i rule: list_induct2)
  case (Cons x xs y ys)
  have byte: "cmp_byte c c = Equal" for c by (simp add: cmp_byte_def)
  have "length (hex_byte x) = length (hex_byte y)" by (simp add: hex_byte_def)
  note blocks = lex_cmp_append [OF this]
  from Cons.prems have "unat x < unat y \<or> unat x = unat y \<and> lex_cmp cmp_of (map unat xs) (map unat ys) = Less"
    by (simp add: then_cmp_Less)
  then show ?case
  proof
    assume "unat x < unat y"
    then show ?thesis by (simp add: blocks hex_byte_less then_cmp_Less)
  next
    assume *: "unat x = unat y \<and> lex_cmp cmp_of (map unat xs) (map unat ys) = Less"
    then have "x = y" by (simp add: word_unat_eq_iff)
    with * Cons.IH [of "i + 1"] show ?thesis by (simp add: blocks lex_cmp_append then_cmp_Less byte)
  qed
qed simp

lemma format_uuid_dashed:
  assumes "length bs = 16" shows "format_uuid bs = dashed 0 bs"
proof -
  obtain a b c d e f g h i j k l m n p q where "bs = [a, b, c, d, e, f, g, h, i, j, k, l, m, n, p, q]"
    using assms by (auto simp: length_Suc_conv numeral_eq_Suc)
  then show ?thesis by (simp add: format_uuid_def hex_def)
qed

section \<open>The bytes compare as timestamp and sequence do\<close>

fun radix_digits :: "nat list \<Rightarrow> nat \<Rightarrow> nat list" where
  "radix_digits [] n = []"
| "radix_digits (r # rs) n = n div prod_list rs # radix_digits rs (n mod prod_list rs)"

lemma radix_digits_less:
  "n < m \<Longrightarrow> m < prod_list rs \<Longrightarrow> lex_cmp cmp_of (radix_digits rs n) (radix_digits rs m) = Less"
proof (induction rs arbitrary: n m)
  case (Cons r rs)
  let ?p = "prod_list rs"
  have p: "0 < ?p" using Cons.prems(2) by (cases "?p = 0") auto
  have "n div ?p < m div ?p \<or> n div ?p = m div ?p \<and> n mod ?p < m mod ?p"
    using Cons.prems(1) by (metis div_le_mono less_imp_le le_neq_implies_less div_mult_mod_eq nat_add_left_cancel_less)
  then show ?case using Cons.IH [of "n mod ?p" "m mod ?p"] p by (auto simp: then_cmp_Less)
qed simp

lemma unat_byte: "unat (ucast x :: 8 word) = unat x mod 256" for x :: "64 word"
  by (simp add: unsigned_ucast_eq take_bit_eq_mod)

lemma unat_digit: "unat (ucast (drop_bit k q AND 2 ^ w - 1) :: 8 word) = unat q div 2 ^ k mod 2 ^ w"
  if "w \<le> 8" "(2 ^ w - 1 :: 64 word) = mask w" for q :: "64 word"
proof -
  have "unat (ucast (drop_bit k q AND mask w) :: 8 word) = take_bit w (take_bit 8 (drop_bit k (unat q)))"
    by (simp add: unsigned_ucast_eq unat_drop_bit_eq take_bit_eq_mask [symmetric] unsigned_take_bit_eq
      del: take_bit_take_bit)
  also have "\<dots> = unat q div 2 ^ k mod 2 ^ w"
  proof -
    have "take_bit w (take_bit 8 n) = take_bit w n" for n :: nat using that(1) by (simp add: min_absorb1)
    then show ?thesis by (simp only: take_bit_eq_mod drop_bit_eq_div)
  qed
  finally show ?thesis using that(2) by simp
qed

lemma unat_or: "unat (a OR b) = unat a OR unat b" for a b :: "8 word"
  by (rule unsigned_or_eq)

lemma or_disjoint:
  fixes n m :: nat
  shows "n < 16 \<Longrightarrow> 112 OR n = 112 + n" and "n < 64 \<Longrightarrow> 128 OR n = 128 + n"
    and "n < 128 \<Longrightarrow> m < 2 \<Longrightarrow> 2 * n OR m = 2 * n + m"
proof -
  have "\<forall>n \<in> set [0..<16]. (112 :: nat) OR n = 112 + n" by code_simp
  then show "n < 16 \<Longrightarrow> 112 OR n = 112 + n" by simp
  have "\<forall>n \<in> set [0..<64]. (128 :: nat) OR n = 128 + n" by code_simp
  then show "n < 64 \<Longrightarrow> 128 OR n = 128 + n" by simp
  have "m = 0 \<or> m = 1" if "m < 2" using that by auto
  moreover have "2 * n OR 1 = 2 * n + 1" by (simp add: or_Suc_0_eq)
  ultimately show "n < 128 \<Longrightarrow> m < 2 \<Longrightarrow> 2 * n OR m = 2 * n + m" by auto
qed

lemma unat_low_bits: "unat (ucast (push_bit 1 (q AND 0x7f)) :: 8 word) = 2 * (unat q mod 128)" for q :: "64 word"
proof -
  have "q AND 0x7f = take_bit 7 q" by (simp add: take_bit_eq_mask mask_eq_exp_minus_1)
  moreover have "unat (push_bit 1 x) = take_bit LENGTH(64) (push_bit 1 (unat x))" for x :: "64 word"
    by (rule unsigned_push_bit_eq)
  ultimately have "unat (ucast (push_bit 1 (q AND 0x7f)) :: 8 word) =
      take_bit 8 (take_bit 64 (push_bit 1 (take_bit 7 (unat q))))"
    by (simp only: unsigned_ucast_eq unsigned_take_bit_eq) simp
  also have "\<dots> = 2 * (unat q mod 128)" by (simp add: take_bit_eq_mod push_bit_eq_mult)
  finally show ?thesis .
qed

text \<open>The first twelve bytes: the digits of the timestamp, and those of the sequence with the version, the
  variant and one random bit around them.\<close>

lemma v7_bytes_digits:
  assumes "length bytes = 16" and "unat t < 2 ^ 48" and "unat q < 2 ^ 41"
  shows "map unat (v7_bytes t q bytes) =
     radix_digits [256, 256, 256, 256, 256, 256] (unat t) @
     (case radix_digits [16, 256, 64, 256, 256, 128] (unat q) of
        [a, b, c, d, e, f] \<Rightarrow> [112 + a, b, 128 + c, d, e, 2 * f + unat (bytes ! 11) mod 2]) @
     map unat (drop 12 bytes)"
proof -
  obtain a b c d e f g h i j k l m n p r where bytes: "bytes = [a, b, c, d, e, f, g, h, i, j, k, l, m, n, p, r]"
    using assms(1) by (auto simp: length_Suc_conv numeral_eq_Suc)
  have time: "unat (ucast (drop_bit w t) :: 8 word) = unat t div 2 ^ w mod 256" for w
    by (simp only: unat_byte unat_drop_bit_eq) (simp only: drop_bit_eq_div)
  note mask = mask_eq_exp_minus_1
  have q0: "unat (0x70 OR ucast (drop_bit 37 q AND 0x0f) :: 8 word) = 112 + unat q div 2 ^ 37 mod 16"
    using unat_digit [of 4 37 q] by (simp add: unat_or or_disjoint mask)
  have q1: "unat (ucast (drop_bit 29 q AND 0xff) :: 8 word) = unat q div 2 ^ 29 mod 256"
    "unat (ucast (drop_bit 15 q AND 0xff) :: 8 word) = unat q div 2 ^ 15 mod 256"
    "unat (ucast (drop_bit 7 q AND 0xff) :: 8 word) = unat q div 2 ^ 7 mod 256"
    using unat_digit [of 8 29 q] unat_digit [of 8 15 q] unat_digit [of 8 7 q] by (simp_all add: mask)
  have q2: "unat (0x80 OR ucast (drop_bit 23 q AND 0x3f) :: 8 word) = 128 + unat q div 2 ^ 23 mod 64"
    using unat_digit [of 6 23 q] by (simp add: unat_or or_disjoint mask)
  have "unat (l AND 1) = unat l mod 2" by (simp add: and_one_eq unat_mod_distrib)
  then have q5: "unat (ucast (push_bit 1 (q AND 0x7f)) OR (l AND 1)) = 2 * (unat q mod 128) + unat l mod 2"
    by (simp only: unat_or unat_low_bits) (rule or_disjoint(3), simp_all)
  have digit: "x mod (y * z) div y = x div y mod z" for x y z :: nat
    by (cases "y = 0") (simp_all add: mod_mult2_eq)
  note digits = digit [of _ "2 ^ 32" 256, simplified] digit [of _ "2 ^ 24" 256, simplified]
    digit [of _ "2 ^ 16" 256, simplified] digit [of _ "2 ^ 8" 256, simplified]
    digit [of _ "2 ^ 29" 256, simplified] digit [of _ "2 ^ 23" 64, simplified]
    digit [of _ "2 ^ 15" 256, simplified] digit [of _ "2 ^ 7" 256, simplified]
  have bytes': "v7_bytes t q bytes = [ucast (drop_bit 40 t), ucast (drop_bit 32 t), ucast (drop_bit 24 t),
      ucast (drop_bit 16 t), ucast (drop_bit 8 t), ucast (drop_bit 0 t),
      0x70 OR ucast (drop_bit 37 q AND 0x0f), ucast (drop_bit 29 q AND 0xff),
      0x80 OR ucast (drop_bit 23 q AND 0x3f), ucast (drop_bit 15 q AND 0xff),
      ucast (drop_bit 7 q AND 0xff), ucast (push_bit 1 (q AND 0x7f)) OR (l AND 1), m, n, p, r]"
    by (simp add: v7_bytes_def bytes upt_rec)
  show ?thesis
    unfolding bytes' list.map time q0 q1 q2 q5
    using assms(2,3) by (simp add: bytes mod_mod_cancel digits)
qed

definition v7_less :: "8 word list \<Rightarrow> 8 word list \<Rightarrow> bool" where
  "v7_less a b \<longleftrightarrow> lex_cmp cmp_of (map unat a) (map unat b) = Less"

lemma length_v7_bytes [simp]: "length bytes = 16 \<Longrightarrow> length (v7_bytes t q bytes) = 16"
  by (simp add: v7_bytes_def)

lemma length_radix_digits [simp]: "length (radix_digits rs n) = length rs"
  by (induction rs arbitrary: n) simp_all

lemma v7_bytes_less:
  assumes "length bytes = 16" and "length bytes' = 16" and "unat q < unat q'" and "unat q' < 2 ^ 41"
    and "unat t \<le> unat t'" and "unat t' < 2 ^ 48"
  shows "v7_less (v7_bytes t q bytes) (v7_bytes t' q' bytes')"
proof -
  let ?ts = "[256, 256, 256, 256, 256, 256] :: nat list" and ?qs = "[16, 256, 64, 256, 256, 128] :: nat list"
  obtain a b c d e f where q: "radix_digits ?qs (unat q) = [a, b, c, d, e, f]" by simp
  obtain a' b' c' d' e' f' where q': "radix_digits ?qs (unat q') = [a', b', c', d', e', f']" by simp
  have "unat q' < prod_list ?qs" using assms(4) by simp
  from radix_digits_less [OF assms(3) this] have digits: "lex_cmp cmp_of [a, b, c, d, e, f] [a', b', c', d', e', f'] = Less"
    unfolding q q' .
  have time: "lex_cmp cmp_of (radix_digits ?ts (unat t)) (radix_digits ?ts (unat t')) = Less \<or> unat t = unat t'"
  proof (cases "unat t = unat t'")
    case False
    moreover have "unat t' < prod_list ?ts" using assms(6) by simp
    ultimately show ?thesis using assms(5) by (intro disjI1 radix_digits_less) simp_all
  qed simp
  let ?r = "unat (bytes ! 11) mod 2" and ?r' = "unat (bytes' ! 11) mod 2"
  have "2 * f + ?r < 2 * f' + ?r'" if "f < f'" using that by presburger
  with digits have "lex_cmp cmp_of [112 + a, b, 128 + c, d, e, 2 * f + ?r] [112 + a', b', 128 + c', d', e', 2 * f' + ?r'] = Less"
    by (auto simp: then_cmp_Less)
  moreover have "unat t < 2 ^ 48" "unat q < 2 ^ 41" using assms by simp_all
  note bytes = v7_bytes_digits [OF assms(1) this] v7_bytes_digits [OF assms(2,6,4)]
  ultimately show ?thesis
    unfolding v7_less_def bytes q q' using time
    by (auto simp: lex_cmp_append then_cmp_Less simp del: radix_digits.simps)
qed

lemma format_uuid_less:
  assumes "length a = 16" and "length b = 16" and "v7_less a b"
  shows "cmp_text (format_uuid a) (format_uuid b) = Less"
  using dashed_less [of a b 0] assms by (simp add: format_uuid_dashed cmp_text_def v7_less_def)

section \<open>A run of calls\<close>

lemma unat_max_sequence: "unat max_sequence = 2 ^ 41 - 1"
  by (simp add: max_sequence_def)

lemma shifted_byte:
  fixes b :: "8 word"
  assumes "k \<le> 32" shows "take_bit 40 (push_bit k (ucast b)) = (push_bit k (ucast b) :: 64 word)"
proof (rule bit_eqI)
  fix n
  have "m < 8" if "bit b m" for m using bit_imp_le_length [OF that] by simp
  from this [of "n - k"] assms show "bit (take_bit 40 (push_bit k (ucast b)) :: 64 word) n \<longleftrightarrow>
      bit (push_bit k (ucast b) :: 64 word) n"
    by (auto simp: bit_simps)
qed

lemma v7_seed_bound: "unat (v7_seed bytes) < 2 ^ 40"
proof -
  have "take_bit 40 (v7_seed bytes) = v7_seed bytes"
    using shifted_byte [of 0 "bytes ! 5"]
    by (simp add: v7_seed_def shifted_byte take_bit_or del: push_bit_of_0 take_bit_push_bit)
  then have "unat (v7_seed bytes) = take_bit 40 (unat (v7_seed bytes))"
    by (metis unsigned_take_bit_eq)
  then show ?thesis by (metis take_bit_nat_less_exp)
qed

text \<open>\<open>n\<close> ids can still be made before the sequence ends.\<close>

definition v7_room :: "nat \<Rightarrow> v7_state \<Rightarrow> bool" where
  "v7_room n st \<longleftrightarrow> last_timestamp st \<le> max_uuid_v7_timestamp \<and>
     (case v7_sequence st of None \<Rightarrow> n \<le> 2 ^ 40 | Some q \<Rightarrow> unat q + n \<le> unat max_sequence)"

lemma v7_advance_facts:
  fixes now :: int and bytes :: "8 word list"
  assumes "v7_room (Suc n) st"
  defines "st' \<equiv> v7_advance now bytes st"
  shows "v7_room n st'" and "0 \<le> last_timestamp st'" and "last_timestamp st \<le> last_timestamp st'"
    and "\<exists>q. v7_sequence st' = Some q \<and> unat q < 2 ^ 41 \<and> (\<forall>p. v7_sequence st = Some p \<longrightarrow> unat p < unat q)"
proof -
  show "0 \<le> last_timestamp st'" "last_timestamp st \<le> last_timestamp st'"
    by (simp_all add: st'_def v7_advance_def)
  have last: "last_timestamp st' \<le> max_uuid_v7_timestamp"
    using assms(1) by (simp add: st'_def v7_advance_def v7_room_def max_uuid_v7_timestamp_def)
  have "v7_room n st' \<and> (\<exists>q. v7_sequence st' = Some q \<and> unat q < 2 ^ 41 \<and>
      (\<forall>p. v7_sequence st = Some p \<longrightarrow> unat p < unat q))"
  proof (cases "v7_sequence st")
    case None
    with assms(1) last v7_seed_bound [of bytes] show ?thesis
      by (simp add: st'_def v7_advance_def v7_room_def unat_max_sequence)
  next
    case (Some p)
    with assms(1) have room: "unat p + Suc n \<le> unat max_sequence" by (simp add: v7_room_def)
    then have "p < max_sequence" by (simp add: word_less_nat_alt)
    moreover from this have "unat (p + 1) = unat p + 1"
      using room by (simp add: unat_word_ariths unat_max_sequence)
    ultimately show ?thesis
      using Some room last by (simp add: st'_def v7_advance_def v7_room_def unat_max_sequence)
  qed
  then show "v7_room n st'" "\<exists>q. v7_sequence st' = Some q \<and> unat q < 2 ^ 41 \<and>
      (\<forall>p. v7_sequence st = Some p \<longrightarrow> unat p < unat q)" by blast+
qed

text \<open>What an id made after timestamp \<open>since\<close> and sequence \<open>p\<close> is.\<close>

definition made_after :: "int \<Rightarrow> nat option \<Rightarrow> string \<Rightarrow> bool" where
  "made_after since p u \<longleftrightarrow> (\<exists>t q bytes. u = format_uuid (v7_bytes t q bytes) \<and> length bytes = 16 \<and>
     nat since \<le> unat t \<and> unat t < 2 ^ 48 \<and> (\<forall>n. p = Some n \<longrightarrow> n < unat q) \<and> unat q < 2 ^ 41)"

lemma uuid_v7_made:
  assumes "v7_room (Suc n) st" and "length bytes = 16" and "uuid_v7 now bytes st = (u, st')"
  obtains t q where "u = format_uuid (v7_bytes t q bytes)" and "v7_room n st'" and "0 \<le> last_timestamp st'"
    and "last_timestamp st' = int (unat t)" and "unat t < 2 ^ 48" and "unat q < 2 ^ 41"
    and "v7_sequence st' = Some q" and "last_timestamp st \<le> last_timestamp st'"
    and "\<And>p. v7_sequence st = Some p \<Longrightarrow> unat p < unat q"
proof -
  have st': "st' = v7_advance now bytes st" using assms(3) by (simp add: uuid_v7_def Let_def)
  note facts = v7_advance_facts [OF assms(1), where bytes = bytes and now = now, folded st']
  then obtain q where q: "v7_sequence st' = Some q" "unat q < 2 ^ 41"
    "\<And>p. v7_sequence st = Some p \<Longrightarrow> unat p < unat q" by blast
  define t :: "64 word" where "t = word_of_int (last_timestamp st')"
  have bound: "last_timestamp st' < 2 ^ 48" using facts(1) by (simp add: v7_room_def max_uuid_v7_timestamp_def)
  with facts(2) have "uint t = last_timestamp st'" by (simp add: t_def uint_word_of_int)
  then have t: "last_timestamp st' = int (unat t)" by simp
  show thesis
  proof (rule that)
    show "u = format_uuid (v7_bytes t q bytes)"
      using assms(3) facts(2) q(1) by (auto simp: uuid_v7_def Let_def t_def st')
    have "int (unat t) < int (2 ^ 48)" using bound unfolding t by (simp only: of_nat_power of_nat_numeral)
    then show "unat t < 2 ^ 48" by (simp only: of_nat_less_iff)
  qed (use facts t q in simp_all)
qed

lemma uuids_made:
  "v7_room (length calls) st \<Longrightarrow> \<forall>(now, bytes) \<in> set calls. length bytes = 16 \<Longrightarrow>
     u \<in> set (uuids calls st) \<Longrightarrow> made_after (last_timestamp st) (map_option unat (v7_sequence st)) u"
proof (induction calls arbitrary: st)
  case (Cons call calls)
  obtain now bytes v st' where call: "call = (now, bytes)" "uuid_v7 now bytes st = (v, st')"
    by (metis surj_pair)
  have size: "length bytes = 16" using Cons.prems(2) call(1) by simp
  have room: "v7_room (Suc (length calls)) st" using Cons.prems(1) by simp
  obtain t q where made: "v = format_uuid (v7_bytes t q bytes)" "v7_room (length calls) st'"
    "last_timestamp st' = int (unat t)" "unat t < 2 ^ 48" "unat q < 2 ^ 41" "v7_sequence st' = Some q"
    "last_timestamp st \<le> last_timestamp st'" "\<And>p. v7_sequence st = Some p \<Longrightarrow> unat p < unat q"
    using uuid_v7_made [OF room size call(2)] by metis
  have "u = v \<or> u \<in> set (uuids calls st')" using Cons.prems(3) by (simp add: call Let_def)
  then show ?case
  proof
    assume "u = v"
    have "nat (last_timestamp st) \<le> unat t" using nat_mono [OF made(7)] by (simp add: made(3))
    with \<open>u = v\<close> show ?thesis
      unfolding made_after_def using made(1,4,5,8) size by (intro exI [of _ t] exI [of _ q] exI [of _ bytes]) auto
  next
    assume "u \<in> set (uuids calls st')"
    with Cons.IH [OF made(2)] Cons.prems(2) have "made_after (last_timestamp st') (Some (unat q)) u"
      by (simp add: made(6))
    then obtain t' q' b where u: "u = format_uuid (v7_bytes t' q' b)" "length b = 16"
      "nat (last_timestamp st') \<le> unat t'" "unat t' < 2 ^ 48" "unat q < unat q'" "unat q' < 2 ^ 41"
      by (auto simp: made_after_def)
    have "nat (last_timestamp st) \<le> unat t'" using u(3) nat_mono [OF made(7)] by (rule order_trans [rotated])
    moreover have "\<forall>n. map_option unat (v7_sequence st) = Some n \<longrightarrow> n < unat q'"
      using made(8) u(5) by (auto intro: less_trans)
    ultimately show ?thesis unfolding made_after_def using u by blast
  qed
qed simp

lemma uuids_sorted:
  "v7_room (length calls) st \<Longrightarrow> \<forall>(now, bytes) \<in> set calls. length bytes = 16 \<Longrightarrow>
     sorted_wrt (\<lambda>a b. cmp_text a b = Less) (uuids calls st)"
proof (induction calls arbitrary: st)
  case (Cons call calls)
  obtain now bytes v st' where call: "call = (now, bytes)" "uuid_v7 now bytes st = (v, st')"
    by (metis surj_pair)
  have size: "length bytes = 16" using Cons.prems(2) call(1) by simp
  have room: "v7_room (Suc (length calls)) st" using Cons.prems(1) by simp
  obtain t q where made: "v = format_uuid (v7_bytes t q bytes)" "v7_room (length calls) st'"
    "last_timestamp st' = int (unat t)" "unat t < 2 ^ 48" "unat q < 2 ^ 41" "v7_sequence st' = Some q"
    using uuid_v7_made [OF room size call(2)] by metis
  have rest: "\<forall>(now, bytes) \<in> set calls. length bytes = 16" using Cons.prems(2) by simp
  have "cmp_text v u = Less" if u: "u \<in> set (uuids calls st')" for u
  proof -
    from uuids_made [OF made(2) rest u] obtain t' q' b where
      "u = format_uuid (v7_bytes t' q' b)" "length b = 16" "unat t \<le> unat t'" "unat t' < 2 ^ 48"
      "unat q < unat q'" "unat q' < 2 ^ 41" by (auto simp: made_after_def made(3,6))
    with made(1) size show ?thesis by (simp add: format_uuid_less v7_bytes_less)
  qed
  with Cons.IH [OF made(2) rest] show ?case by (simp add: call Let_def)
qed simp

text \<open>Session ids sort by their making: over the first 2 to the 40 ids of a process, whatever the clock
  says from one call to the next, also backwards, and whatever the random bytes, the texts are
  strictly increasing in the byte order of strings, so no two are equal.\<close>

theorem session_ids_increase:
  assumes "length calls \<le> 2 ^ 40" and "\<forall>(now, bytes) \<in> set calls. length bytes = 16"
  shows "sorted_wrt (\<lambda>a b. cmp_text a b = Less) (uuids calls v7_initial) \<and> distinct (uuids calls v7_initial)"
proof
  have "v7_room (length calls) v7_initial"
    using assms(1) by (simp add: v7_room_def v7_initial_def max_uuid_v7_timestamp_def)
  then show sorted: "sorted_wrt (\<lambda>a b. cmp_text a b = Less) (uuids calls v7_initial)"
    using assms(2) by (rule uuids_sorted)
  have "cmp_text u u \<noteq> Less" for u by (metis comparison.distinct(1) three_way.same [OF cmp_text_three_way])
  with sorted show "distinct (uuids calls v7_initial)"
    by (auto simp: sorted_wrt_iff_nth_less distinct_conv_nth) (metis linorder_neqE_nat)
qed

text \<open>The clock steps back between the two calls.\<close>

lemma session_ids_increase_witness:
  "cmp_text (uuids [(1767225600000, replicate 16 255), (0, replicate 16 0)] v7_initial ! 0)
     (uuids [(1767225600000, replicate 16 255), (0, replicate 16 0)] v7_initial ! 1) = Less"
proof -
  let ?calls = "[(1767225600000 :: int, replicate 16 255), (0, replicate 16 0)] :: (int \<times> 8 word list) list"
  have "length (uuids ?calls v7_initial) = 2" by (simp add: Let_def split: prod.split)
  with session_ids_increase [of ?calls] show ?thesis by (simp add: sorted_wrt_iff_nth_less)
qed

end
