(* ===== verification/HookProtocol.thy ===== *)
theory HookProtocol
  imports Json Utf8 Chunks
begin

text \<open>
  External hooks: the dialects and events (\<open>hooks/mod.rs\<close>), the reading of \<open>hooks.json\<close>
  (\<open>hooks/config.rs\<close>), the matchers (\<open>hooks/matcher.rs\<close>), the decoding of one hook process
  (\<open>hooks/codec.rs\<close> and the end of \<open>hooks/runner.rs\<close>) and the folding of all outcomes of one
  event (\<open>hooks/merge.rs\<close>). Parameters stand for code outside the repository: \<open>regex\<close> compiles a
  pattern and gives its matcher, \<open>parse\<close> is \<open>serde_json::from_str\<close>, \<open>quote\<close> prints a string as
  JSON, and \<open>as_f64\<close> and \<open>to_duration\<close> read a number of seconds.
\<close>

section \<open>Dialects and events\<close>

datatype hook_dialect = ClaudeCode | Codex

fun dialect_text :: "hook_dialect \<Rightarrow> string" where
  "dialect_text ClaudeCode = ''claude-code''"
| "dialect_text Codex = ''codex''"

fun dialect_title :: "hook_dialect \<Rightarrow> string" where
  "dialect_title ClaudeCode = ''Claude Code''"
| "dialect_title Codex = ''Codex''"

datatype hook_event = SessionStart | UserPromptSubmit | PreToolUse | PostToolUse | StopEvent

definition all_events :: "hook_event list" where
  "all_events = [SessionStart, UserPromptSubmit, PreToolUse, PostToolUse, StopEvent]"

fun event_text :: "hook_event \<Rightarrow> string" where
  "event_text SessionStart = ''SessionStart''"
| "event_text UserPromptSubmit = ''UserPromptSubmit''"
| "event_text PreToolUse = ''PreToolUse''"
| "event_text PostToolUse = ''PostToolUse''"
| "event_text StopEvent = ''Stop''"

definition has_matcher :: "hook_event \<Rightarrow> bool" where
  "has_matcher e \<longleftrightarrow> \<not> (e = UserPromptSubmit \<or> e = StopEvent)"

datatype hook_scope = SessionScope | ToolsOnly

section \<open>The outcome of one hook\<close>

datatype hook_decision = HookApprove | HookAllow | HookBlock | HookDeny | HookAsk

fun hook_decision_text :: "hook_decision \<Rightarrow> string" where
  "hook_decision_text HookApprove = ''approve''"
| "hook_decision_text HookAllow = ''allow''"
| "hook_decision_text HookBlock = ''block''"
| "hook_decision_text HookDeny = ''deny''"
| "hook_decision_text HookAsk = ''ask''"

record hook_output =
  hook_exit :: "int option"
  hook_stderr :: string
  hook_stdout :: string
  hook_continue :: "bool option"
  hook_stop_reason :: "string option"
  hook_decided :: "hook_decision option"
  hook_reason :: "string option"
  hook_claimed_event :: "string option"
  hook_context :: "string option"
  hook_system_message :: "string option"
  hook_updated_input :: bool

definition blocking_exit_code :: int where "blocking_exit_code = 2"

definition plain_output :: "int option \<Rightarrow> string \<Rightarrow> string \<Rightarrow> hook_output" where
  "plain_output code out err =
     \<lparr>hook_exit = code, hook_stderr = trim err, hook_stdout = trim out, hook_continue = None,
      hook_stop_reason = None, hook_decided = None, hook_reason = None, hook_claimed_event = None,
      hook_context = None, hook_system_message = None, hook_updated_input = False\<rparr>"

fun as_bool :: "json \<Rightarrow> bool option" where
  "as_bool (JBool b) = Some b"
| "as_bool _ = None"

fun as_array :: "json \<Rightarrow> json list option" where
  "as_array (JArray xs) = Some xs"
| "as_array _ = None"

definition or_old :: "'a option \<Rightarrow> 'a option \<Rightarrow> 'a option" where
  "or_old new old = (case new of Some x \<Rightarrow> Some x | None \<Rightarrow> old)"

fun top_decision :: "string option \<Rightarrow> hook_decision option" where
  "top_decision (Some t) =
     (if t = ''approve'' then Some HookApprove else if t = ''block'' then Some HookBlock else None)"
| "top_decision None = None"

fun permission_decision :: "string option \<Rightarrow> hook_decision option" where
  "permission_decision (Some t) =
     (if t = ''allow'' then Some HookAllow else if t = ''deny'' then Some HookDeny
      else if t = ''ask'' then Some HookAsk else None)"
| "permission_decision None = None"

definition apply_structured :: "object \<Rightarrow> string option \<Rightarrow> hook_output \<Rightarrow> hook_output" where
  "apply_structured parsed expected out =
     (let out = out\<lparr>hook_continue := or_old (Option.bind (obj_get parsed ''continue'') as_bool) (hook_continue out),
                    hook_stop_reason := or_old (str_member parsed ''stopReason'') (hook_stop_reason out),
                    hook_system_message := or_old (str_member parsed ''systemMessage'') (hook_system_message out),
                    hook_decided := or_old (top_decision (str_member parsed ''decision'')) (hook_decided out),
                    hook_reason := or_old (str_member parsed ''reason'') (hook_reason out)\<rparr> in
      (case Option.bind (obj_get parsed ''hookSpecificOutput'') as_object of
         None \<Rightarrow> out
       | Some specific \<Rightarrow>
           (let event = str_member specific ''hookEventName'';
                out = out\<lparr>hook_claimed_event := or_old event (hook_claimed_event out)\<rparr> in
            if expected \<noteq> None \<and> event \<noteq> expected then out
            else out\<lparr>hook_decided := or_old (permission_decision (str_member specific ''permissionDecision'')) (hook_decided out),
                     hook_reason := or_old (str_member specific ''permissionDecisionReason'') (hook_reason out),
                     hook_context := or_old (str_member specific ''additionalContext'') (hook_context out),
                     hook_updated_input := (hook_updated_input out \<or>
                       Option.bind (obj_get specific ''updatedInput'') as_object \<noteq> None)\<rparr>)))"

definition parse_hook_output ::
  "(string \<Rightarrow> json option) \<Rightarrow> int option \<Rightarrow> string \<Rightarrow> string \<Rightarrow> string option \<Rightarrow> hook_output" where
  "parse_hook_output parse code out err expected =
     (let r = plain_output code out err;
          r = (if code = Some blocking_exit_code
               then r\<lparr>hook_decided := Some HookBlock,
                      hook_reason := (if hook_stderr r \<noteq> [] then Some (hook_stderr r) else hook_reason r)\<rparr>
               else r)
      in if code = Some 0 \<and> starts_with (hook_stdout r) ''{'' then
           (case parse (hook_stdout r) of
              Some (JObject parsed) \<Rightarrow> apply_structured parsed expected r
            | _ \<Rightarrow> r)
         else r)"

section \<open>The end of a hook process\<close>

definition max_hook_output_bytes :: nat where "max_hook_output_bytes = 64000"

text \<open>\<open>Capture::push\<close> over the bytes kept so far.\<close>

definition capture_push :: "string \<Rightarrow> string \<Rightarrow> string" where
  "capture_push kept data = kept @ take (max_hook_output_bytes - length kept) data"

definition capture_text :: "string list \<Rightarrow> string" where
  "capture_text chunks = from_utf8_lossy (foldl capture_push [] chunks)"

text \<open>How a process ended: it never ran to an exit, it was killed at its timeout (with the text of the
  timeout in seconds), or it ended by itself or by a signal; the chunks of its two streams.\<close>

datatype process_end =
    ProcessNotRun string
  | ProcessTimedOut "string list" "string list" string
  | ProcessExited "int option" "string list" "string list"

record hook_run =
  run_output :: hook_output
  run_timed_out :: bool
  run_duration :: nat

definition not_run :: "(string \<Rightarrow> json option) \<Rightarrow> string \<Rightarrow> nat \<Rightarrow> hook_run" where
  "not_run parse why ms =
     \<lparr>run_output = parse_hook_output parse None [] why None, run_timed_out = False, run_duration = ms\<rparr>"

fun run_hook :: "(string \<Rightarrow> json option) \<Rightarrow> string \<Rightarrow> process_end \<times> nat \<Rightarrow> hook_run" where
  "run_hook parse expected (ProcessNotRun why, ms) = not_run parse why ms"
| "run_hook parse expected (ProcessTimedOut out err secs, ms) =
     (let why = capture_text err;
          why = (if trim why \<noteq> [] then why @ [CHR 0x0A] else why) @ ''the hook timed out after '' @ secs @ '' s''
      in \<lparr>run_output = parse_hook_output parse None (capture_text out) why None,
          run_timed_out = True, run_duration = ms\<rparr>)"
| "run_hook parse expected (ProcessExited code out err, ms) =
     \<lparr>run_output = parse_hook_output parse code (capture_text out) (capture_text err) (Some expected),
      run_timed_out = False, run_duration = ms\<rparr>"

section \<open>Folding the outcomes of one event\<close>

datatype merged_decision = MergedNone | MergedAllow | MergedAsk | MergedDeny

text \<open>The derived order of the enum.\<close>

fun decision_rank :: "merged_decision \<Rightarrow> nat" where
  "decision_rank MergedNone = 0"
| "decision_rank MergedAllow = 1"
| "decision_rank MergedAsk = 2"
| "decision_rank MergedDeny = 3"

instantiation merged_decision :: linorder
begin

definition less_eq_merged_decision :: "merged_decision \<Rightarrow> merged_decision \<Rightarrow> bool" where
  "less_eq_merged_decision a b \<longleftrightarrow> decision_rank a \<le> decision_rank b"

definition less_merged_decision :: "merged_decision \<Rightarrow> merged_decision \<Rightarrow> bool" where
  "less_merged_decision a b \<longleftrightarrow> decision_rank a < decision_rank b"

instance
proof
  fix a b :: merged_decision
  show "a \<le> b \<Longrightarrow> b \<le> a \<Longrightarrow> a = b"
    by (cases a; cases b) (simp_all add: less_eq_merged_decision_def)
qed (auto simp: less_eq_merged_decision_def less_merged_decision_def)

end

fun merged_text :: "merged_decision \<Rightarrow> string" where
  "merged_text MergedNone = ''none''"
| "merged_text MergedAllow = ''allow''"
| "merged_text MergedAsk = ''ask''"
| "merged_text MergedDeny = ''deny''"

record merged_outcome =
  merged_decision :: merged_decision
  merged_reason :: "string option"
  merged_stop :: bool
  merged_stop_reason :: "string option"
  merged_context :: "string list"
  merged_system_messages :: "string list"

fun rank_decision :: "hook_decision option \<Rightarrow> merged_decision" where
  "rank_decision (Some HookDeny) = MergedDeny"
| "rank_decision (Some HookBlock) = MergedDeny"
| "rank_decision (Some HookAsk) = MergedAsk"
| "rank_decision (Some HookApprove) = MergedAllow"
| "rank_decision (Some HookAllow) = MergedAllow"
| "rank_decision None = MergedNone"

text \<open>The locals of the loop.\<close>

record merge_state =
  m_decision :: merged_decision
  m_deny :: "string list"
  m_ask :: "string list"
  m_stop :: bool
  m_stop_reason :: "string option"
  m_context :: "string list"
  m_messages :: "string list"

definition push_some :: "string option \<Rightarrow> string list \<Rightarrow> string list" where
  "push_some x xs = (case x of Some s \<Rightarrow> if s \<noteq> [] then xs @ [s] else xs | None \<Rightarrow> xs)"

definition merge_step :: "hook_output \<Rightarrow> merge_state \<Rightarrow> merge_state" where
  "merge_step out m =
     (let ranked = rank_decision (hook_decided out) in
      m\<lparr>m_decision := max (m_decision m) ranked,
        m_deny := (if ranked = MergedDeny then push_some (hook_reason out) (m_deny m) else m_deny m),
        m_ask := (if ranked = MergedAsk then push_some (hook_reason out) (m_ask m) else m_ask m),
        m_stop := (m_stop m \<or> hook_continue out = Some False),
        m_stop_reason := (if hook_continue out = Some False \<and> \<not> m_stop m then hook_stop_reason out
                          else m_stop_reason m),
        m_context := push_some (hook_context out) (m_context m),
        m_messages := push_some (hook_system_message out) (m_messages m)\<rparr>)"

definition blank_line :: string where "blank_line = [CHR 0x0A, CHR 0x0A]"

definition merge_hook_outputs :: "hook_output list \<Rightarrow> merged_outcome" where
  "merge_hook_outputs outputs =
     (let m = fold merge_step outputs
                \<lparr>m_decision = MergedNone, m_deny = [], m_ask = [], m_stop = False, m_stop_reason = None,
                 m_context = [], m_messages = []\<rparr>;
          reasons = (case m_decision m of MergedDeny \<Rightarrow> m_deny m | MergedAsk \<Rightarrow> m_ask m | _ \<Rightarrow> [])
      in \<lparr>merged_decision = m_decision m,
          merged_reason = (if reasons \<noteq> [] then Some (join blank_line reasons) else None),
          merged_stop = m_stop m, merged_stop_reason = m_stop_reason m,
          merged_context = m_context m, merged_system_messages = m_messages m\<rparr>)"

section \<open>Matchers\<close>

type_synonym regex = "string \<Rightarrow> (string \<Rightarrow> bool) option"

definition is_match_all :: "string option \<Rightarrow> bool" where
  "is_match_all m \<longleftrightarrow> (case m of None \<Rightarrow> True | Some p \<Rightarrow> p = [] \<or> p = ''*'')"

definition is_claude_literal :: "string \<Rightarrow> bool" where
  "is_claude_literal p \<longleftrightarrow> p \<noteq> [] \<and>
     list_all (\<lambda>c. is_digit c \<or> (65 \<le> byte c \<and> byte c \<le> 90) \<or> (97 \<le> byte c \<and> byte c \<le> 122) \<or>
                   c = CHR ''_'' \<or> c = CHR ''|'') p"

definition matcher_diagnostic ::
  "regex \<Rightarrow> (string \<Rightarrow> string) \<Rightarrow> string option \<Rightarrow> hook_dialect \<Rightarrow> string option" where
  "matcher_diagnostic regex quote m d =
     (if is_match_all m then None
      else (case m of
              None \<Rightarrow> None
            | Some p \<Rightarrow>
                if d = ClaudeCode \<and> is_claude_literal p then None
                else (case regex p of
                        Some _ \<Rightarrow> None
                      | None \<Rightarrow> Some (''invalid '' @ dialect_text d @ '' regex matcher '' @ quote p))))"

definition matches_matcher :: "regex \<Rightarrow> string option \<Rightarrow> string \<Rightarrow> hook_dialect \<Rightarrow> bool" where
  "matches_matcher regex m query d =
     (if is_match_all m then True
      else (case m of
              None \<Rightarrow> True
            | Some p \<Rightarrow>
                if d = ClaudeCode \<and> is_claude_literal p
                then list_ex (\<lambda>alternative. alternative = query) (split_on CHR ''|'' p)
                else (case regex p of Some f \<Rightarrow> f query | None \<Rightarrow> False)))"

section \<open>Configuration\<close>

text \<open>A duration is its nanoseconds.\<close>

record command_hook =
  hook_command :: string
  hook_timeout :: "nat option"

record matcher_group =
  group_matcher :: "string option"
  group_hooks :: "command_hook list"

type_synonym hook_groups = "(hook_event \<times> matcher_group list) list"

definition groups_of :: "hook_groups \<Rightarrow> hook_event \<Rightarrow> matcher_group list" where
  "groups_of gs e = (case map_of gs e of Some g \<Rightarrow> g | None \<Rightarrow> [])"

definition groups_empty :: "hook_groups \<Rightarrow> bool" where "groups_empty gs \<longleftrightarrow> gs = []"

record parsed_hooks =
  parsed_groups :: hook_groups
  parsed_skipped :: "string list"

definition hook_timeout_of ::
  "(json \<Rightarrow> 64 word option) \<Rightarrow> (64 word \<Rightarrow> nat option) \<Rightarrow> object \<Rightarrow> hook_dialect \<Rightarrow> nat option" where
  "hook_timeout_of as_f64 to_duration hook d =
     (case Option.bind (obj_get hook ''timeout'') as_f64 of
        Some x \<Rightarrow> to_duration x
      | None \<Rightarrow>
          if d = Codex then Option.bind (Option.bind (obj_get hook ''timeoutSec'') as_f64) to_duration
          else None)"

text \<open>One entry of a group: the warning it is skipped with, and the hook it gives.\<close>

definition read_hook ::
  "(json \<Rightarrow> 64 word option) \<Rightarrow> (64 word \<Rightarrow> nat option) \<Rightarrow> hook_dialect \<Rightarrow> hook_event \<Rightarrow> json \<Rightarrow>
     string list \<times> command_hook list" where
  "read_hook as_f64 to_duration d e raw =
     (case as_object raw of
        None \<Rightarrow> ([], [])
      | Some hook \<Rightarrow>
          (let kind = (case str_member hook ''type'' of Some k \<Rightarrow> k | None \<Rightarrow> ''command'') in
           if kind \<noteq> ''command'' then
             (case d of
                ClaudeCode \<Rightarrow> ([''skipping unsupported '' @ [CHR 0x22] @ kind @ [CHR 0x22] @ '' hook on '' @ event_text e @
                                '' (only command hooks run)''], [])
              | Codex \<Rightarrow> ([''skipping unsupported '' @ [CHR 0x22] @ kind @ [CHR 0x22] @ '' hook on '' @ event_text e @
                           '' (only sync command hooks run)''], []))
           else if d = Codex \<and> obj_get hook ''async'' = Some (JBool True) then
             ([''skipping async hook on '' @ event_text e @ '' (only sync command hooks run)''], [])
           else (case str_member hook ''command'' of
                   None \<Rightarrow> ([], [])
                 | Some c \<Rightarrow>
                     ([], [\<lparr>hook_command = c, hook_timeout = hook_timeout_of as_f64 to_duration hook d\<rparr>]))))"

definition read_group ::
  "regex \<Rightarrow> (string \<Rightarrow> string) \<Rightarrow> (json \<Rightarrow> 64 word option) \<Rightarrow> (64 word \<Rightarrow> nat option) \<Rightarrow> hook_dialect \<Rightarrow>
     hook_event \<Rightarrow> json \<Rightarrow> (string, string list \<times> matcher_group list) result" where
  "read_group regex quote as_f64 to_duration d e raw =
     (case Option.bind (as_object raw) (\<lambda>g. map_option (Pair g) (Option.bind (obj_get g ''hooks'') as_array)) of
        None \<Rightarrow> Inr ([], [])
      | Some (members, raw_hooks) \<Rightarrow>
          (let read = map (read_hook as_f64 to_duration d e) raw_hooks;
               skipped = concat (map fst read);
               hooks = concat (map snd read);
               matcher = (if has_matcher e then str_member members ''matcher'' else None) in
           if hooks = [] then Inr (skipped, [])
           else (case matcher_diagnostic regex quote matcher d of
                   Some diagnostic \<Rightarrow> Inl (diagnostic @ '' on event '' @ quote (event_text e))
                 | None \<Rightarrow> Inr (skipped, [\<lparr>group_matcher = matcher, group_hooks = hooks\<rparr>]))))"

fun read_groups ::
  "(json \<Rightarrow> (string, string list \<times> matcher_group list) result) \<Rightarrow> json list \<Rightarrow>
     (string, string list \<times> matcher_group list) result" where
  "read_groups read [] = Inr ([], [])"
| "read_groups read (raw # raws) =
     (case read raw of
        Inl error \<Rightarrow> Inl error
      | Inr (skipped, groups) \<Rightarrow>
          (case read_groups read raws of
             Inl error \<Rightarrow> Inl error
           | Inr (skipped', groups') \<Rightarrow> Inr (skipped @ skipped', groups @ groups')))"

fun read_events ::
  "(hook_event \<Rightarrow> json \<Rightarrow> (string, string list \<times> matcher_group list) result) \<Rightarrow> object \<Rightarrow>
     hook_event list \<Rightarrow> parsed_hooks \<Rightarrow> (string, parsed_hooks) result" where
  "read_events read events [] parsed = Inr parsed"
| "read_events read events (e # es) parsed =
     (case Option.bind (obj_get events (event_text e)) as_array of
        None \<Rightarrow> read_events read events es parsed
      | Some raw_groups \<Rightarrow>
          (case read_groups (read e) raw_groups of
             Inl error \<Rightarrow> Inl error
           | Inr (skipped, groups) \<Rightarrow>
               read_events read events es
                 \<lparr>parsed_groups = parsed_groups parsed @ (if groups \<noteq> [] then [(e, groups)] else []),
                  parsed_skipped = parsed_skipped parsed @ skipped\<rparr>))"

definition parse_hooks ::
  "regex \<Rightarrow> (string \<Rightarrow> string) \<Rightarrow> (json \<Rightarrow> 64 word option) \<Rightarrow> (64 word \<Rightarrow> nat option) \<Rightarrow> json \<Rightarrow>
     hook_dialect \<Rightarrow> (string, parsed_hooks) result" where
  "parse_hooks regex quote as_f64 to_duration raw d =
     (case as_object raw of
        None \<Rightarrow> Inr \<lparr>parsed_groups = [], parsed_skipped = []\<rparr>
      | Some root \<Rightarrow>
          (let events = (case Option.bind (obj_get root ''hooks'') as_object of Some m \<Rightarrow> m | None \<Rightarrow> root);
               unrun = filter (\<lambda>e. Option.bind (obj_get events e) as_array \<noteq> None)
                         (if d = ClaudeCode then [''SubagentStart'', ''SubagentStop''] else [])
           in read_events (read_group regex quote as_f64 to_duration d) events all_events
                \<lparr>parsed_groups = [],
                 parsed_skipped = map (\<lambda>e. e @ '' hooks are not run by bake'') unrun\<rparr>))"

section \<open>What the folding gives\<close>

definition reasons_of :: "merged_decision \<Rightarrow> hook_output list \<Rightarrow> string list" where
  "reasons_of r outs =
     filter (\<lambda>s. s \<noteq> []) (List.map_filter hook_reason (filter (\<lambda>out. rank_decision (hook_decided out) = r) outs))"

definition strictest :: "hook_output list \<Rightarrow> merged_decision" where
  "strictest outs = fold max (map (\<lambda>out. rank_decision (hook_decided out)) outs) MergedNone"

definition stopping :: "hook_output list \<Rightarrow> hook_output list" where
  "stopping outs = filter (\<lambda>out. hook_continue out = Some False) outs"

lemma push_some_filter: "push_some x xs = xs @ filter (\<lambda>s. s \<noteq> []) (case x of Some s \<Rightarrow> [s] | None \<Rightarrow> [])"
  by (simp add: push_some_def split: option.splits)

lemma map_filter_simps: "List.map_filter f (x # xs) = (case f x of Some y \<Rightarrow> [y] | None \<Rightarrow> []) @ List.map_filter f xs"
  by (simp add: List.map_filter_def split: option.split)

lemma merge_fold:
  "fold merge_step outs m =
     \<lparr>m_decision = fold max (map (\<lambda>out. rank_decision (hook_decided out)) outs) (m_decision m),
      m_deny = m_deny m @ reasons_of MergedDeny outs, m_ask = m_ask m @ reasons_of MergedAsk outs,
      m_stop = (m_stop m \<or> stopping outs \<noteq> []),
      m_stop_reason = (if m_stop m \<or> stopping outs = [] then m_stop_reason m
                       else hook_stop_reason (hd (stopping outs))),
      m_context = m_context m @ filter (\<lambda>s. s \<noteq> []) (List.map_filter hook_context outs),
      m_messages = m_messages m @ filter (\<lambda>s. s \<noteq> []) (List.map_filter hook_system_message outs)\<rparr>"
proof (induction outs arbitrary: m)
  case Nil
  then show ?case by (cases m) (simp add: reasons_of_def stopping_def List.map_filter_def)
next
  case (Cons out outs)
  have "merge_step out m =
      \<lparr>m_decision = max (m_decision m) (rank_decision (hook_decided out)),
       m_deny = m_deny m @ reasons_of MergedDeny [out], m_ask = m_ask m @ reasons_of MergedAsk [out],
       m_stop = (m_stop m \<or> stopping [out] \<noteq> []),
       m_stop_reason = (if m_stop m \<or> stopping [out] = [] then m_stop_reason m else hook_stop_reason out),
       m_context = m_context m @ filter (\<lambda>s. s \<noteq> []) (List.map_filter hook_context [out]),
       m_messages = m_messages m @ filter (\<lambda>s. s \<noteq> []) (List.map_filter hook_system_message [out])\<rparr>"
    by (cases m) (auto simp: merge_step_def Let_def push_some_filter reasons_of_def stopping_def List.map_filter_def
      split: option.splits)
  moreover have "reasons_of r (out # outs) = reasons_of r [out] @ reasons_of r outs" for r
    by (simp add: reasons_of_def List.map_filter_def split: option.splits)
  moreover have "stopping (out # outs) = stopping [out] @ stopping outs" by (simp add: stopping_def)
  moreover have "stopping [out] = [] \<or> stopping [out] = [out]" by (simp add: stopping_def)
  moreover have "filter P (List.map_filter f (out # outs)) =
      filter P (List.map_filter f [out]) @ filter P (List.map_filter f outs)" for P and f :: "hook_output \<Rightarrow> string option"
    by (simp add: List.map_filter_def split: option.splits)
  ultimately show ?case by (auto simp: Cons.IH max.commute)
qed

lemma merge_exact:
  "merged_decision (merge_hook_outputs outs) = strictest outs"
  "merged_reason (merge_hook_outputs outs) =
     (let reasons = (if strictest outs = MergedDeny \<or> strictest outs = MergedAsk
                     then reasons_of (strictest outs) outs else [])
      in if reasons \<noteq> [] then Some (join blank_line reasons) else None)"
  "merged_stop (merge_hook_outputs outs) \<longleftrightarrow> stopping outs \<noteq> []"
  "merged_stop_reason (merge_hook_outputs outs) =
     (if stopping outs = [] then None else hook_stop_reason (hd (stopping outs)))"
  "merged_context (merge_hook_outputs outs) = filter (\<lambda>s. s \<noteq> []) (List.map_filter hook_context outs)"
proof -
  have merged: "merge_hook_outputs outs =
      (let reasons = (case strictest outs of MergedDeny \<Rightarrow> reasons_of MergedDeny outs
                      | MergedAsk \<Rightarrow> reasons_of MergedAsk outs | _ \<Rightarrow> [])
       in \<lparr>merged_decision = strictest outs,
           merged_reason = (if reasons \<noteq> [] then Some (join blank_line reasons) else None),
           merged_stop = (stopping outs \<noteq> []),
           merged_stop_reason = (if stopping outs = [] then None else hook_stop_reason (hd (stopping outs))),
           merged_context = filter (\<lambda>s. s \<noteq> []) (List.map_filter hook_context outs),
           merged_system_messages = filter (\<lambda>s. s \<noteq> []) (List.map_filter hook_system_message outs)\<rparr>)"
    by (cases "strictest outs") (simp_all add: merge_hook_outputs_def merge_fold strictest_def Let_def)
  show "merged_decision (merge_hook_outputs outs) = strictest outs"
    "merged_reason (merge_hook_outputs outs) =
       (let reasons = (if strictest outs = MergedDeny \<or> strictest outs = MergedAsk
                       then reasons_of (strictest outs) outs else [])
        in if reasons \<noteq> [] then Some (join blank_line reasons) else None)"
    "merged_stop (merge_hook_outputs outs) \<longleftrightarrow> stopping outs \<noteq> []"
    "merged_stop_reason (merge_hook_outputs outs) =
       (if stopping outs = [] then None else hook_stop_reason (hd (stopping outs)))"
    "merged_context (merge_hook_outputs outs) = filter (\<lambda>s. s \<noteq> []) (List.map_filter hook_context outs)"
    unfolding merged by (simp_all add: Let_def split: merged_decision.split)
qed

lemma decision_rank_bounds: "MergedNone \<le> d" "d \<le> MergedDeny"
  by (cases d; simp add: less_eq_merged_decision_def)+

lemma strictest_cases:
  "strictest outs = MergedDeny \<longleftrightarrow> (\<exists>out \<in> set outs. rank_decision (hook_decided out) = MergedDeny)"
  "strictest outs = MergedAsk \<longleftrightarrow> (\<exists>out \<in> set outs. rank_decision (hook_decided out) = MergedAsk) \<and>
     (\<forall>out \<in> set outs. rank_decision (hook_decided out) \<noteq> MergedDeny)"
proof -
  let ?rank = "\<lambda>out. rank_decision (hook_decided out)"
  have max: "strictest outs = Max (insert MergedNone (?rank ` set outs))"
    unfolding strictest_def by (metis Max.set_eq_fold list.set_map list.simps(15))
  have fin: "finite (insert MergedNone (?rank ` set outs))" by simp
  have upper: "?rank out \<le> strictest outs" if "out \<in> set outs" for out
    unfolding max using that by (intro Max_ge) auto
  have attained: "strictest outs = MergedNone \<or> (\<exists>out \<in> set outs. ?rank out = strictest outs)"
    unfolding max using Max_in [OF fin] by auto
  show deny: "strictest outs = MergedDeny \<longleftrightarrow> (\<exists>out \<in> set outs. ?rank out = MergedDeny)"
    using upper attained decision_rank_bounds(2) by (metis antisym merged_decision.distinct(5))
  show "strictest outs = MergedAsk \<longleftrightarrow> (\<exists>out \<in> set outs. ?rank out = MergedAsk) \<and>
      (\<forall>out \<in> set outs. ?rank out \<noteq> MergedDeny)"
  proof
    assume "strictest outs = MergedAsk"
    with attained deny show "(\<exists>out \<in> set outs. ?rank out = MergedAsk) \<and> (\<forall>out \<in> set outs. ?rank out \<noteq> MergedDeny)"
      by auto
  next
    assume *: "(\<exists>out \<in> set outs. ?rank out = MergedAsk) \<and> (\<forall>out \<in> set outs. ?rank out \<noteq> MergedDeny)"
    then obtain out where "out \<in> set outs" "?rank out = MergedAsk" by blast
    with upper [of out] have "MergedAsk \<le> strictest outs" by simp
    moreover have "strictest outs \<noteq> MergedDeny" using * deny by blast
    ultimately show "strictest outs = MergedAsk"
      by (cases "strictest outs") (simp_all add: less_eq_merged_decision_def)
  qed
qed

end
