(* ===== verification/HookEngine.thy ===== *)
theory HookEngine
  imports HookProtocol Approval SessionOps
begin

text \<open>
  What an event's hooks do (\<open>hooks/engine.rs\<close>) and the session's use of them
  (\<open>agent_session/hooks.rs\<close>): the payload of each dialect, the hooks an event matches, run file by
  file until an outcome ends the event, the action of each hook point, and the tool-call and
  settling steps with the decision entry each writes before it takes effect. How each process
  ends is the argument \<open>ends\<close>, indexed by the hook's file, group and place, so any behaviour of the
  processes is covered; \<open>print\<close> is the JSON printer.
\<close>

section \<open>Events and payloads\<close>

definition pre_tool_use_blocked :: string where "pre_tool_use_blocked = ''blocked by PreToolUse hook''"
definition post_tool_use_blocked :: string where "post_tool_use_blocked = ''blocked by PostToolUse hook''"
definition stop_blocked :: string where "stop_blocked = ''continue: blocked by Stop hook''"
definition prompt_blocked :: string where "prompt_blocked = ''Prompt blocked by UserPromptSubmit hook''"
definition max_stop_hook_continuations :: nat where "max_stop_hook_continuations = 8"
definition stderr_summary_max_chars :: nat where "stderr_summary_max_chars = 500"

definition stop_cap_note :: string where
  "stop_cap_note = ''Stop hooks kept this run going '' @ nat_text max_stop_hook_continuations @
     '' times in a row, so it ended without continuing again.''"

datatype session_source = Startup | Resume

fun source_text :: "session_source \<Rightarrow> string" where
  "source_text Startup = ''startup''"
| "source_text Resume = ''resume''"

datatype event_input =
    InSessionStart session_source
  | InUserPromptSubmit string
  | InPreToolUse string string json
  | InPostToolUse string string json string
  | InStop bool

fun input_event :: "event_input \<Rightarrow> hook_event" where
  "input_event (InSessionStart _) = SessionStart"
| "input_event (InUserPromptSubmit _) = UserPromptSubmit"
| "input_event (InPreToolUse _ _ _) = PreToolUse"
| "input_event (InPostToolUse _ _ _ _) = PostToolUse"
| "input_event (InStop _) = StopEvent"

fun input_subject :: "event_input \<Rightarrow> string" where
  "input_subject (InSessionStart source) = source_text source"
| "input_subject (InPreToolUse tool _ _) = tool"
| "input_subject (InPostToolUse tool _ _ _) = tool"
| "input_subject (InUserPromptSubmit _) = []"
| "input_subject (InStop _) = []"

record payload_base =
  base_session :: string
  base_cwd :: string
  base_model :: string
  base_turn :: string

fun payload_tool_input :: "hook_dialect \<Rightarrow> json \<Rightarrow> json" where
  "payload_tool_input ClaudeCode v = v"
| "payload_tool_input Codex v =
     JObject [(''command'', JString (case Option.bind (Option.bind (as_object v) (\<lambda>m. obj_get m ''command'')) as_str of
                                       Some c \<Rightarrow> c | None \<Rightarrow> []))]"

fun payload_members :: "hook_dialect \<Rightarrow> event_input \<Rightarrow> object" where
  "payload_members d (InSessionStart source) = [(''source'', JString (source_text source))]"
| "payload_members d (InUserPromptSubmit prompt) = [(''prompt'', JString prompt)]"
| "payload_members d (InPreToolUse tool i v) =
     [(''tool_name'', JString tool), (''tool_input'', payload_tool_input d v), (''tool_use_id'', JString i)]"
| "payload_members d (InPostToolUse tool i v response) =
     [(''tool_name'', JString tool), (''tool_input'', payload_tool_input d v), (''tool_use_id'', JString i),
      (''tool_response'', JString response)]"
| "payload_members d (InStop active) =
     (''stop_hook_active'', JBool active) # (if d = Codex then [(''last_assistant_message'', JNull)] else [])"

definition payload :: "hook_dialect \<Rightarrow> event_input \<Rightarrow> payload_base \<Rightarrow> json" where
  "payload d input b =
     JObject ([(''session_id'', JString (base_session b)),
               (''transcript_path'', (case d of ClaudeCode \<Rightarrow> JString [] | Codex \<Rightarrow> JNull)),
               (''cwd'', JString (base_cwd b)),
               (''hook_event_name'', JString (event_text (input_event input)))] @
              (if d = Codex then
                 [(''model'', JString (base_model b)), (''permission_mode'', JString ''default'')] @
                 (if input_event input \<noteq> SessionStart then [(''turn_id'', JString (base_turn b))] else [])
               else []) @
              payload_members d input)"

section \<open>The engine\<close>

record hook_file =
  file_dialect :: hook_dialect
  file_groups :: hook_groups

record hook_state =
  session_started :: bool
  halted :: bool
  stop_active :: bool
  stop_continuations :: nat

record hooks =
  hook_files :: "hook_file list"
  hook_scope :: hook_scope

record evaluated =
  eval_outcomes :: "(hook_dialect \<times> merged_outcome) list"
  eval_records :: "json list"

definition ends_event :: "hook_event \<Rightarrow> hook_dialect \<Rightarrow> merged_outcome \<Rightarrow> bool" where
  "ends_event e d m =
     (let deny = (merged_decision m = MergedDeny) in
      (case (e, d) of
         (UserPromptSubmit, _) \<Rightarrow> deny \<or> merged_stop m
       | (PreToolUse, ClaudeCode) \<Rightarrow> deny \<or> merged_stop m \<or> merged_decision m = MergedAsk
       | (PreToolUse, Codex) \<Rightarrow> deny
       | (PostToolUse, ClaudeCode) \<Rightarrow> deny
       | (PostToolUse, Codex) \<Rightarrow> deny \<or> merged_stop m
       | (SessionStart, _) \<Rightarrow> False
       | (StopEvent, _) \<Rightarrow> False))"

definition summarize_stderr :: "string \<Rightarrow> string option" where
  "summarize_stderr err =
     (let trimmed = trim err; chars = utf8_chars trimmed in
      if trimmed = [] then None
      else if stderr_summary_max_chars < length chars
        then Some (concat (take stderr_summary_max_chars chars) @ ellipsis)
      else Some trimmed)"

definition handler_id :: "hook_event \<Rightarrow> nat \<Rightarrow> nat \<Rightarrow> string" where
  "handler_id e g h = event_text e @ ''/'' @ nat_text g @ ''/'' @ nat_text h"

definition record_decision :: "hook_output \<Rightarrow> string" where
  "record_decision out =
     (case hook_decided out of
        Some d \<Rightarrow> hook_decision_text d
      | None \<Rightarrow> if hook_continue out = Some False then ''stop'' else ''pass'')"

definition hook_record :: "hook_dialect \<Rightarrow> string option \<Rightarrow> string \<Rightarrow> hook_run \<Rightarrow> json" where
  "hook_record d matcher i r =
     (let out = run_output r in
      JObject ([(''dialect'', JString (dialect_text d))] @
               (case matcher of Some m \<Rightarrow> [(''matcher'', JString m)] | None \<Rightarrow> []) @
               [(''handlerId'', JString i), (''decision'', JString (record_decision out))] @
               (case hook_exit out of Some c \<Rightarrow> [(''exitCode'', json_i64 c)] | None \<Rightarrow> []) @
               (if run_timed_out r then [(''timedOut'', JBool True)] else []) @
               [(''durationMs'', json_u64 (run_duration r))] @
               (case summarize_stderr (hook_stderr out) of Some s \<Rightarrow> [(''stderr'', JString s)] | None \<Rightarrow> []) @
               (if hook_updated_input out then [(''updatedInput'', JString ''ignored'')] else [])))"

definition plain_stdout_as_context :: "hook_dialect \<Rightarrow> hook_event \<Rightarrow> hook_output \<Rightarrow> hook_output" where
  "plain_stdout_as_context d e out =
     (if d = Codex \<and> (e = SessionStart \<or> e = UserPromptSubmit) \<and> hook_exit out = Some 0 \<and>
         hook_context out = None \<and> hook_stdout out \<noteq> [] \<and> \<not> starts_with (hook_stdout out) ''{''
      then out\<lparr>hook_context := Some (hook_stdout out)\<rparr> else out)"

definition hooks_run :: "hooks \<Rightarrow> hook_event \<Rightarrow> bool" where
  "hooks_run hs e \<longleftrightarrow>
     (case hook_scope hs of SessionScope \<Rightarrow> True | ToolsOnly \<Rightarrow> e = PreToolUse \<or> e = PostToolUse) \<and>
     list_ex (\<lambda>f. groups_of (file_groups f) e \<noteq> []) (hook_files hs)"

text \<open>The surroundings of one evaluation.\<close>

record hook_world =
  w_regex :: regex
  w_parse :: "string \<Rightarrow> json option"
  w_print :: "json \<Rightarrow> string"
  w_base :: payload_base
  w_ends :: "nat \<Rightarrow> nat \<Rightarrow> nat \<Rightarrow> string \<Rightarrow> process_end \<times> nat"

definition hook_stdin :: "hook_world \<Rightarrow> hook_dialect \<Rightarrow> event_input \<Rightarrow> string" where
  "hook_stdin w d input =
     w_print w (payload d input (w_base w)) @ (if d = ClaudeCode then [CHR 0x0A] else [])"

definition run_one :: "hook_world \<Rightarrow> event_input \<Rightarrow> nat \<Rightarrow> hook_dialect \<Rightarrow> nat \<Rightarrow> nat \<Rightarrow> hook_run" where
  "run_one w input fi d gi hi =
     (let e = input_event input;
          r = run_hook (w_parse w) (event_text e) (w_ends w fi gi hi (hook_stdin w d input))
      in r\<lparr>run_output := plain_stdout_as_context d e (run_output r)\<rparr>)"

text \<open>The matched hooks of a file, as the two inner loops run them: the record and the output of each.\<close>

definition run_file :: "hook_world \<Rightarrow> event_input \<Rightarrow> nat \<Rightarrow> hook_file \<Rightarrow> (json \<times> hook_output) list" where
  "run_file w input fi f =
     (let e = input_event input; d = file_dialect f in
      concat (map (\<lambda>(gi, g).
        if matches_matcher (w_regex w) (group_matcher g) (input_subject input) d
        then map (\<lambda>hi. let r = run_one w input fi d gi hi
                       in (hook_record d (group_matcher g) (handler_id e gi hi) r, run_output r))
               [0..<length (group_hooks g)]
        else []) (enumerate 0 (groups_of (file_groups f) e))))"

fun run_files :: "hook_world \<Rightarrow> event_input \<Rightarrow> nat \<Rightarrow> hook_file list \<Rightarrow> evaluated \<Rightarrow> evaluated" where
  "run_files w input fi [] ev = ev"
| "run_files w input fi (f # fs) ev =
     (let ran = run_file w input fi f;
          ev = ev\<lparr>eval_records := eval_records ev @ map fst ran\<rparr> in
      if ran = [] then run_files w input (fi + 1) fs ev
      else (let merged = merge_hook_outputs (map snd ran);
                ev = ev\<lparr>eval_outcomes := eval_outcomes ev @ [(file_dialect f, merged)]\<rparr>
            in if ends_event (input_event input) (file_dialect f) merged then ev
               else run_files w input (fi + 1) fs ev))"

definition evaluate :: "hooks \<Rightarrow> hook_world \<Rightarrow> event_input \<Rightarrow> evaluated option" where
  "evaluate hs w input =
     (if \<not> hooks_run hs (input_event input) then None
      else (let ev = run_files w input 0 (hook_files hs) \<lparr>eval_outcomes = [], eval_records = []\<rparr>
            in if eval_records ev \<noteq> [] then Some ev else None))"

section \<open>What an outcome does at each hook point\<close>

fun or_else :: "'a option \<Rightarrow> 'a option \<Rightarrow> 'a option" where
  "or_else (Some x) y = Some x"
| "or_else None y = y"

definition unwrap_or :: "'a \<Rightarrow> 'a option \<Rightarrow> 'a" where
  "unwrap_or d x = (case x of Some y \<Rightarrow> y | None \<Rightarrow> d)"

datatype prompt_act = PromptProceed "string list" | PromptBlock "string option"

fun prompt_action_from :: "string list \<Rightarrow> (hook_dialect \<times> merged_outcome) list \<Rightarrow> prompt_act" where
  "prompt_action_from ctx [] = PromptProceed ctx"
| "prompt_action_from ctx ((d, m) # ms) =
     (if merged_decision m = MergedDeny \<or> merged_stop m
      then PromptBlock (or_else (merged_reason m) (merged_stop_reason m))
      else prompt_action_from (ctx @ merged_context m) ms)"

definition prompt_action :: "(hook_dialect \<times> merged_outcome) list \<Rightarrow> prompt_act" where
  "prompt_action ms = prompt_action_from [] ms"

definition session_start_context :: "(hook_dialect \<times> merged_outcome) list \<Rightarrow> string list" where
  "session_start_context ms = concat (map (\<lambda>(_, m). merged_context m) ms)"

datatype pre_tool_act = PreProceed | PreDeny string bool | PreAsk "string option"

fun pre_tool_action :: "(hook_dialect \<times> merged_outcome) list \<Rightarrow> pre_tool_act" where
  "pre_tool_action [] = PreProceed"
| "pre_tool_action ((d, m) # ms) =
     (if d = ClaudeCode \<and> merged_stop m then
        PreDeny (unwrap_or pre_tool_use_blocked (or_else (merged_stop_reason m) (merged_reason m))) True
      else if d = ClaudeCode \<and> merged_decision m = MergedAsk then PreAsk (merged_reason m)
      else if merged_decision m = MergedDeny then
        PreDeny (unwrap_or pre_tool_use_blocked (merged_reason m)) False
      else pre_tool_action ms)"

record post_tool_act =
  post_feedback :: "string option"
  post_context :: "string list"
  post_halt :: bool

definition option_list :: "'a option \<Rightarrow> 'a list" where
  "option_list x = (case x of Some y \<Rightarrow> [y] | None \<Rightarrow> [])"

definition post_tool_step ::
  "hook_dialect \<times> merged_outcome \<Rightarrow> post_tool_act \<Rightarrow> post_tool_act" where
  "post_tool_step = (\<lambda>(d, m) a.
     (let a = a\<lparr>post_context := post_context a @ merged_context m\<rparr>;
          deny = (merged_decision m = MergedDeny) in
      (case d of
         ClaudeCode \<Rightarrow>
           (let a = (if deny \<and> post_feedback a = None
                     then a\<lparr>post_feedback := Some (unwrap_or post_tool_use_blocked (merged_reason m))\<rparr> else a)
            in if merged_stop m
               then a\<lparr>post_halt := True, post_context := post_context a @ option_list (merged_stop_reason m)\<rparr>
               else a)
       | Codex \<Rightarrow>
           (if (deny \<or> merged_stop m) \<and> post_feedback a = None
            then a\<lparr>post_feedback := Some (unwrap_or post_tool_use_blocked
                     (or_else (merged_reason m) (merged_stop_reason m)))\<rparr>
            else a))))"

definition post_tool_action :: "(hook_dialect \<times> merged_outcome) list \<Rightarrow> post_tool_act" where
  "post_tool_action ms =
     fold post_tool_step ms \<lparr>post_feedback = None, post_context = [], post_halt = False\<rparr>"

definition stop_continuation :: "(hook_dialect \<times> merged_outcome) list \<Rightarrow> string option" where
  "stop_continuation ms =
     (let reasons = map (\<lambda>(_, m). unwrap_or stop_blocked (merged_reason m))
                      (filter (\<lambda>(_, m). merged_decision m = MergedDeny \<and> \<not> merged_stop m) ms)
      in if reasons \<noteq> [] then Some (join blank_line reasons) else None)"

definition decision_entry :: "hook_event \<Rightarrow> string \<Rightarrow> object \<Rightarrow> json list \<Rightarrow> json" where
  "decision_entry e decision facts records =
     JObject (obj_insert ''hooks'' (JArray records)
       (foldl (\<lambda>m (k, v). obj_insert k v m) [(''event'', JString (event_text e)), (''decision'', JString decision)] facts))"

section \<open>The session's write boundary\<close>

text \<open>The session behind its lock with the first failed write, and the stops of a failure.\<close>

record write_state =
  ws_session :: session_manager
  ws_gap :: "string option"
  ws_persist_error :: "string option"
  ws_abort_requested :: bool

text \<open>What one decision write meets: whether the gate is open, the text when the blocking pool refuses
  the write, whether the evaluation was cancelled by the time of its admission, the draws and writes of the entry and of its note, and the text
  of a failure.\<close>

record write_world =
  wd_open :: bool
  wd_refused :: "string option"
  wd_cancelled :: bool
  wd_entry :: env
  wd_note :: env
  wd_error_text :: "session_error \<Rightarrow> string"

definition decision_entry_type :: string where "decision_entry_type = ''bake.hook.decision''"
definition context_message_type :: string where "context_message_type = ''bake.hook.context''"

type_synonym cap_message = "json \<times> json option"

text \<open>\<open>write_session\<close> around the closure of the decision.\<close>

definition write_under_lock ::
  "write_world \<Rightarrow> json \<Rightarrow> cap_message option \<Rightarrow> write_state \<Rightarrow> write_state \<times> (string, bool) result" where
  "write_under_lock w data extra st =
     (case ws_gap st of
        Some e \<Rightarrow> (st, Inl e)
      | None \<Rightarrow>
          if wd_cancelled w then (st, Inr False)
          else
            (case append_custom_entry (wd_entry w) decision_entry_type (Some data) (ws_session st) of
               (s, Inl e) \<Rightarrow> (st\<lparr>ws_session := s, ws_gap := Some (wd_error_text w e)\<rparr>, Inl (wd_error_text w e))
             | (s, Inr _) \<Rightarrow>
                 (case extra of
                    None \<Rightarrow> (st\<lparr>ws_session := s\<rparr>, Inr True)
                  | Some (content, details) \<Rightarrow>
                      (case append_custom_message_entry (wd_note w) context_message_type content True details s of
                         (s, Inl e) \<Rightarrow>
                           (st\<lparr>ws_session := s, ws_gap := Some (wd_error_text w e)\<rparr>, Inl (wd_error_text w e))
                       | (s, Inr _) \<Rightarrow> (st\<lparr>ws_session := s\<rparr>, Inr True)))))"

definition write_decision ::
  "write_world \<Rightarrow> json \<Rightarrow> cap_message option \<Rightarrow> write_state \<Rightarrow> write_state \<times> (string, bool) result" where
  "write_decision w data extra st =
     (if \<not> wd_open w then (st, Inl ''The session is shut down.'')
      else if wd_refused w \<noteq> None then (st, Inl (the (wd_refused w)))
      else
        (case write_under_lock w data extra st of
           (st, Inr b) \<Rightarrow> (st, Inr b)
         | (st, Inl e) \<Rightarrow>
             (st\<lparr>ws_abort_requested := True, ws_persist_error := or_else (ws_persist_error st) (Some e)\<rparr>,
              Inl (''The hook decision could not be written to the session file ('' @ e @
                   ''), so the session stopped and takes no more prompts.''))))"

section \<open>Before a tool call\<close>

datatype before_call = CallProceeds | CallBlocked string bool

definition aborted_call :: before_call where "aborted_call = CallBlocked ''Operation aborted'' False"

definition tool_facts :: "string \<Rightarrow> string \<Rightarrow> object" where
  "tool_facts i tool = [(''toolCallId'', JString i), (''toolName'', JString tool)]"

definition ask_text :: "string option \<Rightarrow> string" where
  "ask_text r = (case r of
     Some r \<Rightarrow> ''A PreToolUse hook asks to confirm this call: '' @ r
   | None \<Rightarrow> ''A PreToolUse hook asks to confirm this call'')"

definition hook_refusal :: "escalation_outcome \<Rightarrow> string option \<Rightarrow> string option" where
  "hook_refusal outcome r =
     (let say = (\<lambda>t. Some (case r of Some r \<Rightarrow> t @ '': '' @ r | None \<Rightarrow> t)) in
      (case outcome of
         AllowedOnce \<Rightarrow> None
       | Unavailable \<Rightarrow> say ''a PreToolUse hook asked to confirm this call, but no approval channel is available''
       | Cancelled \<Rightarrow> say ''approval for this call was cancelled''
       | Rejected \<Rightarrow> say ''the user rejected this call, which a PreToolUse hook asked to confirm''))"

text \<open>A tool call, and what happens around its hooks: whether the signal has aborted after the
  evaluation and after the question, the outcome of the question, and the write.\<close>

record call_world =
  call_tool :: string
  call_id :: string
  call_parent :: "string option"
  call_args :: json
  call_hooks :: hook_world
  call_aborted :: bool
  call_answer :: "approval_request \<Rightarrow> escalation_outcome"
  call_aborted_asking :: bool
  call_write :: write_world

definition call_input :: "call_world \<Rightarrow> event_input" where
  "call_input c = InPreToolUse (call_tool c) (call_id c) (call_args c)"

definition ask_request :: "call_world \<Rightarrow> string option \<Rightarrow> approval_request" where
  "ask_request c r = \<lparr>request_tool = call_tool c, request_call = call_id c, request_parent = call_parent c,
     request_reason = ask_text r, request_arguments = call_args c\<rparr>"

text \<open>The decision, its facts, the result and the halt; \<open>None\<close> when the signal aborts meanwhile.\<close>

definition decide_call ::
  "call_world \<Rightarrow> pre_tool_act \<Rightarrow> (string \<times> object \<times> before_call \<times> bool) option" where
  "decide_call c a =
     (let facts = tool_facts (call_id c) (call_tool c) in
      (case a of
         PreProceed \<Rightarrow> Some (''pass'', facts, CallProceeds, False)
       | PreDeny r halt \<Rightarrow>
           Some (''deny'', facts @ [(''reason'', JString r)] @ (if halt then [(''halt'', JBool True)] else []),
                 CallBlocked r halt, halt)
       | PreAsk r \<Rightarrow>
           (let outcome = call_answer c (ask_request c r) in
            if call_aborted_asking c then None
            else (let facts = facts @ [(''approval'', JString (outcome_text outcome))] in
                  (case hook_refusal outcome r of
                     None \<Rightarrow> Some (''allow'', facts, CallProceeds, False)
                   | Some t \<Rightarrow> Some (''deny'', facts @ [(''reason'', JString t)], CallBlocked t False, False))))))"

definition before_tool_call ::
  "hooks \<Rightarrow> call_world \<Rightarrow> hook_state \<times> write_state \<Rightarrow>
     (hook_state \<times> write_state) \<times> (string, before_call) result" where
  "before_tool_call hs c = (\<lambda>(h, st).
     (case evaluate hs (call_hooks c) (call_input c) of
        None \<Rightarrow> ((h, st), Inr CallProceeds)
      | Some ev \<Rightarrow>
          if call_aborted c then ((h, st), Inr aborted_call)
          else
            (case decide_call c (pre_tool_action (eval_outcomes ev)) of
               None \<Rightarrow> ((h, st), Inr aborted_call)
             | Some (decision, facts, r, halt) \<Rightarrow>
                 (case write_decision (call_write c)
                         (decision_entry PreToolUse decision facts (eval_records ev)) None st of
                    (st, Inl e) \<Rightarrow> ((h, st), Inl e)
                  | (st, Inr False) \<Rightarrow> ((h, st), Inr aborted_call)
                  | (st, Inr True) \<Rightarrow> ((if halt then h\<lparr>halted := True\<rparr> else h, st), Inr r)))))"

section \<open>Where a run would settle\<close>

text \<open>A \<open>Stop\<close> evaluation inside a run, and what becomes of the run afterwards.\<close>

record settle_world =
  settle_hooks :: hook_world
  settle_stopped :: bool
  settle_write :: write_world

definition note_blocks :: "string \<Rightarrow> json" where
  "note_blocks t = JArray [JObject [(''type'', JString ''text''), (''text'', JString t)]]"

definition cap_note :: cap_message where
  "cap_note = (note_blocks stop_cap_note,
     Some (JObject [(''event'', JString (event_text StopEvent)), (''capped'', JBool True)]))"

text \<open>The message that continues the run, if any.\<close>

definition before_settle ::
  "hooks \<Rightarrow> settle_world \<Rightarrow> hook_state \<times> write_state \<Rightarrow>
     (hook_state \<times> write_state) \<times> (string, string option) result" where
  "before_settle hs w = (\<lambda>(h, st).
     if \<not> hooks_run hs StopEvent \<or> halted h then ((h, st), Inr None)
     else
       (case evaluate hs (settle_hooks w) (InStop (stop_active h)) of
          None \<Rightarrow> ((h, st), Inr None)
        | Some ev \<Rightarrow>
            if settle_stopped w then ((h, st), Inr None)
            else
              (let continuation = stop_continuation (eval_outcomes ev);
                   capped = (continuation \<noteq> None \<and> max_stop_hook_continuations \<le> stop_continuations h);
                   facts = (''stopHookActive'', JBool (stop_active h)) #
                     map (\<lambda>r. (''reason'', JString r)) (option_list continuation) @
                     (if capped then [(''continuations'', json_u64 (stop_continuations h))] else []);
                   decision = (if continuation = None then ''pass'' else if capped then ''capped'' else ''continue'')
               in (case write_decision (settle_write w) (decision_entry StopEvent decision facts (eval_records ev))
                          (if capped then Some cap_note else None) st of
                     (st, Inl e) \<Rightarrow> ((h, st), Inl e)
                   | (st, Inr False) \<Rightarrow> ((h, st), Inr None)
                   | (st, Inr True) \<Rightarrow>
                       if capped then ((h, st), Inr None)
                       else (case continuation of
                               None \<Rightarrow> ((h, st), Inr None)
                             | Some r \<Rightarrow>
                                 ((h\<lparr>stop_active := True, stop_continuations := stop_continuations h + 1\<rparr>, st),
                                  Inr (Some r)))))))"

text \<open>The state a prompt starts with: \<open>run_agent_input\<close>.\<close>

definition start_prompt :: "hook_state \<Rightarrow> hook_state" where
  "start_prompt h = h\<lparr>halted := False, stop_active := False, stop_continuations := 0\<rparr>"

text \<open>A prompt's settling points, one world each, while the hooks continue the run; between two of
  them the run's tool hooks may halt it. The result counts the continuations.\<close>

fun settle_points ::
  "hooks \<Rightarrow> (settle_world \<times> bool) list \<Rightarrow> hook_state \<times> write_state \<Rightarrow> nat" where
  "settle_points hs [] x = 0"
| "settle_points hs ((w, halt) # ws) (h, st) =
     (case before_settle hs w (h\<lparr>halted := halted h \<or> halt\<rparr>, st) of
        (x, Inr (Some r)) \<Rightarrow> Suc (settle_points hs ws x)
      | (x, _) \<Rightarrow> 0)"

section \<open>The first file that objects decides a call\<close>

text \<open>Reference: what the matched hooks of one file say about a call.\<close>

definition hook_objects :: "hook_dialect \<Rightarrow> hook_output list \<Rightarrow> bool" where
  "hook_objects d outs \<longleftrightarrow>
     (\<exists>out \<in> set outs. rank_decision (hook_decided out) = MergedDeny) \<or>
     d = ClaudeCode \<and> (\<exists>out \<in> set outs. hook_continue out = Some False \<or> rank_decision (hook_decided out) = MergedAsk)"

definition hook_reasons :: "merged_decision \<Rightarrow> hook_output list \<Rightarrow> string option" where
  "hook_reasons r outs =
     (if reasons_of r outs = [] then None else Some (join blank_line (reasons_of r outs)))"

definition hook_objection :: "hook_dialect \<Rightarrow> hook_output list \<Rightarrow> pre_tool_act" where
  "hook_objection d outs =
     (let denied = (\<exists>out \<in> set outs. rank_decision (hook_decided out) = MergedDeny);
          asked = (\<exists>out \<in> set outs. rank_decision (hook_decided out) = MergedAsk);
          said = (if denied then hook_reasons MergedDeny outs
                  else if asked then hook_reasons MergedAsk outs else None) in
      (case (d, find (\<lambda>out. hook_continue out = Some False) outs) of
         (ClaudeCode, Some first) \<Rightarrow>
           PreDeny (unwrap_or pre_tool_use_blocked (or_else (hook_stop_reason first) said)) True
       | _ \<Rightarrow> if denied then PreDeny (unwrap_or pre_tool_use_blocked said) False else PreAsk said))"

definition hook_verdict :: "(hook_dialect \<times> hook_output list) list \<Rightarrow> pre_tool_act" where
  "hook_verdict files =
     (case find (\<lambda>(d, outs). hook_objects d outs) files of
        None \<Rightarrow> PreProceed
      | Some (d, outs) \<Rightarrow> hook_objection d outs)"

definition file_outputs :: "hook_world \<Rightarrow> event_input \<Rightarrow> nat \<Rightarrow> hook_file list \<Rightarrow> (hook_dialect \<times> hook_output list) list" where
  "file_outputs w input fi fs =
     map (\<lambda>(i, f). (file_dialect f, map snd (run_file w input i f))) (enumerate fi fs)"

lemma merged_reason_strictest:
  "merged_reason (merge_hook_outputs outs) =
     (if \<exists>out \<in> set outs. rank_decision (hook_decided out) = MergedDeny then hook_reasons MergedDeny outs
      else if \<exists>out \<in> set outs. rank_decision (hook_decided out) = MergedAsk then hook_reasons MergedAsk outs
      else None)"
proof (cases "strictest outs = MergedDeny")
  case True
  with strictest_cases(1) [of outs] show ?thesis by (simp add: merge_exact hook_reasons_def Let_def)
next
  case False
  with strictest_cases [of outs] have none: "\<not> (\<exists>out \<in> set outs. rank_decision (hook_decided out) = MergedDeny)"
    and ask: "(\<exists>out \<in> set outs. rank_decision (hook_decided out) = MergedAsk) = (strictest outs = MergedAsk)"
    by blast+
  show ?thesis unfolding if_not_P [OF none] ask using False by (simp add: merge_exact hook_reasons_def Let_def)
qed

lemma find_filter: "find P xs = (case filter P xs of [] \<Rightarrow> None | x # _ \<Rightarrow> Some x)"
  by (induction xs) simp_all

lemma pre_tool_action_merged:
  "pre_tool_action ((d, merge_hook_outputs outs) # ms) =
     (if hook_objects d outs then hook_objection d outs else pre_tool_action ms)"
proof -
  let ?deny = "\<exists>out \<in> set outs. rank_decision (hook_decided out) = MergedDeny"
  let ?ask = "\<exists>out \<in> set outs. rank_decision (hook_decided out) = MergedAsk"
  let ?m = "merge_hook_outputs outs"
  have deny: "merged_decision ?m = MergedDeny \<longleftrightarrow> ?deny" and ask: "merged_decision ?m = MergedAsk \<longleftrightarrow> ?ask \<and> \<not> ?deny"
    using strictest_cases [of outs] by (auto simp: merge_exact(1))
  have stop: "find (\<lambda>out. hook_continue out = Some False) outs =
      (if merged_stop ?m then Some (hd (stopping outs)) else None)"
    by (simp add: merge_exact(3) find_filter stopping_def split: list.split)
  have some: "merged_stop ?m \<longleftrightarrow> (\<exists>out \<in> set outs. hook_continue out = Some False)"
    by (auto simp: merge_exact(3) stopping_def filter_empty_conv)
  have reason: "merged_stop ?m \<Longrightarrow> merged_stop_reason ?m = hook_stop_reason (hd (stopping outs))"
    by (simp add: merge_exact(3,4))
  show ?thesis
  proof (cases "d = ClaudeCode \<and> merged_stop ?m")
    case True
    then have "hook_objects d outs" using some by (auto simp: hook_objects_def)
    with True show ?thesis
      by (simp add: hook_objection_def stop reason merged_reason_strictest Let_def)
  next
    case False
    then have found: "(case (d, find (\<lambda>out. hook_continue out = Some False) outs) of
        (ClaudeCode, Some first) \<Rightarrow> x first | _ \<Rightarrow> y) = y" for x and y :: pre_tool_act
      by (cases d) (simp_all add: stop)
    define A where "A \<longleftrightarrow> ?deny"
    define B where "B \<longleftrightarrow> ?ask"
    have bex: "(\<exists>out \<in> set outs. hook_continue out = Some False \<or> rank_decision (hook_decided out) = MergedAsk) \<longleftrightarrow>
        merged_stop ?m \<or> B" using some by (auto simp: B_def)
    have objects: "hook_objects d outs \<longleftrightarrow> A \<or> d = ClaudeCode \<and> B"
      unfolding hook_objects_def bex using False by (auto simp: A_def)
    have said: "merged_reason ?m = (if A then hook_reasons MergedDeny outs
        else if B then hook_reasons MergedAsk outs else None)"
      unfolding A_def B_def by (rule merged_reason_strictest)
    have objection: "hook_objection d outs =
        (if A then PreDeny (unwrap_or pre_tool_use_blocked (merged_reason ?m)) False else PreAsk (merged_reason ?m))"
      unfolding hook_objection_def Let_def found said A_def [symmetric] B_def [symmetric] ..
    show ?thesis
      unfolding objects objection pre_tool_action.simps deny [folded A_def] ask [folded A_def B_def] using False by auto
  qed
qed

lemma ends_objects: "ends_event PreToolUse d (merge_hook_outputs outs) \<longleftrightarrow> hook_objects d outs"
  using strictest_cases [of outs]
  by (cases d) (auto simp: ends_event_def hook_objects_def merge_exact stopping_def filter_empty_conv Let_def)

lemma objects_nonempty: "hook_objects d outs \<Longrightarrow> outs \<noteq> []"
  by (auto simp: hook_objects_def)

lemma pre_tool_action_snoc:
  "(\<forall>(d, m) \<in> set ms. pre_tool_action [(d, m)] = PreProceed) \<Longrightarrow>
     pre_tool_action (ms @ ms') = pre_tool_action ms'"
  by (induction ms) (auto split: if_splits)

lemma run_files_verdict:
  assumes "input_event input = PreToolUse"
    and "\<forall>(d, m) \<in> set (eval_outcomes ev). pre_tool_action [(d, m)] = PreProceed"
  shows "pre_tool_action (eval_outcomes (run_files w input fi fs ev)) = hook_verdict (file_outputs w input fi fs)"
  using assms(2)
proof (induction fs arbitrary: fi ev)
  case Nil
  then show ?case
    using pre_tool_action_snoc [of "eval_outcomes ev" "[]"] by (simp add: hook_verdict_def file_outputs_def)
next
  case (Cons f fs)
  define ran where "ran = run_file w input fi f"
  define outs where "outs = map snd ran"
  define d where "d = file_dialect f"
  let ?m = "merge_hook_outputs outs"
  have verdict: "hook_verdict (file_outputs w input fi (f # fs)) =
      (if hook_objects d outs then hook_objection d outs else hook_verdict (file_outputs w input (Suc fi) fs))"
    by (simp add: hook_verdict_def file_outputs_def ran_def outs_def d_def)
  define ev' where "ev' = ev\<lparr>eval_records := eval_records ev @ map fst ran\<rparr>"
  define ev2 where "ev2 = ev'\<lparr>eval_outcomes := eval_outcomes ev' @ [(d, ?m)]\<rparr>"
  have step: "run_files w input fi (f # fs) ev =
      (if ran = [] then run_files w input (Suc fi) fs ev'
       else if hook_objects d outs then ev2 else run_files w input (Suc fi) fs ev2)"
    by (simp add: Let_def ran_def outs_def d_def ev'_def ev2_def assms(1) ends_objects)
  have quiet': "\<forall>(d, m) \<in> set (eval_outcomes ev'). pre_tool_action [(d, m)] = PreProceed"
    using Cons.prems by (simp add: ev'_def)
  show ?case
  proof (cases "hook_objects d outs")
    case True
    with objects_nonempty have "ran \<noteq> []" by (auto simp: outs_def)
    then have decided: "pre_tool_action (eval_outcomes (run_files w input fi (f # fs) ev)) = pre_tool_action [(d, ?m)]"
      unfolding step using True quiet' pre_tool_action_snoc [of "eval_outcomes ev'" "[(d, ?m)]"] by (simp add: ev2_def)
    show ?thesis unfolding verdict decided pre_tool_action_merged using True by simp
  next
    case False
    have "pre_tool_action [(d, ?m)] = PreProceed"
      unfolding pre_tool_action_merged using False by simp
    then have "\<forall>(d, m) \<in> set (eval_outcomes ev2). pre_tool_action [(d, m)] = PreProceed"
      using quiet' by (simp add: ev2_def)
    with Cons.IH quiet' show ?thesis unfolding step verdict using False by simp
  qed
qed

lemma run_files_records: "\<exists>rs. eval_records (run_files w input fi fs ev) = eval_records ev @ rs"
proof (induction fs arbitrary: fi ev)
  case (Cons f fs)
  from Cons.IH [of "fi + 1" "ev\<lparr>eval_records := eval_records ev @ map fst (run_file w input fi f)\<rparr>"]
    Cons.IH [of "fi + 1" "ev\<lparr>eval_records := eval_records ev @ map fst (run_file w input fi f),
      eval_outcomes := eval_outcomes ev @ [(file_dialect f, merge_hook_outputs (map snd (run_file w input fi f)))]\<rparr>"]
  show ?case by (auto simp: Let_def)
qed simp

lemma run_files_unrecorded:
  "eval_records (run_files w input fi fs ev) = [] \<Longrightarrow> eval_outcomes (run_files w input fi fs ev) = eval_outcomes ev"
proof (induction fs arbitrary: fi ev)
  case (Cons f fs)
  define ran where "ran = run_file w input fi f"
  define ev' where "ev' = ev\<lparr>eval_records := eval_records ev @ map fst ran\<rparr>"
  show ?case
  proof (cases "ran = []")
    case True
    then have "run_files w input fi (f # fs) ev = run_files w input (fi + 1) fs ev'"
      by (simp add: Let_def ran_def ev'_def)
    with Cons.IH [of "fi + 1" ev'] Cons.prems show ?thesis by (simp add: ev'_def)
  next
    case False
    define ev2 where "ev2 = ev'\<lparr>eval_outcomes := eval_outcomes ev' @ [(file_dialect f, merge_hook_outputs (map snd ran))]\<rparr>"
    have "run_files w input fi (f # fs) ev = ev2 \<or>
        run_files w input fi (f # fs) ev = run_files w input (fi + 1) fs ev2"
      using False by (simp add: Let_def ran_def [symmetric] ev'_def ev2_def)
    moreover have "eval_records ev2 = eval_records ev @ map fst ran" by (simp add: ev2_def ev'_def)
    ultimately have "\<exists>rs. eval_records (run_files w input fi (f # fs) ev) = (eval_records ev @ map fst ran) @ rs"
      using run_files_records [of w input "fi + 1" fs ev2] by (elim disjE) auto
    with Cons.prems False show ?thesis by simp
  qed
qed simp

lemma enumerate_member: "(i, x) \<in> set (enumerate n xs) \<Longrightarrow> x \<in> set xs"
proof -
  assume "(i, x) \<in> set (enumerate n xs)"
  then have "n \<le> i" "i < length xs + n" "xs ! (i - n) = x" by (simp_all add: in_set_enumerate_eq)
  then show ?thesis using nth_mem [of "i - n" xs] by simp
qed

lemma run_file_unmatched:
  "groups_of (file_groups f) (input_event input) = [] \<Longrightarrow> run_file w input fi f = []"
  by (simp add: run_file_def)

lemma verdict_silent: "(\<And>d outs. (d, outs) \<in> set files \<Longrightarrow> outs = []) \<Longrightarrow> hook_verdict files = PreProceed"
proof -
  assume "\<And>d outs. (d, outs) \<in> set files \<Longrightarrow> outs = []"
  then have "find (\<lambda>(d, outs). hook_objects d outs) files = None"
    by (auto simp: find_None_iff dest: objects_nonempty)
  then show ?thesis by (simp add: hook_verdict_def)
qed

lemma call_verdict:
  "(case evaluate hs w (InPreToolUse tool i v) of
      None \<Rightarrow> PreProceed
    | Some ev \<Rightarrow> pre_tool_action (eval_outcomes ev)) =
   hook_verdict (file_outputs w (InPreToolUse tool i v) 0 (hook_files hs))"
proof -
  let ?in = "InPreToolUse tool i v"
  define ev where "ev = run_files w ?in 0 (hook_files hs) \<lparr>eval_outcomes = [], eval_records = []\<rparr>"
  have verdict: "pre_tool_action (eval_outcomes ev) = hook_verdict (file_outputs w ?in 0 (hook_files hs))"
    unfolding ev_def by (rule run_files_verdict) simp_all
  show ?thesis
  proof (cases "evaluate hs w ?in")
    case (Some e)
    then have "e = ev" by (auto simp: evaluate_def Let_def ev_def split: if_splits)
    with verdict Some show ?thesis by simp
  next
    case None
    have "hook_verdict (file_outputs w ?in 0 (hook_files hs)) = PreProceed"
    proof (cases "hooks_run hs PreToolUse")
      case False
      then have "\<forall>f \<in> set (hook_files hs). groups_of (file_groups f) PreToolUse = []"
        by (auto simp: hooks_run_def list_ex_iff split: hook_scope.splits)
      then show ?thesis
        by (intro verdict_silent) (auto simp: file_outputs_def dest: enumerate_member intro!: run_file_unmatched)
    next
      case True
      with None have "eval_records ev = []" by (auto simp: evaluate_def Let_def ev_def split: if_splits)
      then have "eval_outcomes ev = []"
        unfolding ev_def using run_files_unrecorded by fastforce
      with verdict show ?thesis by simp
    qed
    with None show ?thesis by simp
  qed
qed

text \<open>The files a call consults: those up to the first that objects, each with the records and outputs
  of its hooks.\<close>

definition file_runs ::
  "hook_world \<Rightarrow> event_input \<Rightarrow> nat \<Rightarrow> hook_file list \<Rightarrow> (hook_dialect \<times> (json \<times> hook_output) list) list" where
  "file_runs w input fi fs = map (\<lambda>(i, f). (file_dialect f, run_file w input i f)) (enumerate fi fs)"

fun consulted ::
  "(hook_dialect \<times> (json \<times> hook_output) list) list \<Rightarrow> (hook_dialect \<times> (json \<times> hook_output) list) list" where
  "consulted [] = []"
| "consulted ((d, results) # files) =
     (d, results) # (if hook_objects d (map snd results) then [] else consulted files)"

definition consulted_records :: "hooks \<Rightarrow> hook_world \<Rightarrow> event_input \<Rightarrow> json list" where
  "consulted_records hs w input = map fst (concat (map snd (consulted (file_runs w input 0 (hook_files hs)))))"

lemma run_files_consulted:
  assumes "input_event input = PreToolUse"
  shows "eval_records (run_files w input fi fs ev) =
     eval_records ev @ map fst (concat (map snd (consulted (file_runs w input fi fs))))"
proof (induction fs arbitrary: fi ev)
  case (Cons f fs)
  define ran where "ran = run_file w input fi f"
  define d where "d = file_dialect f"
  define ev' where "ev' = ev\<lparr>eval_records := eval_records ev @ map fst ran\<rparr>"
  define ev2 where "ev2 = ev'\<lparr>eval_outcomes := eval_outcomes ev' @ [(d, merge_hook_outputs (map snd ran))]\<rparr>"
  have step: "run_files w input fi (f # fs) ev =
      (if ran = [] then run_files w input (Suc fi) fs ev'
       else if hook_objects d (map snd ran) then ev2 else run_files w input (Suc fi) fs ev2)"
    by (simp add: Let_def ran_def d_def ev'_def ev2_def assms ends_objects)
  have runs: "file_runs w input fi (f # fs) = (d, ran) # file_runs w input (Suc fi) fs"
    by (simp add: file_runs_def ran_def d_def)
  have records: "eval_records ev' = eval_records ev @ map fst ran" "eval_records ev2 = eval_records ev @ map fst ran"
    by (simp_all add: ev'_def ev2_def)
  have "\<not> hook_objects d (map snd ran)" if "ran = []" using objects_nonempty that by fastforce
  then show ?case
    unfolding step runs using Cons.IH [of "Suc fi" ev'] Cons.IH [of "Suc fi" ev2] by (simp add: records)
qed (simp add: file_runs_def)

lemma call_consulted:
  "(case evaluate hs w (InPreToolUse tool i v) of None \<Rightarrow> [] | Some ev \<Rightarrow> eval_records ev) =
   consulted_records hs w (InPreToolUse tool i v)"
proof -
  let ?in = "InPreToolUse tool i v"
  have records: "eval_records (run_files w ?in 0 (hook_files hs) \<lparr>eval_outcomes = [], eval_records = []\<rparr>) =
      consulted_records hs w ?in"
    by (simp add: run_files_consulted consulted_records_def)
  show ?thesis
  proof (cases "hooks_run hs PreToolUse")
    case True
    then show ?thesis using records by (auto simp: evaluate_def Let_def split: if_splits)
  next
    case False
    then have "\<forall>f \<in> set (hook_files hs). groups_of (file_groups f) PreToolUse = []"
      by (auto simp: hooks_run_def list_ex_iff split: hook_scope.splits)
    then have "snd r = []" if "r \<in> set (file_runs w ?in 0 (hook_files hs))" for r
      using that by (auto simp: file_runs_def run_file_unmatched dest!: enumerate_member)
    moreover have "r \<in> set (consulted files) \<Longrightarrow> r \<in> set files" for r files
      by (induction files rule: consulted.induct) (auto split: if_splits)
    ultimately have "consulted_records hs w ?in = []" by (auto simp: consulted_records_def concat_eq_Nil_conv)
    with False show ?thesis by (simp add: evaluate_def)
  qed
qed

text \<open>Before a tool call, the hook files are consulted in order and the first whose matched hooks
  object decides it, alone: no earlier one objected, no later file is run, and the records are
  those of every matched hook of the files consulted. A deny or block in either dialect, and a stop
  or an ask in a Claude Code file, objects; a stop denies and halts with its own reason first, a
  deny outranks an ask and an ask any allow, and the reasons of the winning rank are all given. A
  call proceeds exactly when no file objects.\<close>

theorem first_objection_decides:
  "(case evaluate hs w (InPreToolUse tool i v) of
      None \<Rightarrow> (PreProceed, [])
    | Some ev \<Rightarrow> (pre_tool_action (eval_outcomes ev), eval_records ev)) =
   (hook_verdict (file_outputs w (InPreToolUse tool i v) 0 (hook_files hs)),
    consulted_records hs w (InPreToolUse tool i v))"
  using call_verdict [of hs w tool i v] call_consulted [of hs w tool i v] by (simp split: option.splits)

section \<open>A decision is written before it takes effect\<close>

lemma write_decision_written:
  assumes "write_decision w data None st = (st', Inr b)"
    and "wf_manager (ws_session st)" and "fresh_env (wd_entry w) (ws_session st)"
  shows "if b then manager_trail (ws_session st') =
           manager_trail (ws_session st) @ [Some (decision_entry_type, read_data (Some data))] \<and>
           wf_manager (ws_session st')
         else st' = st"
proof -
  have under: "write_under_lock w data None st = (st', Inr b)"
    using assms(1) by (auto simp: write_decision_def split: if_splits prod.splits sum.splits)
  then have gap: "ws_gap st = None" by (cases "ws_gap st") (simp_all add: write_under_lock_def)
  obtain s r where a: "append_custom_entry (wd_entry w) decision_entry_type (Some data) (ws_session st) = (s, r)"
    by fastforce
  consider "wd_cancelled w" "st' = st" "\<not> b"
    | i where "r = Inr i" "st' = st\<lparr>ws_session := s\<rparr>" b
    using under gap a by (cases "wd_cancelled w"; cases r) (auto simp: write_under_lock_def)
  then show ?thesis
  proof cases
    case 2
    with manager_log.append_trail [OF assms(2,3) a] manager_log.append_ready [OF assms(2,3) a]
    show ?thesis by simp
  qed simp
qed

lemma hook_refusal_None [simp]: "hook_refusal outcome r = None \<longleftrightarrow> outcome = AllowedOnce"
  by (cases outcome) (simp_all add: hook_refusal_def)

lemma decide_call_proceeds:
  assumes "decide_call c a = Some (decision, facts, CallProceeds, halt)"
  shows "a = PreProceed \<or> (\<exists>q. a = PreAsk q \<and> call_answer c (ask_request c q) = AllowedOnce)"
  using assms by (cases a) (auto simp: decide_call_def Let_def split: if_splits option.splits)

text \<open>C11. A call goes past its hooks only with the right to, and on the record: either no hook matched
  it; or the decision and every hook's record were appended to the session's branch first, as its
  newest decision entry, and no hook file objected to the call, or the one that did asked and
  the user allowed this call. A cancelled signal, a refused or failed write and an unanswered
  question never let a call through.\<close>

theorem call_proceeds_on_record:
  assumes "before_tool_call hs c (h, st) = ((h', st'), Inr CallProceeds)"
    and "wf_manager (ws_session st)" and "fresh_env (wd_entry (call_write c)) (ws_session st)"
  shows "evaluate hs (call_hooks c) (call_input c) = None \<and> st' = st \<or>
     (\<exists>ev decision facts. evaluate hs (call_hooks c) (call_input c) = Some ev \<and> \<not> call_aborted c \<and>
        manager_trail (ws_session st') = manager_trail (ws_session st) @
          [Some (decision_entry_type, Some (decision_entry PreToolUse decision facts (eval_records ev)))] \<and>
        (let verdict = hook_verdict (file_outputs (call_hooks c) (call_input c) 0 (hook_files hs)) in
         verdict = PreProceed \<or>
         (\<exists>q. verdict = PreAsk q \<and> call_answer c (ask_request c q) = AllowedOnce \<and> \<not> call_aborted_asking c)))"
proof (cases "evaluate hs (call_hooks c) (call_input c)")
  case None
  with assms(1) show ?thesis by (simp add: before_tool_call_def)
next
  case (Some ev)
  have blocked: "aborted_call \<noteq> CallProceeds" by (simp add: aborted_call_def)
  with assms(1) Some obtain decision facts halt where *: "\<not> call_aborted c"
    "decide_call c (pre_tool_action (eval_outcomes ev)) = Some (decision, facts, CallProceeds, halt)"
    "write_decision (call_write c) (decision_entry PreToolUse decision facts (eval_records ev)) None st = (st', Inr True)"
    by (auto simp: before_tool_call_def split: if_splits option.splits prod.splits sum.splits bool.splits)
  have verdict: "pre_tool_action (eval_outcomes ev) =
      hook_verdict (file_outputs (call_hooks c) (call_input c) 0 (hook_files hs))"
    using call_verdict [of hs "call_hooks c" "call_tool c" "call_id c" "call_args c"] Some by (simp add: call_input_def)
  have "manager_trail (ws_session st') = manager_trail (ws_session st) @
      [Some (decision_entry_type, Some (decision_entry PreToolUse decision facts (eval_records ev)))]"
    using write_decision_written [OF *(3) assms(2,3)] by (simp add: read_data_def decision_entry_def)
  moreover have "\<not> call_aborted_asking c" if "pre_tool_action (eval_outcomes ev) = PreAsk q" for q
    using *(2) that by (auto simp: decide_call_def Let_def split: if_splits)
  ultimately show ?thesis
    using *(1) Some decide_call_proceeds [OF *(2)] unfolding verdict Let_def by blast
qed

section \<open>Stop hooks cannot keep a run going for ever\<close>

lemma before_settle_continues:
  assumes "before_settle hs w (h, st) = ((h', st'), Inr (Some r))"
  shows "stop_continuations h' = stop_continuations h + 1" and "stop_continuations h < max_stop_hook_continuations"
    and "\<not> halted h" and "halted h' = halted h" and "stop_active h'"
  using assms by (auto simp: before_settle_def Let_def split: if_splits option.splits prod.splits sum.splits bool.splits)

lemma settle_points_bound:
  "settle_points hs ws (h, st) \<le> max_stop_hook_continuations - stop_continuations h"
proof (induction ws arbitrary: h st)
  case (Cons wh ws)
  obtain w halt where wh: "wh = (w, halt)" by fastforce
  let ?h = "h\<lparr>halted := halted h \<or> halt\<rparr>"
  show ?case
  proof (cases "\<exists>h' st' r. before_settle hs w (?h, st) = ((h', st'), Inr (Some r))")
    case True
    then obtain h' st' r where *: "before_settle hs w (?h, st) = ((h', st'), Inr (Some r))" by blast
    then have "settle_points hs (wh # ws) (h, st) = Suc (settle_points hs ws (h', st'))"
      unfolding wh by simp
    with before_settle_continues [OF *] Cons.IH [of h' st'] show ?thesis by simp
  next
    case False
    then show ?thesis by (auto simp: wh split: prod.splits sum.splits option.splits)
  qed
qed simp

lemma settle_points_halt: "settle_points hs (ws @ (w, True) # ws') x \<le> length ws"
proof (induction ws arbitrary: x)
  case Nil
  obtain h st where "x = (h, st)" by fastforce
  then show ?case by (simp add: before_settle_def)
next
  case (Cons wh ws)
  obtain h st where "x = (h, st)" by fastforce
  moreover obtain w' halt where "wh = (w', halt)" by fastforce
  ultimately show ?case using Cons.IH by (simp split: prod.split sum.split option.split)
qed

text \<open>C34. One prompt is continued by its \<open>Stop\<close> hooks at most eight times in all, whatever they say, however
  many times the run would settle and whatever else happens at each point; and never once a tool
  hook has halted the run.\<close>

theorem stop_hooks_bounded:
  "settle_points hs ws (start_prompt h, st) \<le> 8 \<and>
   settle_points hs (ws @ (w, True) # ws') (start_prompt h, st) \<le> min 8 (length ws)"
proof -
  have "settle_points hs us (start_prompt h, st) \<le> 8" for us
    using settle_points_bound [of hs us "start_prompt h" st]
    by (simp add: start_prompt_def max_stop_hook_continuations_def)
  with settle_points_halt show ?thesis by simp
qed

section \<open>Application\<close>

text \<open>A Claude Code hook asks about every call; the user allows this one.\<close>

definition asking_hooks :: hooks where
  "asking_hooks =
     \<lparr>hook_files = [\<lparr>file_dialect = ClaudeCode,
        file_groups = [(PreToolUse, [\<lparr>group_matcher = None, group_hooks = [\<lparr>hook_command = ''check'', hook_timeout = None\<rparr>]\<rparr>])]\<rparr>],
      hook_scope = ToolsOnly\<rparr>"

definition asking_call :: call_world where
  "asking_call =
     \<lparr>call_tool = ''bash'', call_id = ''t1'', call_parent = None, call_args = JNull,
      call_hooks = \<lparr>w_regex = (\<lambda>_. None),
        w_parse = (\<lambda>_. Some (JObject [(''hookSpecificOutput'', JObject
          [(''hookEventName'', JString ''PreToolUse''), (''permissionDecision'', JString ''ask'')])])),
        w_print = (\<lambda>_. []), w_base = \<lparr>base_session = [], base_cwd = [], base_model = [], base_turn = []\<rparr>,
        w_ends = (\<lambda>_ _ _ _. (ProcessExited (Some 0) [''{}''] [], 5))\<rparr>,
      call_aborted = False, call_answer = (\<lambda>_. AllowedOnce), call_aborted_asking = False,
      call_write = \<lparr>wd_open = True, wd_refused = None, wd_cancelled = False, wd_entry = sample_env,
        wd_note = sample_env, wd_error_text = (\<lambda>_. [])\<rparr>\<rparr>"

definition sample_hook_state :: hook_state where
  "sample_hook_state = \<lparr>session_started = True, halted = False, stop_active = False, stop_continuations = 0\<rparr>"

definition sample_write_state :: write_state where
  "sample_write_state = \<lparr>ws_session = sample_session, ws_gap = None, ws_persist_error = None, ws_abort_requested = False\<rparr>"

lemma asking_output:
  "run_output (run_one (call_hooks asking_call) (call_input asking_call) fi ClaudeCode gi hi) =
     (plain_output (Some 0) ''{}'' [])\<lparr>hook_decided := Some HookAsk, hook_claimed_event := Some ''PreToolUse''\<rparr>"
proof -
  have "valid_utf8 ''{}''" by code_simp
  then have "capture_text [''{}''] = ''{}''"
    by (simp add: capture_text_def from_utf8_lossy_valid capture_push_def max_hook_output_bytes_def)
  moreover have "capture_text [] = []"
    by (simp add: capture_text_def from_utf8_lossy_def decode_loop.simps)
  moreover have "trim ''{}'' = ''{}''" by code_simp
  moreover have "trim [] = []" by (simp add: trim_def trim_chars_def utf8_chars.simps)
  ultimately show ?thesis
    by (simp add: run_one_def asking_call_def call_input_def parse_hook_output_def plain_output_def
        apply_structured_def or_old_def str_member_def starts_with_def blocking_exit_code_def
        plain_stdout_as_context_def Let_def)
qed

lemma call_proceeds_on_record_witness:
  "hook_verdict (file_outputs (call_hooks asking_call) (call_input asking_call) 0 (hook_files asking_hooks)) = PreAsk None \<and>
   (\<exists>ev decision facts. evaluate asking_hooks (call_hooks asking_call) (call_input asking_call) = Some ev \<and>
      manager_trail (ws_session (snd (fst (before_tool_call asking_hooks asking_call (sample_hook_state, sample_write_state))))) =
        [Some (decision_entry_type, Some (decision_entry PreToolUse decision facts (eval_records ev)))])"
proof -
  let ?run = "before_tool_call asking_hooks asking_call (sample_hook_state, sample_write_state)"
  have asked: "hook_verdict (file_outputs (call_hooks asking_call) (call_input asking_call) 0 (hook_files asking_hooks)) = PreAsk None"
    using asking_output [unfolded call_input_def]
    by (simp add: hook_verdict_def file_outputs_def run_file_def asking_hooks_def call_input_def
      groups_of_def matches_matcher_def is_match_all_def hook_objects_def hook_objection_def hook_reasons_def reasons_of_def plain_output_def Let_def List.map_filter_simps)
  have "(case evaluate asking_hooks (call_hooks asking_call) (call_input asking_call) of
      None \<Rightarrow> PreProceed | Some ev \<Rightarrow> pre_tool_action (eval_outcomes ev)) = PreAsk None"
    using call_verdict asked by (simp add: call_input_def)
  then obtain ev where ev: "evaluate asking_hooks (call_hooks asking_call) (call_input asking_call) = Some ev"
    and act: "pre_tool_action (eval_outcomes ev) = PreAsk None" by (simp split: option.splits)
  have quiet: "\<not> call_aborted asking_call" "\<not> call_aborted_asking asking_call"
    "call_answer asking_call q = AllowedOnce" for q by (simp_all add: asking_call_def)
  have written: "\<exists>st. write_decision (call_write asking_call) data None sample_write_state = (st, Inr True)" for data
    by (simp add: asking_call_def sample_write_state_def
        write_decision_def write_under_lock_def append_custom_entry_def append_entry_def persist_last_def push_entry_def
        sample_session_def start_session_def construct_empty_def Let_def)
  have result: "snd ?run = Inr CallProceeds"
  proof -
    obtain facts where "decide_call asking_call (PreAsk None) = Some (''allow'', facts, CallProceeds, False)"
      by (simp add: decide_call_def quiet Let_def hook_refusal_def)
    moreover obtain st where "write_decision (call_write asking_call)
        (decision_entry PreToolUse ''allow'' facts (eval_records ev)) None sample_write_state = (st, Inr True)"
      using written by blast
    ultimately show ?thesis using ev act quiet by (simp add: before_tool_call_def)
  qed
  have ready: "wf_manager (ws_session sample_write_state)"
    "fresh_env (wd_entry (call_write asking_call)) (ws_session sample_write_state)"
    "manager_trail (ws_session sample_write_state) = []"
    by (simp_all add: sample_write_state_def asking_call_def sample_session_simps manager_trail_def)
  have "?run = ((fst (fst ?run), snd (fst ?run)), Inr CallProceeds)" using result by (metis prod.collapse)
  from call_proceeds_on_record [OF this ready(1,2)] ev asked ready(3) show ?thesis by auto
qed

end
