(* ===== verification/Transcript.thy ===== *)
theory Transcript
  imports Messages
begin

text \<open>
  The system messages of a transcript (\<open>bake-ai/src/utils/transcript.rs\<close>, with the texts of
  \<open>utils/text.rs\<close>): the leading one is the prompt, later ones add instructions, patch named
  sections, and add or remove tools. Replaying them gives the prompt and the tools a request
  declares. \<open>print\<close> is the serialized form of a tool, which the derived serializer writes.
\<close>

section \<open>Texts\<close>

definition some_list :: "'a list option \<Rightarrow> 'a list" where
  "some_list x = (case x of Some xs \<Rightarrow> xs | None \<Rightarrow> [])"

definition blocks_text :: "user_block list \<Rightarrow> string \<Rightarrow> string" where
  "blocks_text bs sep =
     join sep (List.map_filter (\<lambda>b. case b of UserText t \<Rightarrow> Some (content_text t) | UserImage _ \<Rightarrow> None) bs)"

fun user_content_text :: "user_content \<Rightarrow> string \<Rightarrow> string" where
  "user_content_text (PlainText t) sep = t"
| "user_content_text (Blocks bs) sep = blocks_text bs sep"

definition assistant_content_text :: "assistant_block list \<Rightarrow> string \<Rightarrow> string" where
  "assistant_content_text bs sep =
     join sep (List.map_filter (\<lambda>b. case b of TextBlock t \<Rightarrow> Some (content_text t) | _ \<Rightarrow> None) bs)"

definition assistant_text :: "assistant_message \<Rightarrow> string" where
  "assistant_text m = assistant_content_text (blocks m) [CHR 0x0A]"

fun system_content_text :: "system_content \<Rightarrow> string" where
  "system_content_text (SystemText t) = t"
| "system_content_text (SystemBlocks bs) = join [CHR 0x0A] (map content_text bs)"

definition paragraph_break :: string where "paragraph_break = [CHR 0x0A, CHR 0x0A]"

definition get_system_message_text :: "system_message \<Rightarrow> string" where
  "get_system_message_text m =
     join paragraph_break (filter (\<lambda>p. p \<noteq> [])
       (system_content_text (system_body m) # List.map_filter snd (some_list (system_sections m))))"

definition quoted :: "string \<Rightarrow> string" where
  "quoted s = CHR 0x22 # s @ [CHR 0x22]"

definition render_section :: "string \<times> string option \<Rightarrow> string" where
  "render_section = (\<lambda>(name, v). case v of
       None \<Rightarrow> ''Removed system prompt section '' @ quoted name @ ''.''
     | Some v \<Rightarrow> ''Updated system prompt section '' @ quoted name @ '':'' @ paragraph_break @ v)"

definition render_system_message_update :: "system_message \<Rightarrow> string" where
  "render_system_message_update m =
     (let t = system_content_text (system_body m) in
      join paragraph_break ((if t \<noteq> [] then [t] else []) @ map render_section (some_list (system_sections m))))"

section \<open>Normalization\<close>

record ai_context =
  context_prompt :: "string option"
  context_messages :: "message list"
  context_tools :: "tool list option"

definition create_initial_system_message :: "string option \<Rightarrow> tool list option \<Rightarrow> system_message option" where
  "create_initial_system_message prompt ts =
     (let has_prompt = (\<exists>p. prompt = Some p \<and> p \<noteq> []);
          ts = (if ts = Some [] then None else ts) in
      if \<not> has_prompt \<and> ts = None then None
      else Some \<lparr>system_body = SystemText (case prompt of Some p \<Rightarrow> p | None \<Rightarrow> []), system_sections = None,
        tools_added = ts, tools_removed = None, system_timestamp = 0\<rparr>)"

text \<open>A \<open>TranscriptContext\<close> is its messages.\<close>

definition normalize_context :: "ai_context \<Rightarrow> message list" where
  "normalize_context c =
     (case create_initial_system_message (context_prompt c) (context_tools c) of
        Some m \<Rightarrow> [System m] | None \<Rightarrow> []) @ context_messages c"

section \<open>Replay\<close>

fun as_system :: "message \<Rightarrow> system_message option" where
  "as_system (System m) = Some m"
| "as_system _ = None"

definition systems :: "message list \<Rightarrow> system_message list" where
  "systems ms = List.map_filter as_system ms"

definition get_initial_system_message :: "message list \<Rightarrow> system_message option" where
  "get_initial_system_message ms = (case ms of [] \<Rightarrow> None | m # _ \<Rightarrow> as_system m)"

fun set_tool :: "tool \<Rightarrow> tool list \<Rightarrow> tool list" where
  "set_tool t [] = [t]"
| "set_tool t (u # us) = (if tool_name u = tool_name t then t # us else u # set_tool t us)"

definition remove_tool :: "string \<Rightarrow> tool list \<Rightarrow> tool list" where
  "remove_tool n = filter (\<lambda>t. tool_name t \<noteq> n)"

definition tools_step :: "system_message \<Rightarrow> tool list \<Rightarrow> tool list" where
  "tools_step m ts =
     fold set_tool (some_list (tools_added m)) (fold remove_tool (some_list (tools_removed m)) ts)"

definition current_tools :: "system_message list \<Rightarrow> tool list" where
  "current_tools ss = fold tools_step ss []"

definition get_current_tools :: "message list \<Rightarrow> tool list" where
  "get_current_tools ms = current_tools (systems ms)"

fun set_section :: "string \<Rightarrow> string \<Rightarrow> (string \<times> string) list \<Rightarrow> (string \<times> string) list" where
  "set_section n v [] = [(n, v)]"
| "set_section n v ((k, w) # es) = (if k = n then (k, v) # es else (k, w) # set_section n v es)"

definition section_step :: "string \<times> string option \<Rightarrow> (string \<times> string) list \<Rightarrow> (string \<times> string) list" where
  "section_step = (\<lambda>(n, v) es. case v of
       None \<Rightarrow> filter (\<lambda>(k, _). k \<noteq> n) es
     | Some v \<Rightarrow> set_section n v es)"

definition replay_content :: "system_message list \<Rightarrow> string list" where
  "replay_content ss = filter (\<lambda>t. t \<noteq> []) (map (\<lambda>m. system_content_text (system_body m)) ss)"

definition replay_sections :: "system_message list \<Rightarrow> (string \<times> string) list" where
  "replay_sections ss = fold (\<lambda>m. fold section_step (some_list (system_sections m))) ss []"

definition get_current_system_message :: "message list \<Rightarrow> system_message option" where
  "get_current_system_message ms =
     (let ss = systems ms; es = replay_sections ss; ts = get_current_tools ms;
          timestamp = (case ss of [] \<Rightarrow> None | m # _ \<Rightarrow> Some (system_timestamp m)) in
      if timestamp = None \<and> ts = [] then None
      else Some \<lparr>system_body = SystemText (join paragraph_break (replay_content ss)),
        system_sections = (if es \<noteq> [] then Some (map (\<lambda>(n, v). (n, Some v)) es) else None),
        tools_added = (if ts \<noteq> [] then Some ts else None), tools_removed = None,
        system_timestamp = (case timestamp of Some t \<Rightarrow> t | None \<Rightarrow> 0)\<rparr>)"

definition get_current_system_prompt :: "message list \<Rightarrow> string" where
  "get_current_system_prompt ms =
     (case get_current_system_message ms of Some m \<Rightarrow> get_system_message_text m | None \<Rightarrow> [])"

definition collapse_system_messages :: "message list \<Rightarrow> message list" where
  "collapse_system_messages ms =
     (case get_current_system_message ms of Some m \<Rightarrow> [System m] | None \<Rightarrow> []) @
     filter (\<lambda>m. as_system m = None) ms"

definition resolve_transcript :: "message list \<Rightarrow> bool \<Rightarrow> message list" where
  "resolve_transcript ms supported = (if supported then ms else collapse_system_messages ms)"

section \<open>Changes between two tool states\<close>

definition declarations_equal :: "(tool \<Rightarrow> string) \<Rightarrow> tool \<Rightarrow> tool \<Rightarrow> bool" where
  "declarations_equal print l r \<longleftrightarrow> print l = print r"

text \<open>Collecting into a \<open>HashMap\<close> keeps the last of two tools with one name.\<close>

definition by_name :: "tool list \<Rightarrow> string \<Rightarrow> tool option" where
  "by_name ts = map_of (rev (map (\<lambda>t. (tool_name t, t)) ts))"

definition get_tool_state_changes ::
  "(tool \<Rightarrow> string) \<Rightarrow> tool list \<Rightarrow> tool list \<Rightarrow> tool list \<times> string list" where
  "get_tool_state_changes print previous current =
     (filter (\<lambda>t. case by_name previous (tool_name t) of
          None \<Rightarrow> True | Some old \<Rightarrow> \<not> declarations_equal print old t) current,
      map tool_name (filter (\<lambda>t. case by_name current (tool_name t) of
          None \<Rightarrow> True | Some new \<Rightarrow> \<not> declarations_equal print t new) previous))"

section \<open>What a transport can express\<close>

definition get_declared_tools :: "message list \<Rightarrow> tool list" where
  "get_declared_tools ms =
     fold set_tool (concat (map (\<lambda>m. some_list (tools_added m)) (systems ms))) []"

text \<open>The names of \<open>ts\<close> inserted into a set one by one: the set, and whether one was there.\<close>

fun insert_names :: "tool list \<Rightarrow> string set \<Rightarrow> string set \<times> bool" where
  "insert_names [] D = (D, False)"
| "insert_names (t # ts) D =
     (let (D', again) = insert_names ts (insert (tool_name t) D) in (D', tool_name t \<in> D \<or> again))"

fun non_additive_from :: "system_message list \<Rightarrow> string set \<Rightarrow> bool" where
  "non_additive_from [] D = False"
| "non_additive_from (m # ss) D =
     (if some_list (tools_removed m) \<noteq> [] then True
      else (let (D', again) = insert_names (some_list (tools_added m)) D
            in if again then True else non_additive_from ss D'))"

definition has_non_additive_tool_changes :: "message list \<Rightarrow> bool" where
  "has_non_additive_tool_changes ms = non_additive_from (systems ms) {}"

datatype tool_support = NoTools | Additions | Changes

record transcript_tools =
  request_tools :: "tool list"
  folded_systems :: nat

definition fold_count_step ::
  "nat \<times> system_message \<Rightarrow> nat \<times> string set \<Rightarrow> nat \<times> string set" where
  "fold_count_step = (\<lambda>(index, m) (folded, D).
     (let folded = (if some_list (tools_removed m) \<noteq> [] then max folded (index + 1) else folded);
          (D', again) = insert_names (some_list (tools_added m)) D
      in (if again then max folded (index + 1) else folded, D')))"

definition additions_folded :: "message list \<Rightarrow> nat" where
  "additions_folded ms =
     fst (fold fold_count_step (enumerate 0 (systems ms))
       (if get_initial_system_message ms \<noteq> None then 1 else 0, {}))"

definition resolve_transcript_tools :: "message list \<Rightarrow> tool_support \<Rightarrow> transcript_tools" where
  "resolve_transcript_tools ms support =
     (case support of
        Changes \<Rightarrow> \<lparr>request_tools = [], folded_systems = 0\<rparr>
      | NoTools \<Rightarrow>
          \<lparr>request_tools = current_tools (systems ms), folded_systems = length (systems ms)\<rparr>
      | Additions \<Rightarrow>
          \<lparr>request_tools = current_tools (take (additions_folded ms) (systems ms)),
           folded_systems = additions_folded ms\<rparr>)"

section \<open>A tool state is a map from names\<close>

definition tool_at :: "tool list \<Rightarrow> string \<Rightarrow> tool option" where
  "tool_at ts n = find (\<lambda>t. tool_name t = n) ts"

abbreviation tool_names :: "tool list \<Rightarrow> string list" where
  "tool_names \<equiv> map tool_name"

lemma tool_at_None: "tool_at ts n = None \<longleftrightarrow> n \<notin> set (tool_names ts)"
  by (auto simp: tool_at_def find_None_iff)

lemma tool_at_Some: "tool_at ts n = Some t \<Longrightarrow> t \<in> set ts \<and> tool_name t = n"
  by (auto simp: tool_at_def find_Some_iff)

lemma tool_at_Nil [simp]: "tool_at [] n = None"
  by (simp add: tool_at_def)

lemma tool_at_Cons: "tool_at (t # ts) n = (if tool_name t = n then Some t else tool_at ts n)"
  by (simp add: tool_at_def)

lemma tool_at_append: "tool_at (ts @ us) n = (case tool_at ts n of Some t \<Rightarrow> Some t | None \<Rightarrow> tool_at us n)"
  by (induction ts) (simp_all add: tool_at_def)

lemma tool_at_member: "distinct (tool_names ts) \<Longrightarrow> t \<in> set ts \<Longrightarrow> tool_at ts (tool_name t) = Some t"
  by (induction ts) (auto simp: tool_at_Cons)

lemma tool_at_rev: "distinct (tool_names ts) \<Longrightarrow> tool_at (rev ts) n = tool_at ts n"
proof (cases "tool_at ts n")
  case None
  then have "tool_at (rev ts) n = None" unfolding tool_at_None by simp
  with None show ?thesis by simp
next
  case (Some t)
  assume "distinct (tool_names ts)"
  then have "distinct (tool_names (rev ts))" by (simp add: rev_map [symmetric])
  from tool_at_member [OF this] tool_at_Some [OF Some] Some show ?thesis by auto
qed

lemma set_tool_names: "set (tool_names (set_tool t ts)) = insert (tool_name t) (set (tool_names ts))"
  by (induction ts) auto

lemma set_tool_distinct [inv_intros]:
  "distinct (tool_names ts) \<Longrightarrow> distinct (tool_names (set_tool t ts))"
proof (induction ts)
  case (Cons u us)
  then show ?case using set_tool_names [of t us] by auto
qed simp

lemma remove_tool_distinct [inv_intros]:
  "distinct (tool_names ts) \<Longrightarrow> distinct (tool_names (remove_tool n ts))"
  by (auto simp: remove_tool_def distinct_map_filter)

lemma fold_set_tool_distinct: "distinct (tool_names ts) \<Longrightarrow> distinct (tool_names (fold set_tool us ts))"
  by (induction us arbitrary: ts) (simp_all add: set_tool_distinct)

lemma fold_remove_tool_distinct: "distinct (tool_names ts) \<Longrightarrow> distinct (tool_names (fold remove_tool ns ts))"
  by (induction ns arbitrary: ts) (simp_all add: remove_tool_distinct)

lemma tools_step_distinct [inv_intros]:
  "distinct (tool_names ts) \<Longrightarrow> distinct (tool_names (tools_step m ts))"
  by (simp add: tools_step_def fold_set_tool_distinct fold_remove_tool_distinct)

lemma fold_tools_step_distinct:
  "distinct (tool_names ts) \<Longrightarrow> distinct (tool_names (fold tools_step ss ts))"
  by (induction ss arbitrary: ts) (simp_all add: tools_step_distinct)

lemma current_tools_distinct: "distinct (tool_names (current_tools ss))"
  by (simp add: current_tools_def fold_tools_step_distinct)

lemma tool_at_set_tool: "tool_at (set_tool t ts) n = (if tool_name t = n then Some t else tool_at ts n)"
  by (induction ts) (auto simp: tool_at_Cons)

lemma tool_at_remove_tool: "tool_at (remove_tool m ts) n = (if m = n then None else tool_at ts n)"
  by (induction ts) (auto simp: tool_at_def remove_tool_def)

lemma tool_at_fold_set:
  "tool_at (fold set_tool us ts) n = (case tool_at (rev us) n of Some t \<Rightarrow> Some t | None \<Rightarrow> tool_at ts n)"
  by (induction us arbitrary: ts)
    (auto simp: tool_at_append tool_at_set_tool tool_at_Cons split: option.splits)

lemma tool_at_fold_remove:
  "tool_at (fold remove_tool ns ts) n = (if n \<in> set ns then None else tool_at ts n)"
  by (induction ns arbitrary: ts) (auto simp: tool_at_remove_tool)

lemma fold_set_tool_fresh:
  "distinct (tool_names us) \<Longrightarrow> set (tool_names us) \<inter> set (tool_names ts) = {} \<Longrightarrow> fold set_tool us ts = ts @ us"
proof (induction us arbitrary: ts)
  case (Cons u us)
  then have "tool_name u \<notin> set (tool_names ts)" by auto
  then have "set_tool u ts = ts @ [u]" by (induction ts) auto
  with Cons show ?case by auto
qed simp

lemma by_name_distinct: "distinct (tool_names ts) \<Longrightarrow> by_name ts = tool_at ts"
proof -
  assume d: "distinct (tool_names ts)"
  let ?ps = "map (\<lambda>t. (tool_name t, t)) ts"
  have "distinct (map fst ?ps)" using d by (simp add: comp_def)
  then have "map_of (rev ?ps) = map_of ?ps"
    by (subst map_of_inject_set) (simp_all only: rev_map [symmetric] distinct_rev set_rev)
  moreover have "map_of ?ps n = tool_at ts n" for n by (induction ts) (auto simp: tool_at_def)
  ultimately show "by_name ts = tool_at ts" by (auto simp: by_name_def)
qed

lemma by_name_None: "by_name ts n = None \<longleftrightarrow> n \<notin> set (tool_names ts)"
  by (force simp: by_name_def map_of_eq_None_iff)

section \<open>Declaring a change of loadout\<close>

text \<open>Two tool states offer the same interface: one name, one declaration.\<close>

definition same_tools :: "(tool \<Rightarrow> string) \<Rightarrow> tool list \<Rightarrow> tool list \<Rightarrow> bool" where
  "same_tools print ts us \<longleftrightarrow>
     set (tool_names ts) = set (tool_names us) \<and>
     (\<forall>t \<in> set ts. \<forall>u \<in> set us. tool_name t = tool_name u \<longrightarrow> declarations_equal print t u)"

lemma same_tools_at:
  assumes "distinct (tool_names ts)" and "distinct (tool_names us)"
  shows "same_tools print ts us \<longleftrightarrow> (\<forall>n. rel_option (declarations_equal print) (tool_at ts n) (tool_at us n))"
proof -
  note at = tool_at_member
  show ?thesis
  proof
    assume same: "same_tools print ts us"
    show "\<forall>n. rel_option (declarations_equal print) (tool_at ts n) (tool_at us n)"
    proof
      fix n
      have "tool_at ts n = None \<longleftrightarrow> tool_at us n = None" using same by (simp add: tool_at_None same_tools_def)
      moreover have "declarations_equal print t u" if "tool_at ts n = Some t" "tool_at us n = Some u" for t u
        using same that [THEN tool_at_Some] by (simp add: same_tools_def)
      ultimately show "rel_option (declarations_equal print) (tool_at ts n) (tool_at us n)"
        by (cases "tool_at ts n"; cases "tool_at us n") auto
    qed
  next
    assume rel: "\<forall>n. rel_option (declarations_equal print) (tool_at ts n) (tool_at us n)"
    then have "tool_at ts n = None \<longleftrightarrow> tool_at us n = None" for n
      by (metis option.rel_distinct(1,2) option.exhaust)
    then have "set (tool_names ts) = set (tool_names us)" by (auto simp: tool_at_None)
    moreover have "declarations_equal print t u" if "t \<in> set ts" "u \<in> set us" "tool_name t = tool_name u" for t u
      using rel [rule_format, of "tool_name t"] that at [OF assms(1), of t] at [OF assms(2), of u] by simp
    ultimately show "same_tools print ts us" by (simp add: same_tools_def)
  qed
qed

lemma changes_apply:
  assumes "distinct (tool_names previous)" and "distinct (tool_names current)"
    and "get_tool_state_changes print previous current = (added, removed)"
  shows "same_tools print (fold set_tool added (fold remove_tool removed previous)) current"
proof -
  have added: "set added = {t \<in> set current. case tool_at previous (tool_name t) of
      None \<Rightarrow> True | Some old \<Rightarrow> \<not> declarations_equal print old t}"
    and names: "distinct (tool_names added)"
    and removed: "set removed = tool_name ` {t \<in> set previous. case tool_at current (tool_name t) of
      None \<Rightarrow> True | Some new \<Rightarrow> \<not> declarations_equal print t new}"
    using assms by (auto simp: get_tool_state_changes_def by_name_distinct distinct_map_filter)
  note at = tool_at_member
  note rev_at = tool_at_rev [OF names]
  have "rel_option (declarations_equal print)
      (tool_at (fold set_tool added (fold remove_tool removed previous)) n) (tool_at current n)" for n
  proof (cases "tool_at current n")
    case None
    then have "n \<notin> set (tool_names added)" using added by (auto simp: tool_at_None)
    then have "tool_at added n = None" by (simp add: tool_at_None)
    moreover have "n \<in> set removed" if "tool_at previous n = Some p" for p
      using tool_at_Some [OF that] None by (auto simp: removed)
    ultimately show ?thesis
      using None by (cases "tool_at previous n") (auto simp: tool_at_fold_set rev_at tool_at_fold_remove)
  next
    case (Some c)
    note c = tool_at_Some [OF this]
    show ?thesis
    proof (cases "\<exists>p. tool_at previous n = Some p \<and> declarations_equal print p c")
      case True
      then obtain p where p: "tool_at previous n = Some p" "declarations_equal print p c" by blast
      have "tool_at added n = None"
      proof (rule ccontr)
        assume "tool_at added n \<noteq> None"
        then obtain t where "t \<in> set added" "tool_name t = n" using tool_at_Some by fastforce
        with added at [OF assms(2), of t] Some p show False by auto
      qed
      moreover have "n \<notin> set removed"
      proof
        assume "n \<in> set removed"
        then obtain q where "q \<in> set previous" "tool_name q = n" "\<not> declarations_equal print q c"
          using Some by (auto simp: removed)
        with at [OF assms(1), of q] p show False by simp
      qed
      ultimately show ?thesis using p Some by (simp add: tool_at_fold_set rev_at tool_at_fold_remove)
    next
      case False
      then have "c \<in> set added" using c added by (auto split: option.splits)
      with at [OF names] c have "tool_at added n = Some c" by auto
      then show ?thesis using Some by (simp add: tool_at_fold_set rev_at declarations_equal_def)
    qed
  qed
  then show ?thesis
    by (subst same_tools_at) (simp_all add: assms(1,2) fold_set_tool_distinct fold_remove_tool_distinct)
qed

section \<open>A collapsed transcript replays alike\<close>

lemma systems_simps [simp]:
  "systems [] = []" "systems (System m # ms) = m # systems ms"
  "as_system x = None \<Longrightarrow> systems (x # ms) = systems ms"
  by (simp_all add: systems_def List.map_filter_simps)

lemma systems_append [simp]: "systems (xs @ ys) = systems xs @ systems ys"
proof (induction xs)
  case (Cons x xs)
  then show ?case by (cases x) simp_all
qed simp

lemma systems_others: "systems (filter (\<lambda>m. as_system m = None) ms) = []"
  by (induction ms) simp_all

lemma set_section_names: "fst ` set (set_section n v es) = insert n (fst ` set es)"
  by (induction n v es rule: set_section.induct) auto

lemma set_section_distinct: "distinct (map fst es) \<Longrightarrow> distinct (map fst (set_section n v es))"
proof (induction n v es rule: set_section.induct)
  case (2 n v k w es)
  then show ?case using set_section_names [of n v es] by auto
qed simp

lemma section_step_distinct: "distinct (map fst es) \<Longrightarrow> distinct (map fst (section_step x es))"
  by (auto simp: section_step_def set_section_distinct distinct_map_filter split: prod.split option.split)

lemma sections_fold_distinct: "distinct (map fst es) \<Longrightarrow> distinct (map fst (fold section_step xs es))"
  by (induction xs arbitrary: es) (simp_all add: section_step_distinct)

lemma replay_sections_distinct: "distinct (map fst (replay_sections ss))"
proof -
  have "distinct (map fst (fold (\<lambda>m. fold section_step (some_list (system_sections m))) ss es))"
    if "distinct (map fst es)" for es
    using that by (induction ss arbitrary: es) (simp_all add: sections_fold_distinct)
  then show ?thesis by (simp add: replay_sections_def)
qed

lemma set_section_fresh: "n \<notin> fst ` set es \<Longrightarrow> set_section n v es = es @ [(n, v)]"
  by (induction n v es rule: set_section.induct) auto

lemma sections_again:
  "distinct (map fst es) \<Longrightarrow> fst ` set es \<inter> fst ` set acc = {} \<Longrightarrow>
     fold section_step (map (\<lambda>(n, v). (n, Some v)) es) acc = acc @ es"
proof (induction es arbitrary: acc)
  case (Cons e es)
  obtain n v where e: "e = (n, v)" by fastforce
  with Cons.prems have "n \<notin> fst ` set acc" by auto
  then have "section_step (n, Some v) acc = acc @ [(n, v)]" by (simp add: section_step_def set_section_fresh)
  with Cons e show ?case by auto
qed simp

lemma join_nonempty [simp]: "join d (filter (\<lambda>t. t \<noteq> []) [t]) = t"
  by simp

definition replayed :: "system_message list \<Rightarrow> system_message" where
  "replayed ss =
     \<lparr>system_body = SystemText (join paragraph_break (replay_content ss)),
      system_sections = (if replay_sections ss \<noteq> []
        then Some (map (\<lambda>(n, v). (n, Some v)) (replay_sections ss)) else None),
      tools_added = (if current_tools ss \<noteq> [] then Some (current_tools ss) else None), tools_removed = None,
      system_timestamp = (case ss of m # _ \<Rightarrow> system_timestamp m | [] \<Rightarrow> 0)\<rparr>"

lemma get_current_system_message_replayed:
  "get_current_system_message ms = (if systems ms = [] then None else Some (replayed (systems ms)))"
  by (auto simp: get_current_system_message_def get_current_tools_def replayed_def current_tools_def Let_def
      split: list.split)

lemma replayed_again: "ss \<noteq> [] \<Longrightarrow> replayed [replayed ss] = replayed ss"
proof -
  assume "ss \<noteq> []"
  have "replay_content [replayed ss] = filter (\<lambda>t. t \<noteq> []) [join paragraph_break (replay_content ss)]"
    by (simp add: replay_content_def replayed_def)
  then have body: "join paragraph_break (replay_content [replayed ss]) = join paragraph_break (replay_content ss)"
    by (simp only: join_nonempty)
  have sections: "replay_sections [replayed ss] = replay_sections ss"
    using sections_again [OF replay_sections_distinct [of ss], of "[]"]
    by (simp add: replay_sections_def [of "[_]"] replayed_def some_list_def)
  have tools: "current_tools [replayed ss] = current_tools ss"
    using fold_set_tool_fresh [OF current_tools_distinct [of ss], of "[]"]
    by (simp add: current_tools_def [of "[_]"] tools_step_def replayed_def some_list_def)
  show ?thesis unfolding replayed_def [of "[replayed ss]"] body sections tools by (simp add: replayed_def)
qed


section \<open>Tools a transport declares once and in place\<close>

text \<open>The declarations of a message, and the names a transcript has declared.\<close>

abbreviation declared_in :: "system_message \<Rightarrow> tool list" where
  "declared_in m \<equiv> some_list (tools_added m)"

definition added_names :: "system_message list \<Rightarrow> string list" where
  "added_names ss = concat (map (\<lambda>m. tool_names (declared_in m)) ss)"

text \<open>From the \<open>k\<close>th system message on, tools are only added, and under names no message declared before.\<close>

definition additive_from :: "system_message list \<Rightarrow> nat \<Rightarrow> bool" where
  "additive_from ss k \<longleftrightarrow>
     list_all (\<lambda>m. some_list (tools_removed m) = []) (drop k ss) \<and>
     distinct (added_names (drop k ss)) \<and> set (added_names (drop k ss)) \<inter> set (added_names (take k ss)) = {}"

definition fewest_folded :: "system_message list \<Rightarrow> nat \<Rightarrow> nat \<Rightarrow> bool" where
  "fewest_folded ss first k \<longleftrightarrow>
     first \<le> k \<and> additive_from ss k \<and> (\<forall>j. first \<le> j \<and> j < k \<longrightarrow> \<not> additive_from ss j)"

lemma added_names_simps [simp]:
  "added_names [] = []" "added_names (m # ss) = tool_names (declared_in m) @ added_names ss"
  "added_names (xs @ ys) = added_names xs @ added_names ys"
  by (simp_all add: added_names_def)

lemma insert_names_exact:
  "insert_names ts D =
     (D \<union> set (tool_names ts), \<not> (distinct (tool_names ts) \<and> set (tool_names ts) \<inter> D = {}))"
  by (induction ts arbitrary: D) auto

lemma additive_snoc:
  assumes "k \<le> length xs"
  shows "additive_from (xs @ [m]) k \<longleftrightarrow>
     additive_from xs k \<and> some_list (tools_removed m) = [] \<and>
     distinct (tool_names (declared_in m)) \<and> set (tool_names (declared_in m)) \<inter> set (added_names xs) = {}"
proof -
  have "set (added_names xs) = set (added_names (take k xs)) \<union> set (added_names (drop k xs))"
    by (metis append_take_drop_id added_names_simps(3) set_append)
  with assms show ?thesis by (auto simp: additive_from_def)
qed

lemma additive_all: "length xs \<le> k \<Longrightarrow> additive_from xs k"
  by (simp add: additive_from_def)

lemma fold_count_fewest:
  assumes "first \<le> 1"
  shows "\<exists>k. fold fold_count_step (enumerate 0 ss) (first, {}) = (k, set (added_names ss)) \<and>
     fewest_folded ss first k \<and> k \<le> max first (length ss)"
proof (induction ss rule: rev_induct)
  case Nil
  show ?case by (simp add: fewest_folded_def additive_all)
next
  case (snoc m ss)
  then obtain k where k: "fold fold_count_step (enumerate 0 ss) (first, {}) = (k, set (added_names ss))"
    "fewest_folded ss first k" "k \<le> max first (length ss)" by blast
  define good where "good \<longleftrightarrow> some_list (tools_removed m) = [] \<and> distinct (tool_names (declared_in m)) \<and>
      set (tool_names (declared_in m)) \<inter> set (added_names ss) = {}"
  have ext: "additive_from (ss @ [m]) j \<longleftrightarrow> additive_from ss j \<and> good" if "j \<le> length ss" for j
    using additive_snoc [OF that, of m] by (auto simp: good_def)
  have k': "k \<le> Suc (length ss)" using k(3) assms by linarith
  let ?k = "if good then k else Suc (length ss)"
  have "fold fold_count_step (enumerate 0 (ss @ [m])) (first, {}) = (?k, set (added_names (ss @ [m])))"
    using k(1) k' by (auto simp: enumerate_append_eq fold_count_step_def insert_names_exact good_def max_def)
  moreover have "fewest_folded (ss @ [m]) first ?k"
  proof (cases good)
    case True
    have "additive_from (ss @ [m]) k"
    proof (cases "k \<le> length ss")
      case True
      with k(2) ext [OF True] \<open>good\<close> show ?thesis by (simp add: fewest_folded_def)
    qed (simp add: additive_all)
    with k(2) k' ext True show ?thesis by (auto simp: fewest_folded_def)
  next
    case False
    with ext assms show ?thesis by (auto simp: fewest_folded_def additive_all)
  qed
  ultimately show ?case using k(3) by auto
qed

lemma fold_set_tool_names: "set (tool_names (fold set_tool us ts)) = set (tool_names ts) \<union> set (tool_names us)"
proof (induction us arbitrary: ts)
  case (Cons u us)
  show ?case by (simp only: fold_simps Cons.IH set_tool_names) auto
qed simp

lemma fold_remove_tool_names: "set (tool_names (fold remove_tool ns ts)) \<subseteq> set (tool_names ts)"
proof (induction ns arbitrary: ts)
  case (Cons n ns)
  have "set (tool_names (remove_tool n ts)) \<subseteq> set (tool_names ts)" by (auto simp: remove_tool_def)
  with Cons.IH [of "remove_tool n ts"] show ?case by (simp only: fold_simps)
qed simp

lemma tools_step_names: "set (tool_names (tools_step m ts)) \<subseteq> set (tool_names ts) \<union> set (tool_names (declared_in m))"
  unfolding tools_step_def fold_set_tool_names using fold_remove_tool_names by blast

lemma current_tools_names: "set (tool_names (current_tools ss)) \<subseteq> set (added_names ss)"
proof (induction ss rule: rev_induct)
  case (snoc m ss)
  have "current_tools (ss @ [m]) = tools_step m (current_tools ss)" by (simp add: current_tools_def)
  with snoc tools_step_names [of m "current_tools ss"] show ?case
    by (simp only: added_names_simps set_append append_Nil2) blast
qed (simp add: current_tools_def)

lemma fold_tools_additive:
  assumes "list_all (\<lambda>m. some_list (tools_removed m) = []) ss" and "distinct (added_names ss)"
    and "set (added_names ss) \<inter> set (tool_names ts) = {}"
  shows "fold tools_step ss ts = ts @ concat (map declared_in ss)"
  using assms
proof (induction ss arbitrary: ts)
  case (Cons m ss)
  have "set (tool_names (declared_in m)) \<inter> set (tool_names ts) = {}" "distinct (tool_names (declared_in m))"
    using Cons.prems by auto
  then have step: "tools_step m ts = ts @ declared_in m"
    using Cons.prems by (simp add: tools_step_def fold_set_tool_fresh)
  have "set (added_names ss) \<inter> set (tool_names (ts @ declared_in m)) = {}" using Cons.prems by auto
  from Cons.IH [OF _ _ this] have "fold tools_step ss (ts @ declared_in m) = (ts @ declared_in m) @ concat (map declared_in ss)"
    using Cons.prems by simp
  with step show ?case by simp
qed simp

text \<open>However a transport takes tool changes, the top-level tools with the changes left in place
  replay to the current tools. One without in-place changes gets them all at the top, one with
  changes gets none there. For one that can only add, the messages left in place only add, under
  names never declared before, and the fewest possible messages are folded into the top-level list:
  the current tools are that list followed by the later declarations.\<close>

theorem request_tools_exact:
  "fold tools_step (drop (folded_systems (resolve_transcript_tools ms support)) (systems ms))
     (request_tools (resolve_transcript_tools ms support)) = get_current_tools ms \<and>
   (case support of
      NoTools \<Rightarrow> folded_systems (resolve_transcript_tools ms support) = length (systems ms)
    | Changes \<Rightarrow> request_tools (resolve_transcript_tools ms support) = []
    | Additions \<Rightarrow>
        fewest_folded (systems ms) (if get_initial_system_message ms \<noteq> None then 1 else 0)
          (folded_systems (resolve_transcript_tools ms support)) \<and>
        get_current_tools ms = request_tools (resolve_transcript_tools ms support) @
          concat (map declared_in (drop (folded_systems (resolve_transcript_tools ms support)) (systems ms))))"
proof (cases support)
  case Additions
  define ss where "ss = systems ms"
  define first where "first = (if get_initial_system_message ms \<noteq> None then 1 else (0::nat))"
  define k where "k = additions_folded ms"
  have "first \<le> 1" by (simp add: first_def)
  from fold_count_fewest [OF this, of ss] have fewest: "fewest_folded ss first k"
    by (auto simp: k_def additions_folded_def first_def ss_def)
  then have additive: "additive_from ss k" by (simp add: fewest_folded_def)
  have split: "get_current_tools ms = fold tools_step (drop k ss) (current_tools (take k ss))"
    unfolding get_current_tools_def current_tools_def ss_def [symmetric]
    by (metis append_take_drop_id fold_append comp_apply)
  have "set (added_names (drop k ss)) \<inter> set (tool_names (current_tools (take k ss))) = {}"
    using additive current_tools_names [of "take k ss"] by (auto simp: additive_from_def)
  then have "fold tools_step (drop k ss) (current_tools (take k ss)) =
      current_tools (take k ss) @ concat (map declared_in (drop k ss))"
    using additive by (intro fold_tools_additive) (simp_all add: additive_from_def)
  with split fewest show ?thesis
    by (simp add: Additions resolve_transcript_tools_def k_def ss_def first_def)
qed (simp_all add: resolve_transcript_tools_def get_current_tools_def current_tools_def)

end
