(* ===== verification/JoinAll.thy ===== *)
theory JoinAll
  imports Main "HOL-Library.Multiset"
begin

text \<open>
  The ordered join of the agent loop (\<open>join_all\<close> of \<open>bake-agent/src/agent_loop.rs\<close>): futures polled
  in order on one task, with a bound on those started and unfinished. A future is what its polls
  do: the events each emits, and the value the last one returns. Every behaviour of an executor is
  one such script, spurious wake-ups included, so the theorems hold of any interleaving.
\<close>

section \<open>Futures\<close>

datatype ('e, 'a) future = Future "'e list list" "'e list" 'a

fun future_value :: "('e, 'a) future \<Rightarrow> 'a" where
  "future_value (Future _ _ v) = v"

datatype ('e, 'a) slot = Unfinished "('e, 'a) future" | Output 'a

text \<open>A poll: the future polled, its events, and whether it was ready.\<close>

type_synonym 'e poll = "nat \<times> 'e list \<times> bool"

record ('e, 'a) join =
  slots :: "('e, 'a) slot list"
  started :: nat
  active :: nat
  polls :: "'e poll list"

section \<open>The poll function\<close>

definition poll_at :: "nat \<Rightarrow> ('e, 'a) future \<Rightarrow> ('e, 'a) join \<Rightarrow> ('e, 'a) join" where
  "poll_at i f j =
     (let j = (if i = started j then j\<lparr>started := started j + 1, active := active j + 1\<rparr> else j) in
      (case f of
         Future [] final v \<Rightarrow>
           j\<lparr>slots := (slots j)[i := Output v], active := active j - 1, polls := polls j @ [(i, final, True)]\<rparr>
       | Future (c # cs) final v \<Rightarrow>
           j\<lparr>slots := (slots j)[i := Unfinished (Future cs final v)], polls := polls j @ [(i, c, False)]\<rparr>))"

fun join_pass :: "nat option \<Rightarrow> nat list \<Rightarrow> ('e, 'a) join \<Rightarrow> ('e, 'a) join" where
  "join_pass limit [] j = j"
| "join_pass limit (i # is) j =
     (case slots j ! i of
        Output _ \<Rightarrow> join_pass limit is j
      | Unfinished f \<Rightarrow>
          if i = started j \<and> limit = Some (active j) then j
          else join_pass limit is (poll_at i f j))"

text \<open>One wake-up after another; a task that is never woken again does not return.\<close>

partial_function (option) join_wakes :: "nat option \<Rightarrow> ('e, 'a) join \<Rightarrow> ('e, 'a) join option" where
  "join_wakes limit j =
     (let j = join_pass limit [0..<length (slots j)] j in
      if active j > 0 then join_wakes limit j else Some j)"

fun slot_output :: "('e, 'a) slot \<Rightarrow> 'a option" where
  "slot_output (Output v) = Some v"
| "slot_output (Unfinished _) = None"

definition join_all :: "nat option \<Rightarrow> ('e, 'a) future list \<Rightarrow> ('a list \<times> 'e poll list) option" where
  "join_all limit fs =
     map_option (\<lambda>j. (List.map_filter slot_output (slots j), polls j))
       (join_wakes limit \<lparr>slots = map Unfinished fs, started = 0, active = 0, polls = []\<rparr>)"

section \<open>The invariant of a poll\<close>

fun script :: "('e, 'a) future \<Rightarrow> ('e list \<times> bool) list" where
  "script (Future cs final v) = map (\<lambda>c. (c, False)) cs @ [(final, True)]"

fun slot_script :: "('e, 'a) slot \<Rightarrow> ('e list \<times> bool) list" where
  "slot_script (Unfinished f) = script f"
| "slot_script (Output v) = []"

fun slot_value :: "('e, 'a) slot \<Rightarrow> 'a" where
  "slot_value (Unfinished f) = future_value f"
| "slot_value (Output v) = v"

definition polls_of :: "nat \<Rightarrow> 'e poll list \<Rightarrow> ('e list \<times> bool) list" where
  "polls_of k ps = map snd (filter (\<lambda>p. fst p = k) ps)"

text \<open>The futures polled and not yet ready.\<close>

definition running :: "'e poll list \<Rightarrow> nat set" where
  "running ps = {k. polls_of k ps \<noteq> [] \<and> \<not> (\<exists>c. (c, True) \<in> set (polls_of k ps))}"

definition within :: "nat option \<Rightarrow> nat \<Rightarrow> bool" where
  "within limit n \<longleftrightarrow> (case limit of None \<Rightarrow> True | Some m \<Rightarrow> n \<le> m)"

definition unfinished :: "('e, 'a) join \<Rightarrow> nat set" where
  "unfinished j = {k. k < started j \<and> slot_output (slots j ! k) = None}"

definition join_core :: "('e, 'a) future list \<Rightarrow> ('e, 'a) join \<Rightarrow> bool" where
  "join_core fs j \<longleftrightarrow>
     length (slots j) = length fs \<and> started j \<le> length fs \<and>
     (\<forall>k < length fs. polls_of k (polls j) @ slot_script (slots j ! k) = script (fs ! k) \<and>
        slot_value (slots j ! k) = future_value (fs ! k)) \<and>
     (\<forall>k. polls_of k (polls j) \<noteq> [] \<longleftrightarrow> k < started j) \<and>
     active j = card (unfinished j)"

definition join_inv :: "nat option \<Rightarrow> ('e, 'a) future list \<Rightarrow> ('e, 'a) join \<Rightarrow> bool" where
  "join_inv limit fs j \<longleftrightarrow> join_core fs j \<and> (\<forall>n. within limit (card (running (take n (polls j)))))"

lemma polls_of_snoc: "polls_of k (ps @ [(i, c, r)]) = polls_of k ps @ (if i = k then [(c, r)] else [])"
  by (simp add: polls_of_def)

lemma script_parts:
  assumes "xs @ slot_script s = script f"
  shows "(\<exists>c. (c, True) \<in> set xs) \<longleftrightarrow> slot_output s \<noteq> None"
proof (cases s)
  case (Output v)
  then have "xs = script f" using assms by simp
  then show ?thesis by (cases f) (auto simp: Output)
next
  case (Unfinished g)
  obtain cs final v where g: "g = Future cs final v" by (cases g)
  obtain ds final' v' where f: "f = Future ds final' v'" by (cases f)
  have "xs @ map (\<lambda>c. (c, False)) cs = map (\<lambda>c. (c, False)) ds"
    using assms by (simp add: Unfinished f g)
  from arg_cong [OF this, of set] have "set xs \<subseteq> set (map (\<lambda>c. (c, False)) ds)"
    by (metis Un_upper1 set_append)
  then have "(c, True) \<notin> set xs" for c by auto
  then show ?thesis by (simp add: Unfinished)
qed

lemma core_running: "join_core fs j \<Longrightarrow> running (polls j) = unfinished j"
proof -
  assume core: "join_core fs j"
  have "(\<exists>c. (c, True) \<in> set (polls_of k (polls j))) \<longleftrightarrow> slot_output (slots j ! k) \<noteq> None" if "k < started j" for k
    using core that by (intro script_parts [of _ _ "fs ! k"]) (simp add: join_core_def)
  moreover have "polls_of k (polls j) \<noteq> [] \<longleftrightarrow> k < started j" for k using core by (simp add: join_core_def)
  ultimately show ?thesis unfolding running_def unfinished_def by blast
qed

lemma finite_unfinished [simp]: "finite (unfinished j)"
  by (simp add: unfinished_def)

lemma poll_core:
  assumes core: "join_core fs j" and i: "i < length fs" "i \<le> started j" and f: "slots j ! i = Unfinished f"
  shows "join_core fs (poll_at i f j)"
    and "i < started (poll_at i f j)" and "started j \<le> started (poll_at i f j)"
    and "active (poll_at i f j) \<le> (if i = started j then active j + 1 else active j)"
    and "length (polls (poll_at i f j)) = Suc (length (polls j))" and "take (length (polls j)) (polls (poll_at i f j)) = polls j"
proof -
  obtain cs final v where fut: "f = Future cs final v" by (cases f)
  define s where "s = (case cs of [] \<Rightarrow> Output v | c # cs \<Rightarrow> Unfinished (Future cs final v))"
  define e where "e = (case cs of [] \<Rightarrow> final | c # _ \<Rightarrow> c)"
  define n where "n = (if i = started j then started j + 1 else started j)"
  define m where "m = (if i = started j then active j + 1 else active j)"
  have step: "poll_at i f j = j\<lparr>slots := (slots j)[i := s], started := n,
      active := (if cs = [] then m - 1 else m), polls := polls j @ [(i, e, cs = [])]\<rparr>"
    by (simp add: poll_at_def fut s_def e_def n_def m_def split: list.split)
  have len: "length (slots j) = length fs" using core by (simp add: join_core_def)
  have old: "polls_of k (polls j) @ slot_script (slots j ! k) = script (fs ! k)"
    "slot_value (slots j ! k) = future_value (fs ! k)" if "k < length fs" for k
    using core that by (simp_all add: join_core_def)
  have scripts: "(e, cs = []) # slot_script s = slot_script (slots j ! i)" "slot_value s = slot_value (slots j ! i)"
    by (simp_all add: f fut s_def e_def split: list.split)
  have "polls_of k (polls j @ [(i, e, cs = [])]) @ slot_script ((slots j)[i := s] ! k) = script (fs ! k) \<and>
      slot_value ((slots j)[i := s] ! k) = future_value (fs ! k)" if "k < length fs" for k
    using old [OF that] scripts len i(1) by (cases "i = k") (auto simp: polls_of_snoc)
  moreover have "polls_of k (polls j @ [(i, e, cs = [])]) \<noteq> [] \<longleftrightarrow> k < n" for k
    using core i by (auto simp: polls_of_snoc join_core_def n_def)
  moreover have "n \<le> length fs" using core i by (auto simp: n_def join_core_def)
  moreover have card: "(if cs = [] then m - 1 else m) = card (unfinished (poll_at i f j))"
  proof -
    have "slot_output s = None \<longleftrightarrow> cs \<noteq> []" by (simp add: s_def split: list.split)
    then have set: "unfinished (poll_at i f j) = (if cs = [] then unfinished j - {i} else insert i (unfinished j))"
      using i len f by (auto simp: step unfinished_def n_def nth_list_update split: if_splits)
    have "active j = card (unfinished j)" using core by (simp add: join_core_def)
    moreover have "i \<in> unfinished j \<longleftrightarrow> i \<noteq> started j" using i f by (auto simp: unfinished_def)
    ultimately show ?thesis unfolding set m_def by (auto simp: card_insert_if)
  qed
  ultimately show "join_core fs (poll_at i f j)"
    using len by (simp add: step [symmetric] join_core_def) (simp add: step)
  show "i < started (poll_at i f j)" "started j \<le> started (poll_at i f j)"
    "active (poll_at i f j) \<le> (if i = started j then active j + 1 else active j)"
    "length (polls (poll_at i f j)) = Suc (length (polls j))" "take (length (polls j)) (polls (poll_at i f j)) = polls j"
    using i by (simp_all add: step n_def m_def)
qed

lemma poll_inv:
  assumes "join_inv limit fs j" and "i < length fs" and "i \<le> started j" and "slots j ! i = Unfinished f"
    and "i = started j \<Longrightarrow> limit \<noteq> Some (active j)"
  shows "join_inv limit fs (poll_at i f j)"
proof -
  have core: "join_core fs j" using assms(1) by (simp add: join_inv_def)
  note step = poll_core [OF core assms(2-4)]
  have old: "within limit (card (running (take n (polls j))))" for n using assms(1) by (simp add: join_inv_def)
  have "within limit (active j)"
    using old [of "length (polls j)"] core core_running [OF core] by (simp add: join_core_def)
  then have "within limit (active (poll_at i f j))"
    using step(4) assms(5) by (auto simp: within_def split: option.splits if_splits)
  then have new: "within limit (card (running (polls (poll_at i f j))))"
    using step(1) core_running [OF step(1)] by (simp add: join_core_def)
  have "within limit (card (running (take n (polls (poll_at i f j)))))" for n
  proof (cases "n \<le> length (polls j)")
    case True
    then have "take n (polls (poll_at i f j)) = take n (polls j)" by (metis step(6) min.absorb1 take_take)
    with old show ?thesis by simp
  next
    case False
    with step(5) new show ?thesis by simp
  qed
  with step(1) show ?thesis by (simp add: join_inv_def)
qed

section \<open>A pass, and the wake-ups\<close>

definition polls_left :: "('e, 'a) join \<Rightarrow> nat" where
  "polls_left j = sum_list (map (\<lambda>s. length (slot_script s)) (slots j))"

lemma poll_at_slots:
  "length (slots (poll_at i f j)) = length (slots j)" "k \<noteq> i \<Longrightarrow> slots (poll_at i f j) ! k = slots j ! k"
  by (cases f; simp add: poll_at_def Let_def split: list.split)+

lemma sum_list_update_Suc:
  "i < length xs \<Longrightarrow> f (xs ! i) = Suc (f y) \<Longrightarrow> Suc (sum_list (map f (xs[i := y]))) = sum_list (map f xs)"
  for f :: "'x \<Rightarrow> nat"
proof (induction xs arbitrary: i)
  case (Cons x xs)
  then show ?case by (cases i) auto
qed simp

lemma poll_at_left:
  assumes "i < length (slots j)" and "slots j ! i = Unfinished f"
  shows "Suc (polls_left (poll_at i f j)) = polls_left j"
proof (cases f)
  case (Future cs final v)
  define s where "s = (case cs of [] \<Rightarrow> Output v | c # cs \<Rightarrow> Unfinished (Future cs final v))"
  have "slots (poll_at i f j) = (slots j)[i := s]"
    by (simp add: poll_at_def Future s_def Let_def split: list.split)
  moreover have "length (slot_script (slots j ! i)) = Suc (length (slot_script s))"
    using assms(2) Future by (simp add: s_def split: list.split)
  ultimately show ?thesis
    unfolding polls_left_def using sum_list_update_Suc [OF assms(1), of "\<lambda>s. length (slot_script s)" s] by simp
qed

lemma join_pass_inv:
  assumes "join_inv limit fs j" and "i \<le> started j" and "i \<le> length fs"
  shows "join_inv limit fs (join_pass limit [i..<length fs] j) \<and>
     polls_left (join_pass limit [i..<length fs] j) \<le> polls_left j \<and>
     (started (join_pass limit [i..<length fs] j) = length fs \<or>
      limit = Some (active (join_pass limit [i..<length fs] j)))"
  using assms
proof (induction "length fs - i" arbitrary: i j)
  case 0
  then have "started j = length fs" "[i..<length fs] = []" by (auto simp: join_inv_def join_core_def)
  with 0 show ?case by simp
next
  case (Suc n)
  then have i: "i < length fs" and list: "[i..<length fs] = i # [Suc i..<length fs]"
    by (simp_all add: upt_conv_Cons)
  have core: "join_core fs j" using Suc.prems by (simp add: join_inv_def)
  show ?case
  proof (cases "slots j ! i")
    case (Output v)
    have "polls_of i (polls j) = script (fs ! i)" using core i Output by (auto simp: join_core_def)
    then have "polls_of i (polls j) \<noteq> []" by (cases "fs ! i") simp
    then have "Suc i \<le> started j" using core by (auto simp: join_core_def)
    with Suc.hyps(1) [of "Suc i" j] Suc.hyps(2) Suc.prems(1) i show ?thesis by (simp add: list Output)
  next
    case (Unfinished f)
    show ?thesis
    proof (cases "i = started j \<and> limit = Some (active j)")
      case True
      then have "join_pass limit (i # [Suc i..<length fs]) j = j" using Unfinished by simp
      with Suc.prems(1) True show ?thesis unfolding list by simp
    next
      case False
      then have "join_inv limit fs (poll_at i f j)"
        using poll_inv [OF Suc.prems(1) i Suc.prems(2) Unfinished] by blast
      moreover have "Suc i \<le> started (poll_at i f j)"
        using poll_core(2) [OF core i Suc.prems(2) Unfinished] by simp
      moreover have "polls_left (poll_at i f j) \<le> polls_left j"
        using poll_at_left [of i j f] Unfinished i core by (simp add: join_core_def)
      moreover have "n = length fs - Suc i" using Suc.hyps(2) by simp
      moreover have "join_pass limit [i..<length fs] j = join_pass limit [Suc i..<length fs] (poll_at i f j)"
        unfolding list join_pass.simps Unfinished slot.case if_not_P [OF False] ..
      ultimately show ?thesis
        using Suc.hyps(1) [of "Suc i" "poll_at i f j"] i by (simp add: Suc_le_eq)
    qed
  qed
qed

text \<open>A pass over unfinished futures polls at least one: the first unfinished one.\<close>

lemma join_pass_progress:
  assumes "join_inv limit fs j" and "limit \<noteq> Some 0" and "i \<le> started j" and "i \<le> length fs"
    and "\<forall>k < i. slot_output (slots j ! k) \<noteq> None" and "k < length fs" and "slot_output (slots j ! k) = None"
  shows "polls_left (join_pass limit [i..<length fs] j) < polls_left j"
  using assms(3-5)
proof (induction "length fs - i" arbitrary: i)
  case 0
  with assms(6,7) show ?case by auto
next
  case (Suc n)
  then have i: "i < length fs" and list: "[i..<length fs] = i # [Suc i..<length fs]"
    by (simp_all add: upt_conv_Cons)
  have core: "join_core fs j" using assms(1) by (simp add: join_inv_def)
  show ?case
  proof (cases "slots j ! i")
    case (Output v)
    have "polls_of i (polls j) = script (fs ! i)" using core i Output by (auto simp: join_core_def)
    then have "polls_of i (polls j) \<noteq> []" by (cases "fs ! i") simp
    then have "Suc i \<le> started j" using core by (auto simp: join_core_def)
    moreover have "\<forall>k < Suc i. slot_output (slots j ! k) \<noteq> None"
      using Suc.prems(3) Output by (auto simp: less_Suc_eq)
    ultimately have "polls_left (join_pass limit [Suc i..<length fs] j) < polls_left j"
      using Suc.hyps i by (intro Suc.hyps(1)) simp_all
    then show ?thesis by (simp add: list Output)
  next
    case (Unfinished f)
    have "active j = 0" if "i = started j"
    proof -
      have "unfinished j = {}" using Suc.prems(3) that by (auto simp: unfinished_def)
      with core show ?thesis by (simp add: join_core_def)
    qed
    with assms(2) have go: "\<not> (i = started j \<and> limit = Some (active j))" by auto
    then have "join_inv limit fs (poll_at i f j)"
      using poll_inv [OF assms(1) i Suc.prems(1) Unfinished] by blast
    moreover have "Suc i \<le> started (poll_at i f j)"
      using poll_core(2) [OF core i Suc.prems(1) Unfinished] by simp
    ultimately have "polls_left (join_pass limit [Suc i..<length fs] (poll_at i f j)) \<le> polls_left (poll_at i f j)"
      using join_pass_inv [of limit fs "poll_at i f j" "Suc i"] i by simp
    moreover have "Suc (polls_left (poll_at i f j)) = polls_left j"
      using poll_at_left [of i j f] Unfinished i core by (simp add: join_core_def)
    ultimately show ?thesis using go by (auto simp: list Unfinished)
  qed
qed

lemma join_wakes_return:
  assumes "join_inv limit fs j" and "limit \<noteq> Some 0"
  shows "\<exists>j'. join_wakes limit j = Some j' \<and> join_inv limit fs j' \<and> (\<forall>k < length fs. slot_output (slots j' ! k) \<noteq> None)"
  using assms(1)
proof (induction "polls_left j" arbitrary: j rule: less_induct)
  case less
  define j1 where "j1 = join_pass limit [0..<length (slots j)] j"
  have len: "length (slots j) = length fs" using less.prems by (simp add: join_inv_def join_core_def)
  have j1: "join_inv limit fs j1" "started j1 = length fs \<or> limit = Some (active j1)"
    using join_pass_inv [OF less.prems, of 0] by (simp_all add: j1_def len)
  have wakes: "join_wakes limit j = (if active j1 > 0 then join_wakes limit j1 else Some j1)"
    by (subst join_wakes.simps) (simp add: j1_def Let_def)
  show ?case
  proof (cases "active j1 > 0")
    case True
    have "\<exists>k < length fs. slot_output (slots j ! k) = None"
    proof (rule ccontr)
      assume none: "\<not> ?thesis"
      have "join_pass limit is j = j" if "\<forall>k \<in> set is. k < length fs" for "is"
        using that
      proof (induction "is")
        case (Cons i "is")
        then have "slot_output (slots j ! i) \<noteq> None" using none by simp
        with Cons show ?case by (cases "slots j ! i") simp_all
      qed simp
      then have "j1 = j" by (simp add: j1_def len)
      moreover have "unfinished j = {}" using none less.prems by (auto simp: unfinished_def join_inv_def join_core_def)
      ultimately show False using True less.prems by (simp add: join_inv_def join_core_def)
    qed
    then obtain k where "k < length fs" "slot_output (slots j ! k) = None" by blast
    then have "polls_left j1 < polls_left j"
      using join_pass_progress [OF less.prems assms(2), of 0] by (simp add: j1_def len)
    from less.hyps [OF this j1(1)] True show ?thesis by (simp add: wakes)
  next
    case False
    then have "started j1 = length fs" using j1(2) assms(2) by auto
    moreover have "unfinished j1 = {}" using j1(1) False by (simp add: join_inv_def join_core_def)
    ultimately show ?thesis using wakes False j1(1) by (auto simp: unfinished_def)
  qed
qed

lemma map_filter_outputs:
  "length ss = length vs \<Longrightarrow> (\<And>k. k < length vs \<Longrightarrow> slot_output (ss ! k) = Some (vs ! k)) \<Longrightarrow>
     List.map_filter slot_output ss = vs"
proof (induction ss arbitrary: vs)
  case (Cons s ss)
  then obtain v vs' where vs: "vs = v # vs'" by (cases vs) auto
  have "slot_output s = Some v" using Cons.prems(2) [of 0] vs by simp
  moreover have "slot_output (ss ! k) = Some (vs' ! k)" if "k < length vs'" for k
    using Cons.prems(2) [of "Suc k"] vs that by simp
  ultimately show ?case using Cons vs by (simp add: List.map_filter_simps)
qed (simp add: List.map_filter_simps)

text \<open>Every future is polled by its own script, to its end, and at most \<open>limit\<close> run at once.\<close>

definition well_joined :: "nat option \<Rightarrow> ('e, 'a) future list \<Rightarrow> 'e poll list \<Rightarrow> bool" where
  "well_joined limit fs ps \<longleftrightarrow>
     (\<forall>k. polls_of k ps = (if k < length fs then script (fs ! k) else [])) \<and>
     (\<forall>n. within limit (card (running (take n ps))))"

lemma join_all_returns:
  assumes "limit \<noteq> Some 0"
  shows "\<exists>ps. join_all limit fs = Some (map future_value fs, ps) \<and> well_joined limit fs ps"
proof -
  let ?j = "\<lparr>slots = map Unfinished fs, started = 0, active = 0, polls = []\<rparr>"
  have "join_inv limit fs ?j"
    by (auto simp: join_inv_def join_core_def polls_of_def unfinished_def running_def within_def split: option.split)
  from join_wakes_return [OF this assms] obtain j where j: "join_wakes limit ?j = Some j" "join_inv limit fs j"
    "\<And>k. k < length fs \<Longrightarrow> slot_output (slots j ! k) \<noteq> None" by blast
  have len: "length (slots j) = length fs" using j(2) by (simp add: join_inv_def join_core_def)
  have slot: "slots j ! k = Output (future_value (fs ! k))" if "k < length fs" for k
  proof -
    have "slot_value (slots j ! k) = future_value (fs ! k)" using j(2) that by (simp add: join_inv_def join_core_def)
    with j(3) [OF that] show ?thesis by (cases "slots j ! k") simp_all
  qed
  then have "List.map_filter slot_output (slots j) = map future_value fs"
    using len by (intro map_filter_outputs) simp_all
  moreover have "polls_of k (polls j) = script (fs ! k)" if "k < length fs" for k
    using j(2) slot [OF that] that by (auto simp: join_inv_def join_core_def)
  moreover have "polls_of k (polls j) = []" if "\<not> k < length fs" for k
  proof -
    have "\<not> k < started j" using j(2) that by (simp add: join_inv_def join_core_def)
    with j(2) show ?thesis unfolding join_inv_def join_core_def by blast
  qed
  ultimately show ?thesis using j(1,2) by (simp add: join_all_def well_joined_def join_inv_def)
qed

section \<open>The events of a join\<close>

definition poll_events :: "'e poll list \<Rightarrow> 'e list" where
  "poll_events ps = concat (map (\<lambda>(_, es, _). es) ps)"

definition future_events :: "('e, 'a) future \<Rightarrow> 'e list" where
  "future_events f = concat (map fst (script f))"

lemma poll_events_split:
  "(\<And>k. n \<le> k \<Longrightarrow> polls_of k ps = []) \<Longrightarrow>
     mset (poll_events ps) = (\<Sum>k < n. mset (concat (map fst (polls_of k ps))))"
proof (induction ps)
  case (Cons p ps)
  obtain i es r where p: "p = (i, es, r)" by (cases p)
  have of: "polls_of k (p # ps) = (if i = k then [(es, r)] else []) @ polls_of k ps" for k
    by (simp add: polls_of_def p)
  have "i < n" using Cons.prems [of i] by (auto simp: of not_less [symmetric])
  have "(\<Sum>k < n. mset (concat (map fst (polls_of k (p # ps))))) =
      (\<Sum>k < n. if i = k then mset es else {#}) + (\<Sum>k < n. mset (concat (map fst (polls_of k ps))))"
    by (subst sum.distrib [symmetric], rule sum.cong) (simp_all add: of)
  moreover have "(\<Sum>k < n. if i = k then mset es else {#}) = mset es" using \<open>i < n\<close> by (simp add: sum.delta)
  moreover have "polls_of k ps = []" if "n \<le> k" for k using Cons.prems [OF that] by (simp add: of)
  ultimately show ?case using Cons.IH by (simp add: poll_events_def p)
qed (simp add: poll_events_def polls_of_def)

lemma joined_events: "well_joined limit fs ps \<Longrightarrow> mset (poll_events ps) = mset (concat (map future_events fs))"
proof -
  assume joined: "well_joined limit fs ps"
  then have "mset (poll_events ps) = (\<Sum>k < length fs. mset (concat (map fst (polls_of k ps))))"
    by (intro poll_events_split) (simp add: well_joined_def)
  also have "\<dots> = (\<Sum>k < length fs. mset (future_events (fs ! k)))"
    using joined by (intro sum.cong) (simp_all add: well_joined_def future_events_def)
  also have "\<dots> = (\<Sum>f \<leftarrow> fs. mset (future_events f))"
    by (simp add: sum_list_sum_nth atLeast0LessThan)
  finally show ?thesis by (simp add: mset_concat comp_def)
qed

text \<open>C17. Joining futures returns whatever they do and however long each takes: with one output per
  future, in their order; each future is polled by its own script exactly, to its end, its events in
  their order; and at no point of the run have more futures started and not finished than the bound
  allows.\<close>

theorem join_all_exact:
  assumes "limit \<noteq> Some 0"
  shows "\<exists>ps. join_all limit fs = Some (map future_value fs, ps) \<and> well_joined limit fs ps"
  by (rule join_all_returns [OF assms])

lemma join_all_exact_witness:
  "\<exists>ps. join_all (Some 2) [Future [''a'', ''b''] ''c'' (1::nat), Future [] ''d'' 2, Future [''e''] ''f'' 3] =
     Some ([1, 2, 3], ps) \<and>
   well_joined (Some 2) [Future [''a'', ''b''] ''c'' (1::nat), Future [] ''d'' 2, Future [''e''] ''f'' 3] ps"
  using join_all_exact [of "Some 2" "[Future [''a'', ''b''] ''c'' (1::nat), Future [] ''d'' 2, Future [''e''] ''f'' 3]"]
  by simp

end
