(* ===== verification/AgentTools.thy ===== *)
theory AgentTools
  imports Transcript JoinAll Transform RunControl "HOL-Library.State_Monad"
begin

text \<open>
  The tool calls of the agent loop (\<open>bake-agent/src/agent_loop.rs\<close> over the types of
  \<open>types.rs\<close>): a call is prepared (tool, argument shim, schema validation, hook), executed and
  finalized, in a sequential batch or in one prepared in order and joined. The code's callbacks are
  functions of an abstract world \<open>'w\<close>, which each may change: whatever the model, the tools, the
  hooks and the other tasks do is some such world. The trace keeps the events emitted, the requests
  sent, the executions begun and the abort checks, in order.
\<close>

section \<open>Results, tools and events\<close>

record agent_tool_result =
  out_content :: "user_block list"
  out_details :: "json option"
  out_structured :: "json option"
  out_usage :: "usage option"
  out_is_error :: bool
  out_terminate :: bool

definition tool_output_text :: "string \<Rightarrow> agent_tool_result" where
  "tool_output_text t =
     \<lparr>out_content = [UserText (text_new t)], out_details = None, out_structured = None, out_usage = None,
      out_is_error = False, out_terminate = False\<rparr>"

definition create_error_tool_result :: "string \<Rightarrow> agent_tool_result" where
  "create_error_tool_result t = (tool_output_text t)\<lparr>out_details := Some (JObject [])\<rparr>"

datatype tool_execution_mode = SequentialTools | ParallelTools

datatype tool_replay = ReplayNever | ReplaySafe

record agent_tool =
  agent_name :: string
  agent_label :: string
  agent_description :: string
  agent_parameters :: json
  agent_sampling :: "constrained_sampling option"
  output_schema :: "json option"
  prepare_arguments :: "(json \<Rightarrow> (string, json) result) option"
  replay :: "tool_replay option"
  execution_mode :: "tool_execution_mode option"
  read_only :: bool
  nested_callable :: bool

definition agent_tool_new :: "string \<Rightarrow> string \<Rightarrow> string \<Rightarrow> json \<Rightarrow> agent_tool" where
  "agent_tool_new name label description parameters =
     \<lparr>agent_name = name, agent_label = label, agent_description = description, agent_parameters = parameters,
      agent_sampling = None, output_schema = None, prepare_arguments = None, replay = None,
      execution_mode = None, read_only = False, nested_callable = True\<rparr>"

definition tool_declaration :: "agent_tool \<Rightarrow> tool" where
  "tool_declaration t =
     \<lparr>tool_name = agent_name t, tool_description = agent_description t, tool_parameters = agent_parameters t,
      tool_sampling = agent_sampling t\<rparr>"

record before_result =
  block_call :: bool
  block_reason :: "string option"
  block_terminate :: bool

record after_result =
  after_content :: "user_block list option"
  after_details :: "json option"
  after_structured :: "json option"
  after_is_error :: "bool option"
  after_usage :: "usage option"
  after_terminate :: "bool option"

record nested_summary =
  nested_made :: "nested_calls option"
  nested_usage :: "usage option"

record call_outcome =
  outcome_call :: tool_call_block
  outcome_result :: agent_tool_result
  outcome_is_error :: bool
  outcome_duration :: "nat option"
  outcome_nested :: "nested_summary option"

datatype 'c agent_message = LlmMessage message | AppMessage 'c

fun agent_system :: "'c agent_message \<Rightarrow> system_message option" where
  "agent_system (LlmMessage (System m)) = Some m"
| "agent_system _ = None"

fun agent_assistant :: "'c agent_message \<Rightarrow> assistant_message option" where
  "agent_assistant (LlmMessage (Assistant m)) = Some m"
| "agent_assistant _ = None"

text \<open>The events of a streamed response.\<close>

datatype stream_part =
    PartTextStart nat
  | PartTextDelta nat string
  | PartTextEnd nat string
  | PartThinkingStart nat
  | PartThinkingDelta nat string
  | PartThinkingEnd nat string
  | PartCallStart nat
  | PartCallDelta nat string
  | PartCallEnd nat tool_call_block

datatype stream_event =
    StreamStart assistant_message
  | StreamPart stream_part assistant_message
  | StreamDone stop_reason assistant_message
  | StreamError stop_reason assistant_message

datatype 'c agent_event =
    AgentStart
  | AgentEnd "'c agent_message list"
  | TurnStart
  | TurnEnd "'c agent_message" "tool_result list"
  | MessageStart "'c agent_message"
  | MessageUpdate "'c agent_message" stream_event
  | MessageEnd "'c agent_message"
  | ToolStart string string json "string option"
  | ToolUpdate string string json agent_tool_result "string option"
  | ToolEnd string string agent_tool_result bool "nat option" "string option"

record 'c agent_context =
  ctx_messages :: "'c agent_message list"
  ctx_tools :: "agent_tool list"

section \<open>Actions and worlds\<close>

record 'c request_made =
  req_context :: "'c agent_context"
  req_transcript :: "message list"
  req_model :: target_model
  req_reasoning :: "thinking_level option"
  req_key :: "string option"

datatype 'c action =
    Emitted "'c agent_event"
  | Requested "'c request_made"
  | Executed tool_call_block agent_tool json
  | Checked bool

record ('w, 'c) io =
  world :: 'w
  trace :: "'c action list"

type_synonym ('w, 'c, 'a) loop = "(('w, 'c) io, 'a) state"

definition act :: "'c action \<Rightarrow> ('w, 'c, unit) loop" where
  "act a = State (\<lambda>s. ((), s\<lparr>trace := trace s @ [a]\<rparr>))"

definition acts :: "'c action list \<Rightarrow> ('w, 'c, unit) loop" where
  "acts as = State (\<lambda>s. ((), s\<lparr>trace := trace s @ as\<rparr>))"

definition emit :: "'c agent_event \<Rightarrow> ('w, 'c, unit) loop" where
  "emit e = act (Emitted e)"

definition ask :: "('w \<Rightarrow> 'a \<times> 'w) \<Rightarrow> ('w, 'c, 'a) loop" where
  "ask f = State (\<lambda>s. let (a, w) = f (world s) in (a, s\<lparr>world := w\<rparr>))"

definition is_aborted :: "('w \<Rightarrow> bool \<times> 'w) \<Rightarrow> ('w, 'c, bool) loop" where
  "is_aborted signal = do {
     b \<leftarrow> ask signal;
     act (Checked b);
     State_Monad.return b
   }"

text \<open>A \<open>NonZeroUsize\<close>.\<close>

datatype nonzero = NonZero nat

fun nonzero_get :: "nonzero \<Rightarrow> nat" where
  "nonzero_get (NonZero n) = Suc n"

text \<open>What executing one call will do: the updates of each of its polls and of the last one, how it
  settles and when, its nested calls, whether the signal has aborted when a joined call first runs,
  and what the hook after it answers, if one is installed. A panic is an \<open>Inl\<close> with its text.\<close>

record call_run =
  exec_aborted_first :: bool
  exec_updates :: "agent_tool_result list list"
  exec_late :: "agent_tool_result list"
  exec_outcome :: "(string, agent_tool_result) result"
  exec_duration :: nat
  exec_nested :: "nested_summary option"
  exec_after :: "(agent_tool_result \<Rightarrow> bool \<Rightarrow> (string, after_result option) result) option"

text \<open>What the tool pipeline is configured with. \<open>validate\<close> is \<open>validate_tool_arguments\<close>; the hook before
  a call answers, and may change the arguments.\<close>

record 'w tool_config =
  validate :: "json \<Rightarrow> string \<Rightarrow> json \<Rightarrow> (string, json) result"
  on_before :: "(tool_call_block \<Rightarrow> json \<Rightarrow> string option \<Rightarrow> 'w \<Rightarrow>
      ((string, before_result option) result \<times> json) \<times> 'w) option"
  on_execute :: "tool_call_block \<Rightarrow> agent_tool \<Rightarrow> json \<Rightarrow> 'w \<Rightarrow> call_run \<times> 'w"
  on_aborted :: "'w \<Rightarrow> bool \<times> 'w"
  on_now :: "'w \<Rightarrow> int \<times> 'w"
  tool_execution :: tool_execution_mode
  max_concurrent_read_tools :: "nonzero option"
  cost_add :: "f64 \<Rightarrow> f64 \<Rightarrow> f64"

section \<open>Preparing a call\<close>

datatype preparation = Prepared agent_tool json | Immediate agent_tool_result bool

definition immediate_error :: "string \<Rightarrow> preparation" where
  "immediate_error t = Immediate (create_error_tool_result t) True"

definition find_agent_tool :: "agent_tool list \<Rightarrow> string \<Rightarrow> agent_tool option" where
  "find_agent_tool ts name = find (\<lambda>t. agent_name t = name) ts"

definition check_arguments :: "'w tool_config \<Rightarrow> agent_tool \<Rightarrow> tool_call_block \<Rightarrow> (string, json) result" where
  "check_arguments cf tool c =
     (let raw = JObject (call_arguments c) in
      bind_result (case prepare_arguments tool of None \<Rightarrow> Inr raw | Some prepare \<Rightarrow> prepare raw)
        (validate cf (agent_parameters tool) (call_name c)))"

definition blocked_text :: "before_result \<Rightarrow> string" where
  "blocked_text b =
     (case block_reason b of
        Some r \<Rightarrow> if r \<noteq> [] then r else ''Tool execution was blocked''
      | None \<Rightarrow> ''Tool execution was blocked'')"

definition operation_aborted :: preparation where
  "operation_aborted = immediate_error ''Operation aborted''"

definition blocked_call :: "before_result \<Rightarrow> preparation" where
  "blocked_call r =
     Immediate ((create_error_tool_result (blocked_text r))\<lparr>out_terminate := block_terminate r\<rparr>) True"

text \<open>What the hook's answer ends the call with, if anything.\<close>

definition judge_call ::
  "'w tool_config \<Rightarrow> (string, before_result option) result \<Rightarrow> ('w, 'c, preparation option) loop" where
  "judge_call cf verdict =
     (case verdict of
        Inl e \<Rightarrow> State_Monad.return (Some (immediate_error e))
      | Inr answer \<Rightarrow> do {
          b \<leftarrow> is_aborted (on_aborted cf);
          State_Monad.return
            (if b then Some operation_aborted
             else (case answer of
                None \<Rightarrow> None
              | Some r \<Rightarrow> if block_call r then Some (blocked_call r) else None))
        })"

definition call_before ::
  "'w tool_config \<Rightarrow> string option \<Rightarrow> tool_call_block \<Rightarrow> json \<Rightarrow> ('w, 'c, preparation option \<times> json) loop" where
  "call_before cf parent c args =
     (case on_before cf of
        None \<Rightarrow> State_Monad.return (None, args)
      | Some before \<Rightarrow> do {
          (verdict, args) \<leftarrow> ask (before c args parent);
          early \<leftarrow> judge_call cf verdict;
          State_Monad.return (early, args)
        })"

definition clear_call ::
  "'w tool_config \<Rightarrow> agent_tool \<Rightarrow> preparation option \<Rightarrow> json \<Rightarrow> ('w, 'c, preparation) loop" where
  "clear_call cf tool early args =
     (case early of
        Some p \<Rightarrow> State_Monad.return p
      | None \<Rightarrow> do {
          b \<leftarrow> is_aborted (on_aborted cf);
          State_Monad.return (if b then operation_aborted else Prepared tool args)
        })"

definition prepare_tool_call ::
  "'w tool_config \<Rightarrow> agent_tool list \<Rightarrow> string option \<Rightarrow> tool_call_block \<Rightarrow> ('w, 'c, preparation) loop" where
  "prepare_tool_call cf tools parent c =
     (case find_agent_tool tools (call_name c) of
        None \<Rightarrow> State_Monad.return (immediate_error (''Tool '' @ call_name c @ '' not found''))
      | Some tool \<Rightarrow>
          (case check_arguments cf tool c of
             Inl e \<Rightarrow> State_Monad.return (immediate_error e)
           | Inr args \<Rightarrow> do {
               (early, args) \<leftarrow> call_before cf parent c args;
               clear_call cf tool early args
             }))"

section \<open>Executing and finalizing a call\<close>

text \<open>How the tool settled: its result, and whether it is an error.\<close>

definition settled :: "call_run \<Rightarrow> agent_tool_result \<times> bool" where
  "settled r =
     (case exec_outcome r of
        Inr result \<Rightarrow> (result, out_is_error result)
      | Inl e \<Rightarrow> (create_error_tool_result e, True))"

definition apply_after :: "after_result \<Rightarrow> agent_tool_result \<Rightarrow> agent_tool_result" where
  "apply_after a r =
     r\<lparr>out_structured := (case after_structured a of
          Some v \<Rightarrow> Some v
        | None \<Rightarrow> if after_content a \<noteq> None then None else out_structured r),
       out_content := (case after_content a of Some c \<Rightarrow> c | None \<Rightarrow> out_content r),
       out_details := (case after_details a of Some d \<Rightarrow> Some d | None \<Rightarrow> out_details r),
       out_usage := (case after_usage a of Some u \<Rightarrow> Some u | None \<Rightarrow> out_usage r),
       out_terminate := (case after_terminate a of Some t \<Rightarrow> t | None \<Rightarrow> out_terminate r)\<rparr>"

definition finalize_executed_tool_call :: "tool_call_block \<Rightarrow> call_run \<Rightarrow> call_outcome" where
  "finalize_executed_tool_call c r =
     (let (result, error) = settled r;
          (result, error) = (case exec_after r of
             None \<Rightarrow> (result, error)
           | Some after \<Rightarrow>
               (case after result error of
                  Inl e \<Rightarrow> (create_error_tool_result e, True)
                | Inr None \<Rightarrow> (result, error)
                | Inr (Some a) \<Rightarrow>
                    (apply_after a result, case after_is_error a of Some flag \<Rightarrow> flag | None \<Rightarrow> error)))
      in \<lparr>outcome_call = c, outcome_result = result, outcome_is_error = error,
          outcome_duration = Some (exec_duration r), outcome_nested = exec_nested r\<rparr>)"

definition unexecuted :: "tool_call_block \<Rightarrow> agent_tool_result \<Rightarrow> bool \<Rightarrow> call_outcome" where
  "unexecuted c result error =
     \<lparr>outcome_call = c, outcome_result = result, outcome_is_error = error, outcome_duration = None, outcome_nested = None\<rparr>"

section \<open>Events of a call\<close>

definition start_event :: "tool_call_block \<Rightarrow> 'c action" where
  "start_event c = Emitted (ToolStart (call_id c) (call_name c) (JObject (call_arguments c)) None)"

definition update_event :: "tool_call_block \<Rightarrow> agent_tool_result \<Rightarrow> 'c action" where
  "update_event c r = Emitted (ToolUpdate (call_id c) (call_name c) (JObject (call_arguments c)) r None)"

definition end_event :: "call_outcome \<Rightarrow> 'c action" where
  "end_event fin =
     Emitted (ToolEnd (call_id (outcome_call fin)) (call_name (outcome_call fin)) (outcome_result fin)
       (outcome_is_error fin) (outcome_duration fin) None)"

definition create_tool_result_message :: "(f64 \<Rightarrow> f64 \<Rightarrow> f64) \<Rightarrow> int \<Rightarrow> call_outcome \<Rightarrow> tool_result" where
  "create_tool_result_message add now fin =
     (let nested = outcome_nested fin in
      \<lparr>result_call = call_id (outcome_call fin), result_tool = call_name (outcome_call fin),
       result_content = out_content (outcome_result fin), result_details = out_details (outcome_result fin),
       result_usage = (case (out_usage (outcome_result fin), Option.bind nested nested_usage) of
          (Some own, Some n) \<Rightarrow> Some (combine_usage add own n)
        | (Some own, None) \<Rightarrow> Some own
        | (None, n) \<Rightarrow> n),
       result_nested = Option.bind nested nested_made, result_is_error = outcome_is_error fin,
       result_timestamp = now, result_duration = outcome_duration fin\<rparr>)"

definition emit_tool_result_message :: "tool_result \<Rightarrow> ('w, 'c, unit) loop" where
  "emit_tool_result_message m = do {
     emit (MessageStart (LlmMessage (ToolResult m)));
     emit (MessageEnd (LlmMessage (ToolResult m)))
   }"

text \<open>The message of a finalized call, emitted.\<close>

definition answer_call :: "'w tool_config \<Rightarrow> call_outcome \<Rightarrow> ('w, 'c, tool_result) loop" where
  "answer_call cf fin = do {
     now \<leftarrow> ask (on_now cf);
     let m = create_tool_result_message (cost_add cf) now fin;
     emit_tool_result_message m;
     State_Monad.return m
   }"

section \<open>Batches\<close>

text \<open>A batch's messages, and whether the run should stop after it.\<close>

type_synonym call_batch = "tool_result list \<times> bool"

definition should_terminate_tool_batch :: "call_outcome list \<Rightarrow> bool" where
  "should_terminate_tool_batch fins \<longleftrightarrow> fins \<noteq> [] \<and> list_all (\<lambda>fin. out_terminate (outcome_result fin)) fins"

definition truncated_text :: "string \<Rightarrow> string" where
  "truncated_text name =
     ''Tool call '' @ quoted name @ '' was not executed: the response hit the output token limit, so its '' @
     ''arguments may be truncated. Re-issue the tool call with complete arguments.''"

fun fail_truncated_calls :: "'w tool_config \<Rightarrow> tool_call_block list \<Rightarrow> ('w, 'c, tool_result list) loop" where
  "fail_truncated_calls cf [] = State_Monad.return []"
| "fail_truncated_calls cf (c # cs) = do {
     act (start_event c);
     let fin = unexecuted c (create_error_tool_result (truncated_text (call_name c))) True;
     act (end_event fin);
     m \<leftarrow> answer_call cf fin;
     ms \<leftarrow> fail_truncated_calls cf cs;
     State_Monad.return (m # ms)
   }"

text \<open>One call of a sequential batch.\<close>

definition run_sequential_call ::
  "'w tool_config \<Rightarrow> agent_tool list \<Rightarrow> tool_call_block \<Rightarrow> ('w, 'c, call_outcome) loop" where
  "run_sequential_call cf tools c = do {
     act (start_event c);
     p \<leftarrow> prepare_tool_call cf tools None c;
     (case p of
        Immediate result error \<Rightarrow> State_Monad.return (unexecuted c result error)
      | Prepared tool args \<Rightarrow> do {
          r \<leftarrow> ask (on_execute cf c tool args);
          act (Executed c tool args);
          acts (map (update_event c) (concat (exec_updates r) @ exec_late r));
          State_Monad.return (finalize_executed_tool_call c r)
        })
   }"

fun execute_tool_calls_sequential ::
  "'w tool_config \<Rightarrow> agent_tool list \<Rightarrow> tool_call_block list \<Rightarrow>
     ('w, 'c, (call_outcome \<times> tool_result) list) loop" where
  "execute_tool_calls_sequential cf tools [] = State_Monad.return []"
| "execute_tool_calls_sequential cf tools (c # cs) = do {
     fin \<leftarrow> run_sequential_call cf tools c;
     act (end_event fin);
     m \<leftarrow> answer_call cf fin;
     b \<leftarrow> is_aborted (on_aborted cf);
     (if b then State_Monad.return [(fin, m)]
      else do {
        rest \<leftarrow> execute_tool_calls_sequential cf tools cs;
        State_Monad.return ((fin, m) # rest)
      })
   }"

text \<open>The future of a prepared call.\<close>

definition call_future ::
  "tool_call_block \<Rightarrow> agent_tool \<Rightarrow> json \<Rightarrow> call_run \<Rightarrow> ('c action, call_outcome) future" where
  "call_future c tool args r =
     (if exec_aborted_first r then
        (let fin = unexecuted c (create_error_tool_result ''Operation aborted'') True
         in Future [] [Checked True, end_event fin] fin)
      else
        (let fin = finalize_executed_tool_call c r;
             ending = map (update_event c) (exec_late r) @ [end_event fin]
         in (case exec_updates r of
               [] \<Rightarrow> Future [] ([Checked False, Executed c tool args] @ ending) fin
             | us # uss \<Rightarrow>
                 Future (([Checked False, Executed c tool args] @ map (update_event c) us) #
                           map (map (update_event c)) uss) ending fin)))"

definition enter_call ::
  "'w tool_config \<Rightarrow> agent_tool list \<Rightarrow> tool_call_block \<Rightarrow> ('w, 'c, ('c action, call_outcome) future) loop" where
  "enter_call cf tools c = do {
     act (start_event c);
     p \<leftarrow> prepare_tool_call cf tools None c;
     (case p of
        Immediate result error \<Rightarrow> do {
          act (end_event (unexecuted c result error));
          State_Monad.return (Future [] [] (unexecuted c result error))
        }
      | Prepared tool args \<Rightarrow> do {
          r \<leftarrow> ask (on_execute cf c tool args);
          State_Monad.return (call_future c tool args r)
        })
   }"

fun enter_calls ::
  "'w tool_config \<Rightarrow> agent_tool list \<Rightarrow> tool_call_block list \<Rightarrow>
     ('w, 'c, ('c action, call_outcome) future list) loop" where
  "enter_calls cf tools [] = State_Monad.return []"
| "enter_calls cf tools (c # cs) = do {
     f \<leftarrow> enter_call cf tools c;
     b \<leftarrow> is_aborted (on_aborted cf);
     (if b then State_Monad.return [f]
      else do {
        fs \<leftarrow> enter_calls cf tools cs;
        State_Monad.return (f # fs)
      })
   }"

fun answer_calls :: "'w tool_config \<Rightarrow> call_outcome list \<Rightarrow> ('w, 'c, tool_result list) loop" where
  "answer_calls cf [] = State_Monad.return []"
| "answer_calls cf (fin # fins) = do {
     m \<leftarrow> answer_call cf fin;
     ms \<leftarrow> answer_calls cf fins;
     State_Monad.return (m # ms)
   }"

text \<open>The join always returns (\<open>join_all_returns\<close>): the last case does not occur.\<close>

definition execute_tool_calls_parallel ::
  "'w tool_config \<Rightarrow> agent_tool list \<Rightarrow> tool_call_block list \<Rightarrow> ('w, 'c, call_batch) loop" where
  "execute_tool_calls_parallel cf tools cs = do {
     fs \<leftarrow> enter_calls cf tools cs;
     (case join_all (map_option nonzero_get (max_concurrent_read_tools cf)) fs of
        Some (fins, ps) \<Rightarrow> do {
          acts (poll_events ps);
          ms \<leftarrow> answer_calls cf fins;
          State_Monad.return (ms, should_terminate_tool_batch fins)
        }
      | None \<Rightarrow> State_Monad.return ([], False))
   }"

definition is_sequential_call :: "'w tool_config \<Rightarrow> agent_tool list \<Rightarrow> tool_call_block \<Rightarrow> bool" where
  "is_sequential_call cf tools c =
     (case find_agent_tool tools (call_name c) of
        None \<Rightarrow> max_concurrent_read_tools cf \<noteq> None
      | Some tool \<Rightarrow>
          execution_mode tool = Some SequentialTools \<or> max_concurrent_read_tools cf \<noteq> None \<and> \<not> read_only tool)"

definition execute_tool_calls ::
  "'w tool_config \<Rightarrow> agent_tool list \<Rightarrow> tool_call_block list \<Rightarrow> ('w, 'c, call_batch) loop" where
  "execute_tool_calls cf tools cs =
     (if tool_execution cf = SequentialTools \<or> list_ex (is_sequential_call cf tools) cs
      then do {
        answers \<leftarrow> execute_tool_calls_sequential cf tools cs;
        State_Monad.return (map snd answers, should_terminate_tool_batch (map fst answers))
      }
      else execute_tool_calls_parallel cf tools cs)"

text \<open>The calls of one assistant message.\<close>

definition run_tool_batch ::
  "'w tool_config \<Rightarrow> agent_tool list \<Rightarrow> assistant_message \<Rightarrow> ('w, 'c, call_batch) loop" where
  "run_tool_batch cf tools m =
     (if stop_reason m = Length then do {
        ms \<leftarrow> fail_truncated_calls cf (tool_calls m);
        State_Monad.return (ms, False)
      }
      else execute_tool_calls cf tools (tool_calls m))"

text \<open>A call on its own: no events, no messages.\<close>

definition run_tool_call ::
  "'w tool_config \<Rightarrow> agent_tool list \<Rightarrow> string option \<Rightarrow> tool_call_block \<Rightarrow> ('w, 'c, call_outcome) loop" where
  "run_tool_call cf tools parent c = do {
     p \<leftarrow> prepare_tool_call cf tools parent c;
     (case p of
        Immediate result error \<Rightarrow> State_Monad.return (unexecuted c result error)
      | Prepared tool args \<Rightarrow> do {
          r \<leftarrow> ask (on_execute cf c tool args);
          act (Executed c tool args);
          State_Monad.return ((finalize_executed_tool_call c r)\<lparr>outcome_nested := None\<rparr>)
        })
   }"

section \<open>What a computation adds to the trace\<close>

text \<open>Whatever the world does, \<open>m\<close> extends the trace by some \<open>t\<close> and returns some \<open>a\<close> with \<open>R a t\<close>. The
  rules compute the condition backwards, one for each construct.\<close>

definition yields :: "('w, 'c, 'a) loop \<Rightarrow> ('a \<Rightarrow> 'c action list \<Rightarrow> bool) \<Rightarrow> bool" where
  "yields m R \<longleftrightarrow>
     (\<forall>s. \<exists>t. trace (snd (run_state m s)) = trace s @ t \<and> R (fst (run_state m s)) t)"

named_theorems yields_rules \<open>backward rules of \<open>yields\<close>\<close>

lemma yields_return [yields_rules]: "R a [] \<Longrightarrow> yields (State_Monad.return a) R"
  by (simp add: yields_def)

lemma yields_act [yields_rules]: "R () [a] \<Longrightarrow> yields (act a) R"
  by (simp add: yields_def act_def)

lemma yields_acts [yields_rules]: "R () as \<Longrightarrow> yields (acts as) R"
  by (simp add: yields_def acts_def)

lemma yields_ask [yields_rules]: "(\<And>w. R (fst (f w)) []) \<Longrightarrow> yields (ask f) R"
  by (simp add: yields_def ask_def split: prod.split) (metis fst_conv)

lemma yields_bind [yields_rules]:
  assumes "yields m (\<lambda>a t. yields (f a) (\<lambda>b u. R b (t @ u)))"
  shows "yields (State_Monad.bind m f) R"
  unfolding yields_def
proof
  fix s
  obtain a s1 where m: "run_state m s = (a, s1)" by fastforce
  with assms obtain t where t: "trace s1 = trace s @ t" "yields (f a) (\<lambda>b u. R b (t @ u))"
    unfolding yields_def by (metis fst_conv snd_conv)
  then obtain u where "trace (snd (run_state (f a) s1)) = trace s1 @ u" "R (fst (run_state (f a) s1)) (t @ u)"
    unfolding yields_def by blast
  with m t show "\<exists>t. trace (snd (run_state (State_Monad.bind m f) s)) = trace s @ t \<and>
      R (fst (run_state (State_Monad.bind m f) s)) t"
    by (intro exI [of _ "t @ u"]) simp
qed

lemma yields_mono: "yields m R \<Longrightarrow> (\<And>a t. R a t \<Longrightarrow> S a t) \<Longrightarrow> yields m S"
  unfolding yields_def by blast

lemma yields_emit [yields_rules]: "R () [Emitted e] \<Longrightarrow> yields (emit e) R"
  by (simp add: emit_def yields_act)

lemma yields_is_aborted [yields_rules]: "(\<And>b. R b [Checked b]) \<Longrightarrow> yields (is_aborted f) R"
  unfolding is_aborted_def by (intro yields_rules) simp

section \<open>What a trace shows\<close>

definition started_calls :: "'c action list \<Rightarrow> string list" where
  "started_calls = List.map_filter (\<lambda>a. case a of Emitted (ToolStart i _ _ _) \<Rightarrow> Some i | _ \<Rightarrow> None)"

definition ended_calls :: "'c action list \<Rightarrow> string list" where
  "ended_calls = List.map_filter (\<lambda>a. case a of Emitted (ToolEnd i _ _ _ _ _) \<Rightarrow> Some i | _ \<Rightarrow> None)"

definition ended_messages :: "'c action list \<Rightarrow> 'c agent_message list" where
  "ended_messages = List.map_filter (\<lambda>a. case a of Emitted (MessageEnd m) \<Rightarrow> Some m | _ \<Rightarrow> None)"

definition executions :: "'c action list \<Rightarrow> (tool_call_block \<times> agent_tool \<times> json) list" where
  "executions = List.map_filter (\<lambda>a. case a of Executed c tool args \<Rightarrow> Some (c, tool, args) | _ \<Rightarrow> None)"

lemma map_filter_append: "List.map_filter f (xs @ ys) = List.map_filter f xs @ List.map_filter f ys"
  by (simp add: List.map_filter_def)

lemma mset_map_filter: "mset xs = mset ys \<Longrightarrow> mset (List.map_filter f xs) = mset (List.map_filter f ys)"
  by (simp add: List.map_filter_def)

lemmas trace_defs = started_calls_def ended_calls_def ended_messages_def executions_def

lemma trace_append [simp]:
  "started_calls (t @ u) = started_calls t @ started_calls u"
  "ended_calls (t @ u) = ended_calls t @ ended_calls u"
  "ended_messages (t @ u) = ended_messages t @ ended_messages u"
  "executions (t @ u) = executions t @ executions u"
  by (simp_all add: trace_defs map_filter_append)

lemma trace_Nil [simp]:
  "started_calls [] = []" "ended_calls [] = []" "ended_messages [] = []" "executions [] = []"
  by (simp_all add: trace_defs List.map_filter_simps)

lemma trace_Cons [simp]:
  "started_calls (start_event c # t) = call_id c # started_calls t"
  "started_calls (end_event fin # t) = started_calls t"
  "started_calls (Checked b # t) = started_calls t"
  "started_calls (Executed c tool args # t) = started_calls t"
  "started_calls (Emitted (MessageStart m) # t) = started_calls t"
  "started_calls (Emitted (MessageEnd m) # t) = started_calls t"
  "ended_calls (start_event c # t) = ended_calls t"
  "ended_calls (end_event fin # t) = call_id (outcome_call fin) # ended_calls t"
  "ended_calls (Checked b # t) = ended_calls t"
  "ended_calls (Executed c tool args # t) = ended_calls t"
  "ended_calls (Emitted (MessageStart m) # t) = ended_calls t"
  "ended_calls (Emitted (MessageEnd m) # t) = ended_calls t"
  "ended_messages (start_event c # t) = ended_messages t"
  "ended_messages (end_event fin # t) = ended_messages t"
  "ended_messages (Checked b # t) = ended_messages t"
  "ended_messages (Executed c tool args # t) = ended_messages t"
  "ended_messages (Emitted (MessageStart m) # t) = ended_messages t"
  "ended_messages (Emitted (MessageEnd m) # t) = m # ended_messages t"
  "executions (start_event c # t) = executions t"
  "executions (end_event fin # t) = executions t"
  "executions (Checked b # t) = executions t"
  "executions (Executed c tool args # t) = (c, tool, args) # executions t"
  "executions (Emitted e # t) = executions t"
  by (simp_all add: trace_defs start_event_def end_event_def List.map_filter_simps)

lemma trace_updates [simp]:
  "started_calls (map (update_event c) us) = []" "ended_calls (map (update_event c) us) = []"
  "ended_messages (map (update_event c) us) = []" "executions (map (update_event c) us) = []"
  by (induction us) (simp_all add: trace_defs update_event_def List.map_filter_simps)

text \<open>A call may run: its tool is there, its arguments passed the shim and the schema, and the hook left
  these arguments and did not block.\<close>

definition cleared ::
  "'w tool_config \<Rightarrow> agent_tool list \<Rightarrow> string option \<Rightarrow> tool_call_block \<Rightarrow> agent_tool \<Rightarrow> json \<Rightarrow> bool" where
  "cleared cf tools parent c tool args \<longleftrightarrow>
     find_agent_tool tools (call_name c) = Some tool \<and>
     (\<exists>checked. check_arguments cf tool c = Inr checked \<and>
        (case on_before cf of
           None \<Rightarrow> args = checked
         | Some before \<Rightarrow> \<exists>w answer.
             fst (before c checked parent w) = (Inr answer, args) \<and>
             \<not> (\<exists>r. answer = Some r \<and> block_call r)))"

definition only_checks :: "'c action list \<Rightarrow> bool" where
  "only_checks t \<longleftrightarrow> (\<forall>a \<in> set t. \<exists>b. a = Checked b)"

lemma only_checks_trace [simp]:
  assumes "only_checks t"
  shows "started_calls t = []" "ended_calls t = []" "ended_messages t = []" "executions t = []"
  using assms by (induction t) (auto simp: only_checks_def trace_defs List.map_filter_simps)

lemma yields_case_prod [yields_rules]:
  "(\<And>a b. p = (a, b) \<Longrightarrow> yields (f a b) R) \<Longrightarrow> yields (case p of (a, b) \<Rightarrow> f a b) R"
  by (cases p) simp

lemma only_checks_append [simp]: "only_checks (t @ u) \<longleftrightarrow> only_checks t \<and> only_checks u"
  by (auto simp: only_checks_def)

definition goes_on :: "bool \<Rightarrow> preparation option \<Rightarrow> 'c action list \<Rightarrow> bool" where
  "goes_on P early t \<longleftrightarrow> only_checks t \<and>
     (case early of None \<Rightarrow> Checked True \<notin> set t \<and> P | Some p \<Rightarrow> (\<exists>result. p = Immediate result True))"

lemma judge_yields:
  "yields (judge_call cf verdict)
     (goes_on (\<exists>answer. verdict = Inr answer \<and> \<not> (\<exists>r. answer = Some r \<and> block_call r)))"
proof (cases verdict)
  case (Inl e)
  then show ?thesis by (simp add: judge_call_def yields_return goes_on_def only_checks_def immediate_error_def)
next
  case (Inr answer)
  show ?thesis
    unfolding judge_call_def Inr sum.case
    by (intro yields_rules)
      (auto simp: goes_on_def only_checks_def operation_aborted_def immediate_error_def blocked_call_def split: option.split)
qed

lemma before_yields:
  assumes "find_agent_tool tools (call_name c) = Some tool" and "check_arguments cf tool c = Inr checked"
  shows "yields (call_before cf parent c checked)
     (\<lambda>r. goes_on (cleared cf tools parent c tool (snd r)) (fst r))"
proof (cases "on_before cf")
  case None
  with assms show ?thesis by (simp add: call_before_def yields_return goes_on_def only_checks_def cleared_def)
next
  case (Some before)
  show ?thesis
    unfolding call_before_def Some option.case
  proof (intro yields_bind yields_ask yields_case_prod, rule yields_mono [OF judge_yields], rule yields_return)
    fix w verdict args early and t :: "'c action list"
    assume w: "fst (before c checked parent w) = (verdict, args)"
    assume judged: "goes_on (\<exists>answer. verdict = Inr answer \<and> \<not> (\<exists>r. answer = Some r \<and> block_call r)) early t"
    have "cleared cf tools parent c tool args"
      if "\<exists>answer. verdict = Inr answer \<and> \<not> (\<exists>r. answer = Some r \<and> block_call r)"
    proof -
      from that w obtain answer where "fst (before c checked parent w) = (Inr answer, args)"
        "\<not> (\<exists>r. answer = Some r \<and> block_call r)" by blast
      with assms Some show ?thesis unfolding cleared_def by auto
    qed
    with judged show "goes_on (cleared cf tools parent c tool (snd (early, args))) (fst (early, args)) ([] @ t @ [])"
      by (simp add: goes_on_def split: option.splits)
  qed
qed

definition prepared_ok ::
  "'w tool_config \<Rightarrow> agent_tool list \<Rightarrow> string option \<Rightarrow> tool_call_block \<Rightarrow> preparation \<Rightarrow> 'c action list \<Rightarrow> bool" where
  "prepared_ok cf tools parent c p t \<longleftrightarrow> only_checks t \<and>
     (case p of
        Prepared tool args \<Rightarrow> Checked True \<notin> set t \<and> cleared cf tools parent c tool args
      | Immediate result error \<Rightarrow> error)"

lemma prepare_yields: "yields (prepare_tool_call cf tools parent c) (prepared_ok cf tools parent c)"
proof (cases "find_agent_tool tools (call_name c)")
  case None
  then show ?thesis
    by (simp add: prepare_tool_call_def yields_return prepared_ok_def only_checks_def immediate_error_def)
next
  case found: (Some tool)
  show ?thesis
  proof (cases "check_arguments cf tool c")
    case (Inl e)
    with found show ?thesis
      by (simp add: prepare_tool_call_def yields_return prepared_ok_def only_checks_def immediate_error_def)
  next
    case checked: (Inr checked)
    have clear: "goes_on (cleared cf tools parent c tool args) early t \<Longrightarrow>
        yields (clear_call cf tool early args) (\<lambda>p u. prepared_ok cf tools parent c p (t @ u))" for early args t
      by (cases early)
        (auto simp: clear_call_def goes_on_def prepared_ok_def only_checks_def operation_aborted_def immediate_error_def
          intro!: yields_rules)
    show ?thesis
      unfolding prepare_tool_call_def found checked option.case sum.case
      by (intro yields_bind, rule yields_mono [OF before_yields [OF found checked]])
        (auto intro!: yields_case_prod clear)
  qed
qed


section \<open>One call\<close>

definition may_run ::
  "'w tool_config \<Rightarrow> agent_tool list \<Rightarrow> (tool_call_block \<times> agent_tool \<times> json) \<Rightarrow> bool" where
  "may_run cf tools = (\<lambda>(c, tool, args). cleared cf tools None c tool args)"

text \<open>The trace \<open>t\<close> of entering a call and the events \<open>u\<close> of executing it.\<close>

definition one_call ::
  "'w tool_config \<Rightarrow> agent_tool list \<Rightarrow> tool_call_block \<Rightarrow> call_outcome \<Rightarrow> 'c action list \<Rightarrow> 'c action list \<Rightarrow> bool" where
  "one_call cf tools c fin t u \<longleftrightarrow>
     outcome_call fin = c \<and> started_calls t = [call_id c] \<and> started_calls u = [] \<and>
     ended_messages t = [] \<and> ended_messages u = [] \<and> ended_calls (t @ u) = [call_id c] \<and>
     map fst (executions (t @ u)) \<in> {[], [c]} \<and> list_all (may_run cf tools) (executions (t @ u))"

lemma outcome_call_simps [simp]:
  "outcome_call (unexecuted c result error) = c" "outcome_call (finalize_executed_tool_call c r) = c"
  by (simp_all add: unexecuted_def finalize_executed_tool_call_def split: prod.split)

lemma sequential_call_yields:
  "yields (run_sequential_call cf tools c) (\<lambda>fin t. one_call cf tools c fin t [end_event fin])"
proof -
  have prepared: "prepared_ok cf tools None c p t \<Longrightarrow>
      yields (case p of
          Immediate result error \<Rightarrow> State_Monad.return (unexecuted c result error)
        | Prepared tool args \<Rightarrow> do {
            r \<leftarrow> ask (on_execute cf c tool args);
            act (Executed c tool args);
            acts (map (update_event c) (concat (exec_updates r) @ exec_late r));
            State_Monad.return (finalize_executed_tool_call c r)
          })
        (\<lambda>fin u. one_call cf tools c fin ([start_event c] @ t @ u) [end_event fin])" for p t
    by (cases p)
      (auto simp: prepared_ok_def one_call_def may_run_def intro!: yields_rules)
  show ?thesis
    unfolding run_sequential_call_def
    by (intro yields_bind yields_act, rule yields_mono [OF prepare_yields], rule prepared)
qed

lemma trace_call_future [simp]:
  "future_value (call_future c tool args r) =
     (if exec_aborted_first r then unexecuted c (create_error_tool_result ''Operation aborted'') True
      else finalize_executed_tool_call c r)"
  "started_calls (future_events (call_future c tool args r)) = []"
  "ended_messages (future_events (call_future c tool args r)) = []"
  "ended_calls (future_events (call_future c tool args r)) = [call_id c]"
  "executions (future_events (call_future c tool args r)) =
     (if exec_aborted_first r then [] else [(c, tool, args)])"
proof -
  have quiet: "started_calls (concat (map (map (update_event c)) uss)) = []"
    "ended_calls (concat (map (map (update_event c)) uss)) = []"
    "ended_messages (concat (map (map (update_event c)) uss)) = []"
    "executions (concat (map (map (update_event c)) uss)) = []" for uss
    by (simp_all add: map_concat [symmetric])
  show "future_value (call_future c tool args r) =
     (if exec_aborted_first r then unexecuted c (create_error_tool_result ''Operation aborted'') True
      else finalize_executed_tool_call c r)"
    by (simp add: call_future_def Let_def split: list.split)
  show "started_calls (future_events (call_future c tool args r)) = []"
    "ended_messages (future_events (call_future c tool args r)) = []"
    "ended_calls (future_events (call_future c tool args r)) = [call_id c]"
    "executions (future_events (call_future c tool args r)) =
     (if exec_aborted_first r then [] else [(c, tool, args)])"
    by (cases "exec_updates r"; simp add: call_future_def Let_def future_events_def comp_def quiet)+
qed

lemma enter_call_yields:
  "yields (enter_call cf tools c) (\<lambda>f t. one_call cf tools c (future_value f) t (future_events f) \<and> executions t = [])"
proof -
  have prepared: "prepared_ok cf tools None c p t \<Longrightarrow>
      yields (case p of
          Immediate result error \<Rightarrow> do {
            act (end_event (unexecuted c result error));
            State_Monad.return (Future [] [] (unexecuted c result error))
          }
        | Prepared tool args \<Rightarrow> do {
            r \<leftarrow> ask (on_execute cf c tool args);
            State_Monad.return (call_future c tool args r)
          })
        (\<lambda>f u. one_call cf tools c (future_value f) ([start_event c] @ t @ u) (future_events f) \<and>
           executions ([start_event c] @ t @ u) = [])" for p t
    by (cases p)
      (auto simp: prepared_ok_def one_call_def may_run_def future_events_def [of "Future [] [] _"] intro!: yields_rules
        split: if_splits)
  show ?thesis
    unfolding enter_call_def
    by (intro yields_bind yields_act, rule yields_mono [OF prepare_yields], rule prepared)
qed

lemma answer_call_yields:
  "yields (answer_call cf fin) (\<lambda>m t. result_call m = call_id (outcome_call fin) \<and>
     t = [Emitted (MessageStart (LlmMessage (ToolResult m))), Emitted (MessageEnd (LlmMessage (ToolResult m)))])"
  unfolding answer_call_def emit_tool_result_message_def Let_def
  by (intro yields_rules) (simp add: create_tool_result_message_def Let_def)

section \<open>A batch answers its calls\<close>

text \<open>What the trace and the messages of a batch over \<open>cs\<close> are: the first \<open>n\<close> calls, all of them unless
  the signal was seen aborted, each started once, in order, ended once and answered by one message,
  in order; and each run at most once, if it may.\<close>

definition batch_ok ::
  "'w tool_config \<Rightarrow> agent_tool list \<Rightarrow> tool_call_block list \<Rightarrow> tool_result list \<Rightarrow> 'c action list \<Rightarrow> bool" where
  "batch_ok cf tools cs ms t \<longleftrightarrow>
     (\<exists>n \<le> length cs. (n = length cs \<or> 0 < n \<and> Checked True \<in> set t) \<and>
        map result_call ms = map call_id (take n cs) \<and>
        ended_messages t = map (\<lambda>m. LlmMessage (ToolResult m)) ms \<and>
        started_calls t = map call_id (take n cs) \<and>
        mset (ended_calls t) = mset (map call_id (take n cs)) \<and>
        mset (map fst (executions t)) \<subseteq># mset (take n cs) \<and>
        list_all (may_run cf tools) (executions t))"

lemma trace_message [simp]:
  "started_calls [Emitted (MessageStart m), Emitted (MessageEnd m')] = []"
  "ended_calls [Emitted (MessageStart m), Emitted (MessageEnd m')] = []"
  "ended_messages [Emitted (MessageStart m), Emitted (MessageEnd m')] = [m']"
  "executions [Emitted (MessageStart m), Emitted (MessageEnd m')] = []"
  by simp_all

lemma batch_ok_Nil: "batch_ok cf tools [] [] []"
  by (simp add: batch_ok_def)

lemma batch_ok_first:
  assumes "started_calls t = [call_id c]" and "mset (ended_calls t) = {#call_id c#}"
    and "map fst (executions t) \<in> {[], [c]}" and "list_all (may_run cf tools) (executions t)"
    and "result_call m = call_id c" and "ended_messages t = [LlmMessage (ToolResult m)]"
  shows "Checked True \<in> set t \<Longrightarrow> batch_ok cf tools (c # cs) [m] t"
    and "batch_ok cf tools cs ms u \<Longrightarrow> batch_ok cf tools (c # cs) (m # ms) (t @ u)"
proof -
  have runs: "mset (map fst (executions t)) \<subseteq># {#c#}" using assms(3) by auto
  show "Checked True \<in> set t \<Longrightarrow> batch_ok cf tools (c # cs) [m] t"
    unfolding batch_ok_def using assms runs by (intro exI [of _ 1]) simp
  assume "batch_ok cf tools cs ms u"
  then obtain n where n: "n \<le> length cs" "n = length cs \<or> 0 < n \<and> Checked True \<in> set u"
    "map result_call ms = map call_id (take n cs)"
    "ended_messages u = map (\<lambda>m. LlmMessage (ToolResult m)) ms" "started_calls u = map call_id (take n cs)"
    "mset (ended_calls u) = mset (map call_id (take n cs))"
    "mset (map fst (executions u)) \<subseteq># mset (take n cs)" "list_all (may_run cf tools) (executions u)"
    unfolding batch_ok_def by blast
  have "mset (map fst (executions t)) + mset (map fst (executions u)) \<subseteq># {#c#} + mset (take n cs)"
    using runs n(7) by (rule subset_mset.add_mono)
  with assms n show "batch_ok cf tools (c # cs) (m # ms) (t @ u)"
    unfolding batch_ok_def by (intro exI [of _ "Suc n"]) auto
qed

lemma sequential_yields:
  "yields (execute_tool_calls_sequential cf tools cs :: ('w, 'c, _) loop)
     (\<lambda>answers. batch_ok cf tools cs (map snd answers))"
proof (induction cs)
  case Nil
  then show ?case by (simp add: yields_return batch_ok_Nil)
next
  case (Cons c cs)
  have rest: "yields (if b then State_Monad.return [(fin, m)] else do {
        rest \<leftarrow> execute_tool_calls_sequential cf tools cs;
        State_Monad.return ((fin, m) # rest)
      }) (\<lambda>answers u. batch_ok cf tools (c # cs) (map snd answers) (t @ [end_event fin] @ v @ [Checked b] @ u))"
    if one: "one_call cf tools c fin t [end_event fin]" and m: "result_call m = call_id c"
      "v = [Emitted (MessageStart (LlmMessage (ToolResult m))), Emitted (MessageEnd (LlmMessage (ToolResult m)))]"
    for fin m b and t v :: "'c action list"
  proof -
    let ?t = "t @ [end_event fin] @ v @ [Checked b]"
    have first: "started_calls ?t = [call_id c]" "mset (ended_calls ?t) = {#call_id c#}"
      "map fst (executions ?t) \<in> {[], [c]}" "list_all (may_run cf tools) (executions ?t)"
      "result_call m = call_id c" "ended_messages ?t = [LlmMessage (ToolResult m)]"
      using one m by (simp_all add: one_call_def)
    note batch = batch_ok_first [OF first]
    show ?thesis
    proof (cases b)
      case True
      then show ?thesis using batch(1) [of cs] by (simp add: yields_return)
    next
      case False
      show ?thesis
        unfolding if_not_P [OF False]
        by (intro yields_bind, rule yields_mono [OF Cons.IH], rule yields_return) (use batch(2) in simp)
    qed
  qed
  show ?case
    unfolding execute_tool_calls_sequential.simps
    by (intro yields_bind, rule yields_mono [OF sequential_call_yields], intro yields_bind yields_act,
        rule yields_mono [OF answer_call_yields], intro yields_bind yields_is_aborted, rule rest)
      (auto simp: one_call_def)
qed

lemma answer_calls_yields:
  "yields (answer_calls cf fins) (\<lambda>ms t.
     map result_call ms = map (\<lambda>fin. call_id (outcome_call fin)) fins \<and>
     ended_messages t = map (\<lambda>m. LlmMessage (ToolResult m)) ms \<and>
     started_calls t = [] \<and> ended_calls t = [] \<and> executions t = [])"
proof (induction fins)
  case (Cons fin fins)
  show ?case
    unfolding answer_calls.simps
    by (intro yields_bind, rule yields_mono [OF answer_call_yields], intro yields_bind,
        rule yields_mono [OF Cons.IH], rule yields_return) simp
qed (simp add: yields_return)

lemma enter_calls_yields:
  "yields (enter_calls cf tools cs :: ('w, 'c, _) loop) (\<lambda>fs t. \<exists>n \<le> length cs.
     (n = length cs \<or> 0 < n \<and> Checked True \<in> set t) \<and>
     map (\<lambda>f. outcome_call (future_value f)) fs = take n cs \<and>
     started_calls t = map call_id (take n cs) \<and> ended_messages t = [] \<and>
     started_calls (concat (map future_events fs)) = [] \<and> ended_messages (concat (map future_events fs)) = [] \<and>
     mset (ended_calls t @ ended_calls (concat (map future_events fs))) = mset (map call_id (take n cs)) \<and>
     executions t = [] \<and> mset (map fst (executions (concat (map future_events fs)))) \<subseteq># mset (take n cs) \<and>
     list_all (may_run cf tools) (executions (concat (map future_events fs))))"
  (is "yields _ (?R cs)")
proof (induction cs)
  case Nil
  then show ?case by (simp add: yields_return)
next
  case (Cons c cs)
  have rest: "yields (if b then State_Monad.return [f] else do {
        fs \<leftarrow> enter_calls cf tools cs;
        State_Monad.return (f # fs)
      }) (\<lambda>fs u. ?R (c # cs) fs (t @ [Checked b] @ u))"
    if one: "one_call cf tools c (future_value f) t (future_events f) \<and> executions t = []" for f b and t :: "'c action list"
  proof -
    have runs: "mset (map fst (executions (future_events f))) \<subseteq># {#c#}"
      using one by (auto simp: one_call_def)
    have ends: "mset (ended_calls t) + mset (ended_calls (future_events f)) = {#call_id c#}"
      using one by (simp add: one_call_def flip: mset_append)
    show ?thesis
    proof (cases b)
      case True
      have "?R (c # cs) [f] (t @ [Checked b] @ [])"
        using one runs ends True by (intro exI [of _ 1]) (simp add: one_call_def)
      with True show ?thesis by (simp add: yields_return)
    next
      case False
      have "?R (c # cs) (f # fs) (t @ [Checked b] @ u @ [])" if "?R cs fs u" for fs u
      proof -
        from that obtain n where n: "n \<le> length cs" "n = length cs \<or> 0 < n \<and> Checked True \<in> set u"
          "map (\<lambda>f. outcome_call (future_value f)) fs = take n cs"
          "started_calls u = map call_id (take n cs)" "ended_messages u = []"
          "started_calls (concat (map future_events fs)) = []" "ended_messages (concat (map future_events fs)) = []"
          "mset (ended_calls u @ ended_calls (concat (map future_events fs))) = mset (map call_id (take n cs))"
          "executions u = []" "mset (map fst (executions (concat (map future_events fs)))) \<subseteq># mset (take n cs)"
          "list_all (may_run cf tools) (executions (concat (map future_events fs)))" by blast
        have "mset (map fst (executions (future_events f))) + mset (map fst (executions (concat (map future_events fs)))) \<subseteq>#
            {#c#} + mset (take n cs)"
          using runs n(10) by (rule subset_mset.add_mono)
        moreover have "mset (ended_calls t) + mset (ended_calls (future_events f)) +
            (mset (ended_calls u) + mset (ended_calls (concat (map future_events fs)))) =
            {#call_id c#} + mset (map call_id (take n cs))"
          unfolding ends using n(8) by simp
        ultimately show ?thesis
          using one n by (intro exI [of _ "Suc n"]) (auto simp: one_call_def ac_simps)
      qed
      then show ?thesis
        unfolding if_not_P [OF False]
        by (intro yields_bind, intro yields_mono [OF Cons.IH] yields_return) blast
    qed
  qed
  show ?case
    unfolding enter_calls.simps
    by (intro yields_bind, rule yields_mono [OF enter_call_yields], intro yields_bind yields_is_aborted, rule rest)
qed

lemma read_limit: "map_option nonzero_get (max_concurrent_read_tools cf) \<noteq> Some 0"
  by (cases "max_concurrent_read_tools cf"; cases "the (max_concurrent_read_tools cf)") auto

lemma parallel_yields:
  "yields (execute_tool_calls_parallel cf tools cs :: ('w, 'c, _) loop) (\<lambda>batch. batch_ok cf tools cs (fst batch))"
proof -
  note limit = read_limit
  show ?thesis
    unfolding execute_tool_calls_parallel_def
  proof (intro yields_bind, rule yields_mono [OF enter_calls_yields])
    fix fs :: "('c action, call_outcome) future list" and t :: "'c action list"
    let ?u = "concat (map future_events fs)"
    assume "\<exists>n \<le> length cs.
       (n = length cs \<or> 0 < n \<and> Checked True \<in> set t) \<and>
       map (\<lambda>f. outcome_call (future_value f)) fs = take n cs \<and>
       started_calls t = map call_id (take n cs) \<and> ended_messages t = [] \<and>
       started_calls ?u = [] \<and> ended_messages ?u = [] \<and>
       mset (ended_calls t @ ended_calls ?u) = mset (map call_id (take n cs)) \<and>
       executions t = [] \<and> mset (map fst (executions ?u)) \<subseteq># mset (take n cs) \<and>
       list_all (may_run cf tools) (executions ?u)"
    then obtain n where n: "n \<le> length cs" "n = length cs \<or> 0 < n \<and> Checked True \<in> set t"
      "map (\<lambda>f. outcome_call (future_value f)) fs = take n cs"
      "started_calls t = map call_id (take n cs)" "ended_messages t = []"
      "started_calls ?u = []" "ended_messages ?u = []"
      "mset (ended_calls t @ ended_calls ?u) = mset (map call_id (take n cs))"
      "executions t = []" "mset (map fst (executions ?u)) \<subseteq># mset (take n cs)"
      "list_all (may_run cf tools) (executions ?u)" by blast
    obtain ps where ps: "join_all (map_option nonzero_get (max_concurrent_read_tools cf)) fs = Some (map future_value fs, ps)"
      "well_joined (map_option nonzero_get (max_concurrent_read_tools cf)) fs ps"
      using join_all_returns [OF limit] by blast
    note same = mset_map_filter [OF joined_events [OF ps(2)]]
    have "mset (started_calls (poll_events ps)) = {#}" "mset (ended_messages (poll_events ps)) = {#}"
      unfolding started_calls_def ended_messages_def same using n(6,7) by (simp_all add: trace_defs)
    moreover have ends: "mset (ended_calls (poll_events ps)) = mset (ended_calls ?u)"
      and runs: "mset (executions (poll_events ps)) = mset (executions ?u)"
      unfolding ended_calls_def executions_def same by simp_all
    moreover have "mset (map fst (executions (poll_events ps))) \<subseteq># mset (take n cs)"
      using n(10) runs by (metis mset_map)
    moreover have "list_all (may_run cf tools) (executions (poll_events ps))"
      using n(11) mset_eq_setD [OF runs] by (simp add: list_all_iff)
    moreover have ids: "map (\<lambda>fin. call_id (outcome_call fin)) (map future_value fs) = map call_id (take n cs)"
      using arg_cong [OF n(3), of "map call_id"] by (simp add: comp_def)
    ultimately have "batch_ok cf tools cs ms (t @ poll_events ps @ v)"
      if "map result_call ms = map (\<lambda>fin. call_id (outcome_call fin)) (map future_value fs)"
        "ended_messages v = map (\<lambda>m. LlmMessage (ToolResult m)) ms"
        "started_calls v = []" "ended_calls v = []" "executions v = []" for ms v
      using that n unfolding batch_ok_def by (intro exI [of _ n]) auto
    then show "yields (case join_all (map_option nonzero_get (max_concurrent_read_tools cf)) fs of
          Some (fins, ps) \<Rightarrow> do {
            acts (poll_events ps);
            ms \<leftarrow> answer_calls cf fins;
            State_Monad.return (ms, should_terminate_tool_batch fins)
          }
        | None \<Rightarrow> State_Monad.return ([], False)) (\<lambda>batch u. batch_ok cf tools cs (fst batch) (t @ u))"
      unfolding ps(1) option.case prod.case
      by (intro yields_bind yields_acts, intro yields_mono [OF answer_calls_yields] yields_return) simp
  qed
qed


lemma truncated_yields:
  "yields (fail_truncated_calls cf cs :: ('w, 'c, _) loop) (\<lambda>ms t. batch_ok cf tools cs ms t \<and> executions t = [])"
proof (induction cs)
  case Nil
  then show ?case by (simp add: yields_return batch_ok_Nil)
next
  case (Cons c cs)
  let ?fin = "unexecuted c (create_error_tool_result (truncated_text (call_name c))) True"
  have first: "batch_ok cf tools (c # cs) (m # ms) ([start_event c] @ [end_event ?fin] @ v @ u @ []) \<and>
      executions ([start_event c] @ [end_event ?fin] @ v @ u @ []) = []"
    if "batch_ok cf tools cs ms u \<and> executions u = []" "result_call m = call_id (outcome_call ?fin)"
      "v = [Emitted (MessageStart (LlmMessage (ToolResult m))), Emitted (MessageEnd (LlmMessage (ToolResult m)))]"
    for m ms and v u :: "'c action list"
    using batch_ok_first(2) [of "[start_event c] @ [end_event ?fin] @ v" c cf tools m cs ms u] that by simp
  show ?case
    unfolding fail_truncated_calls.simps Let_def
    by (intro yields_bind yields_act, rule yields_mono [OF answer_call_yields], intro yields_bind,
        rule yields_mono [OF Cons.IH], rule yields_return, rule first) auto
qed

text \<open>C1. Whatever the model, the tools, the hooks and the other tasks do, the tool calls of an assistant
  message are answered in its order, by one result message each, all of them unless the run was
  seen to be cancelled, and then a first part of them. Each answered call starts once, in that
  order, and ends once. A tool's code runs at most once for each, and only when the tool is in the
  context, its arguments passed the shim and the schema, and the hook left exactly these arguments
  without blocking. A response cut at the token limit runs none of its calls and never ends the run.\<close>

theorem tool_batch_exact:
  "yields (run_tool_batch cf tools m) (\<lambda>(ms, terminate) t.
     batch_ok cf tools (tool_calls m) ms t \<and>
     (if stop_reason m = Length then executions t = [] \<and> \<not> terminate else True))"
proof (cases "stop_reason m = Length")
  case True
  then show ?thesis
    unfolding run_tool_batch_def if_P [OF True]
    by (intro yields_bind, intro yields_mono [OF truncated_yields] yields_return) simp
next
  case False
  have "yields (execute_tool_calls cf tools cs) (\<lambda>batch. batch_ok cf tools cs (fst batch))" for cs
    unfolding execute_tool_calls_def
    by (auto intro!: parallel_yields yields_bind yields_mono [OF sequential_yields] yields_return)
  from this [of "tool_calls m"] show ?thesis
    unfolding run_tool_batch_def if_not_P [OF False] by (rule yields_mono) (simp add: case_prod_beta)
qed

section \<open>The schedule of a batch does not change its answers\<close>

text \<open>Callbacks that answer the same in every world, and a signal that is never aborted.\<close>

definition steady :: "'w tool_config \<Rightarrow> bool" where
  "steady cf \<longleftrightarrow>
     (\<forall>w. \<not> fst (on_aborted cf w)) \<and> (\<exists>now. \<forall>w. fst (on_now cf w) = now) \<and>
     (case on_before cf of
        None \<Rightarrow> True
      | Some before \<Rightarrow> \<forall>c args parent. \<exists>answer. \<forall>w. fst (before c args parent w) = answer) \<and>
     (\<forall>c tool args. \<exists>r. \<not> exec_aborted_first r \<and> (\<forall>w. fst (on_execute cf c tool args w) = r))"

definition steadily :: "('w, 'c, 'a) loop \<Rightarrow> bool" where
  "steadily m \<longleftrightarrow> (\<exists>v. yields m (\<lambda>a t. a = v))"

lemma steadily_ask: "(\<And>w. fst (f w) = v) \<Longrightarrow> steadily (ask f)"
  unfolding steadily_def by (intro exI [of _ v] yields_ask) simp

lemma steadily_bind: "steadily m \<Longrightarrow> (\<And>a. steadily (f a)) \<Longrightarrow> steadily (State_Monad.bind m f)"
proof -
  assume "steadily m" and f: "\<And>a. steadily (f a)"
  then obtain v where v: "yields m (\<lambda>a t. a = v)" unfolding steadily_def by blast
  from f [of v] obtain u where "yields (f v) (\<lambda>a t. a = u)" unfolding steadily_def by blast
  then have "yields (State_Monad.bind m f) (\<lambda>a t. a = u)"
    by (intro yields_bind yields_mono [OF v]) simp
  then show ?thesis unfolding steadily_def by blast
qed

lemma steadily_unit: "steadily (State_Monad.return a)" "steadily (act b)" "steadily (acts as)"
  unfolding steadily_def by (intro exI yields_rules, simp)+

lemmas steadily_intros = steadily_bind steadily_unit

lemma steadily_aborted: "steady cf \<Longrightarrow> steadily (is_aborted (on_aborted cf))"
  unfolding is_aborted_def by (intro steadily_intros steadily_ask [of _ False]) (simp add: steady_def)

lemma steadily_prepare: "steady cf \<Longrightarrow> steadily (prepare_tool_call cf tools parent c)"
proof -
  assume steady: "steady cf"
  have judge: "steadily (judge_call cf verdict)" for verdict
    by (cases verdict) (auto simp: judge_call_def intro!: steadily_intros steadily_aborted steady)
  have before: "steadily (call_before cf parent c args)" for args
  proof (cases "on_before cf")
    case None
    then show ?thesis by (simp add: call_before_def steadily_unit)
  next
    case (Some before)
    with steady obtain answer where "\<And>w. fst (before c args parent w) = answer" unfolding steady_def by fastforce
    then have "steadily (ask (before c args parent))" by (rule steadily_ask)
    with Some judge show ?thesis
      by (auto simp: call_before_def split: prod.split intro!: steadily_intros)
  qed
  have "steadily (clear_call cf tool early args)" for tool early args
    by (cases early) (auto simp: clear_call_def intro!: steadily_intros steadily_aborted steady)
  with before show ?thesis
    by (auto simp: prepare_tool_call_def split: option.split sum.split prod.split intro!: steadily_intros)
qed

lemma yields_aborted_never:
  "steady cf \<Longrightarrow> R False [Checked False] \<Longrightarrow> yields (is_aborted (on_aborted cf)) R"
  unfolding is_aborted_def by (intro yields_rules) (simp add: steady_def)

text \<open>The mode and the bound choose a schedule, nothing else.\<close>

definition rescheduled :: "tool_execution_mode \<Rightarrow> nonzero option \<Rightarrow> 'w tool_config \<Rightarrow> 'w tool_config" where
  "rescheduled mode bound cf = cf\<lparr>tool_execution := mode, max_concurrent_read_tools := bound\<rparr>"

lemma rescheduled_simps:
  "on_aborted (rescheduled mode bound cf) = on_aborted cf" "on_now (rescheduled mode bound cf) = on_now cf"
  "on_execute (rescheduled mode bound cf) = on_execute cf" "cost_add (rescheduled mode bound cf) = cost_add cf"
  by (simp_all add: rescheduled_def)

lemma rescheduled_parts:
  "check_arguments (rescheduled mode bound cf) = check_arguments cf"
  "clear_call (rescheduled mode bound cf) = clear_call cf"
  "call_before (rescheduled mode bound cf) = call_before cf"
  by (intro ext; simp add: check_arguments_def clear_call_def call_before_def judge_call_def rescheduled_def
      cong: option.case_cong sum.case_cong)+

lemma rescheduled_prepare: "prepare_tool_call (rescheduled mode bound cf) = prepare_tool_call cf"
  by (intro ext) (simp add: prepare_tool_call_def rescheduled_parts cong: option.case_cong sum.case_cong)

lemma rescheduled_calls:
  "execute_tool_calls_sequential (rescheduled mode bound cf) tools cs = execute_tool_calls_sequential cf tools cs"
  "enter_calls (rescheduled mode bound cf) tools cs = enter_calls cf tools cs"
  "answer_calls (rescheduled mode bound cf) fins = answer_calls cf fins"
proof -
  have one: "run_sequential_call (rescheduled mode bound cf) tools = run_sequential_call cf tools"
    "enter_call (rescheduled mode bound cf) tools = enter_call cf tools"
    "answer_call (rescheduled mode bound cf) = answer_call cf"
    by (intro ext; simp add: run_sequential_call_def enter_call_def answer_call_def rescheduled_prepare rescheduled_simps
        cong: preparation.case_cong)+
  show "execute_tool_calls_sequential (rescheduled mode bound cf) tools cs = execute_tool_calls_sequential cf tools cs"
    by (induction cs) (simp_all add: one rescheduled_simps cong: if_cong)
  show "enter_calls (rescheduled mode bound cf) tools cs = enter_calls cf tools cs"
    by (induction cs) (simp_all add: one rescheduled_simps cong: if_cong)
  show "answer_calls (rescheduled mode bound cf) fins = answer_calls cf fins"
    by (induction fins) (simp_all add: one)
qed

lemma steady_batches:
  fixes cf :: "'w tool_config"
  assumes "steady cf"
  shows "\<exists>F M. (\<forall>cs. yields (execute_tool_calls_sequential cf tools cs :: ('w, 'c, _) loop)
        (\<lambda>answers t. answers = map (\<lambda>c. (F c, M c)) cs)) \<and>
      (\<forall>mode bound cs. yields (execute_tool_calls_parallel (rescheduled mode bound cf) tools cs :: ('w, 'c, _) loop)
        (\<lambda>batch t. batch = (map M cs, should_terminate_tool_batch (map F cs))))"
proof -
  have "\<forall>c. \<exists>p. yields (prepare_tool_call cf tools None c :: ('w, 'c, _) loop) (\<lambda>a t. a = p)"
    using steadily_prepare [OF assms] unfolding steadily_def by blast
  then obtain P where P: "\<And>c. yields (prepare_tool_call cf tools None c :: ('w, 'c, _) loop) (\<lambda>a t. a = P c)" by metis
  have "\<forall>c tool args. \<exists>r. \<not> exec_aborted_first r \<and> (\<forall>w. fst (on_execute cf c tool args w) = r)"
    using assms by (simp add: steady_def)
  then obtain E where E: "\<And>c tool args. \<not> exec_aborted_first (E c tool args)"
    "\<And>c tool args w. fst (on_execute cf c tool args w) = E c tool args" by metis
  obtain now where now: "\<And>w. fst (on_now cf w) = now" using assms unfolding steady_def by blast
  define F where "F c = (case P c of Immediate result error \<Rightarrow> unexecuted c result error
      | Prepared tool args \<Rightarrow> finalize_executed_tool_call c (E c tool args))" for c
  define M where "M c = create_tool_result_message (cost_add cf) now (F c)" for c
  have answer: "yields (answer_call cf fin :: ('w, 'c, _) loop) (\<lambda>m t. m = create_tool_result_message (cost_add cf) now fin)" for fin
    unfolding answer_call_def emit_tool_result_message_def Let_def by (intro yields_rules) (simp add: now)
  have one: "yields (run_sequential_call cf tools c :: ('w, 'c, _) loop) (\<lambda>fin t. fin = F c)" for c
    unfolding run_sequential_call_def
    by (intro yields_bind yields_act, intro yields_mono [OF P])
      (auto simp: F_def E split: preparation.split intro!: yields_rules)
  have sequential: "yields (execute_tool_calls_sequential cf tools cs :: ('w, 'c, _) loop)
      (\<lambda>answers t. answers = map (\<lambda>c. (F c, M c)) cs)" for cs
  proof (induction cs)
    case (Cons c cs)
    show ?case
      unfolding execute_tool_calls_sequential.simps
      by (intro yields_bind, rule yields_mono [OF one], intro yields_bind yields_act,
          rule yields_mono [OF answer], intro yields_bind yields_aborted_never assms)
        (auto simp: M_def intro!: yields_bind yields_mono [OF Cons.IH] yields_return)
  qed (simp add: yields_return)
  have entry: "yields (enter_call cf tools c :: ('w, 'c, _) loop) (\<lambda>f t. future_value f = F c)" for c
    unfolding enter_call_def
    by (intro yields_bind yields_act, intro yields_mono [OF P])
      (auto simp: F_def E split: preparation.split intro!: yields_rules)
  have entries: "yields (enter_calls cf tools cs :: ('w, 'c, _) loop) (\<lambda>fs t. map future_value fs = map F cs)" for cs
  proof (induction cs)
    case (Cons c cs)
    show ?case
      unfolding enter_calls.simps
      by (intro yields_bind, rule yields_mono [OF entry], intro yields_bind yields_aborted_never assms)
        (auto intro!: yields_bind yields_mono [OF Cons.IH] yields_return)
  qed (simp add: yields_return)
  have answers: "yields (answer_calls cf fins :: ('w, 'c, _) loop)
      (\<lambda>ms t. ms = map (create_tool_result_message (cost_add cf) now) fins)" for fins
  proof (induction fins)
    case (Cons fin fins)
    show ?case
      unfolding answer_calls.simps
      by (intro yields_bind, rule yields_mono [OF answer]) (auto intro!: yields_bind yields_mono [OF Cons.IH] yields_return)
  qed (simp add: yields_return)
  have "yields (execute_tool_calls_parallel (rescheduled mode bound cf) tools cs :: ('w, 'c, _) loop)
      (\<lambda>batch t. batch = (map M cs, should_terminate_tool_batch (map F cs)))" for mode bound cs
    unfolding execute_tool_calls_parallel_def rescheduled_calls
  proof (intro yields_bind, rule yields_mono [OF entries])
    fix fs :: "('c action, call_outcome) future list" and t :: "'c action list"
    assume fs: "map future_value fs = map F cs"
    obtain ps where "join_all (map_option nonzero_get (max_concurrent_read_tools (rescheduled mode bound cf))) fs =
        Some (map F cs, ps)"
      using join_all_returns [OF read_limit, of "rescheduled mode bound cf" fs] fs by auto
    then show "yields (case join_all (map_option nonzero_get (max_concurrent_read_tools (rescheduled mode bound cf))) fs of
          Some (fins, ps) \<Rightarrow> do {
            acts (poll_events ps);
            ms \<leftarrow> answer_calls cf fins;
            State_Monad.return (ms, should_terminate_tool_batch fins)
          }
        | None \<Rightarrow> State_Monad.return ([], False)) (\<lambda>batch u. batch = (map M cs, should_terminate_tool_batch (map F cs)))"
      by (auto simp: M_def intro!: yields_bind yields_acts yields_mono [OF answers] yields_return)
  qed
  with sequential show ?thesis by blast
qed

lemma yields_value: "yields m (\<lambda>a t. a = v) \<Longrightarrow> fst (run_state m s) = v"
  by (auto simp: yields_def)

text \<open>C18. Running the calls of a message one at a time, together, or together under a bound gives the same
  result messages in the same order, and the same decision to end the run, where tools, hooks and
  clock answer the same whenever they are asked and the run is not cancelled.\<close>

theorem schedule_keeps_answers:
  fixes cf :: "'w tool_config" and s s' :: "('w, 'c) io"
  assumes "steady cf"
  shows "fst (run_state (execute_tool_calls (rescheduled mode bound cf) tools cs) s) =
     fst (run_state (execute_tool_calls cf tools cs) s')"
proof -
  obtain F M where F: "\<And>cs. yields (execute_tool_calls_sequential cf tools cs :: ('w, 'c, _) loop)
        (\<lambda>answers t. answers = map (\<lambda>c. (F c, M c)) cs)"
      "\<And>mode bound cs. yields (execute_tool_calls_parallel (rescheduled mode bound cf) tools cs :: ('w, 'c, _) loop)
        (\<lambda>batch t. batch = (map M cs, should_terminate_tool_batch (map F cs)))"
    using steady_batches [OF assms, of tools] by blast
  have either: "yields (execute_tool_calls (rescheduled mode bound cf) tools cs :: ('w, 'c, _) loop)
      (\<lambda>batch t. batch = (map M cs, should_terminate_tool_batch (map F cs)))" for mode bound
    unfolding execute_tool_calls_def rescheduled_calls
    by (auto intro!: F(2) yields_bind yields_mono [OF F(1)] yields_return simp: comp_def)
  have "rescheduled (tool_execution cf) (max_concurrent_read_tools cf) cf = cf" by (simp add: rescheduled_def)
  with yields_value [OF either] show ?thesis by metis
qed


section \<open>Application\<close>

text \<open>A tool that echoes its call id, two calls of it, and the world of nothing.\<close>

definition echo_tool :: agent_tool where
  "echo_tool = agent_tool_new ''echo'' ''Echo'' [] JNull"

definition echo_call :: "string \<Rightarrow> tool_call_block" where
  "echo_call i = \<lparr>call_id = i, call_name = ''echo'', call_arguments = [], thought_signature = None,
     call_namespace = None\<rparr>"

definition echo_run :: "tool_call_block \<Rightarrow> call_run" where
  "echo_run c =
     \<lparr>exec_aborted_first = False, exec_updates = [[]], exec_late = [], exec_outcome = Inr (tool_output_text (call_id c)),
      exec_duration = 1, exec_nested = None, exec_after = None\<rparr>"

definition echo_config :: "unit tool_config" where
  "echo_config =
     \<lparr>validate = (\<lambda>_ _ args. Inr args), on_before = None, on_execute = (\<lambda>c _ _ w. (echo_run c, w)),
      on_aborted = (\<lambda>w. (False, w)), on_now = (\<lambda>w. (7, w)), tool_execution = ParallelTools,
      max_concurrent_read_tools = None, cost_add = (\<lambda>a b. a)\<rparr>"

lemma steady_echo: "steady echo_config"
  by (auto simp: steady_def echo_config_def echo_run_def)

lemma schedule_keeps_answers_witness:
  "fst (run_state (execute_tool_calls (rescheduled SequentialTools (Some (NonZero 1)) echo_config) [echo_tool]
       [echo_call ''a'', echo_call ''b'']) \<lparr>world = (), trace = [] :: unit action list\<rparr>) =
   fst (run_state (execute_tool_calls echo_config [echo_tool]
       [echo_call ''a'', echo_call ''b'']) \<lparr>world = (), trace = [] :: unit action list\<rparr>)"
  by (rule schedule_keeps_answers [OF steady_echo])

end
