(* ===== verification/AgentLoop.thy ===== *)
theory AgentLoop
  imports AgentTools
begin

text \<open>
  The agent loop (\<open>bake-agent/src/agent_loop.rs\<close>): turns of one model request and its tool calls,
  the declaration of the tool loadout, the forwarding of a streamed response, the hooks between
  turns, steering and follow-up messages, and the ends of a run. The number of turns is not bounded
  by the code: \<open>run_turns\<close> counts them down from its argument and gives \<open>None\<close> when it is used up.
\<close>

section \<open>Errors and preconditions\<close>

datatype loop_error =
    NoMessages
  | ContinueFromAssistant
  | NoStreamFn
  | StreamFailed string
  | StoppedBy run_outcome

fun loop_error_text :: "loop_error \<Rightarrow> string" where
  "loop_error_text NoMessages = ''Cannot continue: no messages in context''"
| "loop_error_text ContinueFromAssistant = ''Cannot continue from message role: assistant''"
| "loop_error_text NoStreamFn =
     ''No default stream function configured. Pass streamFn explicitly or call setDefaultStreamFn().''"
| "loop_error_text (StreamFailed t) = t"
| "loop_error_text (StoppedBy r) = outcome_display r"

definition check_continuable :: "'c agent_context \<Rightarrow> (loop_error, unit) result" where
  "check_continuable ctx =
     (if ctx_messages ctx = [] then Inl NoMessages
      else if agent_assistant (last (ctx_messages ctx)) \<noteq> None then Inl ContinueFromAssistant
      else Inr ())"

section \<open>Tool loadout changes\<close>

definition with_tool_changes :: "system_message \<Rightarrow> tool list \<Rightarrow> string list \<Rightarrow> system_message" where
  "with_tool_changes m added removed =
     m\<lparr>tools_added := (if added = [] then None else Some added),
       tools_removed := (if removed = [] then None else Some removed)\<rparr>"

definition agent_systems :: "'c agent_message list \<Rightarrow> system_message list" where
  "agent_systems ms = List.map_filter agent_system ms"

definition declare_tool_changes ::
  "(tool \<Rightarrow> string) \<Rightarrow> int \<Rightarrow> 'c agent_context \<Rightarrow> 'c agent_message list \<Rightarrow> 'c agent_message list" where
  "declare_tool_changes print now ctx queued =
     (let executable = map tool_declaration (ctx_tools ctx);
          changes = (\<lambda>baseline. get_tool_state_changes print
            (get_current_tools (map System (agent_systems (ctx_messages ctx @ baseline)))) executable) in
      (case rposition (\<lambda>m. agent_system m \<noteq> None) queued of
         Some i \<Rightarrow>
           (let m = the (agent_system (queued ! i));
                baseline = queued[i := LlmMessage (System (with_tool_changes m [] []))];
                (added, removed) = changes baseline
            in if added = [] \<and> removed = [] \<and> some_list (tools_added m) = [] \<and> some_list (tools_removed m) = []
               then queued
               else baseline[i := LlmMessage (System (with_tool_changes m added removed))])
       | None \<Rightarrow>
           (let (added, removed) = changes queued in
            if added = [] \<and> removed = [] then queued
            else (let update = with_tool_changes \<lparr>system_body = SystemText [], system_sections = None,
                        tools_added = None, tools_removed = None, system_timestamp = now\<rparr> added removed;
                      i = length (takeWhile (\<lambda>m. agent_system m \<noteq> None) queued)
                  in take i queued @ [LlmMessage (System update)] @ drop i queued))))"

section \<open>The configuration and the run\<close>

datatype turn_decision = ContinueTurn | EndTurn

record 'c turn_update =
  turn_context :: "'c agent_context option"
  turn_messages :: "'c agent_message list"
  turn_model :: "target_model option"
  turn_level :: "model_thinking_level option"

record 'c request_update =
  request_context :: "'c agent_context option"
  request_model :: "target_model option"
  request_level :: "model_thinking_level option"

text \<open>The run control a caller may share: whether it has stopped, and the admission of a request.\<close>

record 'w run_gate =
  gate_stopped :: "'w \<Rightarrow> run_outcome option \<times> 'w"
  gate_admit :: "target_model \<Rightarrow> 'w \<Rightarrow> run_outcome option \<times> 'w"

type_synonym ('c, 'r) turn_hook =
  "assistant_message \<Rightarrow> tool_result list \<Rightarrow> 'c agent_context \<Rightarrow> 'c agent_message list \<Rightarrow> 'r"

text \<open>A stream function gives the events up to the final one, and the final message, or fails.\<close>

record ('w, 'c) agent_config =
  cf_tools :: "'w tool_config"
  cf_print :: "tool \<Rightarrow> string"
  cf_model :: target_model
  cf_reasoning :: "thinking_level option"
  cf_key :: "string option"
  on_transform :: "('c agent_message list \<Rightarrow> 'w \<Rightarrow> 'c agent_message list \<times> 'w) option"
  on_convert :: "'c agent_message list \<Rightarrow> 'w \<Rightarrow> message list \<times> 'w"
  on_key :: "(string \<Rightarrow> 'w \<Rightarrow> string option \<times> 'w) option"
  on_stream :: "('c request_made \<Rightarrow> 'w \<Rightarrow>
     (string, stream_event list \<times> assistant_message option) result \<times> 'w) option"
  on_finish :: "('c, 'w \<Rightarrow> turn_decision option \<times> 'w) turn_hook option"
  on_prepare_turn :: "('c, 'w \<Rightarrow> 'c turn_update option \<times> 'w) turn_hook option"
  on_prepare_request :: "('c agent_context \<Rightarrow> target_model \<Rightarrow> model_thinking_level \<Rightarrow> 'w \<Rightarrow>
     'c request_update option \<times> 'w) option"
  on_steering :: "('w \<Rightarrow> 'c agent_message list \<times> 'w) option"
  on_follow_up :: "('w \<Rightarrow> 'c agent_message list \<times> 'w) option"
  on_control :: "'w run_gate option"

record 'c agent_run =
  run_context :: "'c agent_context"
  run_new :: "'c agent_message list"
  run_model :: target_model
  run_reasoning :: "thinking_level option"
  run_last :: "(assistant_message \<times> tool_result list) option"
  run_explicit :: bool
  run_pending :: "'c agent_message list"
  run_more :: bool

definition thinking_level_of :: "thinking_level option \<Rightarrow> model_thinking_level" where
  "thinking_level_of r = (case r of None \<Rightarrow> Off | Some l \<Rightarrow> from_level l)"

definition poll_messages :: "('w \<Rightarrow> 'c agent_message list \<times> 'w) option \<Rightarrow> ('w, 'c, 'c agent_message list) loop" where
  "poll_messages source = (case source of None \<Rightarrow> State_Monad.return [] | Some f \<Rightarrow> ask f)"

fun emit_messages :: "'c agent_message list \<Rightarrow> ('w, 'c, unit) loop" where
  "emit_messages [] = State_Monad.return ()"
| "emit_messages (m # ms) = do {
     emit (MessageStart m);
     emit (MessageEnd m);
     emit_messages ms
   }"

definition append_messages ::
  "('w, 'c) agent_config \<Rightarrow> 'c agent_message list \<Rightarrow> 'c agent_run \<Rightarrow> ('w, 'c, 'c agent_run) loop" where
  "append_messages cf queued r = do {
     now \<leftarrow> ask (on_now (cf_tools cf));
     let ms = declare_tool_changes (cf_print cf) now (run_context r) queued;
     emit_messages ms;
     State_Monad.return (r\<lparr>run_context := (run_context r)\<lparr>ctx_messages := ctx_messages (run_context r) @ ms\<rparr>,
       run_new := run_new r @ ms\<rparr>)
   }"

section \<open>One model request\<close>

definition zero_usage :: usage where
  "zero_usage =
     \<lparr>usage_input = 0, usage_output = 0, usage_cache_read = 0, usage_cache_write = 0, usage_cache_write_1h = None,
      usage_reasoning = None, usage_total = 0,
      usage_cost = \<lparr>cost_input = 0, cost_output = 0, cost_cache_read = 0, cost_cache_write = 0, cost_total = 0\<rparr>\<rparr>"

definition pending_message :: "int \<Rightarrow> target_model \<Rightarrow> assistant_message" where
  "pending_message now model =
     \<lparr>blocks = [], made_api = target_api model, made_provider = target_provider model, made_model = target_id model,
      response_model = None, response_id = None, provider_thinking_level = None, asked_thinking_level = None,
      diagnostics = None, made_usage = zero_usage, stop_reason = Pending, made_deferred = None, error_message = None,
      raw_stop_reason = None, end_turn = None, made_timestamp = now, made_duration = None\<rparr>"

definition no_result_message :: "int \<Rightarrow> target_model \<Rightarrow> assistant_message" where
  "no_result_message now model =
     (pending_message now model)
       \<lparr>stop_reason := ErrorStop, error_message := Some ''The stream ended without a final message''\<rparr>"

abbreviation assistant :: "assistant_message \<Rightarrow> 'c agent_message" where
  "assistant m \<equiv> LlmMessage (Assistant m)"

text \<open>The events of a response, up to its final one; the result is whether the message was started.\<close>

fun forward_events :: "bool \<Rightarrow> stream_event list \<Rightarrow> ('w, 'c, bool) loop" where
  "forward_events added [] = State_Monad.return added"
| "forward_events added (StreamStart m # es) = do {
     emit (MessageStart (assistant m));
     forward_events True es
   }"
| "forward_events added (StreamDone _ _ # es) = State_Monad.return added"
| "forward_events added (StreamError _ _ # es) = State_Monad.return added"
| "forward_events added (StreamPart p m # es) = do {
     (if added then emit (MessageUpdate (assistant m) (StreamPart p m)) else State_Monad.return ());
     forward_events added es
   }"

definition request_transcript :: "('w, 'c) agent_config \<Rightarrow> 'c agent_context \<Rightarrow> ('w, 'c, message list) loop" where
  "request_transcript cf ctx = do {
     ms \<leftarrow> (case on_transform cf of
        None \<Rightarrow> State_Monad.return (ctx_messages ctx)
      | Some f \<Rightarrow> ask (f (ctx_messages ctx)));
     llm \<leftarrow> ask (on_convert cf ms);
     State_Monad.return (normalize_context \<lparr>context_prompt = None, context_messages = llm, context_tools = None\<rparr>)
   }"

definition nonempty_key :: "string option \<Rightarrow> string option" where
  "nonempty_key k = (case k of Some t \<Rightarrow> if t \<noteq> [] then Some t else None | None \<Rightarrow> None)"

definition request_key :: "('w, 'c) agent_config \<Rightarrow> target_model \<Rightarrow> ('w, 'c, string option) loop" where
  "request_key cf model = do {
     resolved \<leftarrow> (case on_key cf of None \<Rightarrow> State_Monad.return None | Some f \<Rightarrow> ask (f (target_provider model)));
     State_Monad.return
       (case nonempty_key resolved of Some k \<Rightarrow> Some k | None \<Rightarrow> nonempty_key (cf_key cf))
   }"

definition admit_request :: "('w, 'c) agent_config \<Rightarrow> target_model \<Rightarrow> ('w, 'c, run_outcome option) loop" where
  "admit_request cf model =
     (case on_control cf of None \<Rightarrow> State_Monad.return None | Some g \<Rightarrow> ask (gate_admit g model))"

text \<open>The final message of an answered request, its events forwarded.\<close>

definition finish_response ::
  "('w, 'c) agent_config \<Rightarrow> target_model \<Rightarrow> thinking_level option \<Rightarrow> stream_event list \<times> assistant_message option \<Rightarrow>
     ('w, 'c, assistant_message) loop" where
  "finish_response cf model reasoning = (\<lambda>(events, answer). do {
     added \<leftarrow> forward_events False events;
     now \<leftarrow> ask (on_now (cf_tools cf));
     let m = (case answer of Some m \<Rightarrow> m | None \<Rightarrow> no_result_message now model)
               \<lparr>asked_thinking_level := Some (thinking_level_of reasoning)\<rparr>;
     (if added then State_Monad.return () else emit (MessageStart (assistant m)));
     emit (MessageEnd (assistant m));
     State_Monad.return m
   })"

definition stream_assistant_response ::
  "('w, 'c) agent_config \<Rightarrow> ('c request_made \<Rightarrow> 'w \<Rightarrow>
      (string, stream_event list \<times> assistant_message option) result \<times> 'w) \<Rightarrow>
     'c agent_run \<Rightarrow> ('w, 'c, (loop_error, assistant_message) result) loop" where
  "stream_assistant_response cf stream r = do {
     transcript \<leftarrow> request_transcript cf (run_context r);
     key \<leftarrow> request_key cf (run_model r);
     refused \<leftarrow> admit_request cf (run_model r);
     (case refused of
        Some refusal \<Rightarrow> State_Monad.return (Inl (StoppedBy refusal))
      | None \<Rightarrow> do {
          let request = \<lparr>req_context = run_context r, req_transcript = transcript, req_model = run_model r,
            req_reasoning = run_reasoning r, req_key = key\<rparr>;
          act (Requested request);
          response \<leftarrow> ask (stream request);
          (case response of
             Inl e \<Rightarrow> State_Monad.return (Inl (StreamFailed e))
           | Inr answer \<Rightarrow> do {
               m \<leftarrow> finish_response cf (run_model r) (run_reasoning r) answer;
               State_Monad.return (Inr m)
             })
        })
   }"

section \<open>A turn\<close>

text \<open>What a turn leaves: the run goes on, or has ended with an outcome and its messages, or failed.\<close>

datatype 'c turn_end =
    GoesOn "'c agent_run"
  | Finished run_outcome "'c agent_message list"
  | Failed loop_error

definition end_run :: "run_outcome \<Rightarrow> 'c agent_run \<Rightarrow> ('w, 'c, 'c turn_end) loop" where
  "end_run outcome r = do {
     emit (AgentEnd (run_new r));
     State_Monad.return (Finished outcome (run_new r))
   }"

definition apply_turn_update :: "'c turn_update option \<Rightarrow> 'c agent_run \<Rightarrow> 'c agent_run \<times> 'c agent_message list" where
  "apply_turn_update update r =
     (case update of
        None \<Rightarrow> (r, [])
      | Some u \<Rightarrow>
          (r\<lparr>run_context := (case turn_context u of Some ctx \<Rightarrow> ctx | None \<Rightarrow> run_context r),
             run_model := (case turn_model u of Some m \<Rightarrow> m | None \<Rightarrow> run_model r),
             run_reasoning := (case turn_level u of Some l \<Rightarrow> level_of l | None \<Rightarrow> run_reasoning r)\<rparr>,
           turn_messages u))"

text \<open>Between turns: the hook's replacements, and the messages to append.\<close>

definition prepare_next_turn ::
  "('w, 'c) agent_config \<Rightarrow> 'c agent_run \<Rightarrow> ('w, 'c, 'c agent_run \<times> 'c agent_message list) loop" where
  "prepare_next_turn cf r =
     (case run_last r of
        None \<Rightarrow> State_Monad.return (r, run_pending r)
      | Some (m, results) \<Rightarrow> do {
          update \<leftarrow> (case on_prepare_turn cf of
             None \<Rightarrow> State_Monad.return None
           | Some f \<Rightarrow> ask (f m results (run_context r) (run_new r)));
          let (r, prepared) = apply_turn_update update r;
          queued \<leftarrow> (if run_pending r = [] then poll_messages (on_steering cf) else State_Monad.return (run_pending r));
          emit TurnStart;
          State_Monad.return (r, prepared @ queued)
        })"

definition prepare_next_request :: "('w, 'c) agent_config \<Rightarrow> 'c agent_run \<Rightarrow> ('w, 'c, 'c agent_run) loop" where
  "prepare_next_request cf r =
     (case on_prepare_request cf of
        None \<Rightarrow> State_Monad.return r
      | Some f \<Rightarrow> do {
          update \<leftarrow> ask (f (run_context r) (run_model r) (thinking_level_of (run_reasoning r)));
          (case update of
             None \<Rightarrow> State_Monad.return r
           | Some u \<Rightarrow> do {
               r \<leftarrow> (case request_context u of
                  None \<Rightarrow> State_Monad.return r
                | Some ctx \<Rightarrow> append_messages cf [] (r\<lparr>run_context := ctx\<rparr>));
               State_Monad.return
                 (r\<lparr>run_model := (case request_model u of Some m \<Rightarrow> m | None \<Rightarrow> run_model r),
                    run_reasoning := (case request_level u of Some l \<Rightarrow> level_of l | None \<Rightarrow> run_reasoning r)\<rparr>)
             })
        })"

definition finish_turn ::
  "('w, 'c) agent_config \<Rightarrow> assistant_message \<Rightarrow> tool_result list \<Rightarrow> 'c agent_run \<Rightarrow> ('w, 'c, turn_decision option) loop" where
  "finish_turn cf m results r =
     (case on_finish cf of
        None \<Rightarrow> State_Monad.return None
      | Some f \<Rightarrow> ask (f m results (run_context r) (run_new r)))"

definition append_new :: "'c agent_message list \<Rightarrow> 'c agent_run \<Rightarrow> 'c agent_run" where
  "append_new ms r =
     r\<lparr>run_context := (run_context r)\<lparr>ctx_messages := ctx_messages (run_context r) @ ms\<rparr>, run_new := run_new r @ ms\<rparr>"

definition failed_outcome :: "assistant_message \<Rightarrow> run_outcome" where
  "failed_outcome m =
     (if stop_reason m = Aborted then RunCancelled
      else RunFailed (case error_message m of Some t \<Rightarrow> t | None \<Rightarrow> ''Model request failed''))"

text \<open>The rest of a turn whose request was answered by \<open>m\<close>.\<close>

definition complete_turn ::
  "('w, 'c) agent_config \<Rightarrow> assistant_message \<Rightarrow> 'c agent_run \<Rightarrow> ('w, 'c, 'c turn_end) loop" where
  "complete_turn cf m r = do {
     let r = append_new [assistant m] r;
     (if stop_reason m = ErrorStop \<or> stop_reason m = Aborted then do {
        decision \<leftarrow> finish_turn cf m [] r;
        emit (TurnEnd (assistant m) []);
        end_run (failed_outcome m) r
      }
      else do {
        (results, terminate) \<leftarrow> (if tool_calls m = [] then State_Monad.return ([], True)
          else run_tool_batch (cf_tools cf) (ctx_tools (run_context r)) m);
        let r = append_new (map (\<lambda>t. LlmMessage (ToolResult t)) results) r;
        decision \<leftarrow> finish_turn cf m results r;
        emit (TurnEnd (assistant m) results);
        let r = r\<lparr>run_last := Some (m, results)\<rparr>;
        (if decision = Some EndTurn then end_run FinishedTurn r
         else do {
           queued \<leftarrow> poll_messages (on_steering cf);
           State_Monad.return (GoesOn
             (r\<lparr>run_more := \<not> terminate, run_pending := queued,
                run_explicit := (decision = Some ContinueTurn \<and> terminate \<and> queued = [])\<rparr>))
         })
      })
   }"

definition control_stopped :: "('w, 'c) agent_config \<Rightarrow> ('w, 'c, run_outcome option) loop" where
  "control_stopped cf = (case on_control cf of None \<Rightarrow> State_Monad.return None | Some g \<Rightarrow> ask (gate_stopped g))"

text \<open>The body of the inner loop.\<close>

definition run_turn ::
  "('w, 'c) agent_config \<Rightarrow> ('c request_made \<Rightarrow> 'w \<Rightarrow>
      (string, stream_event list \<times> assistant_message option) result \<times> 'w) \<Rightarrow>
     'c agent_run \<Rightarrow> ('w, 'c, 'c turn_end) loop" where
  "run_turn cf stream r = do {
     halt \<leftarrow> control_stopped cf;
     (case halt of
        Some outcome \<Rightarrow> end_run outcome r
      | None \<Rightarrow> do {
          (r, queued) \<leftarrow> prepare_next_turn cf r;
          r \<leftarrow> append_messages cf queued (r\<lparr>run_pending := []\<rparr>);
          r \<leftarrow> prepare_next_request cf r;
          response \<leftarrow> stream_assistant_response cf stream r;
          (case response of
             Inl (StoppedBy outcome) \<Rightarrow> end_run outcome r
           | Inl e \<Rightarrow> State_Monad.return (Failed e)
           | Inr m \<Rightarrow> complete_turn cf m r)
        })
   }"

section \<open>The run\<close>

text \<open>Whether another turn follows: more tool calls or steering, else follow-ups, else an explicit
  continuation.\<close>

definition next_turn :: "('w, 'c) agent_config \<Rightarrow> 'c agent_run \<Rightarrow> ('w, 'c, 'c agent_run option) loop" where
  "next_turn cf r =
     (if run_more r \<or> run_pending r \<noteq> [] then State_Monad.return (Some r)
      else do {
        follow_ups \<leftarrow> poll_messages (on_follow_up cf);
        State_Monad.return
          (if follow_ups \<noteq> [] then Some (r\<lparr>run_explicit := False, run_pending := follow_ups, run_more := True\<rparr>)
           else if run_explicit r then Some (r\<lparr>run_explicit := False, run_more := True\<rparr>)
           else None)
      })"

fun run_turns ::
  "nat \<Rightarrow> ('w, 'c) agent_config \<Rightarrow> ('c request_made \<Rightarrow> 'w \<Rightarrow>
      (string, stream_event list \<times> assistant_message option) result \<times> 'w) \<Rightarrow>
     'c agent_run \<Rightarrow> ('w, 'c, 'c turn_end option) loop" where
  "run_turns 0 cf stream r = State_Monad.return None"
| "run_turns (Suc n) cf stream r = do {
     next \<leftarrow> next_turn cf r;
     (case next of
        None \<Rightarrow> do {
          ended \<leftarrow> end_run FinishedTurn r;
          State_Monad.return (Some ended)
        }
      | Some r \<Rightarrow> do {
          ended \<leftarrow> run_turn cf stream r;
          (case ended of
             GoesOn r \<Rightarrow> run_turns n cf stream r
           | _ \<Rightarrow> State_Monad.return (Some ended))
        })
   }"

definition first_run :: "('w, 'c) agent_config \<Rightarrow> 'c agent_context \<Rightarrow> 'c agent_message list \<Rightarrow> 'c agent_run" where
  "first_run cf ctx new =
     \<lparr>run_context = ctx, run_new = new, run_model = cf_model cf, run_reasoning = cf_reasoning cf, run_last = None,
      run_explicit = False, run_pending = [], run_more = True\<rparr>"

definition run_loop ::
  "nat \<Rightarrow> ('w, 'c) agent_config \<Rightarrow> ('c request_made \<Rightarrow> 'w \<Rightarrow>
      (string, stream_event list \<times> assistant_message option) result \<times> 'w) \<Rightarrow>
     'c agent_context \<Rightarrow> 'c agent_message list \<Rightarrow> ('w, 'c, 'c turn_end option) loop" where
  "run_loop n cf stream ctx new = do {
     steering \<leftarrow> poll_messages (on_steering cf);
     run_turns n cf stream ((first_run cf ctx new)\<lparr>run_pending := steering\<rparr>)
   }"

definition run_agent_loop ::
  "nat \<Rightarrow> ('w, 'c) agent_config \<Rightarrow> 'c agent_message list \<Rightarrow> 'c agent_context \<Rightarrow> ('w, 'c, 'c turn_end option) loop" where
  "run_agent_loop n cf prompts ctx =
     (case on_stream cf of
        None \<Rightarrow> State_Monad.return (Some (Failed NoStreamFn))
      | Some stream \<Rightarrow> do {
          now \<leftarrow> ask (on_now (cf_tools cf));
          let initial = declare_tool_changes (cf_print cf) now ctx prompts;
          emit AgentStart;
          emit TurnStart;
          emit_messages initial;
          run_loop n cf stream (ctx\<lparr>ctx_messages := ctx_messages ctx @ initial\<rparr>) initial
        })"

definition run_agent_loop_continue ::
  "nat \<Rightarrow> ('w, 'c) agent_config \<Rightarrow> 'c agent_context \<Rightarrow> ('w, 'c, 'c turn_end option) loop" where
  "run_agent_loop_continue n cf ctx =
     (case check_continuable ctx of
        Inl e \<Rightarrow> State_Monad.return (Some (Failed e))
      | Inr _ \<Rightarrow>
          (case on_stream cf of
             None \<Rightarrow> State_Monad.return (Some (Failed NoStreamFn))
           | Some stream \<Rightarrow> do {
               emit AgentStart;
               emit TurnStart;
               run_loop n cf stream ctx []
             }))"

end
