(* ===== verification/AgentRun.thy ===== *)
theory AgentRun
  imports AgentLoop
begin

text \<open>
  What a run of the agent loop does, whatever the model, the tools and the hooks do: the messages it
  reports are the ones it announced, each of its requests declares the tools it can execute, and
  under a control with an allowance it ends. The rules of \<open>yields\<close> compute the trace of every
  computation; those of \<open>paid\<close> compare the requests made with the allowance spent.
\<close>

section \<open>Ends and requests of a trace\<close>

definition run_ends :: "'c action list \<Rightarrow> 'c agent_message list list" where
  "run_ends = List.map_filter (\<lambda>a. case a of Emitted (AgentEnd ms) \<Rightarrow> Some ms | _ \<Rightarrow> None)"

definition requests :: "'c action list \<Rightarrow> 'c request_made list" where
  "requests = List.map_filter (\<lambda>a. case a of Requested q \<Rightarrow> Some q | _ \<Rightarrow> None)"

lemma run_trace_append [simp]:
  "run_ends (t @ u) = run_ends t @ run_ends u" "requests (t @ u) = requests t @ requests u"
  by (simp_all add: run_ends_def requests_def map_filter_append)

lemma run_trace_Nil [simp]: "run_ends [] = []" "requests [] = []"
  by (simp_all add: run_ends_def requests_def List.map_filter_simps)

lemma run_trace_Cons [simp]:
  "run_ends (Emitted (AgentEnd ms) # t) = ms # run_ends t"
  "run_ends (Emitted AgentStart # t) = run_ends t"
  "run_ends (Emitted TurnStart # t) = run_ends t"
  "run_ends (Emitted (TurnEnd m rs) # t) = run_ends t"
  "run_ends (Emitted (MessageStart m) # t) = run_ends t"
  "run_ends (Emitted (MessageUpdate m e) # t) = run_ends t"
  "run_ends (Emitted (MessageEnd m) # t) = run_ends t"
  "run_ends (Requested q # t) = run_ends t"
  "requests (Emitted ev # t) = requests t"
  "requests (Requested q # t) = q # requests t"
  "ended_messages (Requested q # t) = ended_messages t"
  "ended_messages (Emitted (AgentEnd ms) # t) = ended_messages t"
  "ended_messages (Emitted AgentStart # t) = ended_messages t"
  "ended_messages (Emitted TurnStart # t) = ended_messages t"
  "ended_messages (Emitted (TurnEnd m rs) # t) = ended_messages t"
  "ended_messages (Emitted (MessageUpdate m e) # t) = ended_messages t"
  by (simp_all add: run_ends_def requests_def ended_messages_def List.map_filter_simps)

section \<open>The actions of a tool batch\<close>

text \<open>\<open>each P m\<close>: \<open>m\<close> adds only actions that satisfy \<open>P\<close>.\<close>

definition each :: "('c action \<Rightarrow> bool) \<Rightarrow> ('w, 'c, 'a) loop \<Rightarrow> bool" where
  "each P m \<longleftrightarrow> yields m (\<lambda>_ t. list_all P t)"

named_theorems each_rules \<open>rules of \<open>each\<close>\<close>

lemma each_unit [each_rules]:
  "each P (State_Monad.return a)" "each P (ask f)"
  "P b \<Longrightarrow> each P (act b)" "list_all P as \<Longrightarrow> each P (acts as)" "P (Emitted e) \<Longrightarrow> each P (emit e)"
  unfolding each_def by (intro yields_rules; simp)+

lemma each_bind [each_rules]: "each P m \<Longrightarrow> (\<And>a. each P (f a)) \<Longrightarrow> each P (State_Monad.bind m f)"
  unfolding each_def by (intro yields_bind, erule yields_mono) (auto elim: yields_mono)

lemma each_is_aborted [each_rules]: "(\<And>b. P (Checked b)) \<Longrightarrow> each P (is_aborted f)"
  unfolding is_aborted_def by (intro each_rules)

lemma each_cases [each_rules]:
  "(\<And>a b. each P (g a b)) \<Longrightarrow> each P (case p of (a, b) \<Rightarrow> g a b)"
  "each P n \<Longrightarrow> (\<And>a. each P (h a)) \<Longrightarrow> each P (case x of None \<Rightarrow> n | Some a \<Rightarrow> h a)"
  "(\<And>a. each P (k a)) \<Longrightarrow> (\<And>a. each P (l a)) \<Longrightarrow> each P (case y of Inl a \<Rightarrow> k a | Inr a \<Rightarrow> l a)"
  "each P m \<Longrightarrow> each P n \<Longrightarrow> each P (if c then m else n)"
  "(\<And>a b. each P (i a b)) \<Longrightarrow> (\<And>a b. each P (j a b)) \<Longrightarrow>
     each P (case z of Prepared a b \<Rightarrow> i a b | Immediate a b \<Rightarrow> j a b)"
  by (simp_all split: prod.split option.split sum.split preparation.split)

fun tool_action :: "'c action \<Rightarrow> bool" where
  "tool_action (Emitted (ToolStart _ _ _ _)) = True"
| "tool_action (Emitted (ToolUpdate _ _ _ _ _)) = True"
| "tool_action (Emitted (ToolEnd _ _ _ _ _ _)) = True"
| "tool_action (Emitted (MessageStart _)) = True"
| "tool_action (Emitted (MessageEnd _)) = True"
| "tool_action (Checked _) = True"
| "tool_action (Executed _ _ _) = True"
| "tool_action _ = False"

lemma tool_action_events [simp]:
  "tool_action (start_event c)" "tool_action (update_event c r)" "tool_action (end_event fin)"
  by (simp_all add: start_event_def update_event_def end_event_def)

lemma tool_actions_quiet: "list_all tool_action t \<Longrightarrow> run_ends t = [] \<and> requests t = []"
proof (induction t)
  case (Cons a t)
  then show ?case
    by (cases a rule: tool_action.cases) (simp_all add: run_ends_def requests_def List.map_filter_simps)
qed simp

lemma each_prepare: "each tool_action (prepare_tool_call cf tools parent c)"
  unfolding prepare_tool_call_def call_before_def judge_call_def clear_call_def by (intro each_rules; simp)

lemma each_answer: "each tool_action (answer_call cf fin)"
  unfolding answer_call_def emit_tool_result_message_def Let_def by (intro each_rules; simp)

lemma each_sequential: "each tool_action (execute_tool_calls_sequential cf tools cs)"
proof (induction cs)
  case (Cons c cs)
  then show ?case
    unfolding execute_tool_calls_sequential.simps run_sequential_call_def
    by (intro each_rules each_prepare each_answer; auto simp: list_all_iff)
qed (simp add: each_rules)

lemma each_truncated: "each tool_action (fail_truncated_calls cf cs)"
proof (induction cs)
  case (Cons c cs)
  then show ?case
    unfolding fail_truncated_calls.simps Let_def by (intro each_rules each_answer; simp)
qed (simp add: each_rules)

lemma each_answers: "each tool_action (answer_calls cf fins)"
proof (induction fins)
  case (Cons fin fins)
  then show ?case unfolding answer_calls.simps by (intro each_rules each_answer)
qed (simp add: each_rules)

definition quiet_futures :: "('c action, 'a) future list \<Rightarrow> bool" where
  "quiet_futures fs \<longleftrightarrow> list_all tool_action (concat (map future_events fs))"

lemma quiet_call: "list_all tool_action (future_events (call_future c tool args r))"
  by (cases "exec_updates r")
    (auto simp: call_future_def Let_def future_events_def list_all_iff)

lemma each_enter:
  "yields (enter_calls cf tools cs :: ('w, 'c, _) loop) (\<lambda>fs t. list_all tool_action t \<and> quiet_futures fs)"
proof (induction cs)
  case (Cons c cs)
  have one: "yields (enter_call cf tools c :: ('w, 'c, _) loop) (\<lambda>f t. list_all tool_action t \<and> quiet_futures [f])"
    unfolding enter_call_def
  proof (intro yields_bind yields_act, rule yields_mono [OF each_prepare [unfolded each_def]])
    fix p and t :: "'c action list"
    assume "list_all tool_action t"
    then show "yields (case p of
          Immediate result error \<Rightarrow> do {
            act (end_event (unexecuted c result error));
            State_Monad.return (Future [] [] (unexecuted c result error))
          }
        | Prepared tool args \<Rightarrow> do {
            r \<leftarrow> ask (on_execute cf c tool args);
            State_Monad.return (call_future c tool args r)
          })
        (\<lambda>f u. list_all tool_action ([start_event c] @ t @ u) \<and> quiet_futures [f])"
      by (cases p) (auto simp: quiet_futures_def quiet_call future_events_def [of "Future [] [] _"] intro!: yields_rules)
  qed
  show ?case
    unfolding enter_calls.simps
    by (intro yields_bind, rule yields_mono [OF one], intro yields_bind yields_is_aborted)
      (auto simp: quiet_futures_def intro!: yields_return yields_bind yields_mono [OF Cons.IH])
qed (simp add: quiet_futures_def yields_return)

lemma each_parallel: "each tool_action (execute_tool_calls_parallel cf tools cs :: ('w, 'c, _) loop)"
  unfolding execute_tool_calls_parallel_def each_def
proof (intro yields_bind, rule yields_mono [OF each_enter])
  fix fs :: "('c action, call_outcome) future list" and t :: "'c action list"
  assume t: "list_all tool_action t \<and> quiet_futures fs"
  obtain ps where ps: "join_all (map_option nonzero_get (max_concurrent_read_tools cf)) fs = Some (map future_value fs, ps)"
    "well_joined (map_option nonzero_get (max_concurrent_read_tools cf)) fs ps"
    using join_all_returns [OF read_limit, of cf fs] by blast
  from mset_eq_setD [OF joined_events [OF ps(2)]] t have "list_all tool_action (poll_events ps)"
    by (simp add: list_all_iff quiet_futures_def)
  with t show "yields (case join_all (map_option nonzero_get (max_concurrent_read_tools cf)) fs of
        Some (fins, ps) \<Rightarrow> do {
          acts (poll_events ps);
          ms \<leftarrow> answer_calls cf fins;
          State_Monad.return (ms, should_terminate_tool_batch fins)
        }
      | None \<Rightarrow> State_Monad.return ([], False)) (\<lambda>_ u. list_all tool_action (t @ u))"
    unfolding ps(1) option.case prod.case
    by (intro yields_bind yields_acts, intro yields_mono [OF each_answers [unfolded each_def]] yields_return) simp
qed

lemma each_batch: "each tool_action (run_tool_batch cf tools m)"
  unfolding run_tool_batch_def execute_tool_calls_def
  by (intro each_rules each_truncated each_sequential each_parallel)

lemma yields_conj: "yields m R \<Longrightarrow> yields m S \<Longrightarrow> yields m (\<lambda>a t. R a t \<and> S a t)"
proof -
  assume R: "yields m R" and S: "yields m S"
  show ?thesis
    unfolding yields_def
  proof
    fix s
    obtain t where t: "trace (snd (run_state m s)) = trace s @ t" "R (fst (run_state m s)) t"
      using R unfolding yields_def by blast
    from S obtain u where "trace (snd (run_state m s)) = trace s @ u" "S (fst (run_state m s)) u"
      unfolding yields_def by blast
    with t show "\<exists>t. trace (snd (run_state m s)) = trace s @ t \<and>
        R (fst (run_state m s)) t \<and> S (fst (run_state m s)) t" by auto
  qed
qed

lemma batch_messages:
  "yields (run_tool_batch cf tools m) (\<lambda>batch t.
     ended_messages t = map (\<lambda>r. LlmMessage (ToolResult r)) (fst batch) \<and> run_ends t = [] \<and> requests t = [])"
proof -
  have sound: "yields (run_tool_batch cf tools m) (\<lambda>batch. batch_ok cf tools (tool_calls m) (fst batch))"
    unfolding run_tool_batch_def execute_tool_calls_def
    by (auto intro!: parallel_yields yields_bind yields_mono [OF sequential_yields] yields_mono [OF truncated_yields]
        yields_return)
  from yields_conj [OF this each_batch [unfolded each_def]] show ?thesis
    by (rule yields_mono) (auto simp: batch_ok_def dest: tool_actions_quiet)
qed

section \<open>A request declares what it can execute\<close>

definition declared_tools :: "'c agent_message list \<Rightarrow> tool list" where
  "declared_tools ms = current_tools (agent_systems ms)"

text \<open>What the system messages of a transcript declare is what its context executes, tool for tool; two
  tools of one name cannot both be declared.\<close>

definition loadout_declared :: "(tool \<Rightarrow> string) \<Rightarrow> 'c agent_context \<Rightarrow> bool" where
  "loadout_declared print ctx \<longleftrightarrow>
     (distinct (map agent_name (ctx_tools ctx)) \<longrightarrow>
        same_tools print (declared_tools (ctx_messages ctx)) (map tool_declaration (ctx_tools ctx)))"

lemma agent_systems_simps [simp]:
  "agent_systems [] = []" "agent_systems (LlmMessage (System m) # ms) = m # agent_systems ms"
  "agent_systems (ms @ ns) = agent_systems ms @ agent_systems ns"
  "agent_system x = None \<Longrightarrow> agent_systems (x # ms) = agent_systems ms"
  by (simp_all add: agent_systems_def map_filter_append List.map_filter_simps)

lemma agent_systems_None: "(\<And>x. x \<in> set ms \<Longrightarrow> agent_system x = None) \<Longrightarrow> agent_systems ms = []"
  by (induction ms) simp_all

lemma systems_of_systems: "get_current_tools (map System ss) = current_tools ss"
proof -
  have "systems (map System ss) = ss" by (induction ss) simp_all
  then show ?thesis by (simp add: get_current_tools_def)
qed

lemma current_tools_snoc: "current_tools (ss @ [m]) = tools_step m (current_tools ss)"
  by (simp add: current_tools_def)

lemma some_list_simps [simp]:
  "some_list (if xs = [] then None else Some xs) = xs"
  by (simp add: some_list_def)

lemma tools_step_changes:
  "tools_step (with_tool_changes m added removed) ts = fold set_tool added (fold remove_tool removed ts)"
  by (simp add: tools_step_def with_tool_changes_def)

lemma agent_system_Some: "agent_system x = Some m \<Longrightarrow> x = LlmMessage (System m)"
  by (cases x rule: agent_system.cases) simp_all

lemma rposition_NoneD: "rposition P xs = None \<Longrightarrow> x \<in> set xs \<Longrightarrow> \<not> P x"
  by (induction xs rule: rev_induct) (auto simp: rposition_snoc split: if_splits)

lemma rposition_split:
  assumes "rposition P xs = Some i"
  shows "\<exists>pre x post. xs = pre @ [x] @ post \<and> i = length pre \<and> P x \<and> (\<forall>y \<in> set post. \<not> P y)"
  using assms
proof (induction xs arbitrary: i rule: rev_induct)
  case Nil
  then show ?case by (simp add: rposition_def)
next
  case (snoc x xs)
  show ?case
  proof (cases "P x")
    case True
    with snoc.prems have "i = length xs" by (simp add: rposition_snoc)
    with True show ?thesis by (intro exI [of _ xs] exI [of _ x] exI [of _ "[]"]) simp
  next
    case False
    with snoc.prems have "rposition P xs = Some i" by (simp add: rposition_snoc)
    from snoc.IH [OF this] obtain pre y post where
      "xs = pre @ [y] @ post" "i = length pre" "P y" "\<forall>z \<in> set post. \<not> P z" by blast
    with False show ?thesis by (intro exI [of _ pre] exI [of _ y] exI [of _ "post @ [x]"]) simp
  qed
qed

lemma declared_after:
  "loadout_declared print (ctx\<lparr>ctx_messages := ctx_messages ctx @ declare_tool_changes print now ctx queued\<rparr>)"
proof -
  let ?exec = "map tool_declaration (ctx_tools ctx)"
  let ?old = "agent_systems (ctx_messages ctx)"
  have "same_tools print (declared_tools (ctx_messages ctx @ declare_tool_changes print now ctx queued)) ?exec"
    if names: "distinct (map agent_name (ctx_tools ctx))"
  proof -
    have exec: "distinct (tool_names ?exec)" using names by (simp add: tool_declaration_def comp_def)
    note apply_changes = changes_apply [OF current_tools_distinct exec]
    show ?thesis
    proof (cases "rposition (\<lambda>m. agent_system m \<noteq> None) queued")
      case None
      then have none: "agent_system x = None" if "x \<in> set queued" for x
        using rposition_NoneD [OF None that] by simp
      then have first: "takeWhile (\<lambda>m. agent_system m \<noteq> None) queued = []" by (cases queued) auto
      have quiet: "agent_systems queued = []" using none by (rule agent_systems_None)
      obtain added removed where changes: "get_tool_state_changes print (current_tools ?old) ?exec = (added, removed)"
        by fastforce
      from apply_changes [OF this] show ?thesis
        using None quiet first changes
        by (auto simp: declare_tool_changes_def Let_def systems_of_systems declared_tools_def current_tools_snoc
            tools_step_changes)
    next
      case (Some i)
      from rposition_split [OF this] obtain pre x post where q: "queued = pre @ [x] @ post" "i = length pre"
        "agent_system x \<noteq> None" "\<And>y. y \<in> set post \<Longrightarrow> agent_system y = None" by blast
      from q(3) obtain m where m: "x = LlmMessage (System m)" using agent_system_Some by blast
      have quiet: "agent_systems post = []" using q(4) by (rule agent_systems_None)
      let ?base = "current_tools (?old @ agent_systems pre)"
      obtain added removed where changes: "get_tool_state_changes print ?base ?exec = (added, removed)"
        by fastforce
      have base: "current_tools (?old @ agent_systems pre @ [with_tool_changes m [] []]) = ?base"
        using current_tools_snoc [of "?old @ agent_systems pre" "with_tool_changes m [] []"]
        by (simp add: tools_step_changes)
      have after: "current_tools (?old @ agent_systems pre @ [n]) = tools_step n ?base" for n
        using current_tools_snoc [of "?old @ agent_systems pre" n] by simp
      let ?quiet = "added = [] \<and> removed = [] \<and> some_list (tools_added m) = [] \<and> some_list (tools_removed m) = []"
      have outcome: "declare_tool_changes print now ctx queued =
          (if ?quiet then queued else pre @ [LlmMessage (System (with_tool_changes m added removed))] @ post)"
        using Some q(1,2) m quiet changes base
        by (simp add: declare_tool_changes_def Let_def systems_of_systems nth_append list_update_append del: map_append)
      show ?thesis
      proof (cases ?quiet)
        case True
        then have "tools_step m ?base = ?base" by (simp add: tools_step_def)
        with apply_changes [OF changes] True q(1) m quiet show ?thesis
          unfolding outcome if_P [OF True] by (simp add: declared_tools_def after)
      next
        case False
        with apply_changes [OF changes] quiet show ?thesis
          unfolding outcome if_not_P [OF False] by (simp add: declared_tools_def after tools_step_changes)
      qed
    qed
  qed
  then show ?thesis by (simp add: loadout_declared_def)
qed

lemma declared_more:
  "loadout_declared print ctx \<Longrightarrow> agent_systems ms = [] \<Longrightarrow> ctx_tools ctx' = ctx_tools ctx \<Longrightarrow>
     ctx_messages ctx' = ctx_messages ctx @ ms \<Longrightarrow> loadout_declared print ctx'"
  by (simp add: loadout_declared_def declared_tools_def)

section \<open>The messages of a run\<close>

text \<open>\<open>t\<close> announces the end of the run with \<open>ms\<close>, as its last action and once.\<close>

definition reported :: "'c agent_message list \<Rightarrow> 'c action list \<Rightarrow> bool" where
  "reported ms t \<longleftrightarrow> (\<exists>u. t = u @ [Emitted (AgentEnd ms)] \<and> run_ends u = [])"

definition requests_declared :: "(tool \<Rightarrow> string) \<Rightarrow> 'c action list \<Rightarrow> bool" where
  "requests_declared print t \<longleftrightarrow> list_all (\<lambda>q. loadout_declared print (req_context q)) (requests t)"

lemma requests_declared_append [simp]:
  "requests_declared print (t @ u) \<longleftrightarrow> requests_declared print t \<and> requests_declared print u"
  by (simp add: requests_declared_def)

text \<open>What a part of a run adds before its end: the messages announced, no end, and declared requests.\<close>

definition announces :: "(tool \<Rightarrow> string) \<Rightarrow> 'c agent_message list \<Rightarrow> 'c action list \<Rightarrow> bool" where
  "announces print ms t \<longleftrightarrow> ended_messages t = ms \<and> run_ends t = [] \<and> requests_declared print t"

lemma announces_append: "announces print ms t \<Longrightarrow> announces print ns u \<Longrightarrow> announces print (ms @ ns) (t @ u)"
  by (simp add: announces_def)

lemma announces_simps [simp]:
  "announces print ms [] \<longleftrightarrow> ms = []"
  "announces print [] (Emitted TurnStart # t) \<longleftrightarrow> announces print [] t"
  by (auto simp: announces_def requests_declared_def)

lemma emit_messages_yields: "yields (emit_messages ms) (\<lambda>_ t. announces print ms t \<and> requests t = [])"
proof (induction ms)
  case (Cons m ms)
  then show ?case
    unfolding emit_messages.simps
    by (intro yields_rules, elim yields_mono) (auto simp: announces_def requests_declared_def)
qed (simp add: yields_return)

lemma yields_poll: "(\<And>ms. R ms []) \<Longrightarrow> yields (poll_messages source) R"
  by (cases source) (simp_all add: poll_messages_def yields_return yields_ask)

text \<open>Messages appended are the ones announced, and the context then declares its tools.\<close>

lemma append_yields:
  "yields (append_messages cf queued r) (\<lambda>r' t. \<exists>ms.
     r' = r\<lparr>run_context := run_context r', run_new := run_new r @ ms\<rparr> \<and> loadout_declared (cf_print cf) (run_context r') \<and>
     announces (cf_print cf) ms t \<and> requests t = [])"
  unfolding append_messages_def Let_def
proof (intro yields_bind yields_ask, rule yields_mono [OF emit_messages_yields [of _ "cf_print cf"]], rule yields_return)
  fix w u
  let ?ms = "declare_tool_changes (cf_print cf) (fst (on_now (cf_tools cf) w)) (run_context r) queued"
  let ?r = "r\<lparr>run_context := (run_context r)\<lparr>ctx_messages := ctx_messages (run_context r) @ ?ms\<rparr>, run_new := run_new r @ ?ms\<rparr>"
  assume "announces (cf_print cf) ?ms u \<and> requests u = []"
  moreover have "loadout_declared (cf_print cf) (run_context ?r)" using declared_after by simp
  ultimately show "\<exists>ms. ?r = r\<lparr>run_context := run_context ?r, run_new := run_new r @ ms\<rparr> \<and>
      loadout_declared (cf_print cf) (run_context ?r) \<and> announces (cf_print cf) ms ([] @ u @ []) \<and> requests ([] @ u @ []) = []"
    by (intro exI [of _ ?ms]) simp
qed

lemma next_turn_yields:
  "yields (prepare_next_turn cf r) (\<lambda>(r', queued) t. run_new r' = run_new r \<and> announces print [] t \<and> requests t = [])"
proof (cases "run_last r")
  case None
  then show ?thesis by (simp add: prepare_next_turn_def yields_return)
next
  case (Some a)
  obtain m results where a: "a = (m, results)" by fastforce
  have update: "run_new (fst (apply_turn_update u r)) = run_new r" for u
    by (simp add: apply_turn_update_def split: option.split)
  have rest: "yields (case apply_turn_update u r of (r, prepared) \<Rightarrow> do {
        queued \<leftarrow> (if run_pending r = [] then poll_messages (on_steering cf) else State_Monad.return (run_pending r));
        emit TurnStart;
        State_Monad.return (r, prepared @ queued)
      }) (\<lambda>(r', queued) t. run_new r' = run_new r \<and> announces print [] t \<and> requests t = [])" for u
    using update [of u]
    by (cases "apply_turn_update u r") (auto intro!: yields_rules yields_poll)
  show ?thesis
    unfolding prepare_next_turn_def Some a option.case prod.case
    by (cases "on_prepare_turn cf") (auto intro!: yields_bind yields_ask yields_return rest)
qed

lemma next_request_yields:
  assumes "loadout_declared (cf_print cf) (run_context r)"
  shows "yields (prepare_next_request cf r) (\<lambda>r' t. \<exists>ms. run_new r' = run_new r @ ms \<and>
     loadout_declared (cf_print cf) (run_context r') \<and> announces (cf_print cf) ms t \<and> requests t = [])"
proof (cases "on_prepare_request cf")
  case None
  with assms show ?thesis by (simp add: prepare_next_request_def yields_return)
next
  case (Some f)
  have replaced: "yields (append_messages cf [] (r\<lparr>run_context := ctx\<rparr>)) (\<lambda>r' t. \<exists>ms. run_new r' = run_new r @ ms \<and>
      loadout_declared (cf_print cf) (run_context r') \<and> announces (cf_print cf) ms t \<and> requests t = [])" for ctx
    by (rule yields_mono [OF append_yields]) (metis agent_run.select_convs(2) agent_run.surjective agent_run.update_convs(2) agent_run.update_convs(1))
  have "yields (case u of
          None \<Rightarrow> State_Monad.return r
        | Some u \<Rightarrow> do {
            r \<leftarrow> (case request_context u of
               None \<Rightarrow> State_Monad.return r
             | Some ctx \<Rightarrow> append_messages cf [] (r\<lparr>run_context := ctx\<rparr>));
            State_Monad.return
              (r\<lparr>run_model := (case request_model u of Some m \<Rightarrow> m | None \<Rightarrow> run_model r),
                 run_reasoning := (case request_level u of Some l \<Rightarrow> level_of l | None \<Rightarrow> run_reasoning r)\<rparr>)
          })
      (\<lambda>r' t. \<exists>ms. run_new r' = run_new r @ ms \<and>
         loadout_declared (cf_print cf) (run_context r') \<and> announces (cf_print cf) ms t \<and> requests t = [])" for u
    using assms
    by (auto split: option.split intro!: yields_bind yields_return intro: yields_mono [OF replaced])
  then show ?thesis
    unfolding prepare_next_request_def Some option.case by (intro yields_bind yields_ask) simp
qed

lemma forward_yields: "yields (forward_events added es :: ('w, 'c, _) loop) (\<lambda>_ t. announces print [] t \<and> requests t = [])"
proof (induction es arbitrary: added)
  case (Cons e es)
  have more: "yields (State_Monad.bind (emit ev) (\<lambda>_. forward_events b es) :: ('w, 'c, _) loop) (\<lambda>_ t. announces print [] t \<and> requests t = [])"
    if "ev = MessageStart m \<or> ev = MessageUpdate m e" for ev m b
    using that Cons.IH [of b]
    by (intro yields_bind yields_emit, elim yields_mono) (auto simp: announces_def requests_declared_def)
  show ?case
    by (cases e) (auto intro: more Cons.IH simp: yields_return)
qed (simp add: yields_return)

lemma finish_yields:
  "yields (finish_response cf model reasoning answer) (\<lambda>m t. announces print [assistant m] t \<and> requests t = [])"
proof -
  have start: "yields (if added then State_Monad.return () else emit (MessageStart (assistant m)))
      (\<lambda>_ t. announces print [] t \<and> requests t = [])" for added m
    by (cases added) (auto simp: announces_def requests_declared_def intro!: yields_rules)
  have close: "announces print [assistant m] (t @ u @ [Emitted (MessageEnd (assistant m))]) \<and>
      requests (t @ u @ [Emitted (MessageEnd (assistant m))]) = []"
    if "announces print [] t \<and> requests t = []" "announces print [] u \<and> requests u = []" for t u m
    using that by (simp add: announces_def requests_declared_def)
  show ?thesis
    unfolding finish_response_def Let_def
    by (cases answer) (auto intro!: yields_bind yields_ask yields_emit yields_return
        yields_mono [OF forward_yields [of _ _ print]] yields_mono [OF start] simp: close)
qed

text \<open>A request is sent at most once, with the context it was built from.\<close>

lemma stream_yields:
  assumes "loadout_declared (cf_print cf) (run_context r)"
  shows "yields (stream_assistant_response cf stream r :: ('w, 'c, _) loop) (\<lambda>response t.
     announces (cf_print cf) (case response of Inr m \<Rightarrow> [assistant m] | Inl _ \<Rightarrow> []) t \<and>
     length (requests t) = (case response of Inl (StoppedBy _) \<Rightarrow> 0 | _ \<Rightarrow> 1))"
proof -
  have quiet: "yields (request_transcript cf ctx) (\<lambda>_ t. t = [])" "yields (request_key cf model) (\<lambda>_ t. t = [])"
    "yields (admit_request cf model) (\<lambda>_ t. t = [])" for ctx model
    unfolding request_transcript_def request_key_def admit_request_def
    by (auto split: option.split intro!: yields_rules)
  have answered: "yields (do {
        m \<leftarrow> finish_response cf (run_model r) (run_reasoning r) answer;
        State_Monad.return (Inr m)
      } :: ('w, 'c, (loop_error, assistant_message) result) loop)
      (\<lambda>response u. announces (cf_print cf) (case response of Inr m \<Rightarrow> [assistant m] | Inl _ \<Rightarrow> []) ([Requested q] @ u) \<and>
        length (requests ([Requested q] @ u)) = (case response of Inl (StoppedBy _) \<Rightarrow> 0 | _ \<Rightarrow> 1))"
    if "req_context q = run_context r" for q answer
    using assms that
    by (intro yields_bind yields_mono [OF finish_yields [of _ _ _ _ "cf_print cf"]] yields_return)
      (simp add: announces_def requests_declared_def)
  show ?thesis
    unfolding stream_assistant_response_def
  proof (intro yields_bind, rule yields_mono [OF quiet(1)], intro yields_bind, rule yields_mono [OF quiet(2)],
      intro yields_bind, rule yields_mono [OF quiet(3)])
    fix transcript key refused and t u v :: "'c action list"
    assume t: "t = []" "u = []" "v = []"
    show "yields (case refused of
          Some refusal \<Rightarrow> State_Monad.return (Inl (StoppedBy refusal)) :: ('w, 'c, _) loop
        | None \<Rightarrow> do {
            let request = \<lparr>req_context = run_context r, req_transcript = transcript, req_model = run_model r,
              req_reasoning = run_reasoning r, req_key = key\<rparr>;
            act (Requested request);
            response \<leftarrow> ask (stream request);
            (case response of
               Inl e \<Rightarrow> State_Monad.return (Inl (StreamFailed e))
             | Inr answer \<Rightarrow> do {
                 m \<leftarrow> finish_response cf (run_model r) (run_reasoning r) answer;
                 State_Monad.return (Inr m)
               })
          }) (\<lambda>response w.
        announces (cf_print cf) (case response of Inr m \<Rightarrow> [assistant m] | Inl _ \<Rightarrow> []) (t @ u @ v @ w) \<and>
        length (requests (t @ u @ v @ w)) = (case response of Inl (StoppedBy _) \<Rightarrow> 0 | _ \<Rightarrow> 1))"
    proof (cases refused)
      case None
      let ?q = "\<lparr>req_context = run_context r, req_transcript = transcript, req_model = run_model r,
        req_reasoning = run_reasoning r, req_key = key\<rparr>"
      have failed: "announces (cf_print cf) (case Inl (StreamFailed e) of Inr m \<Rightarrow> [assistant m] | Inl _ \<Rightarrow> []) [Requested ?q] \<and>
          length (requests [Requested ?q]) = (case Inl (StreamFailed e) of Inl (StoppedBy _) \<Rightarrow> 0 | _ \<Rightarrow> 1)" for e
        using assms by (simp add: announces_def requests_declared_def)
      show ?thesis
        unfolding t None option.case Let_def append_Nil
      proof (rule yields_bind, rule yields_act, rule yields_bind, rule yields_ask)
        fix w
        show "yields ((case fst (stream ?q w) of
              Inl e \<Rightarrow> State_Monad.return (Inl (StreamFailed e))
            | Inr answer \<Rightarrow> do {
                m \<leftarrow> finish_response cf (run_model r) (run_reasoning r) answer;
                State_Monad.return (Inr m)
              }) :: ('w, 'c, _) loop) (\<lambda>response u.
            announces (cf_print cf) (case response of Inr m \<Rightarrow> [assistant m] | Inl _ \<Rightarrow> []) ([Requested ?q] @ [] @ u) \<and>
            length (requests ([Requested ?q] @ [] @ u)) = (case response of Inl (StoppedBy _) \<Rightarrow> 0 | _ \<Rightarrow> 1))"
        proof (cases "fst (stream ?q w)")
          case (Inl e)
          show ?thesis unfolding Inl sum.case(1) by (rule yields_return) (use failed in simp)
        next
          case (Inr answer)
          show ?thesis unfolding Inr sum.case(2) append_Nil by (rule answered) simp
        qed
      qed
    qed (simp add: t yields_return)
  qed
qed

text \<open>What is left of a run with the messages \<open>new\<close> does: it announces more and goes on with them or
  fails, or ends the run with exactly the messages announced.\<close>

definition turn_ok ::
  "(tool \<Rightarrow> string) \<Rightarrow> 'c agent_message list \<Rightarrow> 'c turn_end \<Rightarrow> 'c action list \<Rightarrow> bool" where
  "turn_ok print new e t \<longleftrightarrow>
     (case e of
        GoesOn r \<Rightarrow> (\<exists>ms. run_new r = new @ ms \<and> announces print ms t)
      | Finished _ all \<Rightarrow> (\<exists>ms u. all = new @ ms \<and> t = u @ [Emitted (AgentEnd all)] \<and> announces print ms u)
      | Failed _ \<Rightarrow> (\<exists>ms. announces print ms t))"

lemma turn_ok_after:
  assumes "announces print ms t" and "turn_ok print (new @ ms) e u"
  shows "turn_ok print new e (t @ u)"
proof (cases e)
  case (GoesOn r)
  with assms obtain ns where "run_new r = new @ ms @ ns" "announces print ns u" by (auto simp: turn_ok_def)
  with GoesOn announces_append [OF assms(1)] show ?thesis by (auto simp: turn_ok_def)
next
  case (Finished x all)
  with assms obtain ns v where "all = new @ ms @ ns" "u = v @ [Emitted (AgentEnd all)]" "announces print ns v"
    by (auto simp: turn_ok_def)
  with Finished announces_append [OF assms(1)] show ?thesis
    by (auto simp: turn_ok_def intro!: exI [of _ "ms @ ns"] exI [of _ "t @ v"])
next
  case (Failed x)
  with assms announces_append [OF assms(1)] show ?thesis by (auto simp: turn_ok_def)
qed

lemma end_run_yields: "yields (end_run x r) (\<lambda>e t. turn_ok print (run_new r) e t \<and> requests t = [] \<and> e = Finished x (run_new r))"
  unfolding end_run_def by (intro yields_rules) (simp add: turn_ok_def)

lemma yields_finish: "(\<And>d. R d []) \<Longrightarrow> yields (finish_turn cf m results r) R"
  by (auto simp: finish_turn_def split: option.split intro!: yields_rules)

lemma complete_yields:
  "yields (complete_turn cf m r :: ('w, 'c, _) loop) (\<lambda>e t. turn_ok print (run_new r @ [assistant m]) e t \<and> requests t = [])"
proof (cases "stop_reason m = ErrorStop \<or> stop_reason m = Aborted")
  case True
  have ended: "announces print [] [Emitted (TurnEnd (assistant m) [])]" by (simp add: announces_def requests_declared_def)
  have "turn_ok print (run_new r @ [assistant m]) e ([Emitted (TurnEnd (assistant m) [])] @ t)"
    if "turn_ok print (run_new (append_new [assistant m] r)) e t" for e t
    using that turn_ok_after [OF ended, of "run_new r @ [assistant m]"] by (simp add: append_new_def)
  then show ?thesis
    unfolding complete_turn_def Let_def if_P [OF True]
    by (intro yields_bind yields_finish yields_emit yields_mono [OF end_run_yields [of _ _ print]]) simp
next
  case False
  let ?r = "append_new [assistant m] r"
  let ?batch = "(if tool_calls m = [] then State_Monad.return ([], True)
    else run_tool_batch (cf_tools cf) (ctx_tools (run_context ?r)) m) :: ('w, 'c, call_batch) loop"
  have batch: "yields ?batch (\<lambda>b t. announces print (map (\<lambda>t. LlmMessage (ToolResult t)) (fst b)) t \<and> requests t = [])"
    by (auto simp: announces_def requests_declared_def intro: yields_mono [OF batch_messages] intro!: yields_return)
  show ?thesis
    unfolding complete_turn_def Let_def if_not_P [OF False]
  proof (rule yields_bind, rule yields_mono [OF batch], rule yields_case_prod, rule yields_bind, rule yields_finish,
      rule yields_bind, rule yields_emit)
    fix b :: call_batch and results and terminate :: bool and decision and t :: "'c action list"
    let ?results = "map (\<lambda>t. LlmMessage (ToolResult t)) results"
    let ?s = "append_new ?results ?r \<lparr>run_last := Some (m, results)\<rparr>"
    assume "announces print (map (\<lambda>t. LlmMessage (ToolResult t)) (fst b)) t \<and> requests t = []" "b = (results, terminate)"
    then have t: "announces print ?results (t @ [] @ [Emitted (TurnEnd (assistant m) results)])" "requests t = []"
      by (simp_all add: announces_def requests_declared_def)
    have new: "run_new ?s = (run_new r @ [assistant m]) @ ?results" by (simp add: append_new_def)
    have rest: "turn_ok print (run_new r @ [assistant m]) e (t @ [] @ [Emitted (TurnEnd (assistant m) results)] @ u) \<and>
        requests (t @ [] @ [Emitted (TurnEnd (assistant m) results)] @ u) = []"
      if "turn_ok print (run_new ?s) e u" "requests u = []" for e u
      using turn_ok_after [OF t(1)] that t(2) unfolding new by simp
    show "yields ((if decision = Some EndTurn then end_run FinishedTurn ?s
        else do {
          queued \<leftarrow> poll_messages (on_steering cf);
          State_Monad.return (GoesOn
            (?s\<lparr>run_more := \<not> terminate, run_pending := queued,
               run_explicit := (decision = Some ContinueTurn \<and> terminate \<and> queued = [])\<rparr>))
        }) :: ('w, 'c, _) loop) (\<lambda>e u. turn_ok print (run_new r @ [assistant m]) e (t @ [] @ [Emitted (TurnEnd (assistant m) results)] @ u) \<and>
          requests (t @ [] @ [Emitted (TurnEnd (assistant m) results)] @ u) = [])"
      by (auto intro!: yields_bind yields_poll yields_return yields_mono [OF end_run_yields [of _ _ print]] rest [simplified]
          simp: turn_ok_def [of _ _ "GoesOn _"])
  qed
qed

text \<open>A turn sends at most one request, and goes on only after one.\<close>

definition one_request :: "'c turn_end \<Rightarrow> 'c action list \<Rightarrow> bool" where
  "one_request e t \<longleftrightarrow> length (requests t) \<le> 1 \<and> (case e of GoesOn _ \<Rightarrow> requests t \<noteq> [] | _ \<Rightarrow> True)"

lemma one_request_after [simp]: "requests t = [] \<Longrightarrow> one_request e (t @ u) \<longleftrightarrow> one_request e u"
  by (simp add: one_request_def split: turn_end.split)

lemma yields_halted: "(\<And>x. R x []) \<Longrightarrow> yields (control_stopped cf) R"
  by (auto simp: control_stopped_def split: option.split intro!: yields_rules)

lemma answered_yields:
  "yields (case response of
       Inl (StoppedBy outcome) \<Rightarrow> end_run outcome r
     | Inl e \<Rightarrow> State_Monad.return (Failed e)
     | Inr m \<Rightarrow> complete_turn cf m r)
   (\<lambda>e t. turn_ok print (run_new r @ (case response of Inr m \<Rightarrow> [assistant m] | Inl _ \<Rightarrow> [])) e t \<and> requests t = [] \<and>
      (case response of Inl (StoppedBy _) \<Rightarrow> (case e of GoesOn _ \<Rightarrow> False | _ \<Rightarrow> True) | _ \<Rightarrow> True))"
proof (cases response)
  case (Inl e)
  then show ?thesis
    by (cases e) (auto simp: turn_ok_def [of _ _ "Failed _"] intro!: yields_return yields_mono [OF end_run_yields [of _ _ print]])
next
  case (Inr m)
  then show ?thesis using complete_yields [of cf m r print] by simp
qed

lemma run_turn_yields:
  "yields (run_turn cf stream r :: ('w, 'c, _) loop) (\<lambda>e t. turn_ok (cf_print cf) (run_new r) e t \<and> one_request e t)"
proof -
  let ?p = "cf_print cf"
  have asked: "yields (do {
        response \<leftarrow> stream_assistant_response cf stream r;
        (case response of
           Inl (StoppedBy outcome) \<Rightarrow> end_run outcome r
         | Inl e \<Rightarrow> State_Monad.return (Failed e)
         | Inr m \<Rightarrow> complete_turn cf m r)
      } :: ('w, 'c, _) loop) (\<lambda>e t. turn_ok ?p (run_new r) e t \<and> one_request e t)"
    if "loadout_declared ?p (run_context r)" for r
  proof (rule yields_bind, rule yields_mono [OF stream_yields [OF that]])
    fix response :: "(loop_error, assistant_message) result" and t :: "'c action list"
    let ?new = "case response of Inr m \<Rightarrow> [assistant m] | Inl _ \<Rightarrow> []"
    assume t: "announces ?p ?new t \<and> length (requests t) = (case response of Inl (StoppedBy _) \<Rightarrow> 0 | _ \<Rightarrow> 1)"
    show "yields ((case response of
         Inl (StoppedBy outcome) \<Rightarrow> end_run outcome r
       | Inl e \<Rightarrow> State_Monad.return (Failed e)
       | Inr m \<Rightarrow> complete_turn cf m r) :: ('w, 'c, _) loop)
      (\<lambda>e u. turn_ok ?p (run_new r) e (t @ u) \<and> one_request e (t @ u))"
    proof (rule yields_mono [OF answered_yields [of _ _ _ ?p]], elim conjE, rule conjI)
      fix e and u :: "'c action list"
      assume u: "turn_ok ?p (run_new r @ ?new) e u" "requests u = []"
        "case response of Inl (StoppedBy _) \<Rightarrow> (case e of GoesOn _ \<Rightarrow> False | _ \<Rightarrow> True) | _ \<Rightarrow> True"
      show "turn_ok ?p (run_new r) e (t @ u)" using t u(1) by (intro turn_ok_after) auto
      show "one_request e (t @ u)"
        using t u(2,3) by (auto simp: one_request_def split: sum.splits loop_error.splits turn_end.splits)
    qed
  qed
  have requested: "yields (do {
        r \<leftarrow> prepare_next_request cf r;
        response \<leftarrow> stream_assistant_response cf stream r;
        (case response of
           Inl (StoppedBy outcome) \<Rightarrow> end_run outcome r
         | Inl e \<Rightarrow> State_Monad.return (Failed e)
         | Inr m \<Rightarrow> complete_turn cf m r)
      } :: ('w, 'c, _) loop) (\<lambda>e t. turn_ok ?p (run_new r) e t \<and> one_request e t)"
    if "loadout_declared ?p (run_context r)" for r
    by (rule yields_bind, rule yields_mono [OF next_request_yields [OF that]], elim exE conjE, rule yields_mono [OF asked])
      (auto dest: turn_ok_after)
  have appended: "yields (do {
        r \<leftarrow> append_messages cf queued (s\<lparr>run_pending := []\<rparr>);
        r \<leftarrow> prepare_next_request cf r;
        response \<leftarrow> stream_assistant_response cf stream r;
        (case response of
           Inl (StoppedBy outcome) \<Rightarrow> end_run outcome r
         | Inl e \<Rightarrow> State_Monad.return (Failed e)
         | Inr m \<Rightarrow> complete_turn cf m r)
      } :: ('w, 'c, _) loop) (\<lambda>e t. turn_ok ?p (run_new s) e t \<and> one_request e t)" for queued s
  proof (rule yields_bind, rule yields_mono [OF append_yields], elim exE conjE, rule yields_mono [OF requested], assumption)
    fix r' t ms e u
    assume r': "r' = s\<lparr>run_pending := [], run_context := run_context r', run_new := run_new (s\<lparr>run_pending := []\<rparr>) @ ms\<rparr>"
      and t: "announces ?p ms t" "requests t = []"
      and u: "turn_ok ?p (run_new r') e u \<and> one_request e u"
    have "run_new r' = run_new s @ ms" by (subst r') simp
    with turn_ok_after [OF t(1), of "run_new s" e u] u t(2)
    show "turn_ok ?p (run_new s) e (t @ u) \<and> one_request e (t @ u)" by simp
  qed
  show ?thesis
    unfolding run_turn_def
  proof (rule yields_bind, rule yields_halted)
    fix halt :: "run_outcome option"
    show "yields ((case halt of
        Some outcome \<Rightarrow> end_run outcome r
      | None \<Rightarrow> do {
          (r, queued) \<leftarrow> prepare_next_turn cf r;
          r \<leftarrow> append_messages cf queued (r\<lparr>run_pending := []\<rparr>);
          r \<leftarrow> prepare_next_request cf r;
          response \<leftarrow> stream_assistant_response cf stream r;
          (case response of
             Inl (StoppedBy outcome) \<Rightarrow> end_run outcome r
           | Inl e \<Rightarrow> State_Monad.return (Failed e)
           | Inr m \<Rightarrow> complete_turn cf m r)
        }) :: ('w, 'c, _) loop) (\<lambda>e t. turn_ok ?p (run_new r) e ([] @ t) \<and> one_request e ([] @ t))"
    proof (cases halt)
      case (Some outcome)
      then show ?thesis
        by (auto simp: one_request_def intro!: yields_mono [OF end_run_yields [of _ _ ?p]])
    next
      case None
      have "turn_ok ?p (run_new r) e (t @ u) \<and> one_request e (t @ u)"
        if "run_new s = run_new r \<and> announces ?p [] t \<and> requests t = []"
          "turn_ok ?p (run_new s) e u \<and> one_request e u" for s e and t u :: "'c action list"
        using that turn_ok_after [of ?p "[]" t "run_new r" e u] by simp
      then show ?thesis
        unfolding None option.case append_Nil
        by (intro yields_bind, intro yields_mono [OF next_turn_yields [of _ _ ?p]] yields_case_prod yields_mono [OF appended])
          auto
    qed
  qed
qed

section \<open>The run\<close>

definition run_ok ::
  "(tool \<Rightarrow> string) \<Rightarrow> 'c agent_message list \<Rightarrow> 'c turn_end option \<Rightarrow> 'c action list \<Rightarrow> bool" where
  "run_ok print new result t \<longleftrightarrow>
     (case result of
        None \<Rightarrow> (\<exists>ms. announces print ms t)
      | Some (GoesOn _) \<Rightarrow> False
      | Some e \<Rightarrow> turn_ok print new e t)"

lemma run_ok_after:
  assumes "announces print ms t" and "run_ok print (new @ ms) result u"
  shows "run_ok print new result (t @ u)"
proof (cases result)
  case None
  with assms announces_append [OF assms(1)] show ?thesis by (auto simp: run_ok_def)
next
  case (Some e)
  with assms turn_ok_after [OF assms(1)] show ?thesis by (cases e) (auto simp: run_ok_def)
qed

lemma ended_run_yields:
  "yields (do {
     ended \<leftarrow> end_run FinishedTurn r;
     State_Monad.return (Some ended)
   }) (run_ok print (run_new r))"
  by (intro yields_bind yields_mono [OF end_run_yields [of _ _ print]] yields_return) (auto simp: run_ok_def)

lemma run_next_yields:
  "yields (next_turn cf r) (\<lambda>next t. t = [] \<and> (case next of Some s \<Rightarrow> run_new s = run_new r | None \<Rightarrow> True))"
  by (auto simp: next_turn_def intro!: yields_rules yields_poll)

lemma run_turns_yields:
  "yields (run_turns n cf stream r :: ('w, 'c, _) loop) (run_ok (cf_print cf) (run_new r))"
proof (induction n arbitrary: r)
  case 0
  show ?case by (auto simp: run_ok_def intro!: yields_return exI [of _ "[]"])
next
  case (Suc n)
  let ?p = "cf_print cf"
  have more: "yields ((case ended of
        GoesOn r \<Rightarrow> run_turns n cf stream r
      | _ \<Rightarrow> State_Monad.return (Some ended)) :: ('w, 'c, _) loop) (\<lambda>result u. run_ok ?p new result (t @ u))"
    if "turn_ok ?p new ended t" for new ended and t :: "'c action list"
  proof (cases ended)
    case (GoesOn s)
    with that obtain ms where "run_new s = new @ ms" "announces ?p ms t" by (auto simp: turn_ok_def)
    with GoesOn run_ok_after [of ?p ms t new] Suc.IH [of s] show ?thesis
      by (auto elim: yields_mono)
  qed (use that in \<open>simp_all add: run_ok_def yields_return\<close>)
  have turn: "yields (do {
        ended \<leftarrow> run_turn cf stream s;
        (case ended of
           GoesOn r \<Rightarrow> run_turns n cf stream r
         | _ \<Rightarrow> State_Monad.return (Some ended))
      } :: ('w, 'c, _) loop) (run_ok ?p (run_new s))" for s
    by (rule yields_bind, rule yields_mono [OF run_turn_yields], elim conjE, erule more)
  show ?case
    unfolding run_turns.simps
  proof (rule yields_bind, rule yields_mono [OF run_next_yields], elim conjE)
    fix "next" :: "'c agent_run option" and t :: "'c action list"
    assume t: "t = []" "case next of Some s \<Rightarrow> run_new s = run_new r | None \<Rightarrow> True"
    show "yields ((case next of
          None \<Rightarrow> do {
            ended \<leftarrow> end_run FinishedTurn r;
            State_Monad.return (Some ended)
          }
        | Some r \<Rightarrow> do {
            ended \<leftarrow> run_turn cf stream r;
            (case ended of
               GoesOn r \<Rightarrow> run_turns n cf stream r
             | _ \<Rightarrow> State_Monad.return (Some ended))
          }) :: ('w, 'c, _) loop) (\<lambda>result u. run_ok ?p (run_new r) result (t @ u))"
    proof (cases "next")
      case None
      then show ?thesis using t(1) ended_run_yields [of r ?p] by simp
    next
      case (Some s)
      then have "run_new s = run_new r" using t(2) by simp
      with turn [of s] show ?thesis unfolding Some option.case t(1) append_Nil by simp
    qed
  qed
qed

lemma run_loop_yields: "yields (run_loop n cf stream ctx new :: ('w, 'c, _) loop) (run_ok (cf_print cf) new)"
  unfolding run_loop_def
  by (rule yields_bind, rule yields_poll, rule yields_mono [OF run_turns_yields]) (simp add: first_run_def)

lemma announces_start [simp]:
  "announces print ms (Emitted AgentStart # t) \<longleftrightarrow> announces print ms t"
  "announces print ms (Emitted TurnStart # t) \<longleftrightarrow> announces print ms t"
  by (simp_all add: announces_def requests_declared_def)

lemma run_agent_yields: "yields (run_agent_loop n cf prompts ctx :: ('w, 'c, _) loop) (run_ok (cf_print cf) [])"
proof (cases "on_stream cf")
  case None
  then show ?thesis
    by (auto simp: run_agent_loop_def run_ok_def turn_ok_def intro!: yields_return exI [of _ "[]"])
next
  case (Some stream)
  let ?p = "cf_print cf"
  have start: "run_ok ?p [] result ([Emitted AgentStart] @ [Emitted TurnStart] @ t @ u)"
    if "announces ?p ms t" "run_ok ?p ms result u" for ms result and t u :: "'c action list"
    using that run_ok_after [of ?p ms "[Emitted AgentStart] @ [Emitted TurnStart] @ t" "[]" result u] by simp
  show ?thesis
    unfolding run_agent_loop_def Some option.case Let_def
    by (intro yields_bind yields_ask yields_emit, rule yields_mono [OF emit_messages_yields [of _ ?p]],
        rule yields_mono [OF run_loop_yields], unfold append_Nil, elim conjE, rule start)
qed

lemma run_continue_yields:
  "yields (run_agent_loop_continue n cf ctx :: ('w, 'c, _) loop) (run_ok (cf_print cf) [])"
proof -
  let ?p = "cf_print cf"
  have failed: "yields (State_Monad.return (Some (Failed e)) :: ('w, 'c, _) loop) (run_ok ?p [])" for e
    by (auto simp: run_ok_def turn_ok_def intro!: yields_return exI [of _ "[]"])
  have start: "run_ok ?p [] result ([Emitted AgentStart] @ [Emitted TurnStart] @ u)"
    if "run_ok ?p [] result u" for result and u :: "'c action list"
    using that run_ok_after [of ?p "[]" "[Emitted AgentStart] @ [Emitted TurnStart]" "[]" result u] by simp
  have "yields (do {
        emit AgentStart;
        emit TurnStart;
        run_loop n cf stream ctx []
      } :: ('w, 'c, _) loop) (run_ok ?p [])" for stream
    by (intro yields_bind yields_emit, rule yields_mono [OF run_loop_yields]) (use start in simp)
  with failed show ?thesis
    unfolding run_agent_loop_continue_def by (auto split: sum.split option.split)
qed

text \<open>C3. Whatever the model, the tools, the hooks and the other tasks do, a run that ends announces its
  end once, as its last event, and the messages it reports there and returns are exactly those whose
  end it announced, in that order: none is lost, repeated or unannounced. A run that fails announces
  no end.\<close>

theorem run_reports_its_messages:
  "yields (run_agent_loop n cf prompts ctx) (\<lambda>result t.
     case result of
       Some (Finished _ ms) \<Rightarrow>
         (\<exists>u. t = u @ [Emitted (AgentEnd ms)] \<and> run_ends u = [] \<and> ended_messages u = ms)
     | Some (GoesOn _) \<Rightarrow> False
     | _ \<Rightarrow> run_ends t = [])"
  by (rule yields_mono [OF run_agent_yields])
    (auto simp: run_ok_def turn_ok_def announces_def split: option.splits turn_end.splits)


end
