(* ===== verification/AgentMeter.thy ===== *)
theory AgentMeter
  imports AgentRun
begin

text \<open>
  A run of the agent loop under a control with an allowance of model calls. The contract between the
  loop and its control is a locale: an admission takes from what is left, nothing gives back. From
  it the loop ends, within one turn more than the calls left, and sends at most that many requests.
  The interpretation is the control of \<open>run_control.rs\<close>.
\<close>

section \<open>The contract of an allowance\<close>

text \<open>A callback keeps the allowance: it may take from it, and never adds to it.\<close>

definition keeps :: "('w \<Rightarrow> bool) \<Rightarrow> ('w \<Rightarrow> nat) \<Rightarrow> ('w \<Rightarrow> 'a \<times> 'w) \<Rightarrow> bool" where
  "keeps ok left f \<longleftrightarrow> (\<forall>w. ok w \<longrightarrow> ok (snd (f w)) \<and> left (snd (f w)) \<le> left w)"

definition keeps_option :: "('w \<Rightarrow> bool) \<Rightarrow> ('w \<Rightarrow> nat) \<Rightarrow> ('w \<Rightarrow> 'a \<times> 'w) option \<Rightarrow> bool" where
  "keeps_option ok left x \<longleftrightarrow> (case x of None \<Rightarrow> True | Some f \<Rightarrow> keeps ok left f)"

text \<open>Every callback of the tools and of the loop keeps it.\<close>

definition tools_keep :: "('w \<Rightarrow> bool) \<Rightarrow> ('w \<Rightarrow> nat) \<Rightarrow> 'w tool_config \<Rightarrow> bool" where
  "tools_keep ok left tc \<longleftrightarrow>
     (\<forall>c args parent. keeps_option ok left (map_option (\<lambda>f. f c args parent) (on_before tc))) \<and>
     (\<forall>c tool args. keeps ok left (on_execute tc c tool args)) \<and>
     keeps ok left (on_aborted tc) \<and> keeps ok left (on_now tc)"

definition loop_keeps :: "('w \<Rightarrow> bool) \<Rightarrow> ('w \<Rightarrow> nat) \<Rightarrow> ('w, 'c) agent_config \<Rightarrow> bool" where
  "loop_keeps ok left cf \<longleftrightarrow>
     tools_keep ok left (cf_tools cf) \<and>
     (\<forall>ms. keeps_option ok left (map_option (\<lambda>f. f ms) (on_transform cf))) \<and>
     (\<forall>ms. keeps ok left (on_convert cf ms)) \<and>
     (\<forall>p. keeps_option ok left (map_option (\<lambda>f. f p) (on_key cf))) \<and>
     (\<forall>q. keeps_option ok left (map_option (\<lambda>f. f q) (on_stream cf))) \<and>
     (\<forall>m rs ctx ms. keeps_option ok left (map_option (\<lambda>f. f m rs ctx ms) (on_finish cf))) \<and>
     (\<forall>m rs ctx ms. keeps_option ok left (map_option (\<lambda>f. f m rs ctx ms) (on_prepare_turn cf))) \<and>
     (\<forall>ctx model level. keeps_option ok left (map_option (\<lambda>f. f ctx model level) (on_prepare_request cf))) \<and>
     keeps_option ok left (on_steering cf) \<and> keeps_option ok left (on_follow_up cf)"

section \<open>Paying for requests\<close>

text \<open>With \<open>p\<close> requests paid, \<open>m\<close> sends no more than those and what it takes from the allowance, and
  leaves \<open>q a\<close> of them paid.\<close>

definition paid ::
  "('w \<Rightarrow> bool) \<Rightarrow> ('w \<Rightarrow> nat) \<Rightarrow> nat \<Rightarrow> ('w, 'c, 'a) loop \<Rightarrow> ('a \<Rightarrow> nat) \<Rightarrow> bool" where
  "paid ok left p m q \<longleftrightarrow>
     (\<forall>s. ok (world s) \<longrightarrow>
        ok (world (snd (run_state m s))) \<and>
        length (requests (trace (snd (run_state m s)))) + left (world (snd (run_state m s))) + q (fst (run_state m s))
          \<le> length (requests (trace s)) + left (world s) + p)"

lemma paid_return: "q a \<le> p \<Longrightarrow> paid ok left p (State_Monad.return a) q"
  by (simp add: paid_def)

lemma paid_act: "length (requests [a]) + q () \<le> p \<Longrightarrow> paid ok left p (act a) q"
  by (simp add: paid_def act_def)

lemma paid_bind:
  fixes m :: "('w, 'c, 'a) loop"
  assumes "paid ok left p m h" and "\<And>a. paid ok left (h a) (f a) q"
  shows "paid ok left p (State_Monad.bind m f) q"
  unfolding paid_def
proof (intro allI impI)
  fix s :: "('w, 'c) io"
  assume "ok (world s)"
  obtain a s1 where m: "run_state m s = (a, s1)" by fastforce
  with assms(1) \<open>ok (world s)\<close> have s1: "ok (world s1)"
    "length (requests (trace s1)) + left (world s1) + h a \<le> length (requests (trace s)) + left (world s) + p"
    unfolding paid_def by (metis fst_conv snd_conv)+
  obtain b s2 where f: "run_state (f a) s1 = (b, s2)" by fastforce
  with assms(2) [of a] s1(1) have "ok (world s2)"
    "length (requests (trace s2)) + left (world s2) + q b \<le> length (requests (trace s1)) + left (world s1) + h a"
    unfolding paid_def by (metis fst_conv snd_conv)+
  with m f s1(2) show "ok (world (snd (run_state (State_Monad.bind m f) s))) \<and>
      length (requests (trace (snd (run_state (State_Monad.bind m f) s)))) +
        left (world (snd (run_state (State_Monad.bind m f) s))) + q (fst (run_state (State_Monad.bind m f) s))
      \<le> length (requests (trace s)) + left (world s) + p"
    by simp
qed

text \<open>A computation whose callbacks keep the allowance.\<close>

definition free :: "('w \<Rightarrow> bool) \<Rightarrow> ('w \<Rightarrow> nat) \<Rightarrow> ('w, 'c, 'a) loop \<Rightarrow> bool" where
  "free ok left m \<longleftrightarrow>
     (\<forall>s. ok (world s) \<longrightarrow>
        ok (world (snd (run_state m s))) \<and> left (world (snd (run_state m s))) \<le> left (world s))"

named_theorems free_rules \<open>rules of \<open>free\<close>\<close>

lemma free_unit [free_rules]:
  "free ok left (State_Monad.return a)" "free ok left (act b)" "free ok left (acts bs)" "free ok left (emit e)"
  by (simp_all add: free_def act_def acts_def emit_def)

lemma free_ask [free_rules]: "keeps ok left f \<Longrightarrow> free ok left (ask f)"
  unfolding free_def keeps_def ask_def by (simp split: prod.split) (metis snd_conv)

lemma free_bind [free_rules]:
  fixes m :: "('w, 'c, 'a) loop"
  shows "free ok left m \<Longrightarrow> (\<And>a. free ok left (f a)) \<Longrightarrow> free ok left (State_Monad.bind m f)"
proof -
  assume m: "free ok left m" and f: "\<And>a. free ok left (f a)"
  show ?thesis
    unfolding free_def
  proof (intro allI impI)
    fix s :: "('w, 'c) io"
    assume "ok (world s)"
    obtain a s1 where s1: "run_state m s = (a, s1)" by fastforce
    with m \<open>ok (world s)\<close> have "ok (world s1) \<and> left (world s1) \<le> left (world s)"
      unfolding free_def by (metis snd_conv)
    with f [of a] s1 show "ok (world (snd (run_state (State_Monad.bind m f) s))) \<and>
        left (world (snd (run_state (State_Monad.bind m f) s))) \<le> left (world s)"
      unfolding free_def by (simp, meson le_trans)
  qed
qed

lemma free_is_aborted [free_rules]: "keeps ok left f \<Longrightarrow> free ok left (is_aborted f)"
  unfolding is_aborted_def by (intro free_rules)

lemma free_cases [free_rules]:
  "(\<And>a b. free ok left (g a b)) \<Longrightarrow> free ok left (case p of (a, b) \<Rightarrow> g a b)"
  "(\<And>a. free ok left (k a)) \<Longrightarrow> (\<And>a. free ok left (l a)) \<Longrightarrow> free ok left (case y of Inl a \<Rightarrow> k a | Inr a \<Rightarrow> l a)"
  "free ok left m \<Longrightarrow> free ok left n \<Longrightarrow> free ok left (if c then m else n)"
  "(\<And>a b. free ok left (i a b)) \<Longrightarrow> (\<And>a b. free ok left (j a b)) \<Longrightarrow>
     free ok left (case z of Prepared a b \<Rightarrow> i a b | Immediate a b \<Rightarrow> j a b)"
  by (simp_all split: prod.split sum.split preparation.split)

text \<open>A callback that may not be installed.\<close>

lemma free_option [free_rules]:
  "free ok left n \<Longrightarrow> (\<And>a. x = Some a \<Longrightarrow> free ok left (h a)) \<Longrightarrow> free ok left (case x of None \<Rightarrow> n | Some a \<Rightarrow> h a)"
  by (simp split: option.split)

lemma keeps_option_simps [simp]:
  "keeps_option ok left None" "keeps_option ok left (Some f) \<longleftrightarrow> keeps ok left f"
  by (simp_all add: keeps_option_def)

lemma paid_free:
  fixes m :: "('w, 'c, 'a) loop"
  shows "free ok left m \<Longrightarrow> yields m (\<lambda>_ t. requests t = []) \<Longrightarrow> paid ok left p m (\<lambda>_. p)"
  unfolding paid_def
proof (intro allI impI)
  fix s :: "('w, 'c) io"
  assume "free ok left m" "yields m (\<lambda>_ t. requests t = [])" "ok (world s)"
  then have "ok (world (snd (run_state m s)))" "left (world (snd (run_state m s))) \<le> left (world s)"
    "requests (trace (snd (run_state m s))) = requests (trace s)"
    unfolding free_def yields_def by (blast, blast, metis append_Nil2 run_trace_append(2))
  then show "ok (world (snd (run_state m s))) \<and>
      length (requests (trace (snd (run_state m s)))) + left (world (snd (run_state m s))) + p
      \<le> length (requests (trace s)) + left (world s) + p" by simp
qed

section \<open>The callbacks of a turn\<close>

lemma free_prepare: "tools_keep ok left tc \<Longrightarrow> free ok left (prepare_tool_call tc tools parent c)"
  unfolding prepare_tool_call_def call_before_def judge_call_def clear_call_def
  by (intro free_rules) (auto simp: tools_keep_def)

lemma free_answer: "tools_keep ok left tc \<Longrightarrow> free ok left (answer_call tc fin)"
  unfolding answer_call_def emit_tool_result_message_def Let_def
  by (intro free_rules) (simp add: tools_keep_def)

lemma free_sequential: "tools_keep ok left tc \<Longrightarrow> free ok left (execute_tool_calls_sequential tc tools cs)"
proof (induction cs)
  case (Cons c cs)
  then show ?case
    unfolding execute_tool_calls_sequential.simps run_sequential_call_def
    by (intro free_rules free_prepare free_answer) (simp_all add: tools_keep_def)
qed (simp add: free_unit)

lemma free_truncated: "tools_keep ok left tc \<Longrightarrow> free ok left (fail_truncated_calls tc cs)"
  by (induction cs) (auto simp: Let_def intro!: free_rules free_answer)

lemma free_answers: "tools_keep ok left tc \<Longrightarrow> free ok left (answer_calls tc fins)"
  by (induction fins) (auto intro!: free_rules free_answer)

lemma free_enter: "tools_keep ok left tc \<Longrightarrow> free ok left (enter_calls tc tools cs)"
proof (induction cs)
  case (Cons c cs)
  then show ?case
    unfolding enter_calls.simps enter_call_def
    by (intro free_rules free_prepare) (simp_all add: tools_keep_def)
qed (simp add: free_unit)

lemma free_batch: "tools_keep ok left tc \<Longrightarrow> free ok left (run_tool_batch tc tools m)"
  unfolding run_tool_batch_def execute_tool_calls_def execute_tool_calls_parallel_def
  by (intro free_rules free_truncated free_sequential free_enter free_answers)

lemma free_poll: "keeps_option ok left source \<Longrightarrow> free ok left (poll_messages source)"
  unfolding poll_messages_def by (intro free_rules) simp

lemma free_emit_messages: "free ok left (emit_messages ms)"
  by (induction ms) (auto intro!: free_rules)

lemma free_append: "loop_keeps ok left cf \<Longrightarrow> free ok left (append_messages cf queued r)"
  unfolding append_messages_def Let_def
  by (intro free_rules free_emit_messages) (simp add: loop_keeps_def tools_keep_def)

lemma free_next_turn: "loop_keeps ok left cf \<Longrightarrow> free ok left (prepare_next_turn cf r)"
  unfolding prepare_next_turn_def Let_def
  by (intro free_rules free_poll) (auto simp: loop_keeps_def)

lemma free_next_request: "loop_keeps ok left cf \<Longrightarrow> free ok left (prepare_next_request cf r)"
  unfolding prepare_next_request_def
  by (intro free_rules free_append) (auto simp: loop_keeps_def)

lemma free_transcript: "loop_keeps ok left cf \<Longrightarrow> free ok left (request_transcript cf ctx)"
  unfolding request_transcript_def by (intro free_rules) (auto simp: loop_keeps_def)

lemma free_key: "loop_keeps ok left cf \<Longrightarrow> free ok left (request_key cf model)"
  unfolding request_key_def by (intro free_rules) (auto simp: loop_keeps_def)

lemma free_forward: "free ok left (forward_events added es)"
  by (induction added es rule: forward_events.induct) (auto intro!: free_rules)

lemma free_finish: "loop_keeps ok left cf \<Longrightarrow> free ok left (finish_response cf model reasoning answer)"
  unfolding finish_response_def Let_def
  by (cases answer) (auto simp: loop_keeps_def tools_keep_def intro!: free_rules free_forward)

lemma free_complete: "loop_keeps ok left cf \<Longrightarrow> free ok left (complete_turn cf m r)"
proof -
  assume keep: "loop_keeps ok left cf"
  then have hooks: "free ok left (finish_turn cf m results s)" for results s
    unfolding finish_turn_def by (intro free_rules) (auto simp: loop_keeps_def)
  show ?thesis
    unfolding complete_turn_def end_run_def Let_def
    by (intro free_rules free_batch free_poll hooks) (use keep in \<open>simp_all add: loop_keeps_def\<close>)
qed

section \<open>A run within its allowance\<close>

text \<open>What the loop relies on: a check for a stop gives nothing back, and an admitted request takes at
  least one from what is left.\<close>

locale allowance =
  fixes ok :: "'w \<Rightarrow> bool" and left :: "'w \<Rightarrow> nat" and gate :: "'w run_gate"
  assumes stop_keeps: "keeps ok left (gate_stopped gate)"
    and admit_keeps: "keeps ok left (gate_admit gate model)"
    and admit_takes: "ok w \<Longrightarrow> gate_admit gate model w = (None, w') \<Longrightarrow> left w' < left w"
begin

lemma paid_admit:
  assumes "on_control cf = Some gate"
  shows "paid ok left 0 (admit_request cf model :: ('w, 'c, _) loop) (\<lambda>r. if r = None then 1 else 0)"
  unfolding paid_def
proof (intro allI impI)
  fix s :: "('w, 'c) io"
  assume s: "ok (world s)"
  obtain r w where g: "gate_admit gate model (world s) = (r, w)" by fastforce
  then have "ok w" "left w \<le> left (world s)" using admit_keeps [of model] s unfolding keeps_def by (metis snd_conv)+
  moreover have "r = None \<Longrightarrow> left w < left (world s)" using admit_takes [OF s] g by simp
  ultimately show "ok (world (snd (run_state (admit_request cf model) s))) \<and>
      length (requests (trace (snd (run_state (admit_request cf model) s)))) +
        left (world (snd (run_state (admit_request cf model) s))) +
        (if fst (run_state (admit_request cf model) s) = None then 1 else 0)
      \<le> length (requests (trace s)) + left (world s) + 0"
    using g by (simp add: admit_request_def assms ask_def) linarith
qed

lemma paid_finish: "loop_keeps ok left cf \<Longrightarrow> paid ok left 0 (finish_response cf model reasoning answer) (\<lambda>_. 0)"
  by (rule paid_free [OF free_finish], assumption, rule yields_mono [OF finish_yields [of _ _ _ _ "cf_print cf"]]) simp

lemma paid_stream:
  assumes "on_control cf = Some gate" and keep: "loop_keeps ok left cf" and "on_stream cf = Some stream"
  shows "paid ok left 0 (stream_assistant_response cf stream r :: ('w, 'c, _) loop) (\<lambda>_. 0)"
proof -
  have quiet: "yields (request_transcript cf ctx) (\<lambda>_ t. requests t = [])" "yields (request_key cf model) (\<lambda>_ t. requests t = [])"
    for ctx model
    unfolding request_transcript_def request_key_def by (auto split: option.split intro!: yields_rules)
  have sent: "keeps ok left (stream q)" for q using assms(3) keep by (simp add: loop_keeps_def)
  have answered: "paid ok left 0 (case response of
        Inl e \<Rightarrow> State_Monad.return (Inl (StreamFailed e))
      | Inr answer \<Rightarrow> do {
          m \<leftarrow> finish_response cf (run_model r) (run_reasoning r) answer;
          State_Monad.return (Inr m)
        }) (\<lambda>_. 0)" for response
    by (cases response) (auto intro!: paid_return paid_bind [OF paid_finish [OF keep]])
  show ?thesis
    unfolding stream_assistant_response_def Let_def
  proof (rule paid_bind [OF paid_free [OF free_transcript [OF keep] quiet(1)]],
      rule paid_bind [OF paid_free [OF free_key [OF keep] quiet(2)]], rule paid_bind [OF paid_admit [OF assms(1)]])
    fix transcript key refused
    show "paid ok left (if refused = None then 1 else 0) ((case refused of
          Some refusal \<Rightarrow> State_Monad.return (Inl (StoppedBy refusal))
        | None \<Rightarrow> do {
            act (Requested \<lparr>req_context = run_context r, req_transcript = transcript, req_model = run_model r,
              req_reasoning = run_reasoning r, req_key = key\<rparr>);
            response \<leftarrow> ask (stream \<lparr>req_context = run_context r, req_transcript = transcript, req_model = run_model r,
              req_reasoning = run_reasoning r, req_key = key\<rparr>);
            (case response of
               Inl e \<Rightarrow> State_Monad.return (Inl (StreamFailed e))
             | Inr answer \<Rightarrow> do {
                 m \<leftarrow> finish_response cf (run_model r) (run_reasoning r) answer;
                 State_Monad.return (Inr m)
               })
          }) :: ('w, 'c, _) loop) (\<lambda>_. 0)"
    proof (cases refused)
      case None
      show ?thesis
        unfolding None option.case
        by (rule paid_bind [of _ _ _ _ "\<lambda>_. 0"], rule paid_act, simp, rule paid_bind [of _ _ _ _ "\<lambda>_. 0"],
            rule paid_free [OF free_ask [OF sent]], rule yields_ask, simp, rule answered)
    qed (simp add: paid_return)
  qed
qed

lemma paid_turn:
  assumes "on_control cf = Some gate" and keep: "loop_keeps ok left cf" and "on_stream cf = Some stream"
  shows "paid ok left 0 (run_turn cf stream r :: ('w, 'c, _) loop) (\<lambda>_. 0)"
proof -
  have ends: "paid ok left 0 (end_run outcome s :: ('w, 'c, _) loop) (\<lambda>_. 0)" for outcome s
    by (rule paid_free, simp add: end_run_def free_rules, rule yields_mono [OF end_run_yields [of _ _ "cf_print cf"]]) simp
  have answered: "paid ok left 0 ((case response of
        Inl (StoppedBy outcome) \<Rightarrow> end_run outcome s
      | Inl e \<Rightarrow> State_Monad.return (Failed e)
      | Inr m \<Rightarrow> complete_turn cf m s) :: ('w, 'c, _) loop) (\<lambda>_. 0)" for response s
    using paid_free [OF free_complete [OF keep] yields_mono [OF complete_yields [of _ _ _ "cf_print cf"]]]
    by (cases response) (auto intro!: ends paid_return split: loop_error.split)
  have halt: "free ok left (control_stopped cf :: ('w, 'c, _) loop)"
    using stop_keeps by (simp add: control_stopped_def assms(1) free_ask)
  have turn: "paid ok left 0 (prepare_next_turn cf s :: ('w, 'c, _) loop) (\<lambda>_. 0)" for s
    by (rule paid_free [OF free_next_turn [OF keep]], rule yields_mono [OF next_turn_yields [of _ _ "cf_print cf"]]) (simp add: case_prod_beta)
  have append: "paid ok left 0 (append_messages cf queued s :: ('w, 'c, _) loop) (\<lambda>_. 0)" for queued s
    by (rule paid_free [OF free_append [OF keep]], rule yields_mono [OF append_yields]) blast
  have quiet_request: "yields (prepare_next_request cf s :: ('w, 'c, _) loop) (\<lambda>_ t. requests t = [])" for s
    unfolding prepare_next_request_def
    by (auto split: option.split intro!: yields_bind yields_ask yields_return yields_mono [OF append_yields])
  have request: "paid ok left 0 (prepare_next_request cf s :: ('w, 'c, _) loop) (\<lambda>_. 0)" for s
    by (rule paid_free [OF free_next_request [OF keep] quiet_request])
  show ?thesis
    unfolding run_turn_def
  proof (rule paid_bind [OF paid_free [OF halt yields_halted]])
    fix halt :: "run_outcome option"
    show "paid ok left 0 ((case halt of
        Some outcome \<Rightarrow> end_run outcome r
      | None \<Rightarrow> do {
          (r, queued) \<leftarrow> prepare_next_turn cf r;
          r \<leftarrow> append_messages cf queued (r\<lparr>run_pending := []\<rparr>);
          r \<leftarrow> prepare_next_request cf r;
          response \<leftarrow> stream_assistant_response cf stream r;
          (case response of
             Inl (StoppedBy outcome) \<Rightarrow> end_run outcome r
           | Inl e \<Rightarrow> State_Monad.return (Failed e)
           | Inr m \<Rightarrow> complete_turn cf m r)
        }) :: ('w, 'c, _) loop) (\<lambda>_. 0)"
    proof (cases halt)
      case None
      show ?thesis
        unfolding None option.case
        by (rule paid_bind [OF turn], unfold case_prod_beta, rule paid_bind [OF append], rule paid_bind [OF request],
            rule paid_bind [OF paid_stream [OF assms]], rule answered)
    qed (simp add: ends)
  qed simp
qed

end

text \<open>\<open>m\<close> returns where less than \<open>n\<close> is left, and sends no more requests than are left.\<close>

definition bounded ::
  "('w \<Rightarrow> bool) \<Rightarrow> ('w \<Rightarrow> nat) \<Rightarrow> nat \<Rightarrow> ('w, 'c, 'a option) loop \<Rightarrow> bool" where
  "bounded ok left n m \<longleftrightarrow>
     (\<forall>s. ok (world s) \<longrightarrow> left (world s) < n \<longrightarrow>
        fst (run_state m s) \<noteq> None \<and>
        length (requests (trace (snd (run_state m s)))) \<le> length (requests (trace s)) + left (world s))"

lemma bounded_some: "bounded ok left n (State_Monad.return (Some a))"
  by (simp add: bounded_def)

lemma bounded_bind:
  fixes m :: "('w, 'c, 'a) loop"
  assumes "free ok left m" and quiet: "yields m (\<lambda>a t. requests t = [] \<and> R a)" and rest: "\<And>a. R a \<Longrightarrow> bounded ok left n (f a)"
  shows "bounded ok left n (State_Monad.bind m f)"
  unfolding bounded_def
proof (intro allI impI)
  fix s :: "('w, 'c) io"
  assume s: "ok (world s)" "left (world s) < n"
  obtain a s1 where m: "run_state m s = (a, s1)" by fastforce
  with assms(1) s(1) have s1: "ok (world s1)" "left (world s1) \<le> left (world s)" unfolding free_def by (metis snd_conv)+
  from quiet m have a: "requests (trace s1) = requests (trace s)" "R a"
    unfolding yields_def by (metis append_Nil2 fst_conv run_trace_append(2) snd_conv)+
  from rest [OF a(2)] s1 s(2) have "fst (run_state (f a) s1) \<noteq> None"
    "length (requests (trace (snd (run_state (f a) s1)))) \<le> length (requests (trace s1)) + left (world s1)"
    unfolding bounded_def by (meson le_less_trans)+
  with m s1(2) a(1) show "fst (run_state (State_Monad.bind m f) s) \<noteq> None \<and>
      length (requests (trace (snd (run_state (State_Monad.bind m f) s)))) \<le> length (requests (trace s)) + left (world s)"
    by simp
qed

context allowance begin

lemma turns_bounded:
  assumes "on_control cf = Some gate" and keep: "loop_keeps ok left cf" and "on_stream cf = Some stream"
  shows "bounded ok left n (run_turns n cf stream r :: ('w, 'c, _) loop)"
proof (induction n arbitrary: r)
  case 0
  then show ?case by (simp add: bounded_def)
next
  case (Suc n)
  have ended: "bounded ok left (Suc n) (do {
        ended \<leftarrow> end_run FinishedTurn s;
        State_Monad.return (Some ended)
      } :: ('w, 'c, _) loop)" for s
    by (rule bounded_bind [of _ _ _ "\<lambda>_. True"], simp add: end_run_def free_rules,
        rule yields_mono [OF end_run_yields [of _ _ "cf_print cf"]]) (simp_all add: bounded_some)
  have turn: "bounded ok left (Suc n) (do {
        ended \<leftarrow> run_turn cf stream s;
        (case ended of
           GoesOn r \<Rightarrow> run_turns n cf stream r
         | _ \<Rightarrow> State_Monad.return (Some ended))
      } :: ('w, 'c, _) loop)" for s
    unfolding bounded_def
  proof (intro allI impI)
    fix x :: "('w, 'c) io"
    assume x: "ok (world x)" "left (world x) < Suc n"
    obtain e y where y: "run_state (run_turn cf stream s :: ('w, 'c, _) loop) x = (e, y)" by fastforce
    have paid: "ok (world y)" "length (requests (trace y)) + left (world y) \<le> length (requests (trace x)) + left (world x)"
      using paid_turn [OF assms, of s] x(1) y unfolding paid_def by (metis add_0_right snd_conv)+
    obtain t where t: "trace y = trace x @ t" "one_request e t"
      using run_turn_yields [of cf stream s] y unfolding yields_def by (metis fst_conv snd_conv)
    show "fst (run_state (do {
          ended \<leftarrow> run_turn cf stream s;
          (case ended of
             GoesOn r \<Rightarrow> run_turns n cf stream r
           | _ \<Rightarrow> State_Monad.return (Some ended))
        }) x) \<noteq> None \<and>
        length (requests (trace (snd (run_state (do {
          ended \<leftarrow> run_turn cf stream s;
          (case ended of
             GoesOn r \<Rightarrow> run_turns n cf stream r
           | _ \<Rightarrow> State_Monad.return (Some ended))
        }) x)))) \<le> length (requests (trace x)) + left (world x)"
    proof (cases e)
      case (GoesOn r')
      then have "0 < length (requests t)" using t(2) by (simp add: one_request_def)
      moreover have "length (requests t) + left (world y) \<le> left (world x)" using paid(2) t(1) by simp
      ultimately have "left (world y) < n" using x(2) by linarith
      with Suc.IH [of r'] paid(1) have "fst (run_state (run_turns n cf stream r') y) \<noteq> None"
        "length (requests (trace (snd (run_state (run_turns n cf stream r') y)))) \<le> length (requests (trace y)) + left (world y)"
        unfolding bounded_def by blast+
      with GoesOn y paid(2) show ?thesis by simp
    qed (use y paid(2) in simp_all)
  qed
  show ?case
    unfolding run_turns.simps
  proof (rule bounded_bind [of _ _ _ "\<lambda>_. True"])
    show "free ok left (next_turn cf r :: ('w, 'c, _) loop)"
      unfolding next_turn_def by (intro free_rules free_poll) (use keep in \<open>simp add: loop_keeps_def\<close>)
    show "yields (next_turn cf r :: ('w, 'c, _) loop) (\<lambda>_ t. requests t = [] \<and> True)"
      by (rule yields_mono [OF run_next_yields]) simp
    fix "next" :: "'c agent_run option"
    show "bounded ok left (Suc n) ((case next of
        None \<Rightarrow> do {
          ended \<leftarrow> end_run FinishedTurn r;
          State_Monad.return (Some ended)
        }
      | Some r \<Rightarrow> do {
          ended \<leftarrow> run_turn cf stream r;
          (case ended of
             GoesOn r \<Rightarrow> run_turns n cf stream r
           | _ \<Rightarrow> State_Monad.return (Some ended))
        }) :: ('w, 'c, _) loop)"
      by (cases "next") (simp_all add: ended turn)
  qed
qed

lemma run_bounded:
  assumes "on_control cf = Some gate" and keep: "loop_keeps ok left cf"
  shows "bounded ok left n (run_agent_loop n cf prompts ctx :: ('w, 'c, _) loop)"
proof (cases "on_stream cf")
  case None
  then show ?thesis by (simp add: run_agent_loop_def bounded_some)
next
  case (Some stream)
  have polled: "yields (poll_messages source :: ('w, 'c, _) loop) (\<lambda>_ t. requests t = [] \<and> True)" for source
    by (rule yields_poll) simp
  have emitted: "yields (emit e :: ('w, 'c, _) loop) (\<lambda>_ t. requests t = [] \<and> True)"
    "yields (emit_messages ms :: ('w, 'c, _) loop) (\<lambda>_ t. requests t = [] \<and> True)" for e ms
    by (rule yields_emit, simp, rule yields_mono [OF emit_messages_yields [of _ "cf_print cf"]]) simp
  have asked: "yields (ask (on_now (cf_tools cf)) :: ('w, 'c, _) loop) (\<lambda>_ t. requests t = [] \<and> True)"
    by (rule yields_ask) simp
  have clock: "free ok left (ask (on_now (cf_tools cf)) :: ('w, 'c, _) loop)"
    "free ok left (poll_messages (on_steering cf) :: ('w, 'c, _) loop)"
    using keep by (auto simp: loop_keeps_def tools_keep_def intro!: free_rules free_poll)
  show ?thesis
    unfolding run_agent_loop_def Some option.case Let_def run_loop_def
    by (rule bounded_bind [OF clock(1) asked], rule bounded_bind [OF free_unit(4) emitted(1)],
        rule bounded_bind [OF free_unit(4) emitted(1)], rule bounded_bind [OF free_emit_messages emitted(2)],
        rule bounded_bind [OF clock(2) polled], rule turns_bounded [OF assms Some])
qed

end

section \<open>The control of a run\<close>

text \<open>What the other tasks that share the control do to it while an admission waits for its write.\<close>

datatype control_use =
    UseCancel
  | UseFail string
  | UseCheck
  | UseReserve model_call_kind model "nat option"
  | UseSettle run_outcome
  | UseFinish run_outcome

fun use_control :: "nat \<times> control_use \<Rightarrow> control \<Rightarrow> control" where
  "use_control (now, UseCancel) c = cancel now c"
| "use_control (now, UseFail e) c = fst (fail now e c)"
| "use_control (now, UseCheck) c = fst (RunControl.stopped now c)"
| "use_control (now, UseReserve k m spare) c = fst (reserve now k m spare c)"
| "use_control (now, UseSettle x) c = fst (settle now x c)"
| "use_control (now, UseFinish x) c = fst (finish_interval now x c)"

definition control_stop :: "('u \<Rightarrow> nat \<times> 'u) \<Rightarrow> control \<times> 'u \<Rightarrow> run_outcome option \<times> (control \<times> 'u)" where
  "control_stop moment = (\<lambda>(c, u).
     let (now, u) = moment u; (c, x) = RunControl.stopped now c in (x, (c, u)))"

text \<open>\<open>admit_model_call\<close> of the task that finds the slot free: the debit, the observer's write, and the
  check once more.\<close>

definition after_write :: "nat \<Rightarrow> (string, unit) result \<Rightarrow> control \<Rightarrow> control \<times> run_outcome option" where
  "after_write now written c =
     (case written of
        Inl e \<Rightarrow> map_prod id Some (fail now e c)
      | Inr _ \<Rightarrow> RunControl.stopped now c)"

definition control_admit ::
  "('u \<Rightarrow> nat \<times> 'u) \<Rightarrow> (model_call_admission \<Rightarrow> 'u \<Rightarrow> ((nat \<times> control_use) list \<times> (string, unit) result) \<times> 'u) \<Rightarrow>
     target_model \<Rightarrow> control \<times> 'u \<Rightarrow> run_outcome option \<times> (control \<times> 'u)" where
  "control_admit moment writer m = (\<lambda>(c, u).
     let (now, u) = moment u in
     (case reserve now AgentCall \<lparr>model_provider = target_provider m, model_id = target_id m\<rparr> None c of
        (c, Inl x) \<Rightarrow> (Some x, (c, u))
      | (c, Inr None) \<Rightarrow>
          (let (c, x) = fail now ''Required model admission returned no debit'' c in (Some x, (c, u)))
      | (c, Inr (Some a)) \<Rightarrow>
          (let ((uses, written), u) = (if observed c then writer a u else (([], Inr ()), u));
               (now, u) = moment u;
               (c, x) = after_write now written (fold use_control uses c)
           in (x, (c, u)))))"

definition control_gate ::
  "('u \<Rightarrow> nat \<times> 'u) \<Rightarrow> (model_call_admission \<Rightarrow> 'u \<Rightarrow> ((nat \<times> control_use) list \<times> (string, unit) result) \<times> 'u) \<Rightarrow>
     (control \<times> 'u) run_gate" where
  "control_gate moment writer = \<lparr>gate_stopped = control_stop moment, gate_admit = control_admit moment writer\<rparr>"

definition limited :: "nat \<Rightarrow> control \<times> 'u \<Rightarrow> bool" where
  "limited k w \<longleftrightarrow> max_model_calls (limits (fst w)) = Some k"

definition calls_left :: "nat \<Rightarrow> control \<times> 'u \<Rightarrow> nat" where
  "calls_left k w = k - calls (fst w)"

lemma later_use: "later c (use_control x c)"
  by (cases "(x, c)" rule: use_control.cases) (auto intro: inv_intros)

lemma later_uses: "later c (fold use_control uses c)"
  by (induction uses arbitrary: c) (auto intro: later_trans later_use)

text \<open>Whatever only goes on with the control keeps the allowance.\<close>

lemma keeps_later: "(\<And>c u. later c (fst (snd (f (c, u))))) \<Longrightarrow> keeps (limited k) (calls_left k) f"
  by (auto simp: keeps_def limited_def calls_left_def later_def intro: diff_le_mono2)

lemma later_after: "later c (fst (after_write now written c))"
  by (cases written) (simp_all add: after_write_def later_fail later_stopped)

lemma after_write_None: "after_write now written c = (c', None) \<Longrightarrow> later c c'"
  using later_after [of c now written] by simp

lemma later_admit: "later c (fst (snd (control_admit moment writer m (c, u))))"
proof -
  obtain now u1 where u1: "moment u = (now, u1)" by fastforce
  obtain d r where d: "reserve now AgentCall \<lparr>model_provider = target_provider m, model_id = target_id m\<rparr> None c = (d, r)"
    by fastforce
  then have cd: "later c d" using later_reserve [of c now AgentCall _ None] by (metis fst_conv)
  show ?thesis
  proof (cases "\<exists>a. r = Inr (Some a)")
    case True
    then obtain a where a: "r = Inr (Some a)" by blast
    obtain uses written u2 where w: "(if observed d then writer a u1 else (([], Inr ()), u1)) = ((uses, written), u2)"
      by (metis prod.exhaust)
    obtain now2 u3 where u3: "moment u2 = (now2, u3)" by fastforce
    have "fst (snd (control_admit moment writer m (c, u))) = fst (after_write now2 written (fold use_control uses d))"
      by (simp add: control_admit_def u1 d a w u3 split: prod.split)
    then show ?thesis using cd later_uses later_after later_trans by metis
  next
    case False
    then show ?thesis
      using cd later_trans [OF cd later_fail]
      by (auto simp: control_admit_def u1 d split: sum.split option.split prod.split) (metis fst_conv)
  qed
qed

lemma admit_debit:
  assumes "limited k (c, u)" and "control_admit moment writer m (c, u) = (None, (c', u'))"
  shows "calls_left k (c', u') < calls_left k (c, u)"
proof -
  obtain now u1 where u1: "moment u = (now, u1)" by fastforce
  obtain d r where d: "reserve now AgentCall \<lparr>model_provider = target_provider m, model_id = target_id m\<rparr> None c = (d, r)"
    by fastforce
  obtain a where a: "r = Inr (Some a)"
    using assms(2) by (cases r) (auto simp: control_admit_def u1 d split: option.splits prod.splits)
  note debit = reserve_debit [OF d [unfolded a]]
  have "calls d = calls c + 1" "calls d \<le> k" using debit assms(1) by (auto simp: limited_def)
  moreover have "later d c'"
  proof -
    obtain uses written u2 where w: "(if observed d then writer a u1 else (([], Inr ()), u1)) = ((uses, written), u2)"
      by (metis prod.exhaust)
    obtain now2 u3 where u3: "moment u2 = (now2, u3)" by fastforce
    have "after_write now2 written (fold use_control uses d) = (c', None)"
      using assms(2) by (auto simp: control_admit_def u1 d a w u3 split: prod.splits)
    then show ?thesis using later_uses after_write_None later_trans by blast
  qed
  ultimately show ?thesis unfolding calls_left_def later_def fst_conv by linarith
qed

interpretation metered: allowance "limited k" "calls_left k" "control_gate moment writer" for k moment writer
proof
  show "keeps (limited k) (calls_left k) (gate_stopped (control_gate moment writer))"
    by (rule keeps_later) (simp add: control_gate_def control_stop_def later_stopped split: prod.split, metis fst_conv later_stopped)
  show "keeps (limited k) (calls_left k) (gate_admit (control_gate moment writer) m)" for m
    by (rule keeps_later) (simp add: control_gate_def later_admit)
  show "calls_left k w' < calls_left k w"
    if "limited k w" "gate_admit (control_gate moment writer) m w = (None, w')" for w m w'
    using that admit_debit by (cases w; cases w') (simp add: control_gate_def)
qed

text \<open>C7. A run under a control that allows \<open>k\<close> model calls returns, whatever the model answers, the tools do
  and the hooks ask for: of the calls left at its start, one turn more is enough, and it sends no more
  requests than calls were left. Its callbacks, and the tasks that share the control, may spend calls
  of the allowance and stop the run; none may add to it.\<close>

theorem metered_run_returns:
  fixes cf :: "(control \<times> 'u, 'c) agent_config"
  assumes "max_model_calls (limits c) = Some k" and "on_control cf = Some (control_gate moment writer)"
    and "loop_keeps (limited k) (calls_left k) cf"
  shows "\<exists>result s. run_state (run_agent_loop (Suc (k - calls c)) cf prompts ctx) \<lparr>world = (c, u), trace = []\<rparr> =
      (Some result, s) \<and> length (requests (trace s)) \<le> k - calls c"
proof -
  let ?s = "\<lparr>world = (c, u), trace = []\<rparr> :: (control \<times> 'u, 'c) io"
  have "bounded (limited k) (calls_left k) (Suc (k - calls c)) (run_agent_loop (Suc (k - calls c)) cf prompts ctx)"
    using assms(2,3) by (rule metered.run_bounded)
  then have "limited k (world ?s) \<longrightarrow> calls_left k (world ?s) < Suc (k - calls c) \<longrightarrow>
      fst (run_state (run_agent_loop (Suc (k - calls c)) cf prompts ctx) ?s) \<noteq> None \<and>
      length (requests (trace (snd (run_state (run_agent_loop (Suc (k - calls c)) cf prompts ctx) ?s))))
        \<le> length (requests (trace ?s)) + calls_left k (world ?s)"
    unfolding bounded_def by blast
  then show ?thesis
    using assms(1)
    by (cases "run_state (run_agent_loop (Suc (k - calls c)) cf prompts ctx) ?s") (auto simp: limited_def calls_left_def)
qed


text \<open>A run of no tools and no hooks, whose model never answers.\<close>

definition silent_config :: "nat \<Rightarrow> (control \<times> unit, unit) agent_config" where
  "silent_config now =
     \<lparr>cf_tools =
        \<lparr>validate = (\<lambda>_ _ args. Inr args), on_before = None, on_execute = (\<lambda>c _ _ w. (echo_run c, w)),
         on_aborted = (\<lambda>w. (False, w)), on_now = (\<lambda>w. (7, w)), tool_execution = ParallelTools,
         max_concurrent_read_tools = None, cost_add = (\<lambda>a b. a)\<rparr>,
      cf_print = tool_name,
      cf_model = \<lparr>target_id = ''m'', target_api = ''a'', target_provider = ''p'', target_input = []\<rparr>,
      cf_reasoning = None, cf_key = None, on_transform = None, on_convert = (\<lambda>ms w. ([], w)), on_key = None,
      on_stream = Some (\<lambda>q w. (Inr ([], None), w)), on_finish = None, on_prepare_turn = None,
      on_prepare_request = None, on_steering = None, on_follow_up = None,
      on_control = Some (control_gate (\<lambda>u. (now, u)) (\<lambda>a u. (([], Inr ()), u)))\<rparr>"

lemma silent_keeps: "loop_keeps ok left (silent_config now)"
  by (simp add: loop_keeps_def tools_keep_def silent_config_def keeps_def)

lemma metered_run_returns_witness:
  "\<exists>result s. run_state (run_agent_loop (Suc (2 - calls (restore \<lparr>deadline = None, max_model_calls = Some 2\<rparr> 1 False)))
       (silent_config 5) [] \<lparr>ctx_messages = [], ctx_tools = []\<rparr>)
       \<lparr>world = (restore \<lparr>deadline = None, max_model_calls = Some 2\<rparr> 1 False, ()), trace = []\<rparr> = (Some result, s) \<and>
     length (requests (trace s)) \<le> 2 - calls (restore \<lparr>deadline = None, max_model_calls = Some 2\<rparr> 1 False)"
  by (rule metered_run_returns [of _ _ _ "\<lambda>u. (5, u)" "\<lambda>a u. (([], Inr ()), u)"])
    (simp add: restore_def, simp add: silent_config_def, rule silent_keeps)

end
