(* ===== verification/JsDiff.thy ===== *)
theory JsDiff
  imports Prelude
begin

text \<open>
  The line diff and unified patch of \<open>tools/jsdiff.rs\<close>: a search by diagonals for an edit script, the
  runs of lines it is, and the patch they print. The search is shown to find a script of the two
  texts whatever they are, which is what its unreachable last line stands on.
\<close>

section \<open>Lines and paths\<close>

abbreviation lf :: char where "lf \<equiv> CHR 0x0A"
abbreviation cr :: char where "cr \<equiv> CHR 0x0D"

record change =
  change_value :: string
  change_added :: bool
  change_removed :: bool

record component =
  comp_count :: nat
  comp_added :: bool
  comp_removed :: bool

text \<open>A path's components hang off its last one, so the list has the last one first.\<close>

record diff_path =
  old_pos :: int
  chain :: "component list"

fun tokenize_from :: "string \<Rightarrow> string \<Rightarrow> string list" where
  "tokenize_from line [] = (if line = [] then [] else [line])"
| "tokenize_from line (c # s) =
     (if c = lf then (line @ [c]) # tokenize_from [] s else tokenize_from (line @ [c]) s)"

definition tokenize :: "string \<Rightarrow> string list" where
  "tokenize s = tokenize_from [] s"

definition add_to_path :: "diff_path \<Rightarrow> bool \<Rightarrow> bool \<Rightarrow> int \<Rightarrow> diff_path" where
  "add_to_path p added removed inc =
     \<lparr>old_pos = old_pos p + inc,
      chain = (case chain p of
          c # cs \<Rightarrow>
            if comp_added c = added \<and> comp_removed c = removed
            then \<lparr>comp_count = comp_count c + 1, comp_added = added, comp_removed = removed\<rparr> # cs
            else \<lparr>comp_count = 1, comp_added = added, comp_removed = removed\<rparr> # c # cs
        | [] \<Rightarrow> [\<lparr>comp_count = 1, comp_added = added, comp_removed = removed\<rparr>])\<rparr>"

text \<open>The lines two texts have in common from two positions on.\<close>

fun common_count :: "string list \<Rightarrow> string list \<Rightarrow> nat" where
  "common_count (x # xs) (y # ys) = (if x = y then Suc (common_count xs ys) else 0)"
| "common_count _ _ = 0"

definition extract_common :: "diff_path \<Rightarrow> string list \<Rightarrow> string list \<Rightarrow> int \<Rightarrow> diff_path \<times> int" where
  "extract_common p new old diagonal =
     (let new_pos = old_pos p - diagonal;
          common = common_count (drop (nat (old_pos p + 1)) old) (drop (nat (new_pos + 1)) new)
      in (\<lparr>old_pos = old_pos p + int common,
           chain = (if 0 < common
             then \<lparr>comp_count = common, comp_added = False, comp_removed = False\<rparr> # chain p else chain p)\<rparr>,
          new_pos + int common))"

text \<open>The runs from a position of each text on.\<close>

fun values_from :: "string list \<Rightarrow> string list \<Rightarrow> nat \<Rightarrow> nat \<Rightarrow> component list \<Rightarrow> change list" where
  "values_from new old n m [] = []"
| "values_from new old n m (c # cs) =
     (let k = comp_count c in
      if comp_removed c
      then \<lparr>change_value = concat (take k (drop m old)), change_added = comp_added c, change_removed = True\<rparr> #
        values_from new old n (m + k) cs
      else \<lparr>change_value = concat (take k (drop n new)), change_added = comp_added c, change_removed = False\<rparr> #
        values_from new old (n + k) (if comp_added c then m else m + k) cs)"

definition build_values :: "component list \<Rightarrow> string list \<Rightarrow> string list \<Rightarrow> change list" where
  "build_values comps new old = values_from new old 0 0 (rev comps)"

section \<open>The search\<close>

text \<open>The best path of each diagonal and the diagonals still worth a look. The slots of \<open>best\<close> are the
  diagonals up to one more than all lines of both texts either way, none of which the search leaves.\<close>

record search =
  best :: "int \<Rightarrow> diff_path option"
  min_diagonal :: int
  max_diagonal :: int

abbreviation isize_min :: int where "isize_min \<equiv> - (2 ^ 63)"
abbreviation isize_max :: int where "isize_max \<equiv> 2 ^ 63 - 1"

datatype step_result = Returned "change list" | Broke search | Went search

definition diff_step :: "string list \<Rightarrow> string list \<Rightarrow> int \<Rightarrow> search \<Rightarrow> step_result" where
  "diff_step new old d st =
     (let remove_path = best st (d - 1);
          slots = (best st)(d - 1 := None);
          add_path = slots (d + 1);
          can_add = (case add_path of None \<Rightarrow> False
            | Some p \<Rightarrow> 0 \<le> old_pos p - d \<and> old_pos p - d < int (length new));
          can_remove = (case remove_path of None \<Rightarrow> False | Some p \<Rightarrow> old_pos p + 1 < int (length old))
      in if \<not> can_add \<and> \<not> can_remove then Went (st\<lparr>best := slots(d := None)\<rparr>)
         else
           (let further = (case (remove_path, add_path) of
                  (Some r, Some a) \<Rightarrow> old_pos r < old_pos a
                | (None, Some _) \<Rightarrow> True
                | _ \<Rightarrow> False);
                use_add = (\<not> can_remove \<or> can_add \<and> further)
            in (case (if use_add then map_option (\<lambda>p. add_to_path p True False 0) add_path
                      else map_option (\<lambda>p. add_to_path p False True 1) remove_path) of
                  None \<Rightarrow> Broke (st\<lparr>best := slots\<rparr>)
                | Some branch \<Rightarrow>
                    (let (base, new_pos) = extract_common branch new old d;
                         old_end = int (length old) \<le> old_pos base + 1;
                         new_end = int (length new) \<le> new_pos + 1
                     in if old_end \<and> new_end then Returned (build_values (chain base) new old)
                        else Went
                          \<lparr>best = slots(d \<mapsto> base),
                           min_diagonal = (if new_end then max (min_diagonal st) (d + 1) else min_diagonal st),
                           max_diagonal = (if old_end then min (max_diagonal st) (d - 1) else max_diagonal st)\<rparr>))))"

function diff_round :: "string list \<Rightarrow> string list \<Rightarrow> int \<Rightarrow> int \<Rightarrow> search \<Rightarrow> change list + search" where
  "diff_round new old e d st =
     (if d \<le> min (max_diagonal st) e
      then (case diff_step new old d st of
              Returned cs \<Rightarrow> Inl cs
            | Broke st \<Rightarrow> Inr st
            | Went st \<Rightarrow> diff_round new old e (d + 2) st)
      else Inr st)"
  by pat_completeness auto
termination by (relation "measure (\<lambda>(new, old, e, d, st). nat (e + 1 - d))") auto

declare diff_round.simps [simp del]

function diff_search :: "string list \<Rightarrow> string list \<Rightarrow> int \<Rightarrow> search \<Rightarrow> change list" where
  "diff_search new old e st =
     (if e \<le> int (length new + length old)
      then (case diff_round new old e (max (min_diagonal st) (- e)) st of
              Inl cs \<Rightarrow> cs
            | Inr st \<Rightarrow> diff_search new old (e + 1) st)
      else [])"
  by pat_completeness auto
termination by (relation "measure (\<lambda>(new, old, e, st). nat (int (length new + length old) + 1 - e))") auto

declare diff_search.simps [simp del]

definition diff_lines :: "string \<Rightarrow> string \<Rightarrow> change list" where
  "diff_lines old_text new_text =
     (let old = tokenize old_text; new = tokenize new_text;
          (first, new_pos) = extract_common \<lparr>old_pos = -1, chain = []\<rparr> new old 0
      in if int (length old) \<le> old_pos first + 1 \<and> int (length new) \<le> new_pos + 1
         then build_values (chain first) new old
         else diff_search new old 1
           \<lparr>best = (\<lambda>_. None)(0 \<mapsto> first), min_diagonal = isize_min, max_diagonal = isize_max\<rparr>)"

section \<open>Scripts\<close>

text \<open>A path is a script of the first \<open>m\<close> old and \<open>n\<close> new lines.\<close>

fun script :: "string list \<Rightarrow> string list \<Rightarrow> component list \<Rightarrow> nat \<Rightarrow> nat \<Rightarrow> bool" where
  "script new old [] m n \<longleftrightarrow> m = 0 \<and> n = 0"
| "script new old (c # cs) m n \<longleftrightarrow>
     (let k = comp_count c in 0 < k \<and>
      (if comp_removed c then \<not> comp_added c \<and> k \<le> m \<and> script new old cs (m - k) n
      else if comp_added c then k \<le> n \<and> script new old cs m (n - k)
      else k \<le> m \<and> k \<le> n \<and> take k (drop (m - k) old) = take k (drop (n - k) new) \<and>
        script new old cs (m - k) (n - k)))"

text \<open>The lines of each side of a diff, read off its runs by \<open>f\<close>.\<close>

definition side_lines :: "(string \<Rightarrow> string list) \<Rightarrow> (change \<Rightarrow> bool) \<Rightarrow> change list \<Rightarrow> string list" where
  "side_lines f other cs = concat (map (\<lambda>c. f (change_value c)) (filter (\<lambda>c. \<not> other c) cs))"

definition one_sided :: "change list \<Rightarrow> bool" where
  "one_sided cs \<longleftrightarrow> list_all (\<lambda>c. \<not> (change_added c \<and> change_removed c)) cs"

text \<open>\<open>f\<close> reads any run of the lines \<open>xs\<close> back.\<close>

definition reads_back :: "(string \<Rightarrow> string list) \<Rightarrow> string list \<Rightarrow> bool" where
  "reads_back f xs \<longleftrightarrow> (\<forall>k j. f (concat (take k (drop j xs))) = take k (drop j xs))"

lemma side_lines_append [simp]: "side_lines f other (cs @ ds) = side_lines f other cs @ side_lines f other ds"
  by (simp add: side_lines_def)

lemma one_sided_append [simp]: "one_sided (cs @ ds) \<longleftrightarrow> one_sided cs \<and> one_sided ds"
  by (simp add: one_sided_def)

fun comp_old :: "component list \<Rightarrow> nat" where
  "comp_old [] = 0"
| "comp_old (c # cs) = (if comp_added c \<and> \<not> comp_removed c then 0 else comp_count c) + comp_old cs"

fun comp_new :: "component list \<Rightarrow> nat" where
  "comp_new [] = 0"
| "comp_new (c # cs) = (if comp_removed c then 0 else comp_count c) + comp_new cs"

lemma script_counts: "script new old cs m n \<Longrightarrow> comp_old cs = m \<and> comp_new cs = n"
  by (induction cs arbitrary: m n) (auto simp: Let_def split: if_splits)

lemma comp_append [simp]:
  "comp_old (cs @ ds) = comp_old cs + comp_old ds" "comp_new (cs @ ds) = comp_new cs + comp_new ds"
  by (induction cs) auto

lemma comp_rev [simp]: "comp_old (rev cs) = comp_old cs" "comp_new (rev cs) = comp_new cs"
  by (induction cs) auto

lemma values_from_append:
  "values_from new old n m (cs @ ds) =
     values_from new old n m cs @ values_from new old (n + comp_new cs) (m + comp_old cs) ds"
  by (induction cs arbitrary: n m) (auto simp: Let_def ac_simps)

lemma take_take_drop: "k \<le> m \<Longrightarrow> take (m - k) xs @ take k (drop (m - k) xs) = take m xs"
  by (metis le_add_diff_inverse2 take_add)

lemma script_values:
  assumes "reads_back f old" "reads_back f new"
  shows "script new old cs m n \<Longrightarrow> m \<le> length old \<Longrightarrow> n \<le> length new \<Longrightarrow>
   side_lines f change_added (build_values cs new old) = take m old \<and>
   side_lines f change_removed (build_values cs new old) = take n new \<and>
   one_sided (build_values cs new old) \<and> (\<forall>c \<in> set (build_values cs new old). f (change_value c) \<noteq> [])"
proof (induction cs arbitrary: m n)
  case Nil
  then show ?case by (simp add: build_values_def side_lines_def one_sided_def)
next
  case (Cons c cs)
  let ?k = "comp_count c"
  obtain m' n' where rest: "script new old cs m' n'" and pos: "0 < ?k" and
    kind: "comp_removed c \<and> \<not> comp_added c \<and> ?k \<le> m \<and> m' = m - ?k \<and> n' = n \<or>
      \<not> comp_removed c \<and> comp_added c \<and> ?k \<le> n \<and> m' = m \<and> n' = n - ?k \<or>
      \<not> comp_removed c \<and> \<not> comp_added c \<and> ?k \<le> m \<and> ?k \<le> n \<and> m' = m - ?k \<and> n' = n - ?k \<and>
        take ?k (drop m' old) = take ?k (drop n' new)"
    using Cons.prems by (auto simp: Let_def split: if_splits)
  have last: "build_values (c # cs) new old = build_values cs new old @ values_from new old n' m' [c]"
    using script_counts [OF rest] by (simp add: build_values_def values_from_append)
  have "m' \<le> length old" "n' \<le> length new" using kind Cons.prems by auto
  note sides = Cons.IH [OF rest this]
  have f: "f (concat (take k (drop j old))) = take k (drop j old)" "f (concat (take k (drop j new))) = take k (drop j new)"
    for k j using assms by (simp_all add: reads_back_def)
  note olds = take_take_drop [of ?k m old] and news = take_take_drop [of ?k n new]
  from kind show ?case
  proof (elim disjE conjE)
    assume *: "comp_removed c" "\<not> comp_added c" "?k \<le> m" "m' = m - ?k" "n' = n"
    then show ?thesis using sides olds pos Cons.prems unfolding last by (auto simp: Let_def f side_lines_def one_sided_def)
  next
    assume *: "\<not> comp_removed c" "comp_added c" "?k \<le> n" "m' = m" "n' = n - ?k"
    then show ?thesis using sides news pos Cons.prems unfolding last by (auto simp: Let_def f side_lines_def one_sided_def)
  next
    assume *: "\<not> comp_removed c" "\<not> comp_added c" "?k \<le> m" "?k \<le> n" "m' = m - ?k" "n' = n - ?k"
      "take ?k (drop m' old) = take ?k (drop n' new)"
    then show ?thesis using sides olds news pos Cons.prems unfolding last by (auto simp: Let_def f side_lines_def one_sided_def)
  qed
qed

lemma tokenize_concat [simp]: "concat (tokenize s) = s"
proof -
  have "concat (tokenize_from l s) = l @ s" for l
    by (induction l s rule: tokenize_from.induct) auto
  then show ?thesis by (simp add: tokenize_def)
qed

text \<open>A path on a diagonal that covers at least \<open>e\<close> lines.\<close>

definition path_ok :: "string list \<Rightarrow> string list \<Rightarrow> int \<Rightarrow> int \<Rightarrow> diff_path \<Rightarrow> bool" where
  "path_ok new old e d p \<longleftrightarrow>
     (\<exists>m n. script new old (chain p) m n \<and> old_pos p = int m - 1 \<and> int m - int n = d \<and>
        m \<le> length old \<and> n \<le> length new \<and> e \<le> int m + int n)"

lemma path_okI:
  "script new old (chain p) m n \<Longrightarrow> old_pos p = int m - 1 \<Longrightarrow> int m - int n = d \<Longrightarrow>
   m \<le> length old \<Longrightarrow> n \<le> length new \<Longrightarrow> e \<le> int m + int n \<Longrightarrow> path_ok new old e d p"
  by (auto simp: path_ok_def)

lemma common_count:
  "common_count xs ys \<le> length xs \<and> common_count xs ys \<le> length ys \<and>
   take (common_count xs ys) xs = take (common_count xs ys) ys"
  by (induction xs ys rule: common_count.induct) auto

lemma extract_common_ok:
  assumes "path_ok new old e d p"
  shows "case extract_common p new old d of (base, new_pos) \<Rightarrow>
    path_ok new old e d base \<and> new_pos = old_pos base - d \<and> old_pos p \<le> old_pos base"
proof -
  from assms obtain m n where p: "script new old (chain p) m n" "old_pos p = int m - 1" "int m - int n = d"
    "m \<le> length old" "n \<le> length new" "e \<le> int m + int n" by (auto simp: path_ok_def)
  have at: "nat (old_pos p + 1) = m" "nat (old_pos p - d + 1) = n" using p(2,3) by auto
  define k where "k = common_count (drop m old) (drop n new)"
  have k: "k + m \<le> length old" "k + n \<le> length new" "take k (drop m old) = take k (drop n new)"
    using common_count [of "drop m old" "drop n new"] p(4,5) by (auto simp: k_def)
  have "script new old (if 0 < k then \<lparr>comp_count = k, comp_added = False, comp_removed = False\<rparr> # chain p
      else chain p) (m + k) (n + k)"
    using p(1) k(3) by (simp add: Let_def)
  then show ?thesis
    unfolding extract_common_def Let_def at k_def [symmetric] prod.case using p k
    by (intro conjI path_okI [of _ _ _ "m + k" "n + k"]) simp_all
qed

lemma add_ok:
  assumes "path_ok new old (e - 1) (d + 1) p" and "old_pos p - d < int (length new)"
  shows "path_ok new old e d (add_to_path p True False 0) \<and> old_pos (add_to_path p True False 0) = old_pos p"
proof -
  from assms obtain m n where p: "script new old (chain p) m n" "old_pos p = int m - 1" "int m - int n = d + 1"
    "m \<le> length old" "Suc n \<le> length new" "e - 1 \<le> int m + int n" by (auto simp: path_ok_def)
  have "script new old (chain (add_to_path p True False 0)) m (Suc n)"
    using p(1) by (auto simp: add_to_path_def Let_def Suc_diff_le split: list.splits if_splits)
  with p show ?thesis by (intro conjI path_okI [of _ _ _ m "Suc n"]) (simp_all add: add_to_path_def)
qed

lemma remove_ok:
  assumes "path_ok new old (e - 1) (d - 1) p" and "old_pos p + 1 < int (length old)"
  shows "path_ok new old e d (add_to_path p False True 1) \<and> old_pos (add_to_path p False True 1) = old_pos p + 1"
proof -
  from assms obtain m n where p: "script new old (chain p) m n" "old_pos p = int m - 1" "int m - int n = d - 1"
    "Suc m \<le> length old" "n \<le> length new" "e - 1 \<le> int m + int n" by (auto simp: path_ok_def)
  have "script new old (chain (add_to_path p False True 1)) (Suc m) n"
    using p(1) by (auto simp: add_to_path_def Let_def Suc_diff_le split: list.splits if_splits)
  with p show ?thesis by (intro conjI path_okI [of _ _ _ "Suc m" n]) (simp_all add: add_to_path_def)
qed


section \<open>The search finds a script\<close>

abbreviation old_end :: "string list \<Rightarrow> diff_path \<Rightarrow> bool" where
  "old_end old p \<equiv> int (length old) \<le> old_pos p + 1"

abbreviation new_end :: "string list \<Rightarrow> int \<Rightarrow> diff_path \<Rightarrow> bool" where
  "new_end new d p \<equiv> int (length new) \<le> old_pos p - d + 1"

text \<open>A diff that is one of the lines \<open>old\<close> and \<open>new\<close>.\<close>

definition reads :: "string list \<Rightarrow> string list \<Rightarrow> change list \<Rightarrow> bool" where
  "reads new old cs \<longleftrightarrow>
     (\<forall>f. reads_back f old \<and> reads_back f new \<longrightarrow>
        side_lines f change_added cs = old \<and> side_lines f change_removed cs = new \<and> one_sided cs \<and>
        (\<forall>c \<in> set cs. f (change_value c) \<noteq> []))"

text \<open>A diagonal with a path beside it to branch from.\<close>

definition branches :: "string list \<Rightarrow> string list \<Rightarrow> search \<Rightarrow> int \<Rightarrow> bool" where
  "branches new old st d \<longleftrightarrow>
     (\<exists>p. best st (d - 1) = Some p \<and> \<not> old_end old p) \<or>
     (\<exists>p. best st (d + 1) = Some p \<and> \<not> new_end new (d + 1) p)"

definition step_goes ::
  "string list \<Rightarrow> string list \<Rightarrow> int \<Rightarrow> int \<Rightarrow> search \<Rightarrow> diff_path \<Rightarrow> bool" where
  "step_goes new old e d st base \<longleftrightarrow>
     diff_step new old d st = Went \<lparr>best = (best st)(d - 1 := None, d \<mapsto> base),
       min_diagonal = (if new_end new d base then max (min_diagonal st) (d + 1) else min_diagonal st),
       max_diagonal = (if old_end old base then min (max_diagonal st) (d - 1) else max_diagonal st)\<rparr> \<and>
     path_ok new old e d base \<and> \<not> (old_end old base \<and> new_end new d base) \<and>
     (\<forall>p. best st (d - 1) = Some p \<and> \<not> old_end old p \<longrightarrow> old_pos p + 1 \<le> old_pos base) \<and>
     (\<forall>p. best st (d + 1) = Some p \<and> \<not> new_end new (d + 1) p \<longrightarrow> old_pos p \<le> old_pos base)"

lemma path_ok_bounds:
  "path_ok new old e d p \<Longrightarrow>
   - 1 \<le> old_pos p \<and> old_pos p < int (length old) \<and> - 1 \<le> old_pos p - d \<and> old_pos p - d < int (length new) \<and>
   e \<le> 2 * old_pos p - d + 2"
  by (auto simp: path_ok_def)

lemma path_ok_reads:
  assumes "path_ok new old e d p" "old_end old p" "new_end new d p"
  shows "reads new old (build_values (chain p) new old)"
proof -
  from assms obtain m n where "script new old (chain p) m n" "m = length old" "n = length new"
    by (auto simp: path_ok_def)
  with script_values [of _ old new "chain p" m n] show ?thesis by (auto simp: reads_def)
qed

lemma diff_step_branch:
  assumes "branches new old st d"
    and "\<And>p. best st (d - 1) = Some p \<Longrightarrow> path_ok new old (e - 1) (d - 1) p"
    and "\<And>p. best st (d + 1) = Some p \<Longrightarrow> path_ok new old (e - 1) (d + 1) p"
  shows "(\<exists>cs. diff_step new old d st = Returned cs \<and> reads new old cs) \<or> (\<exists>base. step_goes new old e d st base)"
proof -
  let ?r = "best st (d - 1)" and ?a = "best st (d + 1)"
  define can_add where "can_add \<longleftrightarrow> (\<exists>p. ?a = Some p \<and> \<not> new_end new (d + 1) p)"
  define can_remove where "can_remove \<longleftrightarrow> (\<exists>p. ?r = Some p \<and> \<not> old_end old p)"
  have add: "can_add \<longleftrightarrow> (case ?a of None \<Rightarrow> False | Some p \<Rightarrow> 0 \<le> old_pos p - d \<and> old_pos p - d < int (length new))"
    using assms(3) by (auto simp: can_add_def dest!: path_ok_bounds split: option.splits)
  have remove: "can_remove \<longleftrightarrow> (case ?r of None \<Rightarrow> False | Some p \<Rightarrow> old_pos p + 1 < int (length old))"
    by (auto simp: can_remove_def split: option.splits)
  have some: "can_add \<or> can_remove" using assms(1) by (auto simp: branches_def can_add_def can_remove_def)
  define further where "further = (case (?r, ?a) of
      (Some r, Some a) \<Rightarrow> old_pos r < old_pos a | (None, Some _) \<Rightarrow> True | _ \<Rightarrow> False)"
  define use_add where "use_add \<longleftrightarrow> \<not> can_remove \<or> can_add \<and> further"
  obtain branch where branch: "(if use_add then map_option (\<lambda>p. add_to_path p True False 0) ?a
      else map_option (\<lambda>p. add_to_path p False True 1) ?r) = Some branch" "path_ok new old e d branch"
    "\<And>p. ?r = Some p \<Longrightarrow> \<not> old_end old p \<Longrightarrow> old_pos p + 1 \<le> old_pos branch"
    "\<And>p. ?a = Some p \<Longrightarrow> \<not> new_end new (d + 1) p \<Longrightarrow> old_pos p \<le> old_pos branch"
  proof (cases use_add)
    case True
    with some have can_add by (auto simp: use_add_def)
    then obtain a where a: "?a = Some a" "\<not> new_end new (d + 1) a" by (auto simp: can_add_def)
    have ok: "path_ok new old e d (add_to_path a True False 0)" "old_pos (add_to_path a True False 0) = old_pos a"
      using add_ok [OF assms(3) [OF a(1)]] a(2) by simp_all
    have "old_pos p + 1 \<le> old_pos a" if "?r = Some p" "\<not> old_end old p" for p
      using True that a by (auto simp: use_add_def can_remove_def further_def)
    with that [of "add_to_path a True False 0"] True a ok show ?thesis by auto
  next
    case False
    then obtain r where r: "?r = Some r" "\<not> old_end old r" by (auto simp: use_add_def can_remove_def)
    have ok: "path_ok new old e d (add_to_path r False True 1)"
      "old_pos (add_to_path r False True 1) = old_pos r + 1"
      using remove_ok [OF assms(2) [OF r(1)]] r(2) by simp_all
    have "old_pos p \<le> old_pos r + 1" if "?a = Some p" "\<not> new_end new (d + 1) p" for p
      using False that r by (auto simp: use_add_def can_add_def further_def)
    with that [of "add_to_path r False True 1"] False r ok show ?thesis by auto
  qed
  obtain base new_pos where ext: "extract_common branch new old d = (base, new_pos)" by force
  have base: "path_ok new old e d base" "new_pos = old_pos base - d" "old_pos branch \<le> old_pos base"
    using extract_common_ok [OF branch(2)] by (simp_all add: ext)
  have none: "(\<not> can_add \<and> \<not> can_remove) = False" using some by blast
  have slot: "((best st)(d - 1 := None)) (d + 1) = ?a" by simp
  have step: "diff_step new old d st =
      (if old_end old base \<and> new_end new d base then Returned (build_values (chain base) new old)
       else Went \<lparr>best = (best st)(d - 1 := None, d \<mapsto> base),
         min_diagonal = (if new_end new d base then max (min_diagonal st) (d + 1) else min_diagonal st),
         max_diagonal = (if old_end old base then min (max_diagonal st) (d - 1) else max_diagonal st)\<rparr>)"
    using branch(1) ext base(2)
    unfolding diff_step_def Let_def slot add [symmetric] remove [symmetric]
      further_def [symmetric] use_add_def [symmetric] none if_False
    by simp
  show ?thesis
  proof (cases "old_end old base \<and> new_end new d base")
    case True
    then show ?thesis using step path_ok_reads [OF base(1)] by simp
  next
    case False
    then have "step_goes new old e d st base"
      unfolding step_goes_def step using base(1,3) branch(3,4) by (fastforce dest: order_trans)
    then show ?thesis by blast
  qed
qed

text \<open>A round that can work on the diagonals from \<open>s\<close> to \<open>t\<close>: each has a path beside it, and a bound
  inside the reach of the round is there because the next diagonal has come to the end of a text.\<close>

definition ready :: "string list \<Rightarrow> string list \<Rightarrow> int \<Rightarrow> int \<Rightarrow> int \<Rightarrow> search \<Rightarrow> bool" where
  "ready new old s t e st \<longleftrightarrow>
     s \<le> t \<and> even (s + e) \<and> even (t + e) \<and> - e \<le> s \<and> t \<le> e \<and> min_diagonal st \<le> s \<and> t \<le> max_diagonal st \<and>
     (\<forall>d p. s - 1 \<le> d \<and> d \<le> t + 1 \<and> odd (d + e) \<and> best st d = Some p \<longrightarrow> path_ok new old (e - 1) d p) \<and>
     (\<forall>d. s \<le> d \<and> d \<le> t \<and> even (d + e) \<longrightarrow> branches new old st d) \<and>
     (\<forall>d. e \<le> \<bar>d\<bar> \<longrightarrow> best st d = None) \<and>
     (s = - e \<and> min_diagonal st = isize_min \<or>
      - e < s \<and> (\<exists>p. best st (s - 1) = Some p \<and> new_end new (s - 1) p \<and> \<not> old_end old p)) \<and>
     (t = e \<and> max_diagonal st = isize_max \<or>
      t < e \<and> (\<exists>p. best st (t + 1) = Some p \<and> old_end old p \<and> \<not> new_end new (t + 1) p))"

text \<open>The lower bound after the diagonals from \<open>s\<close> to below \<open>d\<close>: none has come to the end of the new text, or
  one has and the bound is the next.\<close>

definition low_bound :: "string list \<Rightarrow> int \<Rightarrow> int \<Rightarrow> int \<Rightarrow> search \<Rightarrow> bool" where
  "low_bound new s e d st \<longleftrightarrow>
     s = - e \<and> min_diagonal st = isize_min \<and>
       (\<forall>d' p. s \<le> d' \<and> d' < d \<and> even (d' + e) \<and> best st d' = Some p \<longrightarrow> \<not> new_end new d' p) \<or>
     (\<exists>d' p. s \<le> d' \<and> d' < d \<and> even (d' + e) \<and> min_diagonal st = d' + 1 \<and>
       best st d' = Some p \<and> new_end new d' p)"

text \<open>Inside the round, before diagonal \<open>d\<close>, with \<open>st0\<close> the state it began in.\<close>

definition within ::
  "string list \<Rightarrow> string list \<Rightarrow> int \<Rightarrow> int \<Rightarrow> int \<Rightarrow> search \<Rightarrow> int \<Rightarrow> search \<Rightarrow> bool" where
  "within new old s t e st0 d st \<longleftrightarrow>
     s \<le> d \<and> even (d + e) \<and> d \<le> t + 2 \<and> (t < e \<longrightarrow> d \<le> t) \<and>
     (\<forall>d'. d - 1 \<le> d' \<and> odd (d' + e) \<longrightarrow> best st d' = best st0 d') \<and>
     (\<forall>d'. s \<le> d' \<and> d' < d \<and> even (d' + e) \<longrightarrow>
        (\<exists>p. best st d' = Some p \<and> path_ok new old e d' p \<and> \<not> old_end old p)) \<and>
     (\<forall>d'. e < \<bar>d'\<bar> \<longrightarrow> best st d' = None) \<and>
     max_diagonal st = max_diagonal st0 \<and>
     (d = s \<and> min_diagonal st = min_diagonal st0 \<or> low_bound new s e d st)"

text \<open>After the round, with \<open>d\<close> the last diagonal it worked on.\<close>

definition ended :: "string list \<Rightarrow> string list \<Rightarrow> int \<Rightarrow> int \<Rightarrow> int \<Rightarrow> search \<Rightarrow> bool" where
  "ended new old s e d st \<longleftrightarrow>
     - e \<le> s \<and> s \<le> d \<and> d \<le> e \<and> even (s + e) \<and> even (d + e) \<and>
     (\<forall>d'. s \<le> d' \<and> d' \<le> d \<and> even (d' + e) \<longrightarrow>
        (\<exists>p. best st d' = Some p \<and> path_ok new old e d' p \<and> (d' < d \<longrightarrow> \<not> old_end old p) \<and>
           \<not> (old_end old p \<and> new_end new d' p))) \<and>
     (\<forall>d'. e < \<bar>d'\<bar> \<longrightarrow> best st d' = None) \<and>
     low_bound new s e (d + 1) st \<and>
     (\<exists>p. best st d = Some p \<and>
        (d = e \<and> max_diagonal st = isize_max \<and> \<not> old_end old p \<or> max_diagonal st = d - 1 \<and> old_end old p))"

lemma ready_within: "ready new old s t e st \<Longrightarrow> within new old s t e st s st"
  by (auto simp: ready_def within_def)

lemma within_step:
  assumes "ready new old s t e st0" and "within new old s t e st0 d st" and "d \<le> t" and "0 < e"
  shows "(\<exists>cs. diff_step new old d st = Returned cs \<and> reads new old cs) \<or> (\<exists>base. step_goes new old e d st base)"
proof -
  have eq: "best st (d - 1) = best st0 (d - 1)" "best st (d + 1) = best st0 (d + 1)"
    and d: "s \<le> d" "even (d + e)"
    using assms(2) by (auto simp: within_def)
  have "branches new old st d" using assms(1,3) d eq by (auto simp: ready_def branches_def)
  moreover have "path_ok new old (e - 1) (d - 1) p" if "best st (d - 1) = Some p" for p
    using assms(1,3) d that eq by (auto simp: ready_def)
  moreover have "path_ok new old (e - 1) (d + 1) p" if "best st (d + 1) = Some p" for p
    using assms(1,3) d that eq by (auto simp: ready_def)
  ultimately show ?thesis by (rule diff_step_branch)
qed

text \<open>What a step does at the edges of the range: it stays at the end of the text the bound is there for.\<close>

lemma step_low:
  assumes "ready new old s t e st0" "within new old s t e st0 d st" "step_goes new old e d st base"
    and "d = s" "- e < s"
  shows "new_end new d base"
proof -
  obtain p where p: "best st0 (s - 1) = Some p" "new_end new (s - 1) p" "\<not> old_end old p"
    using assms(1,5) by (auto simp: ready_def)
  then have "best st (d - 1) = Some p" using assms(2,4) by (auto simp: within_def)
  then have "old_pos p + 1 \<le> old_pos base" using assms(3) p(3) by (auto simp: step_goes_def)
  with p(2) assms(4) show ?thesis by simp
qed

lemma step_high:
  assumes "ready new old s t e st0" "within new old s t e st0 d st" "step_goes new old e d st base"
    and "d = t" "t < e"
  shows "old_end old base"
proof -
  obtain p where p: "best st0 (t + 1) = Some p" "old_end old p" "\<not> new_end new (t + 1) p"
    using assms(1,5) by (auto simp: ready_def)
  then have "best st (d + 1) = Some p" using assms(1,2,4) by (auto simp: within_def ready_def)
  then have "old_pos p \<le> old_pos base" using assms(3,4) p(3) by (auto simp: step_goes_def)
  with p(2) show ?thesis by simp
qed


lemma step_low_bound:
  assumes "ready new old s t e st0" "within new old s t e st0 d st" "step_goes new old e d st base" "d \<le> t"
    and "diff_step new old d st = Went st'"
  shows "low_bound new s e (d + 1) st'"
proof -
  have st': "best st' = (best st)(d - 1 := None, d \<mapsto> base)"
    "min_diagonal st' = (if new_end new d base then max (min_diagonal st) (d + 1) else min_diagonal st)"
    using assms(3,5) by (auto simp: step_goes_def)
  have d: "s \<le> d" "even (d + e)" and low: "d = s \<and> min_diagonal st = min_diagonal st0 \<or> low_bound new s e d st"
    using assms(2) by (auto simp: within_def)
  have s: "- e \<le> s" "min_diagonal st0 \<le> s" "s = - e \<longrightarrow> isize_min \<le> s"
    using assms(1) by (auto simp: ready_def)
  have same: "best st' d' = best st d'" if "d' < d" "even (d' + e)" for d'
    using that d st'(1) by (auto simp: fun_upd_def)
  show ?thesis
  proof (cases "new_end new d base")
    case True
    have "min_diagonal st \<le> d" using low s d by (auto simp: low_bound_def)
    with True d st' show ?thesis by (auto simp: low_bound_def)
  next
    case False
    then have keep: "min_diagonal st' = min_diagonal st" using st'(2) by simp
    show ?thesis
    proof (cases "low_bound new s e d st")
      case True
      then show ?thesis
        unfolding low_bound_def keep
      proof (elim disjE exE conjE)
        assume *: "s = - e" "min_diagonal st = isize_min"
          "\<forall>d' p. s \<le> d' \<and> d' < d \<and> even (d' + e) \<and> best st d' = Some p \<longrightarrow> \<not> new_end new d' p"
        have "\<not> new_end new d' p" if "s \<le> d'" "d' < d + 1" "even (d' + e)" "best st' d' = Some p" for d' p
          using that * same [of d'] False st'(1) by (cases "d' = d") auto
        with * show "s = - e \<and> min_diagonal st = isize_min \<and>
            (\<forall>d' p. s \<le> d' \<and> d' < d + 1 \<and> even (d' + e) \<and> best st' d' = Some p \<longrightarrow> \<not> new_end new d' p) \<or>
            (\<exists>d' p. s \<le> d' \<and> d' < d + 1 \<and> even (d' + e) \<and> min_diagonal st = d' + 1 \<and>
              best st' d' = Some p \<and> new_end new d' p)" by blast
      next
        fix d' p
        assume *: "s \<le> d'" "d' < d" "even (d' + e)" "min_diagonal st = d' + 1" "best st d' = Some p" "new_end new d' p"
        then have "best st' d' = Some p" using same by simp
        with * show "s = - e \<and> min_diagonal st = isize_min \<and>
            (\<forall>d' p. s \<le> d' \<and> d' < d + 1 \<and> even (d' + e) \<and> best st' d' = Some p \<longrightarrow> \<not> new_end new d' p) \<or>
            (\<exists>d' p. s \<le> d' \<and> d' < d + 1 \<and> even (d' + e) \<and> min_diagonal st = d' + 1 \<and>
              best st' d' = Some p \<and> new_end new d' p)" by (intro disjI2 exI [of _ d'] exI [of _ p]) simp
      qed
    next
      case not_low: False
      with low have first: "d = s" "min_diagonal st = min_diagonal st0" by auto
      then have "s = - e" using step_low [OF assms(1-3)] False s by fastforce
      then have "min_diagonal st0 = isize_min" using assms(1) by (auto simp: ready_def)
      with first keep \<open>s = - e\<close> False st'(1) show ?thesis by (auto simp: low_bound_def)
    qed
  qed
qed

lemma within_went:
  assumes "ready new old s t e st0" "within new old s t e st0 d st" "step_goes new old e d st base" "d \<le> t"
    and "diff_step new old d st = Went st'"
  shows "if old_end old base then ended new old s e d st' else within new old s t e st0 (d + 2) st'"
proof -
  have st': "best st' = (best st)(d - 1 := None, d \<mapsto> base)"
    "max_diagonal st' = (if old_end old base then min (max_diagonal st) (d - 1) else max_diagonal st)"
    and base: "path_ok new old e d base" "\<not> (old_end old base \<and> new_end new d base)"
    using assms(3,5) by (auto simp: step_goes_def)
  have d: "s \<le> d" "even (d + e)" and st: "\<And>d'. d - 1 \<le> d' \<Longrightarrow> odd (d' + e) \<Longrightarrow> best st d' = best st0 d'"
    "\<And>d'. s \<le> d' \<Longrightarrow> d' < d \<Longrightarrow> even (d' + e) \<Longrightarrow>
       \<exists>p. best st d' = Some p \<and> path_ok new old e d' p \<and> \<not> old_end old p"
    "\<And>d'. e < \<bar>d'\<bar> \<Longrightarrow> best st d' = None" "max_diagonal st = max_diagonal st0"
    using assms(2) by (auto simp: within_def)
  have s: "- e \<le> s" "t \<le> e" "t \<le> max_diagonal st0" "even (s + e)" "even (t + e)" using assms(1) by (auto simp: ready_def)
  note low = step_low_bound [OF assms]
  have far: "best st' d' = None" if "e < \<bar>d'\<bar>" for d'
    using that st(3) [OF that] d s assms(4) st'(1) by auto
  have old: "\<exists>p. best st' d' = Some p \<and> path_ok new old e d' p \<and> \<not> old_end old p"
    if "s \<le> d'" "d' < d" "even (d' + e)" for d'
    using that st(2) d st'(1) by (auto simp: fun_upd_def)
  show ?thesis
  proof (cases "old_end old base")
    case True
    have "\<exists>p. best st' d' = Some p \<and> path_ok new old e d' p \<and> (d' < d \<longrightarrow> \<not> old_end old p) \<and>
        \<not> (old_end old p \<and> new_end new d' p)" if "s \<le> d'" "d' \<le> d" "even (d' + e)" for d'
      using that old [of d'] base st'(1) by (cases "d' = d") auto
    moreover have "max_diagonal st' = d - 1" using st'(2) True st(4) s(3) assms(4) by simp
    ultimately have "ended new old s e d st'"
      using d s(1,2,4) assms(4) far low st'(1) True unfolding ended_def by simp
    with True show ?thesis by simp
  next
    case False
    have next_low: "low_bound new s e (d + 2) st'"
    proof -
      have "d' < d + 2 \<and> even (d' + e) \<longleftrightarrow> d' < d + 1 \<and> even (d' + e)" for d' using d(2) by (auto; presburger)
      with low show ?thesis unfolding low_bound_def by metis
    qed
    have "best st' d' = best st0 d'" if "d + 1 \<le> d'" "odd (d' + e)" for d'
      using that st(1) [of d'] d(2) st'(1) by auto
    moreover have "\<exists>p. best st' d' = Some p \<and> path_ok new old e d' p \<and> \<not> old_end old p"
      if "s \<le> d'" "d' < d + 2" "even (d' + e)" for d'
    proof (cases "d' = d")
      case True
      then show ?thesis using base False st'(1) by simp
    next
      case other: False
      with that d(2) have "d' < d" by presburger
      then show ?thesis using that old by simp
    qed
    moreover have "t < e \<longrightarrow> d + 2 \<le> t"
    proof
      assume "t < e"
      with step_high [OF assms(1-3)] False have "d \<noteq> t" by auto
      with d(2) s(5) assms(4) show "d + 2 \<le> t" by presburger
    qed
    ultimately have "within new old s t e st0 (d + 2) st'"
      using d assms(4) far next_low st'(2) False st(4) unfolding within_def by simp
    with False show ?thesis by simp
  qed
qed


lemma ended_ready:
  assumes "ended new old s e d st" and "isize_min \<le> - (e + 1)" "e + 1 \<le> isize_max" and "0 < e"
  shows "\<exists>t. ready new old (max (min_diagonal st) (- (e + 1))) t (e + 1) st"
proof -
  have range: "- e \<le> s" "s \<le> d" "d \<le> e" "even (s + e)" "even (d + e)"
    and paths: "\<And>d'. s \<le> d' \<Longrightarrow> d' \<le> d \<Longrightarrow> even (d' + e) \<Longrightarrow>
      \<exists>p. best st d' = Some p \<and> path_ok new old e d' p \<and> (d' < d \<longrightarrow> \<not> old_end old p) \<and>
        \<not> (old_end old p \<and> new_end new d' p)"
    and far: "\<And>d'. e < \<bar>d'\<bar> \<Longrightarrow> best st d' = None" and low: "low_bound new s e (d + 1) st"
    using assms(1) by (auto simp: ended_def)
  obtain p where p: "best st d = Some p"
    "d = e \<and> max_diagonal st = isize_max \<and> \<not> old_end old p \<or> max_diagonal st = d - 1 \<and> old_end old p"
    using assms(1) by (auto simp: ended_def)
  define s' where "s' = max (min_diagonal st) (- (e + 1))"
  define t' where "t' = (if old_end old p then d - 1 else e + 1)"
  have top: "t' \<le> d + 1" "t' \<le> max_diagonal st" "even (t' + (e + 1))" "t' \<le> e + 1" "old_end old p \<Longrightarrow> t' = d - 1"
    "\<not> old_end old p \<Longrightarrow> t' = e + 1 \<and> d = e"
    using p(2) range assms(3) by (auto simp: t'_def)
  have bottom: "s' = - (e + 1) \<and> s = - e \<and> min_diagonal st = isize_min \<and> (\<forall>q. best st s = Some q \<longrightarrow> \<not> new_end new s q) \<or>
      (\<exists>d' q. s \<le> d' \<and> d' \<le> d \<and> even (d' + e) \<and> s' = d' + 1 \<and> min_diagonal st = s' \<and> best st d' = Some q \<and> new_end new d' q)"
    using low range assms(2) unfolding low_bound_def
  proof (elim disjE exE conjE)
    assume *: "s = - e" "min_diagonal st = isize_min"
      "\<forall>d' p. s \<le> d' \<and> d' < d + 1 \<and> even (d' + e) \<and> best st d' = Some p \<longrightarrow> \<not> new_end new d' p"
    then have "\<not> new_end new s q" if "best st s = Some q" for q
      using *(3) [rule_format, of s q] that range by simp
    with * assms(2) show ?thesis by (intro disjI1) (simp add: s'_def)
  next
    fix d' q
    assume *: "s \<le> d'" "d' < d + 1" "even (d' + e)" "min_diagonal st = d' + 1" "best st d' = Some q" "new_end new d' q"
    with range have "s' = d' + 1" by (auto simp: s'_def)
    with * show ?thesis by (intro disjI2 exI [of _ d'] exI [of _ q]) simp
  qed
  have s': "even (s' + (e + 1))" "- (e + 1) \<le> s'" "s - 1 \<le> s'" "min_diagonal st \<le> s'" using bottom range by (auto simp: s'_def)
  have le: "s' \<le> t'"
    using bottom
  proof (elim disjE exE conjE)
    assume "s' = - (e + 1)"
    then show ?thesis using top range p(2) by (auto simp: t'_def)
  next
    fix d' q
    assume *: "s \<le> d'" "d' \<le> d" "even (d' + e)" "s' = d' + 1" "best st d' = Some q" "new_end new d' q"
    show ?thesis
    proof (cases "old_end old p")
      case True
      have "d' \<noteq> d" using paths [of d] range p(1) True * by auto
      then have "d' + 2 \<le> d" using *(2,3) range(5) by presburger
      then show ?thesis using * top(5) True by simp
    next
      case False
      then show ?thesis using * top(6) range by simp
    qed
  qed
  have branch: "branches new old st k" if "s' \<le> k" "k \<le> t'" "even (k + (e + 1))" for k
  proof (cases "s \<le> k - 1")
    case True
    with that top have k: "k - 1 \<le> d" "even (k - 1 + e)" by auto
    obtain q where q: "best st (k - 1) = Some q" "k - 1 < d \<longrightarrow> \<not> old_end old q"
      using paths [OF True k] by auto
    have "\<not> old_end old q"
    proof (cases "k - 1 < d")
      case False
      with k have "k - 1 = d" by simp
      with that top p(1) q(1) show ?thesis by (cases "old_end old p") auto
    qed (use q(2) in simp)
    with q(1) show ?thesis by (auto simp: branches_def)
  next
    case False
    with that s' have "k = s - 1" using range by presburger
    with that s' bottom have "s' = - (e + 1)" "s = - e" "\<forall>q. best st s = Some q \<longrightarrow> \<not> new_end new s q" by auto
    with paths [of s] range \<open>k = s - 1\<close> show ?thesis by (auto simp: branches_def)
  qed
  have path: "path_ok new old e k q" if "s' - 1 \<le> k" "k \<le> t' + 1" "odd (k + (e + 1))" "best st k = Some q" for k q
  proof -
    have "\<bar>k\<bar> \<le> e" using far [of k] that(4) by fastforce
    have "s \<le> k" using bottom \<open>\<bar>k\<bar> \<le> e\<close> that(1) by auto
    moreover have "k \<le> d" using top \<open>\<bar>k\<bar> \<le> e\<close> that(2) by (cases "old_end old p") auto
    moreover have "even (k + e)" using that(3) by simp
    ultimately show ?thesis using paths [of k] that(4) by auto
  qed
  have "s' = - (e + 1) \<and> min_diagonal st = isize_min \<or>
      - (e + 1) < s' \<and> (\<exists>q. best st (s' - 1) = Some q \<and> new_end new (s' - 1) q \<and> \<not> old_end old q)"
    using bottom
  proof (elim disjE exE conjE)
    fix d' q
    assume *: "s \<le> d'" "d' \<le> d" "even (d' + e)" "s' = d' + 1" "best st d' = Some q" "new_end new d' q"
    then have "\<not> old_end old q" using paths [of d'] by auto
    with * range show ?thesis by (intro disjI2) auto
  qed simp
  moreover have "t' = e + 1 \<and> max_diagonal st = isize_max \<or>
      t' < e + 1 \<and> (\<exists>q. best st (t' + 1) = Some q \<and> old_end old q \<and> \<not> new_end new (t' + 1) q)"
  proof (cases "old_end old p")
    case True
    then have "\<not> new_end new d p" using paths [of d] range p(1) by auto
    with True top(5) p(1) range show ?thesis by auto
  next
    case False
    then show ?thesis using top(6) p(2) by auto
  qed
  ultimately have "ready new old s' t' (e + 1) st"
    using le s' top(2,3,4) path branch far unfolding ready_def by auto
  then show ?thesis unfolding s'_def by blast
qed


lemma ready_bound: "ready new old s t e st \<Longrightarrow> e \<le> int (length new + length old)"
proof -
  assume r: "ready new old s t e st"
  then have s: "s \<le> t" "even (s + e)" and "branches new old st s" by (auto simp: ready_def)
  then consider p where "best st (s - 1) = Some p" "\<not> old_end old p" |
    p where "best st (s + 1) = Some p" "\<not> new_end new (s + 1) p" by (auto simp: branches_def)
  then show ?thesis
  proof cases
    case 1
    then have "path_ok new old (e - 1) (s - 1) p" using r s by (auto simp: ready_def)
    with 1(2) show ?thesis by (auto simp: path_ok_def)
  next
    case 2
    then have "path_ok new old (e - 1) (s + 1) p" using r s by (auto simp: ready_def)
    with 2(2) show ?thesis by (auto simp: path_ok_def)
  qed
qed

lemma within_over:
  assumes "ready new old s t e st0" "within new old s t e st0 d st" "t < d"
  shows "ended new old s e e st"
proof -
  have range: "- e \<le> s" "s \<le> t" "t \<le> e" "even (s + e)" "even (t + e)" "d \<le> t + 2" "even (d + e)" "t < e \<longrightarrow> d \<le> t"
    using assms(1,2) by (auto simp: ready_def within_def)
  then have "t = e" and d: "d = e + 2" using assms(3) by (auto; presburger)+
  have paths: "\<And>d'. s \<le> d' \<Longrightarrow> d' \<le> e \<Longrightarrow> even (d' + e) \<Longrightarrow>
      \<exists>p. best st d' = Some p \<and> path_ok new old e d' p \<and> \<not> old_end old p"
    using assms(2) d by (auto simp: within_def)
  have low: "low_bound new s e (e + 2) st" using assms(2,3) d range(2) by (auto simp: within_def)
  have "d' < e + 2 \<and> even (d' + e) \<longleftrightarrow> d' < e + 1 \<and> even (d' + e)" for d' by (auto; presburger)
  with low have "low_bound new s e (e + 1) st" unfolding low_bound_def by metis
  moreover have "max_diagonal st = isize_max" using assms(1,2) \<open>t = e\<close> by (auto simp: ready_def within_def)
  moreover have "\<forall>d'. e < \<bar>d'\<bar> \<longrightarrow> best st d' = None" using assms(2) by (auto simp: within_def)
  ultimately show ?thesis
    using range(1-4) \<open>t = e\<close> paths [of e] unfolding ended_def by (auto dest!: paths)
qed

lemma diff_round_ok:
  assumes "ready new old s t e st0" "0 < e"
  shows "within new old s t e st0 d st \<Longrightarrow>
    case diff_round new old e d st of Inl cs \<Rightarrow> reads new old cs | Inr st' \<Rightarrow> \<exists>d. ended new old s e d st'"
proof (induction "nat (t + 2 - d)" arbitrary: d st rule: less_induct)
  case less
  have max: "max_diagonal st = max_diagonal st0" using less.prems by (simp add: within_def)
  have t: "t \<le> max_diagonal st0" "t \<le> e" using assms(1) by (auto simp: ready_def)
  show ?case
  proof (cases "d \<le> t")
    case False
    then have "ended new old s e e st" using within_over [OF assms(1) less.prems] by simp
    moreover have "e < d" using less.prems False t assms(1)
      by (auto simp: within_def ready_def)
    ultimately show ?thesis by (subst diff_round.simps) auto
  next
    case True
    then have go: "d \<le> min (max_diagonal st) e" using max t by simp
    from within_step [OF assms(1) less.prems True assms(2)] consider
      cs where "diff_step new old d st = Returned cs" "reads new old cs" | base where "step_goes new old e d st base"
      by blast
    then show ?thesis
    proof cases
      case 1
      then show ?thesis using go by (subst diff_round.simps) simp
    next
      case goes: 2
      then obtain st' where st': "diff_step new old d st = Went st'" by (auto simp: step_goes_def)
      have eq: "diff_round new old e d st = diff_round new old e (d + 2) st'"
        using go st' by (subst diff_round.simps) simp
      note went = within_went [OF assms(1) less.prems goes True st']
      show ?thesis
      proof (cases "old_end old base")
        case True
        then have e: "ended new old s e d st'" using went by simp
        have "max_diagonal st' = min (max_diagonal st) (d - 1)" using goes st' True by (auto simp: step_goes_def)
        then have "diff_round new old e (d + 2) st' = Inr st'" by (subst diff_round.simps) simp
        with e eq show ?thesis by auto
      next
        case False
        then have "within new old s t e st0 (d + 2) st'" using went by simp
        with less.hyps [of "d + 2" st'] True eq show ?thesis by simp
      qed
    qed
  qed
qed

lemma diff_search_ok:
  "int (length new + length old) + 1 < 2 ^ 63 \<Longrightarrow>
   ready new old (max (min_diagonal st) (- e)) t e st \<Longrightarrow> 0 < e \<Longrightarrow> reads new old (diff_search new old e st)"
proof (induction new old e st arbitrary: t rule: diff_search.induct)
  case (1 new old e st)
  have e: "e \<le> int (length new + length old)" using ready_bound [OF "1.prems"(2)] .
  show ?case
  proof (cases "diff_round new old e (max (min_diagonal st) (- e)) st")
    case (Inl cs)
    then show ?thesis
      using diff_round_ok [OF "1.prems"(2,3) ready_within [OF "1.prems"(2)]] e
      by (simp add: diff_search.simps [of new old e st])
  next
    case (Inr st')
    then obtain d where "ended new old (max (min_diagonal st) (- e)) e d st'"
      using diff_round_ok [OF "1.prems"(2,3) ready_within [OF "1.prems"(2)]] by auto
    moreover have "isize_min \<le> - (e + 1)" "e + 1 \<le> isize_max" using e "1.prems"(1) by simp_all
    ultimately obtain t' where
      "ready new old (max (min_diagonal st') (- (e + 1))) t' (e + 1) st'"
      using ended_ready "1.prems"(3) by blast
    with "1.IH" [OF e Inr "1.prems"(1)] "1.prems"(3) e Inr show ?thesis by (simp add: diff_search.simps [of new old e st])
  qed
qed


lemma length_tokenize: "length (tokenize s) \<le> length s"
proof -
  have "length (tokenize_from l s) \<le> length l + length s" for l
    by (induction l s rule: tokenize_from.induct) (auto intro: Suc_leI simp: Suc_le_eq)
  from this [of "[]"] show ?thesis by (simp add: tokenize_def)
qed

text \<open>The first path is at the end of one text at most, and the first round turns away from it.\<close>

lemma first_round:
  assumes "path_ok new old 0 0 first" "\<not> (old_end old first \<and> new_end new 0 first)"
    and "int (length new + length old) + 1 < 2 ^ 63" "0 < int (length new + length old)"
    and st: "st = \<lparr>best = (\<lambda>_. None)(0 \<mapsto> first), min_diagonal = isize_min, max_diagonal = isize_max\<rparr>"
  shows "reads new old (diff_search new old 1 st)"
proof -
  have slots: "best st d = (if d = 0 then Some first else None)" for d by (simp add: st)
  have "\<exists>s t. ready new old s t 1 st \<and> diff_round new old 1 (- 1) st = diff_round new old 1 s st"
  proof (cases "new_end new 0 first")
    case True
    then have "ready new old 1 1 1 st"
      using assms(1,2) by (auto simp: ready_def st branches_def)
    moreover have "diff_step new old (- 1) st = Went st"
      using True by (auto simp: diff_step_def st fun_upd_def fun_eq_iff)
    then have "diff_round new old 1 (- 1) st = diff_round new old 1 1 st"
      by (subst diff_round.simps) (simp add: st)
    ultimately show ?thesis by blast
  next
    case new: False
    show ?thesis
    proof (cases "old_end old first")
      case True
      then have "ready new old (- 1) (- 1) 1 st"
        using assms(1) new by (auto simp: ready_def st branches_def)
      then show ?thesis by blast
    next
      case False
      have "branches new old st d" if "- 1 \<le> d" "d \<le> 1" "even (d + 1)" for d
      proof -
        from that have "d = - 1 \<or> d = 1" by presburger
        then show ?thesis using new False by (auto simp: branches_def slots)
      qed
      then have "ready new old (- 1) 1 1 st"
        using assms(1) new False by (auto simp: ready_def slots) (auto simp: st)
      then show ?thesis by blast
    qed
  qed
  then obtain s t where r: "ready new old s t 1 st" "diff_round new old 1 (- 1) st = diff_round new old 1 s st" by blast
  have start: "max (min_diagonal st) (- 1) = - 1" by (simp add: st)
  show ?thesis
  proof (cases "diff_round new old 1 s st")
    case (Inl cs)
    then show ?thesis
      using diff_round_ok [OF r(1) _ ready_within [OF r(1)]] r(2) start assms(4)
      by (simp add: diff_search.simps [of new old 1 st])
  next
    case (Inr st')
    then obtain d where "ended new old s 1 d st'"
      using diff_round_ok [OF r(1) _ ready_within [OF r(1)]] by auto
    from ended_ready [OF this] obtain t' where "ready new old (max (min_diagonal st') (- 2)) t' 2 st'" by auto
    with diff_search_ok [OF assms(3), of st' 2] Inr r(2) start assms(4) show ?thesis
      by (simp add: diff_search.simps [of new old 1 st])
  qed
qed

text \<open>Any run of the lines of a text is tokenized back into itself.\<close>

fun lines_ok :: "string list \<Rightarrow> bool" where
  "lines_ok [] \<longleftrightarrow> True"
| "lines_ok [l] \<longleftrightarrow> l \<noteq> [] \<and> lf \<notin> set (butlast l)"
| "lines_ok (l # ls) \<longleftrightarrow> l \<noteq> [] \<and> last l = lf \<and> lf \<notin> set (butlast l) \<and> lines_ok ls"

lemma lines_ok_Cons:
  "lines_ok (l # ls) \<longleftrightarrow> l \<noteq> [] \<and> lf \<notin> set (butlast l) \<and> (ls \<noteq> [] \<longrightarrow> last l = lf) \<and> lines_ok ls"
  by (cases ls) auto

lemma lines_ok_drop: "lines_ok ls \<Longrightarrow> lines_ok (drop n ls)"
  by (induction ls arbitrary: n) (auto simp: lines_ok_Cons drop_Cons split: nat.splits)

lemma lines_ok_take: "lines_ok ls \<Longrightarrow> lines_ok (take n ls)"
  by (induction ls arbitrary: n) (auto simp: lines_ok_Cons take_Cons split: nat.splits)

lemma tokenize_from_line:
  "lf \<notin> set u \<Longrightarrow> tokenize_from l (u @ lf # s) = (l @ u @ [lf]) # tokenize_from [] s"
  "lf \<notin> set u \<Longrightarrow> tokenize_from l u = (if l @ u = [] then [] else [l @ u])"
  by (induction u arbitrary: l) auto

lemma tokenize_lines: "lines_ok ls \<Longrightarrow> tokenize (concat ls) = ls"
proof (induction ls)
  case Nil
  then show ?case by (simp add: tokenize_def)
next
  case (Cons l ls)
  have l: "l = butlast l @ [last l]" "lf \<notin> set (butlast l)" using Cons.prems by (auto simp: lines_ok_Cons)
  show ?case
  proof (cases "last l = lf")
    case True
    then have eq: "concat (l # ls) = butlast l @ lf # concat ls" using l(1) by (metis append.assoc append_Cons append_Nil concat.simps(2))
    have "tokenize (concat (l # ls)) = (butlast l @ [lf]) # tokenize (concat ls)"
      unfolding tokenize_def eq by (simp add: tokenize_from_line(1) [OF l(2)])
    moreover have "butlast l @ [lf] = l" using True l(1) by simp
    ultimately show ?thesis using Cons by (simp only: lines_ok_Cons simp_thms)
  next
    case False
    with Cons.prems have "ls = []" "lf \<notin> set l" by (auto simp: lines_ok_Cons) (metis l(1) Un_iff empty_iff empty_set set_ConsD set_append)
    moreover have "l \<noteq> []" using Cons.prems by (simp add: lines_ok_Cons)
    ultimately show ?thesis using tokenize_from_line(2) [of l "[]"] by (simp add: tokenize_def)
  qed
qed

lemma lines_ok_tokenize: "lines_ok (tokenize s)"
proof -
  have "lf \<notin> set l \<Longrightarrow> lines_ok (tokenize_from l s)" for l
    by (induction l s rule: tokenize_from.induct) (auto simp: lines_ok_Cons dest: in_set_butlastD)
  from this [of "[]"] show ?thesis by (simp add: tokenize_def)
qed

lemma reads_back_tokenize: "reads_back tokenize (tokenize s)"
  by (simp add: reads_back_def tokenize_lines lines_ok_take lines_ok_drop lines_ok_tokenize)

lemma concat_side_lines:
  "concat (side_lines tokenize other cs) = concat (map change_value (filter (\<lambda>c. \<not> other c) cs))"
  unfolding side_lines_def by (induction cs) auto

lemma diff_lines_lines:
  assumes "length old + length new + 1 < 2 ^ 63"
  shows "side_lines tokenize change_added (diff_lines old new) = tokenize old"
    and "side_lines tokenize change_removed (diff_lines old new) = tokenize new"
    and "one_sided (diff_lines old new)" and "\<And>c. c \<in> set (diff_lines old new) \<Longrightarrow> change_value c \<noteq> []"
proof -
  let ?old = "tokenize old" and ?new = "tokenize new"
  obtain first new_pos where first: "extract_common \<lparr>old_pos = -1, chain = []\<rparr> ?new ?old 0 = (first, new_pos)" by force
  have "path_ok ?new ?old 0 0 \<lparr>old_pos = -1, chain = []\<rparr>" by (simp add: path_ok_def)
  from extract_common_ok [OF this] first have ok: "path_ok ?new ?old 0 0 first" "new_pos = old_pos first"
    by simp_all
  have "reads ?new ?old (diff_lines old new)"
  proof (cases "old_end ?old first \<and> new_end ?new 0 first")
    case True
    then show ?thesis
      using path_ok_reads [OF ok(1)] first ok(2) by (simp add: diff_lines_def)
  next
    case False
    let ?st = "\<lparr>best = (\<lambda>_. None)(0 \<mapsto> first), min_diagonal = isize_min, max_diagonal = isize_max\<rparr>"
    have "diff_lines old new = diff_search ?new ?old 1 ?st"
      using False first ok(2) by (auto simp: diff_lines_def)
    moreover have "int (length ?new + length ?old) + 1 < 2 ^ 63"
      using assms length_tokenize [of old] length_tokenize [of new] by simp
    moreover have "0 < int (length ?new + length ?old)" using False path_ok_bounds [OF ok(1)] by auto
    ultimately show ?thesis using first_round [OF ok(1) False _ _ refl] by metis
  qed
  then show "side_lines tokenize change_added (diff_lines old new) = tokenize old"
    "side_lines tokenize change_removed (diff_lines old new) = tokenize new"
    "one_sided (diff_lines old new)" "\<And>c. c \<in> set (diff_lines old new) \<Longrightarrow> change_value c \<noteq> []"
    using reads_back_tokenize [of old] reads_back_tokenize [of new]
    by (fastforce simp: reads_def tokenize_def)+
qed

text \<open>C15. The line diff of two texts is a diff of them: without the runs added it is the old text, without
  the runs removed the new one, and no run is both. The search ends in a script for any two texts, so
  the empty diff its last line would give is never given.\<close>

theorem diff_lines_reads:
  assumes "length old + length new + 1 < 2 ^ 63"
  shows "concat (map change_value (filter (\<lambda>c. \<not> change_added c) (diff_lines old new))) = old \<and>
    concat (map change_value (filter (\<lambda>c. \<not> change_removed c) (diff_lines old new))) = new \<and>
    list_all (\<lambda>c. \<not> (change_added c \<and> change_removed c)) (diff_lines old new)"
  using diff_lines_lines(3) [OF assms] diff_lines_lines(1,2) [OF assms, THEN arg_cong [where f = concat]]
  by (simp add: concat_side_lines one_sided_def)

lemma diff_lines_reads_witness:
  "concat (map change_value (filter (\<lambda>c. \<not> change_added c) (diff_lines [CHR ''a'', lf, CHR ''b''] [CHR ''b'']))) =
     [CHR ''a'', lf, CHR ''b''] \<and>
   concat (map change_value (filter (\<lambda>c. \<not> change_removed c) (diff_lines [CHR ''a'', lf, CHR ''b''] [CHR ''b'']))) =
     ''b'' \<and>
   list_all (\<lambda>c. \<not> (change_added c \<and> change_removed c)) (diff_lines [CHR ''a'', lf, CHR ''b''] [CHR ''b''])"
  by (rule diff_lines_reads) simp

end
