(* ===== verification/JsPatch.thy ===== *)
theory JsPatch
  imports JsDiff
begin

text \<open>
  The unified patch of \<open>tools/jsdiff.rs\<close> (\<open>create_two_files_patch\<close>): the hunks a line diff is grouped
  into, with their context and their line numbers, and their text. Applied to the old text, its hunks
  give the new one.
\<close>

section \<open>Hunks\<close>

definition split_lines :: "string \<Rightarrow> string list" where
  "split_lines s =
     (if s = [] then [[]]
      else let ls = map (\<lambda>l. l @ [lf]) (split_on lf s)
        in if last s = lf then butlast ls else butlast ls @ [butlast (last ls)])"

record hunk =
  old_start :: nat
  old_lines :: nat
  new_start :: nat
  new_lines :: nat
  hunk_lines :: "string list"

text \<open>The lines of a run, and whether they are added or removed.\<close>

type_synonym entry = "string list \<times> bool \<times> bool"

record patch_state =
  hunks :: "hunk list"
  old_range_start :: nat
  new_range_start :: nat
  current :: "string list"
  old_line :: nat
  new_line :: nat

definition context_lines :: "string list \<Rightarrow> string list" where
  "context_lines ls = map (\<lambda>l. CHR '' '' # l) ls"

text \<open>The start of a hunk at a change: its context is the end of the run before it, if there is one.\<close>

definition open_hunk :: "nat \<Rightarrow> entry option \<Rightarrow> patch_state \<Rightarrow> patch_state" where
  "open_hunk context previous st =
     (if old_range_start st \<noteq> 0 then st
      else (case previous of
          None \<Rightarrow> st\<lparr>old_range_start := old_line st, new_range_start := new_line st\<rparr>
        | Some (ls, _) \<Rightarrow>
            (let before = (if 0 < context then context_lines (drop (length ls - context) ls) else [])
             in st\<lparr>old_range_start := old_line st - length before, new_range_start := new_line st - length before,
                  current := before\<rparr>)))"

text \<open>One entry, with \<open>left\<close> entries after it.\<close>

definition patch_step :: "nat \<Rightarrow> entry option \<Rightarrow> nat \<Rightarrow> entry \<Rightarrow> patch_state \<Rightarrow> patch_state" where
  "patch_step context previous left = (\<lambda>(ls, added, removed) st.
     (if added \<or> removed
      then let st = open_hunk context previous st
        in st\<lparr>current := current st @ map (\<lambda>l. (if added then CHR ''+'' else CHR ''-'') # l) ls,
             new_line := (if added then new_line st + length ls else new_line st),
             old_line := (if added then old_line st else old_line st + length ls)\<rparr>
      else
        let st = (if old_range_start st = 0 then st
            else if length ls \<le> context * 2 \<and> 1 < left then st\<lparr>current := current st @ context_lines ls\<rparr>
            else let size = min (length ls) context
              in st\<lparr>hunks := hunks st @
                     [\<lparr>old_start = old_range_start st, old_lines = old_line st - old_range_start st + size,
                       new_start = new_range_start st, new_lines = new_line st - new_range_start st + size,
                       hunk_lines = current st @ context_lines (take size ls)\<rparr>],
                   current := [], old_range_start := 0, new_range_start := 0\<rparr>)
        in st\<lparr>old_line := old_line st + length ls, new_line := new_line st + length ls\<rparr>))"

fun patch_loop :: "nat \<Rightarrow> entry option \<Rightarrow> entry list \<Rightarrow> patch_state \<Rightarrow> patch_state" where
  "patch_loop context previous [] st = st"
| "patch_loop context previous (e # es) st =
     patch_loop context (Some e) es (patch_step context previous (length es) e st)"

definition patch_entries :: "string \<Rightarrow> string \<Rightarrow> entry list" where
  "patch_entries old new =
     map (\<lambda>c. (split_lines (change_value c), change_added c, change_removed c)) (diff_lines old new) @ [([], False, False)]"

definition patch_hunks :: "string \<Rightarrow> string \<Rightarrow> nat \<Rightarrow> hunk list" where
  "patch_hunks old new context =
     hunks (patch_loop context None (patch_entries old new)
       \<lparr>hunks = [], old_range_start = 0, new_range_start = 0, current = [], old_line = 1, new_line = 1\<rparr>)"

text \<open>A hunk's text: an empty range starts one line earlier, and a line with no newline says so.\<close>

definition patch_line :: "string \<Rightarrow> string list" where
  "patch_line l =
     (if l \<noteq> [] \<and> last l = lf then [butlast l] else [l, CHR 0x5C # '' No newline at end of file''])"

definition hunk_text :: "hunk \<Rightarrow> string list" where
  "hunk_text h =
     (let first = (\<lambda>start n. if n = 0 then start - 1 else start)
      in (''@@ -'' @ nat_text (first (old_start h) (old_lines h)) @ '','' @ nat_text (old_lines h) @ '' +'' @
            nat_text (first (new_start h) (new_lines h)) @ '','' @ nat_text (new_lines h) @ '' @@'') #
          concat (map patch_line (hunk_lines h)))"

definition create_two_files_patch :: "string \<Rightarrow> string \<Rightarrow> string \<Rightarrow> string \<Rightarrow> nat \<Rightarrow> string" where
  "create_two_files_patch old_name new_name old new context =
     join [lf] ([''--- '' @ old_name, ''+++ '' @ new_name] @ concat (map hunk_text (patch_hunks old new context))) @ [lf]"

section \<open>Applying hunks\<close>

text \<open>The lines of each side among lines that carry their marks.\<close>

definition old_marked :: "string list \<Rightarrow> string list" where
  "old_marked ls = map tl (filter (\<lambda>l. hd l \<noteq> CHR ''+'') ls)"

definition new_marked :: "string list \<Rightarrow> string list" where
  "new_marked ls = map tl (filter (\<lambda>l. hd l \<noteq> CHR ''-'') ls)"

text \<open>A hunk replaces its old lines, which must stand at its place, by its new lines; its four numbers must
  be those of the lines. The state is the number of old lines read and the new text so far.\<close>

definition apply_hunk :: "string list \<Rightarrow> (nat \<times> string list) option \<Rightarrow> hunk \<Rightarrow> (nat \<times> string list) option" where
  "apply_hunk old st h =
     (case st of
        None \<Rightarrow> None
      | Some (at, out) \<Rightarrow>
          (let first = old_start h - 1; gap = take (first - at) (drop at old) in
           if 0 < old_start h \<and> at \<le> first \<and> old_lines h = length (old_marked (hunk_lines h)) \<and>
             take (old_lines h) (drop first old) = old_marked (hunk_lines h) \<and>
             new_start h = length out + length gap + 1 \<and> new_lines h = length (new_marked (hunk_lines h))
           then Some (first + old_lines h, out @ gap @ new_marked (hunk_lines h))
           else None))"

definition apply_patch :: "string list \<Rightarrow> hunk list \<Rightarrow> string list option" where
  "apply_patch old hs =
     map_option (\<lambda>(at, out). out @ drop at old) (foldl (apply_hunk old) (Some (0, [])) hs)"

lemma marked_append [simp]:
  "old_marked (ls @ ms) = old_marked ls @ old_marked ms" "new_marked (ls @ ms) = new_marked ls @ new_marked ms"
  by (simp_all add: old_marked_def new_marked_def)

lemma marked_Nil [simp]: "old_marked [] = []" "new_marked [] = []"
  by (simp_all add: old_marked_def new_marked_def)

lemma marked_context [simp]: "old_marked (context_lines ls) = ls" "new_marked (context_lines ls) = ls"
  by (simp_all add: old_marked_def new_marked_def context_lines_def comp_def)

lemma marked_added [simp]:
  "old_marked (map ((#) CHR ''+'') ls) = []" "new_marked (map ((#) CHR ''+'') ls) = ls"
  by (simp_all add: old_marked_def new_marked_def comp_def)

lemma marked_removed [simp]:
  "old_marked (map ((#) CHR ''-'') ls) = ls" "new_marked (map ((#) CHR ''-'') ls) = []"
  by (simp_all add: old_marked_def new_marked_def comp_def)

lemma context_lines_Nil [simp]: "context_lines [] = []"
  by (simp add: context_lines_def)

lemma context_lines_append [simp]: "context_lines (ls @ ms) = context_lines ls @ context_lines ms"
  by (simp add: context_lines_def)

lemma length_context_lines [simp]: "length (context_lines ls) = length ls"
  by (simp add: context_lines_def)

text \<open>Hunks that turn the old side of the marked lines \<open>ls\<close> into their new side, whatever follows.\<close>

definition turned :: "hunk list \<Rightarrow> string list \<Rightarrow> bool" where
  "turned hs ls \<longleftrightarrow>
     (\<forall>more. foldl (apply_hunk (old_marked ls @ more)) (Some (0, [])) hs =
        Some (length (old_marked ls), new_marked ls))"

lemma turned_hunk:
  assumes "turned hs ls" and "old_start h = length (old_marked ls) + length gap + 1"
    and "new_start h = length (new_marked ls) + length gap + 1"
    and "old_lines h = length (old_marked (hunk_lines h))" "new_lines h = length (new_marked (hunk_lines h))"
  shows "turned (hs @ [h]) (ls @ context_lines gap @ hunk_lines h)"
  unfolding turned_def
proof
  fix more
  have "foldl (apply_hunk (old_marked ls @ gap @ old_marked (hunk_lines h) @ more)) (Some (0, [])) hs =
      Some (length (old_marked ls), new_marked ls)"
    using assms(1) by (simp add: turned_def)
  then show "foldl (apply_hunk (old_marked (ls @ context_lines gap @ hunk_lines h) @ more)) (Some (0, [])) (hs @ [h]) =
      Some (length (old_marked (ls @ context_lines gap @ hunk_lines h)), new_marked (ls @ context_lines gap @ hunk_lines h))"
    using assms(2-5) by (simp add: apply_hunk_def Let_def)
qed

section \<open>The hunks of a diff\<close>

abbreviation is_change :: "entry \<Rightarrow> bool" where
  "is_change e \<equiv> fst (snd e) \<or> snd (snd e)"

text \<open>The marked lines of a run.\<close>

definition entry_marked :: "entry \<Rightarrow> string list" where
  "entry_marked = (\<lambda>(ls, added, removed).
     map ((#) (if added then CHR ''+'' else if removed then CHR ''-'' else CHR '' '')) ls)"

text \<open>Before the entries \<open>rest\<close>, the marked lines \<open>ms\<close> read: outside a hunk, the lines since the last one are
  common and, if a change is still to come, end with the context it takes; inside, the lines of the
  open hunk are the last ones read.\<close>

definition patch_inv :: "nat \<Rightarrow> entry option \<Rightarrow> entry list \<Rightarrow> string list \<Rightarrow> patch_state \<Rightarrow> bool" where
  "patch_inv context previous rest ms st \<longleftrightarrow>
     old_line st = length (old_marked ms) + 1 \<and> new_line st = length (new_marked ms) + 1 \<and>
     (if old_range_start st = 0
      then current st = [] \<and>
        (\<exists>ps cs. ms = ps @ context_lines cs \<and> turned (hunks st) ps \<and>
           (list_ex is_change rest \<longrightarrow>
              (case previous of None \<Rightarrow> True | Some (ls, _) \<Rightarrow> \<exists>cs'. cs = cs' @ drop (length ls - context) ls)))
      else \<exists>ps gap. ms = ps @ context_lines gap @ current st \<and> turned (hunks st) ps \<and>
        old_range_start st = length (old_marked ps) + length gap + 1 \<and>
        new_range_start st = length (new_marked ps) + length gap + 1)"

lemma patch_inv_openI:
  "old_line st = length (old_marked ms) + 1 \<Longrightarrow> new_line st = length (new_marked ms) + 1 \<Longrightarrow>
   ms = ps @ context_lines gap @ current st \<Longrightarrow> turned (hunks st) ps \<Longrightarrow>
   old_range_start st = length (old_marked ps) + length gap + 1 \<Longrightarrow>
   new_range_start st = length (new_marked ps) + length gap + 1 \<Longrightarrow> patch_inv context previous rest ms st"
  by (auto simp: patch_inv_def)

lemma patch_inv_closedI:
  "old_line st = length (old_marked ms) + 1 \<Longrightarrow> new_line st = length (new_marked ms) + 1 \<Longrightarrow>
   old_range_start st = 0 \<Longrightarrow> current st = [] \<Longrightarrow> ms = ps @ context_lines cs \<Longrightarrow> turned (hunks st) ps \<Longrightarrow>
   (list_ex is_change rest \<Longrightarrow>
     case previous of None \<Rightarrow> True | Some (ls, _) \<Rightarrow> \<exists>cs'. cs = cs' @ drop (length ls - context) ls) \<Longrightarrow>
   patch_inv context previous rest ms st"
  by (auto simp: patch_inv_def)

lemma open_hunk_inv:
  assumes "patch_inv context previous rest ms st" and "list_ex is_change rest"
  shows "\<exists>ps gap. let st' = open_hunk context previous st in
    ms = ps @ context_lines gap @ current st' \<and> turned (hunks st') ps \<and>
    old_range_start st' = length (old_marked ps) + length gap + 1 \<and>
    new_range_start st' = length (new_marked ps) + length gap + 1 \<and>
    old_line st' = old_line st \<and> new_line st' = new_line st"
proof (cases "old_range_start st = 0")
  case False
  then show ?thesis using assms(1) by (auto simp: patch_inv_def open_hunk_def)
next
  case True
  with assms obtain ps cs where
    st: "old_line st = length (old_marked ms) + 1" "new_line st = length (new_marked ms) + 1" "current st = []"
    "ms = ps @ context_lines cs" "turned (hunks st) ps"
    "case previous of None \<Rightarrow> True | Some (ls, _) \<Rightarrow> \<exists>cs'. cs = cs' @ drop (length ls - context) ls"
    by (auto simp: patch_inv_def)
  show ?thesis
  proof (cases previous)
    case None
    show ?thesis by (rule exI [of _ ps], rule exI [of _ cs]) (use True st None in \<open>simp add: open_hunk_def\<close>)
  next
    case (Some e)
    obtain ls a r where e: "e = (ls, a, r)" by (cases e) auto
    with Some st(6) obtain cs' where cs: "cs = cs' @ drop (length ls - context) ls" by auto
    show ?thesis
      by (rule exI [of _ ps], rule exI [of _ cs']) (use True st Some e cs in \<open>simp add: open_hunk_def Let_def\<close>)
  qed
qed

lemma patch_step_inv:
  assumes "patch_inv context previous (e # es) ms st"
    and "es \<noteq> [] \<longrightarrow> \<not> is_change (last es)" "es = [] \<longrightarrow> \<not> is_change e"
  shows "patch_inv context (Some e) es (ms @ entry_marked e) (patch_step context previous (length es) e st)"
proof -
  obtain ls added removed where e: "e = (ls, added, removed)" by (cases e) auto
  show ?thesis
  proof (cases "is_change e")
    case True
    then have "list_ex is_change (e # es)" by simp
    from open_hunk_inv [OF assms(1) this] obtain ps gap where
      st: "ms = ps @ context_lines gap @ current (open_hunk context previous st)"
      "turned (hunks (open_hunk context previous st)) ps"
      "old_range_start (open_hunk context previous st) = length (old_marked ps) + length gap + 1"
      "new_range_start (open_hunk context previous st) = length (new_marked ps) + length gap + 1"
      "old_line (open_hunk context previous st) = old_line st" "new_line (open_hunk context previous st) = new_line st"
      unfolding Let_def by blast
    have "old_line st = length (old_marked ms) + 1" "new_line st = length (new_marked ms) + 1"
      using assms(1) by (auto simp: patch_inv_def)
    then show ?thesis
      using True st by (intro patch_inv_openI [of _ _ ps gap]) (auto simp: e patch_step_def entry_marked_def Let_def)
  next
    case False
    then have common: "entry_marked e = context_lines ls" "\<not> added" "\<not> removed"
      by (auto simp: e entry_marked_def context_lines_def)
    have lines: "old_line st = length (old_marked ms) + 1" "new_line st = length (new_marked ms) + 1"
      using assms(1) by (auto simp: patch_inv_def)
    show ?thesis
    proof (cases "old_range_start st = 0")
      case True
      then obtain ps cs where "ms = ps @ context_lines cs" "turned (hunks st) ps" "current st = []"
        using assms(1) by (auto simp: patch_inv_def)
      then show ?thesis
        using True lines common
        by (intro patch_inv_closedI [of _ _ ps "cs @ ls"]) (auto simp: e patch_step_def intro: exI [of _ "cs @ take (length ls - context) ls"])
    next
      case inside: False
      then obtain ps gap where st: "ms = ps @ context_lines gap @ current st" "turned (hunks st) ps"
        "old_range_start st = length (old_marked ps) + length gap + 1"
        "new_range_start st = length (new_marked ps) + length gap + 1"
        using assms(1) by (auto simp: patch_inv_def)
      show ?thesis
      proof (cases "length ls \<le> context * 2 \<and> 1 < length es")
        case True
        then show ?thesis
          using inside lines common st by (intro patch_inv_openI [of _ _ ps gap]) (auto simp: e patch_step_def)
      next
        case close: False
        define size where "size = min (length ls) context"
        define h where "h = \<lparr>old_start = old_range_start st, old_lines = old_line st - old_range_start st + size,
          new_start = new_range_start st, new_lines = new_line st - new_range_start st + size,
          hunk_lines = current st @ context_lines (take size ls)\<rparr>"
        have "turned (hunks st @ [h]) (ps @ context_lines gap @ hunk_lines h)"
          by (rule turned_hunk [OF st(2)]) (use st lines in \<open>simp_all add: h_def size_def\<close>)
        moreover have "ms @ entry_marked e = (ps @ context_lines gap @ hunk_lines h) @ context_lines (drop size ls)"
          using st(1) common(1) by (simp add: h_def flip: context_lines_append)
        moreover have "\<exists>cs'. drop size ls = cs' @ drop (length ls - context) ls" if "list_ex is_change es"
        proof -
          have "1 < length es"
          proof (rule ccontr)
            assume "\<not> 1 < length es"
            with that assms(2) show False by (cases es) auto
          qed
          with close have "size \<le> length ls - context" by (auto simp: size_def)
          then have "drop size ls = take (length ls - context - size) (drop size ls) @ drop (length ls - context) ls"
            by (metis append_take_drop_id drop_drop le_add_diff_inverse2)
          then show ?thesis by blast
        qed
        moreover have "patch_step context previous (length es) e st =
            st\<lparr>hunks := hunks st @ [h], current := [], old_range_start := 0, new_range_start := 0,
              old_line := old_line st + length ls, new_line := new_line st + length ls\<rparr>"
          using inside close common by (auto simp: e patch_step_def h_def size_def Let_def)
        moreover have "old_line st + length ls = length (old_marked (ms @ entry_marked e)) + 1"
          "new_line st + length ls = length (new_marked (ms @ entry_marked e)) + 1"
          using lines common(1) by simp_all
        ultimately show ?thesis
          by (intro patch_inv_closedI [of _ _ "ps @ context_lines gap @ hunk_lines h" "drop size ls"])
            (simp_all add: e del: append_assoc)
      qed
    qed
  qed
qed

lemma patch_loop_inv:
  "patch_inv context previous es ms st \<Longrightarrow> es \<noteq> [] \<Longrightarrow> \<not> is_change (last es) \<Longrightarrow>
   \<exists>ps cs. ms @ concat (map entry_marked es) = ps @ context_lines cs \<and> turned (hunks (patch_loop context previous es st)) ps"
proof (induction es arbitrary: previous ms st)
  case Nil
  then show ?case by simp
next
  case (Cons e es)
  let ?st = "patch_step context previous (length es) e st"
  have inv: "patch_inv context (Some e) es (ms @ entry_marked e) ?st"
    by (rule patch_step_inv [OF Cons.prems(1)]) (use Cons.prems(3) in auto)
  show ?case
  proof (cases "es = []")
    case False
    then show ?thesis using Cons.IH [OF inv] Cons.prems(3) by simp
  next
    case True
    then have "old_range_start ?st = 0" using Cons.prems(3) by (cases e) (auto simp: patch_step_def Let_def)
    with inv True show ?thesis by (auto simp: patch_inv_def)
  qed
qed

section \<open>The patch of two texts\<close>

text \<open>The lines of a run that is not empty are its tokens.\<close>

lemma tokenize_split_on:
  "tokenize_from l s =
     map (\<lambda>p. p @ [lf]) (butlast ((l @ hd (split_on lf s)) # tl (split_on lf s))) @
     (if last ((l @ hd (split_on lf s)) # tl (split_on lf s)) = [] then []
      else [last ((l @ hd (split_on lf s)) # tl (split_on lf s))])"
proof (induction l s rule: tokenize_from.induct)
  case (1 l)
  then show ?case by simp
next
  case (2 l c s)
  obtain p ps where ps: "split_on lf s = p # ps" by (cases "split_on lf s") auto
  from 2 show ?case by (cases "c = lf") (simp_all add: ps)
qed

lemma last_split_on: "s \<noteq> [] \<Longrightarrow> last (split_on d s) = [] \<longleftrightarrow> last s = d"
proof (induction s)
  case (Cons c s)
  obtain p ps where ps: "split_on d s = p # ps" by (cases "split_on d s") auto
  show ?case
  proof (cases "s = []")
    case False
    then have IH: "last (p # ps) = [] \<longleftrightarrow> last s = d" using Cons.IH by (simp add: ps)
    have "split_on d s = [p] \<Longrightarrow> p \<noteq> []" using False by (cases s) (auto split: if_splits list.splits)
    with IH False show ?thesis using split_on_no_sep [of p d s] by (auto simp: ps)
  qed simp
qed simp

lemma split_lines_tokenize:
  assumes "s \<noteq> []"
  shows "split_lines s = tokenize s"
proof -
  obtain p ps where ps: "split_on lf s = p # ps" by (cases "split_on lf s") auto
  have last: "last (p # ps) = [] \<longleftrightarrow> last s = lf" using last_split_on [OF assms, of lf] by (simp add: ps)
  have "tokenize s = map (\<lambda>p. p @ [lf]) (butlast (p # ps)) @ (if last (p # ps) = [] then [] else [last (p # ps)])"
    unfolding tokenize_def tokenize_split_on [of "[]"] by (simp add: ps)
  then show ?thesis
    unfolding split_lines_def Let_def ps last using assms
    by (simp add: map_butlast last_map del: butlast.simps last.simps list.map)
qed

lemma entry_marked_sides:
  "\<not> (a \<and> r) \<Longrightarrow> old_marked (entry_marked (ls, a, r)) = (if a then [] else ls)"
  "\<not> (a \<and> r) \<Longrightarrow> new_marked (entry_marked (ls, a, r)) = (if r then [] else ls)"
  by (simp_all add: entry_marked_def) (simp_all add: old_marked_def new_marked_def comp_def)

text \<open>C16. The patch of an edit is a patch of it: its hunks apply to the old text and give the new one. Each
  stands where it says, in both texts, in order and without overlap, over as many lines as it says,
  and the lines it shows as context or as removed are the old text's.\<close>

theorem patch_applies:
  assumes "length old + length new + 1 < 2 ^ 63"
  shows "apply_patch (tokenize old) (patch_hunks old new context) = Some (tokenize new)"
proof -
  let ?cs = "diff_lines old new" and ?es = "patch_entries old new"
  let ?st = "\<lparr>hunks = [], old_range_start = 0, new_range_start = 0, current = [], old_line = 1, new_line = 1\<rparr>"
  let ?ms = "concat (map entry_marked ?es)"
  have "patch_inv context None ?es [] ?st"
    by (rule patch_inv_closedI [of _ _ "[]" "[]"]) (simp_all add: turned_def)
  then obtain ps cs where ps: "?ms = ps @ context_lines cs" "turned (patch_hunks old new context) ps"
    using patch_loop_inv [of "context" None ?es "[]" ?st] by (auto simp: patch_hunks_def patch_entries_def)
  have "old_marked (concat (map (\<lambda>c. entry_marked (split_lines (change_value c), change_added c, change_removed c)) ds)) =
      side_lines tokenize change_added ds \<and>
      new_marked (concat (map (\<lambda>c. entry_marked (split_lines (change_value c), change_added c, change_removed c)) ds)) =
      side_lines tokenize change_removed ds"
    if "one_sided ds" "\<And>c. c \<in> set ds \<Longrightarrow> change_value c \<noteq> []" for ds
    using that by (induction ds) (auto simp: one_sided_def side_lines_def entry_marked_sides split_lines_tokenize)
  from this [of ?cs] diff_lines_lines [OF assms] have sides: "old_marked ?ms = tokenize old" "new_marked ?ms = tokenize new"
    by (simp_all add: patch_entries_def comp_def entry_marked_def)
  then have "tokenize old = old_marked ps @ cs" "tokenize new = new_marked ps @ cs" by (simp_all add: ps(1))
  with ps(2) show ?thesis by (simp add: apply_patch_def turned_def)
qed

lemma patch_applies_witness:
  "apply_patch (tokenize [CHR ''a'', lf, CHR ''b'']) (patch_hunks [CHR ''a'', lf, CHR ''b''] ''b'' 4) = Some (tokenize ''b'')"
  by (rule patch_applies) simp

end
