(* ===== verification/DiffText.thy ===== *)
theory DiffText
  imports JsPatch
begin

text \<open>
  The numbered diff an edit shows (\<open>generate_diff_string\<close> of \<open>tools/edit_diff.rs\<close>): the lines of the line
  diff with their numbers, four lines of context around each change, and \<open>...\<close> for what is left out.
\<close>

section \<open>The numbered diff\<close>

record diff_text =
  shown_lines :: "string list"
  at_old :: nat
  at_new :: nat
  last_was_change :: bool
  first_changed :: "nat option"

definition diff_context :: nat where
  "diff_context = 4"

text \<open>A number in a column of some width.\<close>

definition column :: "nat \<Rightarrow> nat \<Rightarrow> string" where
  "column width n = replicate (width - length (nat_text n)) CHR '' '' @ nat_text n"

definition raw_lines :: "string \<Rightarrow> string list" where
  "raw_lines s = (let ls = split_on lf s in if last ls = [] then butlast ls else ls)"

fun show_context :: "nat \<Rightarrow> string list \<Rightarrow> diff_text \<Rightarrow> diff_text" where
  "show_context width [] st = st"
| "show_context width (l # ls) st =
     show_context width ls
       (st\<lparr>shown_lines := shown_lines st @ ['' '' @ column width (at_old st) @ '' '' @ l],
           at_old := at_old st + 1, at_new := at_new st + 1\<rparr>)"

fun show_changed :: "nat \<Rightarrow> bool \<Rightarrow> string list \<Rightarrow> diff_text \<Rightarrow> diff_text" where
  "show_changed width added [] st = st"
| "show_changed width added (l # ls) st =
     show_changed width added ls
       (if added
        then st\<lparr>shown_lines := shown_lines st @ [''+'' @ column width (at_new st) @ '' '' @ l], at_new := at_new st + 1\<rparr>
        else st\<lparr>shown_lines := shown_lines st @ [''-'' @ column width (at_old st) @ '' '' @ l], at_old := at_old st + 1\<rparr>)"

definition skip_lines :: "nat \<Rightarrow> nat \<Rightarrow> diff_text \<Rightarrow> diff_text" where
  "skip_lines width n st =
     st\<lparr>shown_lines := shown_lines st @ ['' '' @ replicate width CHR '' '' @ '' ...''],
        at_old := at_old st + n, at_new := at_new st + n\<rparr>"

definition show_part :: "nat \<Rightarrow> change \<Rightarrow> bool \<Rightarrow> diff_text \<Rightarrow> diff_text" where
  "show_part width part next_is_change st =
     (let raw = raw_lines (change_value part) in
      if change_added part \<or> change_removed part
      then (show_changed width (change_added part) raw
          (st\<lparr>first_changed := (case first_changed st of None \<Rightarrow> Some (at_new st) | Some n \<Rightarrow> Some n)\<rparr>))
        \<lparr>last_was_change := True\<rparr>
      else
        (if last_was_change st \<and> next_is_change
         then if length raw \<le> diff_context * 2 then show_context width raw st
           else show_context width (drop (length raw - diff_context) raw)
             (skip_lines width (length raw - 2 * diff_context) (show_context width (take diff_context raw) st))
         else if last_was_change st
         then
           (let shown = min (length raw) diff_context; skipped = length raw - shown;
                st = show_context width (take shown raw) st
            in if 0 < skipped then skip_lines width skipped st else st)
         else if next_is_change
         then
           (let skipped = length raw - diff_context;
                st = (if 0 < skipped then skip_lines width skipped st else st)
            in show_context width (drop skipped raw) st)
         else st\<lparr>at_old := at_old st + length raw, at_new := at_new st + length raw\<rparr>)
        \<lparr>last_was_change := False\<rparr>)"

fun show_parts :: "nat \<Rightarrow> change list \<Rightarrow> diff_text \<Rightarrow> diff_text" where
  "show_parts width [] st = st"
| "show_parts width (part # parts) st =
     show_parts width parts
       (show_part width part (case parts of [] \<Rightarrow> False | p # _ \<Rightarrow> change_added p \<or> change_removed p) st)"

definition column_width :: "string \<Rightarrow> string \<Rightarrow> nat" where
  "column_width old new = length (nat_text (max (length (split_on lf old)) (length (split_on lf new))))"

definition shown_diff :: "string \<Rightarrow> string \<Rightarrow> diff_text" where
  "shown_diff old new =
     show_parts (column_width old new) (diff_lines old new)
       \<lparr>shown_lines = [], at_old = 1, at_new = 1, last_was_change = False, first_changed = None\<rparr>"

definition generate_diff_string :: "string \<Rightarrow> string \<Rightarrow> string \<times> nat option" where
  "generate_diff_string old new =
     (let st = shown_diff old new in (join [lf] (shown_lines st), first_changed st))"

section \<open>What its lines show\<close>

text \<open>A line of the diff: an added line with its number in the new text, a removed one or one of the context
  with its number in the old, or the mark of lines left out.\<close>

definition true_line :: "nat \<Rightarrow> string list \<Rightarrow> string list \<Rightarrow> string \<Rightarrow> bool" where
  "true_line width olds news s \<longleftrightarrow>
     (\<exists>i < length news. s = ''+'' @ column width (i + 1) @ '' '' @ news ! i) \<or>
     (\<exists>i < length olds. s = ''-'' @ column width (i + 1) @ '' '' @ olds ! i) \<or>
     (\<exists>i < length olds. s = '' '' @ column width (i + 1) @ '' '' @ olds ! i \<and> olds ! i \<in> set news) \<or>
     s = '' '' @ replicate width CHR '' '' @ '' ...''"

text \<open>What showing some lines adds: lines true to the texts, among which the ones added and removed are
  \<open>adds\<close> and \<open>rems\<close>, in order.\<close>

definition numbered :: "nat \<Rightarrow> char \<Rightarrow> string \<Rightarrow> string \<Rightarrow> bool" where
  "numbered width mark s l \<longleftrightarrow> (\<exists>n. s = mark # column width n @ '' '' @ l)"

definition shown_as ::
  "nat \<Rightarrow> string list \<Rightarrow> string list \<Rightarrow> string list \<Rightarrow> string list \<Rightarrow> string list \<Rightarrow> bool" where
  "shown_as width olds news adds rems out \<longleftrightarrow>
     list_all (true_line width olds news) out \<and>
     list_all2 (numbered width CHR ''+'') (filter (\<lambda>s. hd s = CHR ''+'') out) adds \<and>
     list_all2 (numbered width CHR ''-'') (filter (\<lambda>s. hd s = CHR ''-'') out) rems"

lemma shown_as_Nil [simp]: "shown_as width olds news [] [] []"
  by (simp add: shown_as_def)

lemma shown_as_append:
  "shown_as width olds news xs rs out \<Longrightarrow> shown_as width olds news xs' rs' out' \<Longrightarrow>
   shown_as width olds news (xs @ xs') (rs @ rs') (out @ out')"
  by (simp add: shown_as_def list_all2_appendI)

definition shows_from ::
  "nat \<Rightarrow> string list \<Rightarrow> string list \<Rightarrow> diff_text \<Rightarrow> string list \<Rightarrow> string list \<Rightarrow> nat \<Rightarrow> nat \<Rightarrow> diff_text \<Rightarrow> bool" where
  "shows_from width olds news st adds rems k j st' \<longleftrightarrow>
     at_old st' = at_old st + k \<and> at_new st' = at_new st + j \<and>
     (\<exists>out. shown_lines st' = shown_lines st @ out \<and> shown_as width olds news adds rems out)"

lemma shows_from_trans:
  assumes "shows_from width olds news st xs rs k j st'" "shows_from width olds news st' xs' rs' k' j' st''"
  shows "shows_from width olds news st (xs @ xs') (rs @ rs') (k + k') (j + j') st''"
proof -
  obtain out out' where "shown_lines st' = shown_lines st @ out" "shown_as width olds news xs rs out"
    "shown_lines st'' = shown_lines st' @ out'" "shown_as width olds news xs' rs' out'"
    using assms by (auto simp: shows_from_def)
  with assms shown_as_append [of width olds news xs rs out xs' rs' out'] show ?thesis
    by (auto simp: shows_from_def)
qed

lemma show_context_from:
  "0 < at_old st \<Longrightarrow> drop (at_old st - 1) olds = ls @ rest \<Longrightarrow> set ls \<subseteq> set news \<Longrightarrow>
   shows_from width olds news st [] [] (length ls) (length ls) (show_context width ls st)"
proof (induction width ls st rule: show_context.induct)
  case (1 width st)
  then show ?case by (auto simp: shows_from_def)
next
  case (2 width l ls st)
  let ?s = "'' '' @ column width (at_old st) @ '' '' @ l"
  let ?st = "st\<lparr>shown_lines := shown_lines st @ [?s], at_old := at_old st + 1, at_new := at_new st + 1\<rparr>"
  have at: "at_old st - 1 < length olds" "olds ! (at_old st - 1) = l"
    using 2(3) by (auto simp: nth_via_drop intro: ccontr)
  then have "true_line width olds news ?s"
    using 2(2,4) unfolding true_line_def by (intro disjI2 disjI1 exI [of _ "at_old st - 1"]) simp
  then have one: "shows_from width olds news st [] [] 1 1 ?st"
    by (auto simp: shows_from_def shown_as_def)
  have "drop (at_old st) olds = ls @ rest"
    using 2(2,3) by (metis One_nat_def Suc_pred append_Cons drop_Suc list.sel(3) tl_drop)
  with 2 have "shows_from width olds news ?st [] [] (length ls) (length ls) (show_context width ls ?st)" by simp
  from shows_from_trans [OF one this] show ?case by simp
qed

lemma show_changed_from:
  "0 < at_old st \<Longrightarrow> 0 < at_new st \<Longrightarrow>
   (if added then drop (at_new st - 1) news = ls @ rest else drop (at_old st - 1) olds = ls @ rest) \<Longrightarrow>
   shows_from width olds news st (if added then ls else []) (if added then [] else ls)
     (if added then 0 else length ls) (if added then length ls else 0) (show_changed width added ls st)"
proof (induction width added ls st rule: show_changed.induct)
  case (1 width added st)
  then show ?case by (auto simp: shows_from_def)
next
  case (2 width added l ls st)
  let ?s = "(if added then ''+'' @ column width (at_new st) @ '' '' @ l else ''-'' @ column width (at_old st) @ '' '' @ l)"
  let ?st = "if added
        then st\<lparr>shown_lines := shown_lines st @ [''+'' @ column width (at_new st) @ '' '' @ l], at_new := at_new st + 1\<rparr>
        else st\<lparr>shown_lines := shown_lines st @ [''-'' @ column width (at_old st) @ '' '' @ l], at_old := at_old st + 1\<rparr>"
  show ?case
  proof (cases added)
    case True
    with 2(4) have "at_new st - 1 < length news" "news ! (at_new st - 1) = l"
      by (auto simp: nth_via_drop intro: ccontr)
    with True 2(3) have "true_line width olds news ?s" unfolding true_line_def by (auto intro!: exI [of _ "at_new st - 1"])
    with True have one: "shows_from width olds news st [l] [] 0 1 ?st"
      by (auto simp: shows_from_def shown_as_def numbered_def)
    have "drop (at_new st) news = ls @ rest"
      using 2(3,4) True by (metis One_nat_def Suc_pred append_Cons drop_Suc list.sel(3) tl_drop)
    with 2 True have "shows_from width olds news ?st ls [] 0 (length ls) (show_changed width added ls ?st)" by simp
    from shows_from_trans [OF one this] True show ?thesis by simp
  next
    case False
    with 2(4) have "at_old st - 1 < length olds" "olds ! (at_old st - 1) = l"
      by (auto simp: nth_via_drop intro: ccontr)
    with False 2(2) have "true_line width olds news ?s" unfolding true_line_def by (auto intro!: exI [of _ "at_old st - 1"])
    with False have one: "shows_from width olds news st [] [l] 1 0 ?st"
      by (auto simp: shows_from_def shown_as_def numbered_def)
    have "drop (at_old st) olds = ls @ rest"
      using 2(2,4) False by (metis One_nat_def Suc_pred append_Cons drop_Suc list.sel(3) tl_drop)
    with 2 False have "shows_from width olds news ?st [] ls (length ls) 0 (show_changed width added ls ?st)" by simp
    from shows_from_trans [OF one this] False show ?thesis by simp
  qed
qed

lemma skip_lines_from: "shows_from width olds news st [] [] n n (skip_lines width n st)"
  by (auto simp: shows_from_def skip_lines_def shown_as_def true_line_def)

lemma shows_from_flag [simp]:
  "shows_from width olds news st xs rs k j (st'\<lparr>last_was_change := b\<rparr>) = shows_from width olds news st xs rs k j st'"
  "shows_from width olds news (st\<lparr>first_changed := f\<rparr>) xs rs k j st' = shows_from width olds news st xs rs k j st'"
  by (simp_all add: shows_from_def)

lemma shows_from_at:
  "shows_from width olds news st xs rs k j st' \<Longrightarrow> at_old st' = at_old st + k \<and> at_new st' = at_new st + j"
  by (simp add: shows_from_def)

lemma drop_at: "drop (n - 1) xs = ls @ rest \<Longrightarrow> 0 < n \<Longrightarrow> drop (n + length ls - 1) xs = rest"
  by (metis Nat.add_diff_assoc2 One_nat_def Suc_leI add.commute append_eq_conv_conj drop_drop)

lemma show_part_common:
  assumes "\<not> change_added part" "\<not> change_removed part" "raw_lines (change_value part) = ls"
    and at: "0 < at_old st" "drop (at_old st - 1) olds = ls @ rest" and "set ls \<subseteq> set news"
  shows "shows_from width olds news st [] [] (length ls) (length ls) (show_part width part next_is_change st)"
proof -
  have front: "shows_from width olds news st [] [] n n (show_context width (take n ls) st)" if "n \<le> length ls" for n
    using show_context_from [OF at(1), of olds "take n ls" "drop n ls @ rest" news width] that at(2) assms(6)
    by (auto dest: in_set_takeD)
  have rear: "shows_from width olds news st' [] [] (length ls - n) (length ls - n) (show_context width (drop n ls) st')"
    if "n \<le> length ls" "at_old st' = at_old st + n" for n st'
  proof -
    have "drop (at_old st' - 1) olds = drop n ls @ rest"
      using drop_at [of "at_old st" olds "take n ls" "drop n ls @ rest"] at that by simp
    with show_context_from [of st' olds "drop n ls" rest news width] at(1) that assms(6) show ?thesis
      by (auto dest: in_set_dropD)
  qed
  note skip = skip_lines_from [of width olds news]
  let ?n = "length ls"
  consider (two) "last_was_change st \<and> next_is_change" | (after) "last_was_change st" "\<not> next_is_change"
    | (before) "\<not> last_was_change st" "next_is_change" | (none) "\<not> last_was_change st" "\<not> next_is_change" by blast
  then show ?thesis
  proof cases
    case two
    show ?thesis
    proof (cases "?n \<le> diff_context * 2")
      case True
      with two assms(1-3) front [of ?n] show ?thesis by (simp add: show_part_def)
    next
      case False
      let ?a = "show_context width (take diff_context ls) st"
      let ?b = "skip_lines width (?n - 2 * diff_context) ?a"
      have a: "shows_from width olds news st [] [] diff_context diff_context ?a" using front [of diff_context] False by simp
      note ab = shows_from_trans [OF a skip, of "?n - 2 * diff_context"]
      have "at_old ?b = at_old st + (?n - diff_context)" using shows_from_at [OF ab] False by simp
      from shows_from_trans [OF ab rear [OF _ this]] two assms(1-3) False show ?thesis
        by (simp add: show_part_def Let_def)
    qed
  next
    case after
    let ?m = "min ?n diff_context"
    let ?a = "show_context width (take ?m ls) st"
    have a: "shows_from width olds news st [] [] ?m ?m ?a" using front [of ?m] by simp
    show ?thesis
    proof (cases "0 < ?n - ?m")
      case True
      then have "diff_context < ?n" by simp
      with shows_from_trans [OF a skip, of "?n - ?m"] after assms(1-3) show ?thesis
        by (simp add: show_part_def Let_def)
    next
      case False
      with a after assms(1-3) show ?thesis by (simp add: show_part_def Let_def)
    qed
  next
    case before
    let ?m = "?n - diff_context"
    show ?thesis
    proof (cases "0 < ?m")
      case True
      let ?a = "skip_lines width ?m st"
      have "at_old ?a = at_old st + ?m" by (simp add: skip_lines_def)
      from shows_from_trans [OF skip rear [OF _ this]] before assms(1-3) True show ?thesis
        by (simp add: show_part_def Let_def)
    next
      case False
      with front [of ?n] before assms(1-3) show ?thesis by (simp add: show_part_def Let_def)
    qed
  next
    case none
    with assms(1-3) show ?thesis by (auto simp: show_part_def shows_from_def)
  qed
qed

abbreviation raw_side :: "(change \<Rightarrow> bool) \<Rightarrow> change list \<Rightarrow> string list" where
  "raw_side other cs \<equiv> side_lines raw_lines other cs"

lemma side_lines_Cons: "side_lines f other (c # cs) = (if other c then [] else f (change_value c)) @ side_lines f other cs"
  by (simp add: side_lines_def)

lemma show_parts_from:
  "one_sided cs \<Longrightarrow> 0 < at_old st \<Longrightarrow> 0 < at_new st \<Longrightarrow>
   drop (at_old st - 1) olds = raw_side change_added cs \<Longrightarrow> drop (at_new st - 1) news = raw_side change_removed cs \<Longrightarrow>
   \<exists>k j. shows_from width olds news st (raw_side (\<lambda>c. \<not> change_added c) cs) (raw_side (\<lambda>c. \<not> change_removed c) cs) k j
     (show_parts width cs st)"
proof (induction width cs st rule: show_parts.induct)
  case (1 width st)
  then show ?case by (auto simp: side_lines_def shows_from_def)
next
  case (2 width c cs st)
  let ?ls = "raw_lines (change_value c)"
  let ?st = "show_part width c (case cs of [] \<Rightarrow> False | p # _ \<Rightarrow> change_added p \<or> change_removed p) st"
  have kind: "\<not> (change_added c \<and> change_removed c)" "one_sided cs" using 2(2) by (auto simp: one_sided_def)
  let ?k = "if change_added c then 0 else length ?ls" and ?j = "if change_removed c then 0 else length ?ls"
  have "shows_from width olds news st (if change_added c then ?ls else []) (if change_removed c then ?ls else []) ?k ?j ?st"
  proof (cases "change_added c \<or> change_removed c")
    case True
    let ?st0 = "st\<lparr>first_changed := (case first_changed st of None \<Rightarrow> Some (at_new st) | Some n \<Rightarrow> Some n)\<rparr>"
    have "shows_from width olds news ?st0 (if change_added c then ?ls else []) (if change_added c then [] else ?ls)
        (if change_added c then 0 else length ?ls) (if change_added c then length ?ls else 0)
        (show_changed width (change_added c) ?ls ?st0)"
      using 2(3-6) True kind
      by (intro show_changed_from [where rest = "if change_added c then raw_side change_removed cs else raw_side change_added cs"])
        (auto simp: side_lines_Cons)
    then show ?thesis using True kind by (auto simp: show_part_def Let_def)
  next
    case False
    have "set ?ls \<subseteq> set news"
    proof -
      have "set ?ls \<subseteq> set (drop (at_new st - 1) news)" using 2(6) False by (auto simp: side_lines_Cons)
      then show ?thesis using set_drop_subset by fast
    qed
    with show_part_common [of c ?ls st olds "raw_side change_added cs" news width] False 2(3,5) show ?thesis
      by (simp add: side_lines_Cons)
  qed
  note step = this
  note at = shows_from_at [OF step]
  have "drop (at_old ?st - 1) olds = raw_side change_added cs" "drop (at_new ?st - 1) news = raw_side change_removed cs"
    using at 2(3-6) drop_at [of "at_old st" olds ?ls] drop_at [of "at_new st" news ?ls] by (auto simp: side_lines_Cons)
  moreover have "0 < at_old ?st" "0 < at_new ?st" using at 2(3,4) by simp_all
  ultimately obtain k j where
    "shows_from width olds news ?st (raw_side (\<lambda>c. \<not> change_added c) cs) (raw_side (\<lambda>c. \<not> change_removed c) cs) k j
      (show_parts width cs ?st)" using 2(1) [OF kind(2)] by blast
  note all = shows_from_trans [OF step this]
  have "raw_side (\<lambda>c. \<not> change_added c) (c # cs) = (if change_added c then ?ls else []) @ raw_side (\<lambda>c. \<not> change_added c) cs"
    "raw_side (\<lambda>c. \<not> change_removed c) (c # cs) = (if change_removed c then ?ls else []) @ raw_side (\<lambda>c. \<not> change_removed c) cs"
    by (simp_all add: side_lines_Cons)
  with all show ?case unfolding show_parts.simps by metis
qed


text \<open>The lines of a text without their newlines are its tokens without theirs.\<close>

definition chomp :: "string \<Rightarrow> string" where
  "chomp l = (if l \<noteq> [] \<and> last l = lf then butlast l else l)"

lemma raw_lines_tokenize: "raw_lines s = map chomp (tokenize s)"
proof -
  obtain p ps where ps: "split_on lf s = p # ps" by (cases "split_on lf s") auto
  have clean: "lf \<notin> set l" if "l \<in> set (split_on lf s)" for l
    using that by (rule split_on_no_sep)
  have tokens: "tokenize s = map (\<lambda>p. p @ [lf]) (butlast (p # ps)) @ (if last (p # ps) = [] then [] else [last (p # ps)])"
    unfolding tokenize_def tokenize_split_on [of "[]"] by (simp add: ps)
  have "chomp (last (p # ps)) = last (p # ps)" using clean [of "last (p # ps)"] ps
    by (metis chomp_def last_in_set list.distinct(1))
  moreover have "map chomp (map (\<lambda>p. p @ [lf]) ls) = ls" for ls by (induction ls) (simp_all add: chomp_def)
  moreover have "raw_lines s = (if last (p # ps) = [] then butlast (p # ps) else butlast (p # ps) @ [last (p # ps)])"
    unfolding raw_lines_def Let_def ps by (metis append_butlast_last_id list.distinct(1))
  ultimately show ?thesis unfolding tokens by simp
qed

lemma raw_side_tokens: "raw_side other cs = map chomp (side_lines tokenize other cs)"
  by (induction cs) (simp_all add: side_lines_def raw_lines_tokenize)

text \<open>C39. The numbered diff tells the truth: every line it shows as added stands in the new text at the number
  shown, every line shown as removed or as context in the old text at its number, and the lines it
  shows as added and as removed are all of those the line diff has, in order.\<close>

theorem diff_string_exact:
  assumes "length old + length new + 1 < 2 ^ 63"
  shows "let width = column_width old new; out = shown_lines (shown_diff old new); cs = diff_lines old new in
    list_all (true_line width (raw_lines old) (raw_lines new)) out \<and>
    list_all2 (numbered width CHR ''+'') (filter (\<lambda>s. hd s = CHR ''+'') out)
      (concat (map (raw_lines \<circ> change_value) (filter change_added cs))) \<and>
    list_all2 (numbered width CHR ''-'') (filter (\<lambda>s. hd s = CHR ''-'') out)
      (concat (map (raw_lines \<circ> change_value) (filter change_removed cs)))"
proof -
  let ?cs = "diff_lines old new"
  let ?st = "\<lparr>shown_lines = [], at_old = 1, at_new = 1, last_was_change = False, first_changed = None\<rparr>"
  have "raw_side change_added ?cs = raw_lines old" "raw_side change_removed ?cs = raw_lines new"
    using diff_lines_lines(1,2) [OF assms] by (simp_all add: raw_side_tokens raw_lines_tokenize)
  with show_parts_from [of ?cs ?st "raw_lines old" "raw_lines new" "column_width old new"] diff_lines_lines(3) [OF assms]
  obtain k j where "shows_from (column_width old new) (raw_lines old) (raw_lines new) ?st
      (raw_side (\<lambda>c. \<not> change_added c) ?cs) (raw_side (\<lambda>c. \<not> change_removed c) ?cs) k j (shown_diff old new)"
    by (auto simp: shown_diff_def)
  then show ?thesis by (simp add: shows_from_def shown_as_def side_lines_def comp_def Let_def)
qed

lemma diff_string_exact_witness:
  "let old = [CHR ''a'', lf, CHR ''b'']; new = ''b'';
       width = column_width old new; out = shown_lines (shown_diff old new); cs = diff_lines old new in
    list_all (true_line width (raw_lines old) (raw_lines new)) out \<and>
    list_all2 (numbered width CHR ''+'') (filter (\<lambda>s. hd s = CHR ''+'') out)
      (concat (map (raw_lines \<circ> change_value) (filter change_added cs))) \<and>
    list_all2 (numbered width CHR ''-'') (filter (\<lambda>s. hd s = CHR ''-'') out)
      (concat (map (raw_lines \<circ> change_value) (filter change_removed cs)))"
  using diff_string_exact [of "[CHR ''a'', lf, CHR ''b'']" "''b''"] unfolding Let_def by simp

end
