(* ===== verification/EditDiff.thy ===== *)
theory EditDiff
  imports DiffText Truncate Chunks Json "HOL-Library.Multiset"
begin

text \<open>
  The edit tool (\<open>tools/edit_diff.rs\<close> and \<open>tools/edit.rs\<close> of bake-coding-agent): every edit is matched
  against the original text, exactly or else between normalized forms, the matches are unique and
  disjoint, and they are replaced together; a file keeps its byte order mark and its first line
  ending. NFKC normalization (the \<open>icu_normalizer\<close> crate) is the parameter \<open>nfkc\<close>, the JSON reader
  the parameter \<open>parse\<close>.
\<close>

section \<open>Line endings\<close>

record edit =
  old_text :: string
  new_text :: string

datatype line_ending = Lf | CrLf

text \<open>\<open>str::find\<close>: the first place \<open>p\<close> is a prefix.\<close>

fun find_text :: "string \<Rightarrow> string \<Rightarrow> nat option" where
  "find_text p [] = (if p = [] then Some 0 else None)"
| "find_text p (c # s) = (if starts_with (c # s) p then Some 0 else map_option Suc (find_text p s))"

definition detect_line_ending :: "string \<Rightarrow> line_ending" where
  "detect_line_ending s =
     (case (find_text [cr, lf] s, find_text [lf] s) of
        (Some i, Some j) \<Rightarrow> if i < j then CrLf else Lf
      | _ \<Rightarrow> Lf)"

fun replace_crlf :: "string \<Rightarrow> string" where
  "replace_crlf [] = []"
| "replace_crlf [c] = [c]"
| "replace_crlf (c # d # s) = (if c = cr \<and> d = lf then lf # replace_crlf s else c # replace_crlf (d # s))"

definition normalize_to_lf :: "string \<Rightarrow> string" where
  "normalize_to_lf s = map (\<lambda>c. if c = cr then lf else c) (replace_crlf s)"

definition restore_line_endings :: "line_ending \<Rightarrow> string \<Rightarrow> string" where
  "restore_line_endings e s =
     (case e of
        CrLf \<Rightarrow> concat (map (\<lambda>c. if c = lf then [cr, lf] else [c]) s)
      | Lf \<Rightarrow> s)"

section \<open>Matching\<close>

definition fuzzy_char :: "string \<Rightarrow> string" where
  "fuzzy_char c =
     (let u = code_point c in
      if 0x2018 \<le> u \<and> u \<le> 0x201B then [CHR 0x27]
      else if 0x201C \<le> u \<and> u \<le> 0x201F then [CHR 0x22]
      else if 0x2010 \<le> u \<and> u \<le> 0x2015 \<or> u = 0x2212 then [CHR 0x2D]
      else if u = 0xA0 \<or> 0x2002 \<le> u \<and> u \<le> 0x200A \<or> u = 0x202F \<or> u = 0x205F \<or> u = 0x3000 then [CHR 0x20]
      else c)"

definition normalize_for_fuzzy_match :: "(string \<Rightarrow> string) \<Rightarrow> string \<Rightarrow> string" where
  "normalize_for_fuzzy_match nfkc s =
     concat (map fuzzy_char (utf8_chars (join [lf] (map js_trim_end (split_on lf (nfkc s))))))"

record fuzzy_match =
  match_index :: nat
  match_length :: nat
  used_fuzzy :: bool
  content_for_replacement :: string

definition fuzzy_find_text :: "(string \<Rightarrow> string) \<Rightarrow> string \<Rightarrow> string \<Rightarrow> fuzzy_match option" where
  "fuzzy_find_text nfkc content old =
     (case find_text old content of
        Some i \<Rightarrow>
          Some \<lparr>match_index = i, match_length = length old, used_fuzzy = False, content_for_replacement = content\<rparr>
      | None \<Rightarrow>
          (let fuzzy_content = normalize_for_fuzzy_match nfkc content;
               fuzzy_old = normalize_for_fuzzy_match nfkc old
           in map_option (\<lambda>i. \<lparr>match_index = i, match_length = length fuzzy_old, used_fuzzy = True,
                content_for_replacement = fuzzy_content\<rparr>) (find_text fuzzy_old fuzzy_content)))"

text \<open>\<open>str::matches\<close>, which do not overlap, for a pattern that is not empty.\<close>

function count_matches :: "string \<Rightarrow> string \<Rightarrow> nat" where
  "count_matches p s =
     (if p = [] then 0
      else (case find_text p s of
              None \<Rightarrow> 0
            | Some i \<Rightarrow> Suc (count_matches p (drop (i + length p) s))))"
  by pat_completeness auto

lemma find_text_parts: "find_text p s = Some i \<Longrightarrow> s = take i s @ p @ drop (i + length p) s \<and> i + length p \<le> length s"
proof (induction s arbitrary: i)
  case Nil
  then show ?case by (simp split: if_splits)
next
  case (Cons c s)
  show ?case
  proof (cases "starts_with (c # s) p")
    case True
    then have p: "take (length p) (c # s) = p" by (simp add: starts_with_def)
    then have "length p \<le> length (c # s)" by (metis nat_le_linear take_all)
    with p Cons.prems True show ?thesis by (metis add_0 append_Nil append_take_drop_id find_text.simps(2) option.inject take0)
  next
    case False
    with Cons.prems obtain j where j: "find_text p s = Some j" "i = Suc j" by auto
    with Cons.IH [OF j(1)] show ?thesis by simp
  qed
qed

termination count_matches
proof (relation "measure (\<lambda>(p, s). length s)")
  fix p s and i :: nat
  assume "p \<noteq> []" "find_text p s = Some i"
  with find_text_parts [of p s i] show "((p, drop (i + length p) s), p, s) \<in> measure (\<lambda>(p, s). length s)"
    by (cases p) auto
qed simp

declare count_matches.simps [simp del]

definition count_occurrences :: "(string \<Rightarrow> string) \<Rightarrow> string \<Rightarrow> string \<Rightarrow> nat" where
  "count_occurrences nfkc content old =
     (let fuzzy_content = normalize_for_fuzzy_match nfkc content;
          fuzzy_old = normalize_for_fuzzy_match nfkc old
      in if fuzzy_old = [] then sum_list (map utf16_width (utf8_chars fuzzy_content)) - 1
         else count_matches fuzzy_old fuzzy_content)"

section \<open>Replacing\<close>

record replacement =
  edit_index :: nat
  at_index :: nat
  at_length :: nat
  with_text :: string

fun split_inclusive :: "char \<Rightarrow> string \<Rightarrow> string list" where
  "split_inclusive d [] = []"
| "split_inclusive d (c # s) =
     (if c = d then [c] # split_inclusive d s
      else (case split_inclusive d s of [] \<Rightarrow> [[c]] | l # ls \<Rightarrow> (c # l) # ls))"

definition split_lines_with_endings :: "string \<Rightarrow> string list" where
  "split_lines_with_endings s = split_inclusive lf s"

fun spans_from :: "nat \<Rightarrow> string list \<Rightarrow> (nat \<times> nat) list" where
  "spans_from n [] = []"
| "spans_from n (l # ls) = (n, n + length l) # spans_from (n + length l) ls"

definition line_spans :: "string \<Rightarrow> (nat \<times> nat) list" where
  "line_spans s = spans_from 0 (split_lines_with_endings s)"

definition outside_text :: string where
  "outside_text = ''Replacement range is outside the base content.''"

definition replacement_line_range :: "(nat \<times> nat) list \<Rightarrow> replacement \<Rightarrow> (string, nat \<times> nat) result" where
  "replacement_line_range ls r =
     (let first = at_index r; end = at_index r + at_length r in
      (case find (\<lambda>n. fst (ls ! n) \<le> first \<and> first < snd (ls ! n)) [0 ..< length ls] of
         None \<Rightarrow> Inl outside_text
       | Some start_line \<Rightarrow>
           (let end_line = start_line + length (takeWhile (\<lambda>l. snd l < end) (drop start_line ls)) in
            if length ls \<le> end_line then Inl outside_text else Inr (start_line, end_line + 1))))"

definition apply_replacements :: "string \<Rightarrow> replacement list \<Rightarrow> nat \<Rightarrow> string" where
  "apply_replacements content rs offset =
     foldr (\<lambda>r s. take (at_index r - offset) s @ with_text r @ drop (at_index r - offset + at_length r) s) rs content"

text \<open>Groups of replacements that share lines: the first line, the line after the last, and the replacements.\<close>

type_synonym line_group = "nat \<times> nat \<times> replacement list"

definition group_replacement ::
  "(nat \<times> nat) list \<Rightarrow> replacement \<Rightarrow> line_group list \<Rightarrow> (string, line_group list) result" where
  "group_replacement ls r groups =
     bind_result (replacement_line_range ls r) (\<lambda>(first, end).
       Inr (if groups \<noteq> [] \<and> first < fst (snd (last groups))
            then butlast groups @
              [(fst (last groups), max (fst (snd (last groups))) end, snd (snd (last groups)) @ [r])]
            else groups @ [(first, end, [r])]))"

fun group_replacements ::
  "(nat \<times> nat) list \<Rightarrow> replacement list \<Rightarrow> line_group list \<Rightarrow> (string, line_group list) result" where
  "group_replacements ls [] groups = Inr groups"
| "group_replacements ls (r # rs) groups = bind_result (group_replacement ls r groups) (group_replacements ls rs)"

text \<open>The groups written over the original lines from line \<open>at\<close> on.\<close>

fun write_groups :: "string list \<Rightarrow> string \<Rightarrow> (nat \<times> nat) list \<Rightarrow> nat \<Rightarrow> line_group list \<Rightarrow> string" where
  "write_groups original base ls at [] = concat (drop at original)"
| "write_groups original base ls at ((first, end, rs) # groups) =
     concat (take (first - at) (drop at original)) @
     apply_replacements (take (snd (ls ! (end - 1)) - fst (ls ! first)) (drop (fst (ls ! first)) base)) rs (fst (ls ! first)) @
     write_groups original base ls end groups"

definition line_count_text :: string where
  "line_count_text = ''Cannot preserve unchanged lines because the base content has a different line count.''"

definition apply_preserving :: "string \<Rightarrow> string \<Rightarrow> replacement list \<Rightarrow> (string, string) result" where
  "apply_preserving original base rs =
     (let original_lines = split_lines_with_endings original; base_lines = line_spans base in
      if length original_lines \<noteq> length base_lines then Inl line_count_text
      else bind_result (group_replacements base_lines (sort_key at_index rs) [])
        (\<lambda>groups. Inr (write_groups original_lines base base_lines 0 groups)))"

section \<open>Edits\<close>

definition not_found_text :: "string \<Rightarrow> nat \<Rightarrow> nat \<Rightarrow> string" where
  "not_found_text path i many =
     (if many = 1
      then ''Could not find the exact text in '' @ path @
        ''. The old text must match exactly including all whitespace and newlines.''
      else ''Could not find edits['' @ nat_text i @ ''] in '' @ path @
        ''. The oldText must match exactly including all whitespace and newlines.'')"

definition duplicate_text :: "string \<Rightarrow> nat \<Rightarrow> nat \<Rightarrow> nat \<Rightarrow> string" where
  "duplicate_text path i many n =
     (if many = 1
      then ''Found '' @ nat_text n @ '' occurrences of the text in '' @ path @
        ''. The text must be unique. Please provide more context to make it unique.''
      else ''Found '' @ nat_text n @ '' occurrences of edits['' @ nat_text i @ ''] in '' @ path @
        ''. Each oldText must be unique. Please provide more context to make it unique.'')"

definition empty_old_text :: "string \<Rightarrow> nat \<Rightarrow> nat \<Rightarrow> string" where
  "empty_old_text path i many =
     (if many = 1 then ''oldText must not be empty in '' @ path @ ''.''
      else ''edits['' @ nat_text i @ ''].oldText must not be empty in '' @ path @ ''.'')"

definition no_change_text :: "string \<Rightarrow> nat \<Rightarrow> string" where
  "no_change_text path many =
     (if many = 1
      then ''No changes made to '' @ path @
        ''. The replacement produced identical content. This might indicate an issue with special characters '' @
        ''or the text not existing as expected.''
      else ''No changes made to '' @ path @ ''. The replacements produced identical content.'')"

definition overlap_text :: "string \<Rightarrow> replacement \<Rightarrow> replacement \<Rightarrow> string" where
  "overlap_text path r s =
     ''edits['' @ nat_text (edit_index r) @ ''] and edits['' @ nat_text (edit_index s) @ ''] overlap in '' @ path @
     ''. Merge them into one edit or target disjoint regions.''"

record applied_edits =
  base_content :: string
  new_content :: string

definition lf_edit :: "edit \<Rightarrow> edit" where
  "lf_edit e = \<lparr>old_text = normalize_to_lf (old_text e), new_text = normalize_to_lf (new_text e)\<rparr>"

definition match_edit ::
  "(string \<Rightarrow> string) \<Rightarrow> string \<Rightarrow> string \<Rightarrow> nat \<Rightarrow> nat \<times> edit \<Rightarrow> (string, replacement) result" where
  "match_edit nfkc base path many = (\<lambda>(i, e).
     (case fuzzy_find_text nfkc base (old_text e) of
        None \<Rightarrow> Inl (not_found_text path i many)
      | Some found \<Rightarrow>
          (let n = count_occurrences nfkc base (old_text e) in
           if 1 < n then Inl (duplicate_text path i many n)
           else Inr \<lparr>edit_index = i, at_index = match_index found, at_length = match_length found,
             with_text = new_text e\<rparr>)))"

fun match_edits ::
  "(string \<Rightarrow> string) \<Rightarrow> string \<Rightarrow> string \<Rightarrow> nat \<Rightarrow> (nat \<times> edit) list \<Rightarrow> (string, replacement list) result" where
  "match_edits nfkc base path many [] = Inr []"
| "match_edits nfkc base path many (e # es) =
     bind_result (match_edit nfkc base path many e) (\<lambda>r.
       bind_result (match_edits nfkc base path many es) (\<lambda>rs. Inr (r # rs)))"

fun first_overlap :: "replacement list \<Rightarrow> (replacement \<times> replacement) option" where
  "first_overlap (r # s # rs) =
     (if at_index s < at_index r + at_length r then Some (r, s) else first_overlap (s # rs))"
| "first_overlap _ = None"

definition uses_fuzzy :: "(string \<Rightarrow> string) \<Rightarrow> string \<Rightarrow> edit list \<Rightarrow> bool" where
  "uses_fuzzy nfkc content es =
     list_ex (\<lambda>e. case fuzzy_find_text nfkc content (old_text e) of
        Some found \<Rightarrow> used_fuzzy found | None \<Rightarrow> False) es"

definition apply_edits ::
  "(string \<Rightarrow> string) \<Rightarrow> string \<Rightarrow> edit list \<Rightarrow> string \<Rightarrow> (string, applied_edits) result" where
  "apply_edits nfkc content given path =
     (let es = map lf_edit given; many = length es in
      (case find (\<lambda>n. old_text (es ! n) = []) [0 ..< many] of
         Some i \<Rightarrow> Inl (empty_old_text path i many)
       | None \<Rightarrow>
           (let fuzzy = uses_fuzzy nfkc content es;
                base = (if fuzzy then normalize_for_fuzzy_match nfkc content else content)
            in bind_result (match_edits nfkc base path many (enumerate 0 es)) (\<lambda>found.
                 (let matched = sort_key at_index found in
                  (case first_overlap matched of
                     Some (r, s) \<Rightarrow> Inl (overlap_text path r s)
                   | None \<Rightarrow>
                       bind_result (if fuzzy then apply_preserving content base matched
                           else Inr (apply_replacements base matched 0)) (\<lambda>new.
                         if content = new then Inl (no_change_text path many)
                         else Inr \<lparr>base_content = content, new_content = new\<rparr>)))))))"

section \<open>The tool\<close>

definition split_bom :: "string \<Rightarrow> string \<times> string" where
  "split_bom s = (if starts_with s bom then (bom, drop (length bom) s) else ([], s))"

text \<open>The edits applied to the text read, and the text written for it.\<close>

definition edit_text ::
  "(string \<Rightarrow> string) \<Rightarrow> string \<Rightarrow> edit list \<Rightarrow> string \<Rightarrow> (string, applied_edits \<times> string) result" where
  "edit_text nfkc raw es path =
     (let (mark, content) = split_bom raw in
      bind_result (apply_edits nfkc (normalize_to_lf content) es path) (\<lambda>applied.
        Inr (applied, mark @ restore_line_endings (detect_line_ending content) (new_content applied))))"

definition edited_text :: "(string \<Rightarrow> string) \<Rightarrow> string \<Rightarrow> edit list \<Rightarrow> string \<Rightarrow> (string, string) result" where
  "edited_text nfkc raw es path = bind_result (edit_text nfkc raw es path) (Inr \<circ> snd)"

definition max_edit_file_bytes :: nat where
  "max_edit_file_bytes = 64 * 1024 * 1024"

text \<open>What a call meets: whether the signal has aborted at each of the five checks, what the guard, the
  access check, the read and the write answer.\<close>

record edit_run =
  aborted_at :: "nat \<Rightarrow> bool"
  guard_refusal :: "string option"
  access_error :: "string option"
  read_bytes :: "(string, string) result"
  create_error :: "string option"
  write_error :: "string option"

text \<open>What a call leaves in the file. A write that fails has truncated it.\<close>

datatype edit_effect = Untouched | Rewritten string | Torn

definition aborted_text :: string where
  "aborted_text = ''Operation aborted''"

definition check_abort :: "edit_run \<Rightarrow> nat \<Rightarrow> (string, 'a) result \<Rightarrow> (string, 'a) result" where
  "check_abort w n r = (if aborted_at w n then Inl aborted_text else r)"

text \<open>What an answer tells: its text, and the diff, the patch and the first changed line of the edit.\<close>

record edit_answer =
  answer_text :: string
  answer_details :: object

definition edit_details :: "string \<Rightarrow> applied_edits \<Rightarrow> object" where
  "edit_details path applied =
     (let (diff, first) = generate_diff_string (base_content applied) (new_content applied);
          patch = create_two_files_patch path path (base_content applied) (new_content applied) 4
      in [(''diff'', JString diff), (''patch'', JString patch)] @
           (case first of None \<Rightarrow> [] | Some n \<Rightarrow> [(''firstChangedLine'', json_u64 n)]))"

text \<open>What a call does to the file, and its answer.\<close>

definition edit_file ::
  "(string \<Rightarrow> string) \<Rightarrow> edit_run \<Rightarrow> edit list \<Rightarrow> string \<Rightarrow> edit_effect \<times> (string, edit_answer) result" where
  "edit_file nfkc w es path =
     (case check_abort w 0
        (case guard_refusal w of Some e \<Rightarrow> Inl e | None \<Rightarrow>
           (case access_error w of
              Some code \<Rightarrow> check_abort w 1 (Inl (''Could not edit file: '' @ path @ ''. Error code: '' @ code @ ''.''))
            | None \<Rightarrow> check_abort w 1
                (bind_result (read_bytes w) (\<lambda>bytes.
                   if max_edit_file_bytes < length bytes
                   then Inl (''Could not edit file: '' @ path @ ''. It is larger than 64 MB.'')
                   else check_abort w 2
                     (bind_result (edit_text nfkc (from_utf8_lossy bytes) es path) (check_abort w 3 \<circ> Inr)))))) of
        Inl e \<Rightarrow> (Untouched, Inl e)
      | Inr (applied, out) \<Rightarrow>
          (case (create_error w, write_error w) of
             (Some e, _) \<Rightarrow> (Untouched, Inl e)
           | (None, Some e) \<Rightarrow> (Torn, Inl e)
           | (None, None) \<Rightarrow> (Rewritten out, check_abort w 4 (Inr
               \<lparr>answer_text = ''Successfully replaced '' @ nat_text (length es) @ '' block(s) in '' @ path @ ''.'',
                answer_details = edit_details path applied\<rparr>))))"

fun string_arg :: "json \<Rightarrow> string \<Rightarrow> string" where
  "string_arg (JObject m) k = (case map_of m k of Some (JString s) \<Rightarrow> s | _ \<Rightarrow> [])"
| "string_arg _ _ = []"

fun is_single_edit :: "json \<Rightarrow> bool" where
  "is_single_edit (JObject m) \<longleftrightarrow>
     (case (map_of m ''oldText'', map_of m ''newText'') of (Some (JString _), Some (JString _)) \<Rightarrow> True | _ \<Rightarrow> False)"
| "is_single_edit _ \<longleftrightarrow> False"

text \<open>The older forms of the input folded into \<open>edits\<close>.\<close>

definition edits_member :: "(string \<Rightarrow> json option) \<Rightarrow> object \<Rightarrow> object" where
  "edits_member parse m =
     (case map_of m ''edits'' of
        Some (JString t) \<Rightarrow>
          (case parse t of
             Some (JArray xs) \<Rightarrow> imap_insert ''edits'' (JArray xs) m
           | Some v \<Rightarrow> if is_single_edit v then imap_insert ''edits'' (JArray [v]) m else m
           | None \<Rightarrow> m)
      | Some v \<Rightarrow> if is_single_edit v then imap_insert ''edits'' (JArray [v]) m else m
      | None \<Rightarrow> m)"

fun prepare_edit_arguments :: "(string \<Rightarrow> json option) \<Rightarrow> json \<Rightarrow> json" where
  "prepare_edit_arguments parse (JObject given) =
     (let m = edits_member parse given in
      (case (map_of m ''oldText'', map_of m ''newText'') of
         (Some (JString old), Some (JString new)) \<Rightarrow>
           (let legacy = JObject [(''oldText'', JString old), (''newText'', JString new)];
                edits = (case map_of m ''edits'' of Some (JArray xs) \<Rightarrow> xs | _ \<Rightarrow> [])
            in JObject (imap_insert ''edits'' (JArray (edits @ [legacy]))
                 (imap_remove ''newText'' (imap_remove ''oldText'' m))))
       | _ \<Rightarrow> JObject m))"
| "prepare_edit_arguments parse v = v"

definition edits_of :: "json \<Rightarrow> (string, edit list) result" where
  "edits_of v =
     (case v of
        JObject m \<Rightarrow>
          (case map_of m ''edits'' of
             Some (JArray xs) \<Rightarrow>
               if xs = [] then Inl ''Edit tool input is invalid. edits must contain at least one replacement.''
               else Inr (map (\<lambda>x. \<lparr>old_text = string_arg x ''oldText'', new_text = string_arg x ''newText''\<rparr>) xs)
           | _ \<Rightarrow> Inl ''Edit tool input is invalid. edits must contain at least one replacement.'')
      | _ \<Rightarrow> Inl ''Edit tool input is invalid. edits must contain at least one replacement.'')"

section \<open>ASCII text\<close>

text \<open>What normalization does to text it can read byte by byte.\<close>

definition ascii :: "string \<Rightarrow> bool" where
  "ascii s \<longleftrightarrow> list_all (\<lambda>c. byte c < 128) s"

definition ascii_blank :: "char \<Rightarrow> bool" where
  "ascii_blank c \<longleftrightarrow> 9 \<le> byte c \<and> byte c \<le> 13 \<or> byte c = 32"

lemma ascii_simps [simp]: "ascii []" "ascii (c # s) \<longleftrightarrow> byte c < 128 \<and> ascii s"
  by (simp_all add: ascii_def)

lemma ascii_append [simp]: "ascii (s @ t) \<longleftrightarrow> ascii s \<and> ascii t"
  by (simp add: ascii_def)

lemma ascii_subset: "ascii s \<Longrightarrow> set t \<subseteq> set s \<Longrightarrow> ascii t"
  by (auto simp: ascii_def list_all_iff)

lemma utf8_chars_all_ascii: "ascii s \<Longrightarrow> utf8_chars s = map (\<lambda>c. [c]) s"
  by (induction s) (simp_all add: utf8_chars_ascii)

lemma js_whitespace_ascii: "byte c < 128 \<Longrightarrow> js_whitespace [c] \<longleftrightarrow> ascii_blank c"
  by (auto simp: js_whitespace_def ascii_blank_def Let_def)

lemma fuzzy_char_ascii: "byte c < 128 \<Longrightarrow> fuzzy_char [c] = [c]"
  by (simp add: fuzzy_char_def Let_def)

lemma js_trim_end_ascii:
  assumes "ascii s"
  shows "js_trim_end s = rev (dropWhile ascii_blank (rev s))"
proof -
  have "dropWhile js_whitespace (map (\<lambda>c. [c]) t) = map (\<lambda>c. [c]) (dropWhile ascii_blank t)" if "ascii t" for t
    using that by (induction t) (simp_all add: js_whitespace_ascii)
  moreover have "ascii (rev s)" using assms ascii_subset by fastforce
  ultimately have "js_trim_end s = concat (map (\<lambda>c. [c]) (rev (dropWhile ascii_blank (rev s))))"
    unfolding js_trim_end_def utf8_chars_all_ascii [OF assms] by (simp only: rev_map)
  then show ?thesis by simp
qed

lemma ascii_split_on: "ascii s \<Longrightarrow> l \<in> set (split_on d s) \<Longrightarrow> ascii l"
  by (induction s arbitrary: l) (auto split: list.splits if_splits)

lemma ascii_join: "ascii d \<Longrightarrow> (\<And>l. l \<in> set ls \<Longrightarrow> ascii l) \<Longrightarrow> ascii (join d ls)"
  by (induction d ls rule: join.induct) auto

lemma normalize_ascii:
  assumes "ascii s" "nfkc s = s"
  shows "normalize_for_fuzzy_match nfkc s = join [lf] (map (\<lambda>l. rev (dropWhile ascii_blank (rev l))) (split_on lf s))"
    (is "_ = ?t")
proof -
  have "ascii (rev (dropWhile ascii_blank (rev l)))" if "l \<in> set (split_on lf s)" for l
    using ascii_split_on [OF assms(1) that]
    by (rule ascii_subset) (auto dest: set_dropWhileD)
  then have t: "ascii ?t" by (intro ascii_join) auto
  have "map js_trim_end (split_on lf s) = map (\<lambda>l. rev (dropWhile ascii_blank (rev l))) (split_on lf s)"
    by (simp add: js_trim_end_ascii ascii_split_on [OF assms(1)])
  then have "normalize_for_fuzzy_match nfkc s = concat (map fuzzy_char (map (\<lambda>c. [c]) ?t))"
    unfolding normalize_for_fuzzy_match_def assms(2) by (simp only: utf8_chars_all_ascii [OF t])
  moreover have "concat (map fuzzy_char (map (\<lambda>c. [c]) u)) = u" if "ascii u" for u
    using that by (induction u) (simp_all add: fuzzy_char_ascii)
  ultimately show ?thesis using t by simp
qed

section \<open>What a replacement does to the text\<close>

text \<open>Pieces of text between the replaced ones: each piece, the text of what follows it, and the rest.\<close>

definition woven :: "('p \<Rightarrow> string) \<Rightarrow> (string \<times> 'p) list \<Rightarrow> string \<Rightarrow> string" where
  "woven f ps rest = concat (map (\<lambda>(g, p). g @ f p) ps) @ rest"

lemma woven_simps [simp]:
  "woven f [] rest = rest" "woven f ((g, p) # ps) rest = g @ f p @ woven f ps rest"
  by (simp_all add: woven_def)

lemma woven_map: "woven f (map (\<lambda>(g, p). (g, h p)) ps) rest = woven (f \<circ> h) ps rest"
  by (induction ps) auto

lemma woven_cong: "(\<And>g p. (g, p) \<in> set ps \<Longrightarrow> f p = f' p) \<Longrightarrow> woven f ps rest = woven f' ps rest"
  by (auto simp: woven_def intro!: arg_cong [where f = concat])

text \<open>Replacements in order, apart from each other, within a text from \<open>n\<close> to \<open>m\<close>.\<close>

fun apart :: "nat \<Rightarrow> replacement list \<Rightarrow> nat \<Rightarrow> bool" where
  "apart n [] m \<longleftrightarrow> n \<le> m"
| "apart n (r # rs) m \<longleftrightarrow> n \<le> at_index r \<and> apart (at_index r + at_length r) rs m"

fun pieces :: "string \<Rightarrow> nat \<Rightarrow> nat \<Rightarrow> replacement list \<Rightarrow> (string \<times> replacement) list" where
  "pieces s off n [] = []"
| "pieces s off n (r # rs) =
     (take (at_index r - n) (drop (n - off) s), r) # pieces s off (at_index r + at_length r) rs"

fun rest_from :: "string \<Rightarrow> nat \<Rightarrow> nat \<Rightarrow> replacement list \<Rightarrow> string" where
  "rest_from s off n [] = drop (n - off) s"
| "rest_from s off n (r # rs) = rest_from s off (at_index r + at_length r) rs"

definition replaced_part :: "string \<Rightarrow> nat \<Rightarrow> replacement \<Rightarrow> string" where
  "replaced_part s off r = take (at_length r) (drop (at_index r - off) s)"

lemma pieces_snd [simp]: "map snd (pieces s off n rs) = rs"
  by (induction rs arbitrary: n) simp_all

lemma apart_bound: "apart n rs m \<Longrightarrow> n \<le> m"
  by (induction rs arbitrary: n) fastforce+

lemma take_slice: "n \<le> i \<Longrightarrow> take n s @ take (i - n) (drop n s) = take i s"
  by (metis le_add_diff_inverse take_add)

lemma apply_replacements_woven:
  assumes "apart n rs (off + length s)" and "off \<le> n"
  shows "apply_replacements s rs off = take (n - off) s @ woven with_text (pieces s off n rs) (rest_from s off n rs)"
    and "s = take (n - off) s @ woven (replaced_part s off) (pieces s off n rs) (rest_from s off n rs)"
proof -
  have "apply_replacements s rs off = take (n - off) s @ woven with_text (pieces s off n rs) (rest_from s off n rs) \<and>
      s = take (n - off) s @ woven (replaced_part s off) (pieces s off n rs) (rest_from s off n rs)"
    using assms
  proof (induction rs arbitrary: n)
    case Nil
    then show ?case by (simp add: apply_replacements_def)
  next
    case (Cons r rs)
    let ?i = "at_index r" and ?e = "at_index r + at_length r"
    let ?w = "\<lambda>f. woven f (pieces s off ?e rs) (rest_from s off ?e rs)"
    have n: "off \<le> n" "n \<le> ?i" "?e \<le> off + length s" using Cons.prems apart_bound by auto
    have ih: "apply_replacements s rs off = take (?e - off) s @ ?w with_text"
      "s = take (?e - off) s @ ?w (replaced_part s off)"
      using Cons.IH [of ?e] Cons.prems n by simp_all
    have len: "length (take (?e - off) s) = ?e - off" using n by simp
    have "take (?i - off) (take (?e - off) s @ ?w with_text) = take (?i - off) s"
      using len n by simp
    moreover have "drop (?i - off + at_length r) (take (?e - off) s @ ?w with_text) = ?w with_text"
      using len n by simp
    moreover have slice: "take (?i - off) s = take (n - off) s @ take (?i - n) (drop (n - off) s)"
      using take_slice [of "n - off" "?i - off" s] n by (simp add: diff_diff_eq)
    ultimately have "apply_replacements s (r # rs) off =
        take (n - off) s @ take (?i - n) (drop (n - off) s) @ with_text r @ ?w with_text"
      using ih(1) by (simp add: apply_replacements_def)
    moreover have "take (?e - off) s = take (?i - off) s @ replaced_part s off r"
      using take_slice [of "?i - off" "?e - off" s] n by (simp add: replaced_part_def)
    ultimately show ?case using ih(2) slice by simp
  qed
  then show "apply_replacements s rs off = take (n - off) s @ woven with_text (pieces s off n rs) (rest_from s off n rs)"
    "s = take (n - off) s @ woven (replaced_part s off) (pieces s off n rs) (rest_from s off n rs)" by blast+
qed

lemma first_overlap_apart:
  assumes "first_overlap rs = None" and "\<And>r. r \<in> set rs \<Longrightarrow> at_index r + at_length r \<le> m" and "rs \<noteq> [] \<Longrightarrow> n \<le> at_index (hd rs)"
    and "n \<le> m"
  shows "apart n rs m"
  using assms
proof (induction rs arbitrary: n rule: first_overlap.induct)
  case (1 r s rs)
  then show ?case by (auto split: if_splits)
qed auto

section \<open>The edits applied are the edits given\<close>

lemma find_text_at: "find_text p s = Some i \<Longrightarrow> take (length p) (drop i s) = p \<and> i + length p \<le> length s"
  using find_text_parts [of p s i] by (metis add.right_neutral append_eq_conv_conj append_take_drop_id diff_add_inverse drop_append drop_eq_Nil length_take min.absorb2 add_leD1 append_Nil le_refl drop_take cancel_comm_monoid_add_class.diff_cancel drop0)

text \<open>A replacement \<open>r\<close> stands for edit \<open>e\<close> of \<open>es\<close>, matched in \<open>base\<close> as the text \<open>old e\<close>.\<close>

definition stands_for :: "string \<Rightarrow> (edit \<Rightarrow> string) \<Rightarrow> edit list \<Rightarrow> replacement \<Rightarrow> bool" where
  "stands_for base old es r \<longleftrightarrow>
     edit_index r < length es \<and> with_text r = new_text (es ! edit_index r) \<and>
     replaced_part base 0 r = old (es ! edit_index r) \<and> at_index r + at_length r \<le> length base"

lemma match_edits_length:
  "match_edits nfkc base path many es = Inr rs \<Longrightarrow> map edit_index rs = map fst es \<and>
     list_all2 (\<lambda>r e. match_edit nfkc base path many e = Inr r) rs es"
proof (induction es arbitrary: rs)
  case (Cons e es)
  then obtain r ss where r: "match_edit nfkc base path many e = Inr r" "match_edits nfkc base path many es = Inr ss" "rs = r # ss"
    by (auto simp: bind_result_Inr_iff)
  then have "edit_index r = fst e"
    by (auto simp: match_edit_def Let_def split: prod.splits option.splits if_splits)
  with Cons.IH [OF r(2)] r show ?case by simp
qed simp

lemma enumerate_nth: "list_all2 Q rs (enumerate 0 es) \<Longrightarrow> n < length es \<Longrightarrow> Q (rs ! n) (n, es ! n)"
  by (drule list_all2_nthD2 [of _ _ _ n]) (simp_all add: nth_enumerate_eq)

lemma find_None_all: "find P xs = None \<Longrightarrow> x \<in> set xs \<Longrightarrow> \<not> P x"
  by (simp add: find_None_iff)

text \<open>What the applied edits say where every match was exact.\<close>

lemma apply_edits_exact:
  assumes "apply_edits nfkc content given path = Inr applied" and "\<not> uses_fuzzy nfkc content (map lf_edit given)"
  shows "\<exists>ps rest. content = woven old_text ps rest \<and> new_content applied = woven new_text ps rest \<and>
     mset (map snd ps) = mset (map lf_edit given) \<and>
     (\<forall>e \<in> set (map lf_edit given). old_text e \<noteq> [] \<and> count_occurrences nfkc content (old_text e) \<le> 1)"
proof -
  let ?es = "map lf_edit given"
  let ?n = "length ?es"
  have nonempty: "find (\<lambda>n. old_text (?es ! n) = []) [0 ..< ?n] = None"
    using assms(1) by (auto simp: apply_edits_def Let_def split: option.splits)
  obtain found where found: "match_edits nfkc content path ?n (enumerate 0 ?es) = Inr found"
    using assms nonempty by (auto simp: apply_edits_def Let_def bind_result_Inr_iff)
  have apart: "first_overlap (sort_key at_index found) = None"
    using assms nonempty found
    by (cases "first_overlap (sort_key at_index found)") (auto simp: apply_edits_def Let_def)
  have new: "new_content applied = apply_replacements content (sort_key at_index found) 0"
    using assms nonempty found apart by (auto simp: apply_edits_def Let_def split: if_splits)
  note matched = match_edits_length [OF found]
  have len: "length found = ?n" using matched by (auto dest: list_all2_lengthD)
  have one: "match_edit nfkc content path ?n (n, ?es ! n) = Inr (found ! n)" if "n < ?n" for n
    using matched that enumerate_nth [of "\<lambda>r e. match_edit nfkc content path ?n e = Inr r" found ?es n] by blast
  have stands: "stands_for content old_text ?es (found ! n) \<and> edit_index (found ! n) = n \<and>
      count_occurrences nfkc content (old_text (?es ! n)) \<le> 1" if n: "n < ?n" for n
  proof -
    obtain m where m: "fuzzy_find_text nfkc content (old_text (?es ! n)) = Some m"
      "count_occurrences nfkc content (old_text (?es ! n)) \<le> 1"
      "found ! n = \<lparr>edit_index = n, at_index = match_index m, at_length = match_length m, with_text = new_text (?es ! n)\<rparr>"
      using one [OF n] by (auto simp: match_edit_def Let_def split: option.splits if_splits)
    have "\<not> used_fuzzy m"
      using assms(2) m(1) n by (auto simp: uses_fuzzy_def list_ex_iff dest: nth_mem split: option.splits)
    with m(1) obtain i where i: "find_text (old_text (?es ! n)) content = Some i" "match_index m = i"
      "match_length m = length (old_text (?es ! n))"
      by (auto simp: fuzzy_find_text_def Let_def split: option.splits)
    with find_text_at [OF i(1)] m n show ?thesis by (simp add: stands_for_def replaced_part_def)
  qed
  define rs where "rs = sort_key at_index found"
  have rs: "\<exists>n < ?n. r = found ! n" if "r \<in> set rs" for r
    using that len by (auto simp: rs_def in_set_conv_nth)
  have inside: "at_index r + at_length r \<le> length content" if "r \<in> set rs" for r
    using rs [OF that] stands by (auto simp: stands_for_def)
  have "apart 0 rs (0 + length content)"
    using first_overlap_apart [OF apart [folded rs_def], of "length content" 0] inside by simp
  from apply_replacements_woven [OF this le_refl] obtain ps rest where
    ps: "new_content applied = woven with_text ps rest" "content = woven (replaced_part content 0) ps rest" "map snd ps = rs"
    using new by (simp add: rs_def)
  let ?edit = "\<lambda>r. ?es ! edit_index r"
  let ?qs = "map (\<lambda>(g, r). (g, ?edit r)) ps"
  have texts: "with_text r = new_text (?edit r) \<and> replaced_part content 0 r = old_text (?edit r)" if "(g, r) \<in> set ps" for g r
  proof -
    from that have "r \<in> set rs" using ps(3) by (metis image_eqI list.set_map snd_conv)
    then show ?thesis using rs stands by (fastforce simp: stands_for_def)
  qed
  have "new_content applied = woven new_text ?qs rest"
    unfolding ps(1) woven_map by (rule woven_cong) (simp add: texts)
  moreover have "content = woven old_text ?qs rest"
    by (subst ps(2), unfold woven_map, rule woven_cong) (simp add: texts)
  moreover have "mset (map snd ?qs) = mset ?es"
  proof -
    have "map snd ?qs = map ?edit rs" using ps(3) by (auto simp: comp_def case_prod_beta)
    moreover have "mset (map ?edit rs) = mset (map ?edit found)" by (simp only: mset_map rs_def mset_sort)
    moreover have "map ?edit found = ?es" using stands len by (intro nth_equalityI) auto
    ultimately show ?thesis by simp
  qed
  moreover have "\<forall>e \<in> set ?es. old_text e \<noteq> [] \<and> count_occurrences nfkc content (old_text e) \<le> 1"
  proof
    fix e
    assume "e \<in> set ?es"
    then obtain n where "n < ?n" "e = ?es ! n" by (metis in_set_conv_nth)
    with stands [of n] find_None_all [OF nonempty, of n] show
      "old_text e \<noteq> [] \<and> count_occurrences nfkc content (old_text e) \<le> 1" by auto
  qed
  ultimately show ?thesis by blast
qed

lemma restore_append: "restore_line_endings e (s @ t) = restore_line_endings e s @ restore_line_endings e t"
  by (cases e) (simp_all add: restore_line_endings_def)

lemma restore_woven:
  "restore_line_endings e (woven f ps rest) =
     woven (\<lambda>p. restore_line_endings e (f p)) (map (\<lambda>(g, p). (restore_line_endings e g, p)) ps) (restore_line_endings e rest)"
  by (induction ps) (auto simp: restore_append)


lemma edited_sample:
  "edited_text id [CHR ''a'', cr, lf, CHR ''b'', cr, lf]
      [\<lparr>old_text = ''b'', new_text = ''c''\<rparr>, \<lparr>old_text = ''a'', new_text = ''aa''\<rparr>] ''f'' =
      Inr [CHR ''a'', CHR ''a'', cr, lf, CHR ''c'', cr, lf]"
proof -
  let ?t = "[CHR ''a'', lf, CHR ''b'', lf]"
  have "normalize_for_fuzzy_match id ?t = ?t" "normalize_for_fuzzy_match id ''a'' = ''a''"
    "normalize_for_fuzzy_match id ''b'' = ''b''"
    by (simp_all add: normalize_ascii ascii_blank_def)
  then have "count_occurrences id ?t ''a'' = 1" "count_occurrences id ?t ''b'' = 1"
    by (simp_all add: count_occurrences_def count_matches.simps starts_with_def)
  then show ?thesis
    by (simp add: edited_text_def edit_text_def split_bom_def bom_def starts_with_def normalize_to_lf_def lf_edit_def
        apply_edits_def upt_rec uses_fuzzy_def fuzzy_find_text_def match_edit_def apply_replacements_def
        detect_line_ending_def restore_line_endings_def bind_result_def Let_def enumerate_eq_zip)
qed

lemma replace_crlf_no_cr: "cr \<notin> set s \<Longrightarrow> replace_crlf s = s"
  by (induction s rule: replace_crlf.induct) auto

lemma normalize_to_lf_no_cr: "cr \<notin> set s \<Longrightarrow> normalize_to_lf s = s"
  by (auto simp: normalize_to_lf_def replace_crlf_no_cr intro: map_idI)

text \<open>C38. A blank to find that a file of two other characters does not hold is found all the same: its
  normalized form is empty, which is a prefix of every file, and a file of two characters counts it
  once. The edit is accepted and its replacement written at the start of the file.\<close>

theorem blank_edit_inserts:
  assumes "ascii [a, b]" "\<not> ascii_blank a" "\<not> ascii_blank b"
    and "ascii_blank c" "c \<noteq> cr" "c \<noteq> lf" and "cr \<notin> set s" "s \<noteq> []"
  shows "find_text [c] [a, b] = None \<and>
    edited_text id [a, b] [\<lparr>old_text = [c], new_text = s\<rparr>] path = Inr (s @ [a, b])"
proof -
  have apart: "a \<noteq> c" "b \<noteq> c" "a \<noteq> cr" "b \<noteq> cr" "a \<noteq> lf" "b \<noteq> lf" "byte c < 128" "a \<noteq> CHR 0xEF"
    using assms(1-4) by (auto simp: ascii_blank_def)
  then have blank: "normalize_for_fuzzy_match id [a, b] = [a, b]" "normalize_for_fuzzy_match id [c] = []"
    using assms(1-6) by (simp_all add: normalize_ascii)
  then have "count_occurrences id [a, b] [c] = 1"
    using assms(1) by (simp add: count_occurrences_def utf8_chars_ascii utf16_width_def)
  moreover have "apply_preserving [a, b] [a, b] [\<lparr>edit_index = 0, at_index = 0, at_length = 0, with_text = s\<rparr>] = Inr (s @ [a, b])"
    using apart by (simp add: apply_preserving_def split_lines_with_endings_def line_spans_def group_replacement_def
        replacement_line_range_def apply_replacements_def bind_result_def Let_def)
  moreover have "[a, b] \<noteq> s @ [a, b]" using assms(8) by simp
  ultimately show ?thesis using blank apart assms(5-8)
    by (simp add: edited_text_def edit_text_def split_bom_def bom_def starts_with_def normalize_to_lf_no_cr lf_edit_def
        apply_edits_def uses_fuzzy_def fuzzy_find_text_def match_edit_def
        detect_line_ending_def restore_line_endings_def bind_result_def Let_def)
qed

lemma blank_edit_inserts_witness:
  "find_text '' '' ''ab'' = None \<and>
   edited_text id ''ab'' [\<lparr>old_text = '' '', new_text = ''x''\<rparr>] ''f'' = Inr ''xab''"
  using blank_edit_inserts [of "CHR ''a''" "CHR ''b''" "CHR '' ''" "''x''" "''f''"] by (simp add: ascii_blank_def)

text \<open>C37. An edit call reports an error without having touched the file, except where the write itself
  failed, or the run was cancelled after it; the text it writes is the edit of the text it read, and
  the answer shows the diff and the patch of the two texts.\<close>

theorem edit_file_effect:
  "(case edit_file nfkc w given path of
      (Untouched, answer) \<Rightarrow> (\<exists>e. answer = Inl e)
    | (Torn, answer) \<Rightarrow> create_error w = None \<and> (\<exists>e. write_error w = Some e \<and> answer = Inl e)
    | (Rewritten out, answer) \<Rightarrow>
        guard_refusal w = None \<and> access_error w = None \<and> list_all (\<lambda>n. \<not> aborted_at w n) [0, 1, 2, 3] \<and>
        (\<exists>bytes applied. read_bytes w = Inr bytes \<and> length bytes \<le> max_edit_file_bytes \<and>
           edited_text nfkc (from_utf8_lossy bytes) given path = Inr out \<and>
           apply_edits nfkc (normalize_to_lf (snd (split_bom (from_utf8_lossy bytes)))) given path = Inr applied \<and>
           answer = (if aborted_at w 4 then Inl aborted_text
             else Inr \<lparr>answer_text = ''Successfully replaced '' @ nat_text (length given) @ '' block(s) in '' @ path @ ''.'',
               answer_details = edit_details path applied\<rparr>)))"
proof -
  have applied: "edit_text nfkc raw given path = Inr (applied, out) \<Longrightarrow>
      edited_text nfkc raw given path = Inr out \<and>
      apply_edits nfkc (normalize_to_lf (snd (split_bom raw))) given path = Inr applied" for raw applied out
    by (auto simp: edited_text_def edit_text_def bind_result_Inr_iff split: prod.splits)
  show ?thesis
    unfolding edit_file_def
    apply (auto simp: check_abort_def bind_result_def dest!: applied
      split: option.splits sum.splits prod.splits edit_effect.splits if_splits)
    subgoal for bytes changed by (intro exI [of _ bytes] exI [of _ changed]) simp
    done
qed

section \<open>What a normalized match leaves alone\<close>

text \<open>Groups of lines in order and apart, from line \<open>at\<close> on.\<close>

fun groups_apart :: "nat \<Rightarrow> nat \<Rightarrow> line_group list \<Rightarrow> bool" where
  "groups_apart at n [] \<longleftrightarrow> at \<le> n"
| "groups_apart at n ((first, end, rs) # groups) \<longleftrightarrow> at \<le> first \<and> first < end \<and> groups_apart end n groups"

text \<open>The lines the replacements of a list stand in.\<close>

definition line_matched :: "(nat \<times> nat) list \<Rightarrow> replacement list \<Rightarrow> nat \<Rightarrow> bool" where
  "line_matched ls rs k \<longleftrightarrow>
     list_ex (\<lambda>r. case replacement_line_range ls r of Inl _ \<Rightarrow> False | Inr (first, end) \<Rightarrow> first \<le> k \<and> k < end) rs"

abbreviation in_group :: "line_group list \<Rightarrow> nat \<Rightarrow> bool" where
  "in_group groups k \<equiv> \<exists>first end rs. (first, end, rs) \<in> set groups \<and> first \<le> k \<and> k < end"

lemma replacement_line_range_bounds:
  "replacement_line_range ls r = Inr (first, end) \<Longrightarrow> first < end \<and> end \<le> length ls"
  by (auto simp: replacement_line_range_def Let_def split: option.splits if_splits)

lemma groups_apart_le: "groups_apart at n groups \<Longrightarrow> at \<le> n"
  by (induction at n groups rule: groups_apart.induct) auto

lemma groups_apart_snoc:
  "groups_apart at n groups \<Longrightarrow> groups = [] \<and> at \<le> first \<or> groups \<noteq> [] \<and> fst (snd (last groups)) \<le> first \<Longrightarrow>
   first < end \<Longrightarrow> end \<le> n \<Longrightarrow> groups_apart at n (groups @ [(first, end, rs)])"
  by (induction at n groups rule: groups_apart.induct) (auto split: if_splits)

lemma groups_apart_widen:
  "groups_apart at n groups \<Longrightarrow> groups \<noteq> [] \<Longrightarrow> end \<le> n \<Longrightarrow>
   groups_apart at n (butlast groups @ [(fst (last groups), max (fst (snd (last groups))) end, rs)])"
  by (induction at n groups rule: groups_apart.induct) (auto split: if_splits)

lemma group_replacement_step:
  assumes "group_replacement ls r groups = Inr after"
    and "groups_apart 0 (length ls) groups" and "\<And>k. in_group groups k \<Longrightarrow> line_matched ls rs k"
  shows "groups_apart 0 (length ls) after" and "\<And>k. in_group after k \<Longrightarrow> line_matched ls (r # rs) k"
proof -
  obtain first "end" where range: "replacement_line_range ls r = Inr (first, end)"
    using assms(1) by (auto simp: group_replacement_def bind_result_Inr_iff)
  note bounds = replacement_line_range_bounds [OF range]
  show "groups_apart 0 (length ls) after"
    using assms(1,2) bounds groups_apart_snoc [OF assms(2)] groups_apart_widen [OF assms(2)] range
    by (auto simp: group_replacement_def bind_result_def not_less split: if_splits)
  show "line_matched ls (r # rs) k" if "in_group after k" for k
  proof (cases "groups \<noteq> [] \<and> first < fst (snd (last groups))")
    case False
    with assms(1) range have "after = groups @ [(first, end, [r])]"
      by (auto simp: group_replacement_def bind_result_def)
    with that assms(3) [of k] range show ?thesis by (auto simp: line_matched_def)
  next
    case True
    obtain f e rs' where l: "last groups = (f, e, rs')" by (cases "last groups") auto
    from True assms(1) range l have after: "after = butlast groups @ [(f, max e end, rs' @ [r])]"
      by (auto simp: group_replacement_def bind_result_def)
    have mem: "(f, e, rs') \<in> set groups" using True l last_in_set [of groups] by auto
    from that after consider "in_group groups k" | "f \<le> k" "k < max e end"
      by (auto dest: in_set_butlastD)
    then show ?thesis
    proof cases
      case 1
      then show ?thesis using assms(3) [of k] by (simp add: line_matched_def)
    next
      case 2
      show ?thesis
      proof (cases "k < e")
        case True
        then show ?thesis using assms(3) [of k] mem 2 by (auto simp: line_matched_def)
      next
        case False
        then show ?thesis using True l 2 range by (auto simp: line_matched_def)
      qed
    qed
  qed
qed

lemma group_replacements_all:
  assumes "group_replacements ls rs groups = Inr after"
    and "groups_apart 0 (length ls) groups" and "\<And>k. in_group groups k \<Longrightarrow> line_matched ls done k"
  shows "groups_apart 0 (length ls) after \<and> (\<forall>k. in_group after k \<longrightarrow> line_matched ls (rs @ done) k)"
  using assms
proof (induction ls rs groups arbitrary: "done" rule: group_replacements.induct)
  case (1 ls groups)
  then show ?case by auto
next
  case (2 ls r rs groups)
  then obtain mid where mid: "group_replacement ls r groups = Inr mid" "group_replacements ls rs mid = Inr after"
    by (auto simp: bind_result_Inr_iff)
  have step: "groups_apart 0 (length ls) mid" "\<And>k. in_group mid k \<Longrightarrow> line_matched ls (r # done) k"
    using group_replacement_step [OF mid(1) "2.prems"(2), of "done"] "2.prems"(3) by blast+
  show ?case
    using "2.IH" [OF mid step] by (auto simp: line_matched_def)
qed

lemma write_groups_lines:
  "groups_apart at n groups \<Longrightarrow> n = length original \<Longrightarrow>
   \<exists>f. write_groups original base ls at groups = concat (map f [at ..< n]) \<and>
     (\<forall>k. at \<le> k \<and> k < n \<and> \<not> in_group groups k \<longrightarrow> f k = original ! k)"
proof (induction original base ls at groups rule: write_groups.induct)
  case (1 original base ls at)
  have "drop at original = map (\<lambda>k. original ! k) [at ..< length original]"
    by (metis drop_map drop_upt map_nth plus_nat.add_0)
  then show ?case using 1 by (intro exI [of _ "\<lambda>k. original ! k"]) simp
next
  case (2 original base ls at first "end" rs groups)
  then have *: "at \<le> first" "first < end" "groups_apart end n groups" "end \<le> n" by (auto dest: groups_apart_le)
  from "2.IH" [OF *(3) "2.prems"(2)] obtain f where f:
    "write_groups original base ls end groups = concat (map f [end ..< n])"
    "\<forall>k. end \<le> k \<and> k < n \<and> \<not> in_group groups k \<longrightarrow> f k = original ! k" by blast
  define t where "t = apply_replacements (take (snd (ls ! (end - 1)) - fst (ls ! first)) (drop (fst (ls ! first)) base)) rs (fst (ls ! first))"
  define h where "h = (\<lambda>k. if k < first then original ! k else if k = first then t else if k < end then [] else f k)"
  have kept: "take (first - at) (drop at original) = map (\<lambda>k. original ! k) [at ..< first]"
    using * "2.prems"(2) by (intro nth_equalityI) auto
  have parts: "[i ..< k] = [i ..< j] @ [j ..< k]" if "i \<le> j" "j \<le> k" for i j k
    using that by (metis le_Suc_ex upt_add_eq_append)
  have "[at ..< n] = [at ..< first] @ [first] @ [Suc first ..< end] @ [end ..< n]"
    using * parts [of at first n] parts [of first "end" n] upt_conv_Cons [of first "end"] by simp
  then have "concat (map h [at ..< n]) =
      concat (map h [at ..< first]) @ h first @ concat (map h [Suc first ..< end]) @ concat (map h [end ..< n])"
    by simp
  moreover have "map h [at ..< first] = map (\<lambda>k. original ! k) [at ..< first]" "h first = t"
    "concat (map h [Suc first ..< end]) = []" "map h [end ..< n] = map f [end ..< n]"
    using * by (auto simp: h_def)
  ultimately have "concat (map h [at ..< n]) = write_groups original base ls at ((first, end, rs) # groups)"
    unfolding write_groups.simps t_def [symmetric] f(1) kept by (simp only: append_Nil)
  moreover have "h k = original ! k" if "at \<le> k" "k < n" "\<not> in_group ((first, end, rs) # groups) k" for k
  proof (cases "k < first")
    case True
    then show ?thesis by (simp add: h_def)
  next
    case False
    with that(3) have "end \<le> k" "\<not> in_group groups k" by (auto simp: not_less)
    with f(2) that(2) *(2) show ?thesis by (simp add: h_def)
  qed
  ultimately show ?case by metis
qed



end
