(* ===== verification/WebPolicy.thy ===== *)
theory WebPolicy
  imports Truncate "HOL-Library.Word"
begin

text \<open>
  The rules of the public fetcher (\<open>web/policy.rs\<close>, with \<open>WebError\<close> and the text limits of
  \<open>web/mod.rs\<close>): which addresses are public, the NAT64 translations, which URLs may be fetched and how
  a content type is read. The URL parser (the \<open>url\<close> crate), the encodings (\<open>encoding_rs\<close>) and the
  parser of an address' text are parameters of the definitions that use them.
\<close>

unbundle bit_operations_syntax

section \<open>Errors and URLs\<close>

datatype web_code =
    WEB_ABORTED
  | WEB_PROVIDER_ERROR
  | WEB_INVALID_URL
  | WEB_BLOCKED_URL
  | WEB_REDIRECT_BLOCKED
  | WEB_FETCH_TOO_LARGE
  | WEB_FETCH_TIMEOUT
  | WEB_UNSUPPORTED_CONTENT_TYPE

record web_error =
  web_code :: web_code
  web_message :: string

definition web_error_new :: "web_code \<Rightarrow> string \<Rightarrow> web_error" where
  "web_error_new code message = \<lparr>web_code = code, web_message = message\<rparr>"

definition utf16_len :: "string \<Rightarrow> nat" where
  "utf16_len s = sum_list (map utf16_width (utf8_chars s))"

fun truncate_chars :: "nat \<Rightarrow> string list \<Rightarrow> string list \<times> bool" where
  "truncate_chars limit [] = ([], False)"
| "truncate_chars limit (c # cs) =
     (if limit < utf16_width c then ([], True)
      else let (kept, cut) = truncate_chars (limit - utf16_width c) cs in (c # kept, cut))"

definition truncate_utf16 :: "string \<Rightarrow> nat \<Rightarrow> string \<times> bool" where
  "truncate_utf16 s limit = (let (kept, cut) = truncate_chars limit (utf8_chars s) in (concat kept, cut))"

text \<open>A parsed URL, as far as it is read: the port is \<open>None\<close> where it is the scheme's own.\<close>

record url =
  scheme :: string
  username :: string
  password :: "string option"
  host_str :: "string option"
  port :: "nat option"
  url_text :: string
  origin_text :: string

definition web_fetch_max_url_length :: nat where
  "web_fetch_max_url_length = 2048"

definition parse_fetch_url :: "(string \<Rightarrow> url option) \<Rightarrow> string \<Rightarrow> (web_error, url) result" where
  "parse_fetch_url parse input =
     (case parse input of
        None \<Rightarrow> Inl (web_error_new WEB_INVALID_URL (''invalid URL: '' @ input))
      | Some u \<Rightarrow>
          if scheme u \<noteq> ''http'' \<and> scheme u \<noteq> ''https''
          then Inl (web_error_new WEB_INVALID_URL (''unsupported URL scheme \"'' @ scheme u @ '':\" (only http and https are allowed)''))
          else if username u \<noteq> [] \<or> (case password u of None \<Rightarrow> False | Some p \<Rightarrow> p \<noteq> [])
          then Inl (web_error_new WEB_BLOCKED_URL ''credentials in URLs are not allowed'')
          else Inr u)"

definition validate_fetch_url :: "(string \<Rightarrow> url option) \<Rightarrow> string \<Rightarrow> (web_error, url) result" where
  "validate_fetch_url parse input =
     (if web_fetch_max_url_length < utf16_len input
      then Inl (web_error_new WEB_INVALID_URL
        (''URL exceeds the maximum length of '' @ nat_text web_fetch_max_url_length))
      else parse_fetch_url parse input)"

definition is_same_origin :: "url \<Rightarrow> url \<Rightarrow> bool" where
  "is_same_origin a b \<longleftrightarrow> scheme a = scheme b \<and> host_str a = host_str b \<and> port a = port b"

section \<open>Content types\<close>

datatype fetchable_kind = Html | Text

definition to_ascii_lower :: "char \<Rightarrow> char" where
  "to_ascii_lower c = (if 65 \<le> byte c \<and> byte c \<le> 90 then char_of (byte c + 32) else c)"

definition to_ascii_lowercase :: "string \<Rightarrow> string" where
  "to_ascii_lowercase = map to_ascii_lower"

definition ends_with :: "string \<Rightarrow> string \<Rightarrow> bool" where
  "ends_with s p \<longleftrightarrow> starts_with (rev s) (rev p)"

definition classify_content_type :: "string option \<Rightarrow> fetchable_kind option" where
  "classify_content_type content_type =
     (let raw = (case content_type of None \<Rightarrow> [] | Some t \<Rightarrow> t);
          mime = to_ascii_lowercase (trim (case split_once CHR '';'' raw of None \<Rightarrow> raw | Some (mime, _) \<Rightarrow> mime))
      in if mime = ''text/html'' \<or> mime = ''application/xhtml+xml'' then Some Html
         else if starts_with mime ''text/'' \<or> mime = ''application/json'' \<or> mime = ''application/xml'' \<or>
           ends_with mime ''+json'' \<or> ends_with mime ''+xml'' then Some Text
         else None)"

definition trim_start :: "string \<Rightarrow> string" where
  "trim_start s = concat (dropWhile char_is_whitespace (utf8_chars s))"

text \<open>The label after one \<open>;\<close>, where it names the parameter.\<close>

definition charset_label :: "string \<Rightarrow> string option" where
  "charset_label value =
     (let rest = trim_start value in
      if 7 \<le> length rest \<and> to_ascii_lowercase (take 7 rest) = ''charset''
      then
        (let after = trim_start (drop 7 rest) in
         (case after of
            c # after \<Rightarrow>
              if c = CHR ''=''
              then
                (let after = trim_start after;
                     after = (case after of q # label \<Rightarrow> if q = CHR 0x22 then label else after | [] \<Rightarrow> after);
                     label = trim (takeWhile (\<lambda>c. c \<noteq> CHR 0x22 \<and> c \<noteq> CHR '';'') after)
                 in if label \<noteq> [] then Some (to_ascii_lowercase label) else None)
              else None
          | [] \<Rightarrow> None))
      else None)"

fun charset_from :: "string \<Rightarrow> string option" where
  "charset_from [] = None"
| "charset_from (c # s) =
     (if c = CHR '';''
      then (case charset_label s of Some label \<Rightarrow> Some label | None \<Rightarrow> charset_from s)
      else charset_from s)"

definition parse_charset :: "string option \<Rightarrow> string option" where
  "parse_charset content_type = (case content_type of None \<Rightarrow> None | Some value \<Rightarrow> charset_from value)"

text \<open>\<open>find\<close> gives the encoding of a label, \<open>None\<close> where there is none or it is the replacement one.\<close>

definition encoding_for_charset :: "(string \<Rightarrow> 'e option) \<Rightarrow> 'e \<Rightarrow> string option \<Rightarrow> (web_error, 'e) result" where
  "encoding_for_charset for_label utf8 charset =
     (case charset of
        None \<Rightarrow> Inr utf8
      | Some label \<Rightarrow>
          (case for_label label of
             Some encoding \<Rightarrow> Inr encoding
           | None \<Rightarrow> Inl (web_error_new WEB_UNSUPPORTED_CONTENT_TYPE (''unsupported charset \"'' @ label @ ''\"''))))"

section \<open>Public addresses\<close>

text \<open>An address is its octets, four or sixteen.\<close>

type_synonym octets = "8 word list"

datatype ip_addr = V4 octets | V6 octets

fun ip_ok :: "ip_addr \<Rightarrow> bool" where
  "ip_ok (V4 os) \<longleftrightarrow> length os = 4"
| "ip_ok (V6 os) \<longleftrightarrow> length os = 16"

definition ipv4_special :: "(octets \<times> nat) list" where
  "ipv4_special =
     [([0, 0, 0, 0], 8),
      ([255, 255, 255, 255], 32),
      ([224, 0, 0, 0], 4),
      ([169, 254, 0, 0], 16),
      ([127, 0, 0, 0], 8),
      ([100, 64, 0, 0], 10),
      ([10, 0, 0, 0], 8),
      ([172, 16, 0, 0], 12),
      ([192, 168, 0, 0], 16),
      ([192, 0, 0, 0], 24),
      ([192, 0, 2, 0], 24),
      ([192, 88, 99, 0], 24),
      ([198, 18, 0, 0], 15),
      ([198, 51, 100, 0], 24),
      ([203, 0, 113, 0], 24),
      ([240, 0, 0, 0], 4),
      ([192, 175, 48, 0], 24),
      ([192, 31, 196, 0], 24),
      ([192, 52, 193, 0], 24)]"

text \<open>\<open>Ipv6Addr::from\<close> of eight segments.\<close>

definition segment_octets :: "16 word list \<Rightarrow> octets" where
  "segment_octets ss = concat (map (\<lambda>s. [ucast (drop_bit 8 s), ucast s]) ss)"

definition ipv6_special :: "(16 word list \<times> nat) list" where
  "ipv6_special =
     [([0, 0, 0, 0, 0, 0, 0, 0], 128),
      ([0xfe80, 0, 0, 0, 0, 0, 0, 0], 10),
      ([0xff00, 0, 0, 0, 0, 0, 0, 0], 8),
      ([0, 0, 0, 0, 0, 0, 0, 1], 128),
      ([0xfc00, 0, 0, 0, 0, 0, 0, 0], 7),
      ([0xfec0, 0, 0, 0, 0, 0, 0, 0], 10),
      ([0x100, 0, 0, 0, 0, 0, 0, 0], 64),
      ([0, 0, 0, 0, 0xffff, 0, 0, 0], 96),
      ([0x64, 0xff9b, 0, 0, 0, 0, 0, 0], 96),
      ([0x64, 0xff9b, 0x1, 0, 0, 0, 0, 0], 48),
      ([0x2002, 0, 0, 0, 0, 0, 0, 0], 16),
      ([0x2001, 0, 0, 0, 0, 0, 0, 0], 32),
      ([0x2001, 0x2, 0, 0, 0, 0, 0, 0], 48),
      ([0x2001, 0x3, 0, 0, 0, 0, 0, 0], 32),
      ([0x2001, 0x4, 0x112, 0, 0, 0, 0, 0], 48),
      ([0x2620, 0x4f, 0x8000, 0, 0, 0, 0, 0], 48),
      ([0x2001, 0x10, 0, 0, 0, 0, 0, 0], 28),
      ([0x2001, 0x20, 0, 0, 0, 0, 0, 0], 28),
      ([0x2001, 0x30, 0, 0, 0, 0, 0, 0], 28),
      ([0x5f00, 0, 0, 0, 0, 0, 0, 0], 16),
      ([0x2001, 0, 0, 0, 0, 0, 0, 0], 23),
      ([0x2001, 0xdb8, 0, 0, 0, 0, 0, 0], 32),
      ([0x3fff, 0, 0, 0, 0, 0, 0, 0], 20)]"

text \<open>\<open>get(..n)\<close> and \<open>get(i)\<close>.\<close>

definition get_prefix :: "nat \<Rightarrow> octets \<Rightarrow> octets option" where
  "get_prefix n os = (if n \<le> length os then Some (take n os) else None)"

definition get_at :: "nat \<Rightarrow> octets \<Rightarrow> 8 word option" where
  "get_at n os = (if n < length os then Some (os ! n) else None)"

definition prefix_match :: "octets \<Rightarrow> octets \<Rightarrow> nat \<Rightarrow> bool" where
  "prefix_match address network bits =
     (let whole = bits div 8; rest = bits mod 8 in
      if get_prefix whole address \<noteq> get_prefix whole network then False
      else if rest = 0 then True
      else
        (let mask = push_bit (8 - rest) (0xff :: 8 word) in
         (case (get_at whole address, get_at whole network) of
            (Some a, Some n) \<Rightarrow> a AND mask = n AND mask
          | _ \<Rightarrow> False)))"

definition ipv4_is_public :: "octets \<Rightarrow> bool" where
  "ipv4_is_public address = (\<not> list_ex (\<lambda>(network, bits). prefix_match address network bits) ipv4_special)"

definition ipv6_is_public :: "octets \<Rightarrow> bool" where
  "ipv6_is_public address =
     (if address ! 0 AND 0xe0 \<noteq> 0x20 then False
      else \<not> list_ex (\<lambda>(network, bits). prefix_match address (segment_octets network) bits) ipv6_special)"

definition ipv4_mapped :: "octets \<Rightarrow> octets option" where
  "ipv4_mapped os =
     (if take 10 os = replicate 10 0 \<and> os ! 10 = 0xff \<and> os ! 11 = 0xff
      then Some [os ! 12, os ! 13, os ! 14, os ! 15] else None)"

fun is_public_ip :: "ip_addr \<Rightarrow> bool" where
  "is_public_ip (V4 v4) = ipv4_is_public v4"
| "is_public_ip (V6 v6) = (case ipv4_mapped v6 of Some v4 \<Rightarrow> ipv4_is_public v4 | None \<Rightarrow> ipv6_is_public v6)"

text \<open>The host between its brackets, if it has both.\<close>

definition strip_ipv6_brackets :: "string \<Rightarrow> string" where
  "strip_ipv6_brackets host =
     (case host of
        c # inner \<Rightarrow> if c = CHR ''['' \<and> inner \<noteq> [] \<and> last inner = CHR '']'' then butlast inner else host
      | [] \<Rightarrow> host)"

definition is_public_ip_text :: "(string \<Rightarrow> ip_addr option) \<Rightarrow> string \<Rightarrow> bool" where
  "is_public_ip_text parse_ip input =
     (case parse_ip (strip_ipv6_brackets input) of Some a \<Rightarrow> is_public_ip a | None \<Rightarrow> False)"

section \<open>NAT64\<close>

definition rfc6052_prefix_lengths :: "nat list" where
  "rfc6052_prefix_lengths = [32, 40, 48, 56, 64, 96]"

definition ipv4only_sentinels :: "octets list" where
  "ipv4only_sentinels = [[192, 0, 0, 170], [192, 0, 0, 171]]"

record nat64_prefix =
  prefix_bytes :: octets
  prefix_length :: nat

definition embedded_ipv4 :: "octets \<Rightarrow> nat \<Rightarrow> octets option" where
  "embedded_ipv4 bytes bits =
     (if bits = 96 then Some [bytes ! 12, bytes ! 13, bytes ! 14, bytes ! 15]
      else if bytes ! 8 \<noteq> 0 then None
      else
        (let n = bits div 8 in
         if 8 < n then None
         else
           (let before = 8 - n;
                ipv4 = take before (drop n bytes) @ take (4 - before) (drop 9 bytes)
            in if length ipv4 = 4 then Some ipv4 else None)))"

definition add_prefix :: "octets \<Rightarrow> nat64_prefix list \<Rightarrow> nat \<Rightarrow> nat64_prefix list" where
  "add_prefix bytes prefixes bits =
     (case embedded_ipv4 bytes bits of
        None \<Rightarrow> prefixes
      | Some embedded \<Rightarrow>
          if embedded \<notin> set ipv4only_sentinels then prefixes
          else
            (let prefix = \<lparr>prefix_bytes = take (bits div 8) bytes, prefix_length = bits\<rparr>
             in if prefix \<in> set prefixes then prefixes else prefixes @ [prefix]))"

definition nat64_prefixes :: "ip_addr list \<Rightarrow> nat64_prefix list" where
  "nat64_prefixes discovered =
     foldl (\<lambda>prefixes entry.
        case entry of V4 _ \<Rightarrow> prefixes | V6 bytes \<Rightarrow> foldl (add_prefix bytes) prefixes rfc6052_prefix_lengths)
       [] discovered"

text \<open>The first prefix of the address that gives it an IPv4 address.\<close>

fun first_embedded :: "octets \<Rightarrow> nat64_prefix list \<Rightarrow> octets option" where
  "first_embedded bytes [] = None"
| "first_embedded bytes (p # ps) =
     (case embedded_ipv4 bytes (prefix_length p) of Some v4 \<Rightarrow> Some v4 | None \<Rightarrow> first_embedded bytes ps)"

fun translated_ipv4 :: "ip_addr \<Rightarrow> nat64_prefix list \<Rightarrow> octets option" where
  "translated_ipv4 (V4 _) prefixes = None"
| "translated_ipv4 (V6 bytes) prefixes =
     first_embedded bytes (filter (\<lambda>p. starts_with bytes (prefix_bytes p)) prefixes)"

section \<open>Networks are ranges of numbers\<close>

text \<open>An address as a number, and the numbers of a network.\<close>

definition octets_value :: "octets \<Rightarrow> nat" where
  "octets_value os = foldl (\<lambda>n b. 256 * n + unat b) 0 os"

definition in_network :: "nat \<Rightarrow> octets \<Rightarrow> nat \<Rightarrow> bool" where
  "in_network address network bits \<longleftrightarrow>
     octets_value network \<le> address \<and> address < octets_value network + 2 ^ (8 * length network - bits)"

lemma high_bits: "a AND push_bit k (0xff :: 8 word) = b AND push_bit k 0xff \<longleftrightarrow> unat a div 2 ^ k = unat b div 2 ^ k"
  for a b :: "8 word"
proof -
  have ones: "(0xff :: 8 word) = - 1" by simp
  have "a AND push_bit k (0xff :: 8 word) = b AND push_bit k 0xff \<longleftrightarrow> drop_bit k a = drop_bit k b"
  proof
    assume eq: "a AND push_bit k (0xff :: 8 word) = b AND push_bit k 0xff"
    have "bit a (k + n) \<longleftrightarrow> bit b (k + n)" for n
    proof (cases "k + n < 8")
      case True
      then show ?thesis using arg_cong [OF eq, of "\<lambda>x. bit x (k + n)"] unfolding ones by (simp add: bit_simps)
    next
      case False
      then show ?thesis using bit_imp_le_length [of a "k + n"] bit_imp_le_length [of b "k + n"] by auto
    qed
    then show "drop_bit k a = drop_bit k b" by (simp add: bit_eq_iff bit_simps)
  next
    assume eq: "drop_bit k a = drop_bit k b"
    have "bit a n \<longleftrightarrow> bit b n" if "k \<le> n" for n
      using arg_cong [OF eq, of "\<lambda>x. bit x (n - k)"] that by (simp add: bit_simps)
    then show "a AND push_bit k (0xff :: 8 word) = b AND push_bit k 0xff"
      unfolding ones by (auto simp: bit_eq_iff bit_simps)
  qed
  also have "\<dots> \<longleftrightarrow> unat a div 2 ^ k = unat b div 2 ^ k"
    unfolding word_unat_eq_iff [of "drop_bit k a"] unat_drop_bit_eq by (simp only: drop_bit_eq_div)
  finally show ?thesis .
qed

lemma octets_value_snoc [simp]: "octets_value (os @ [b]) = 256 * octets_value os + unat b"
  by (simp add: octets_value_def)

lemma octets_value_Nil [simp]: "octets_value [] = 0"
  by (simp add: octets_value_def)

lemma octets_value_append: "octets_value (os @ ps) = octets_value os * 256 ^ length ps + octets_value ps"
  by (induction ps rule: rev_induct) (simp_all add: algebra_simps flip: append_assoc)

lemma unat_octet [simp]: "unat (b :: 8 word) < 256"
  using unsigned_less [of b, where ?'a = nat] by simp

lemma octets_value_bound: "octets_value os < 256 ^ length os"
proof (induction os rule: rev_induct)
  case (snoc b os)
  have "256 * octets_value os + unat b < 256 * (octets_value os + 1)" using unat_octet [of b] by simp
  also have "\<dots> \<le> 256 * 256 ^ length os" using snoc by (intro mult_le_mono2) simp
  finally show ?case by simp
qed simp

lemma octets_value_inject: "length os = length ps \<Longrightarrow> octets_value os = octets_value ps \<longleftrightarrow> os = ps"
proof (induction os arbitrary: ps rule: rev_induct)
  case (snoc b os)
  then obtain c ps' where ps: "ps = ps' @ [c]" by (metis length_0_conv rev_exhaust snoc_eq_iff_butlast)
  have digits: "256 * x + i = 256 * y + j \<longleftrightarrow> x = y \<and> i = j" if "i < 256" "j < 256" for x y i j :: nat
  proof
    assume eq: "256 * x + i = 256 * y + j"
    then have "(256 * x + i) div 256 = (256 * y + j) div 256" by simp
    with that have "x = y" by simp
    with eq show "x = y \<and> i = j" by simp
  qed simp
  show ?case
    using snoc ps digits [OF unat_octet unat_octet, of "octets_value os" b "octets_value ps'" c]
    by (simp add: word_unat_eq_iff)
qed simp

lemma octets_value_take:
  assumes "n \<le> length os"
  shows "octets_value os div 256 ^ (length os - n) = octets_value (take n os)"
proof -
  have "octets_value os = octets_value (take n os) * 256 ^ (length os - n) + octets_value (drop n os)"
    using octets_value_append [of "take n os" "drop n os"] assms by simp
  moreover have "octets_value (drop n os) < 256 ^ (length os - n)" using octets_value_bound [of "drop n os"] by simp
  ultimately show ?thesis by simp
qed

lemma pow_256: "(256 :: nat) ^ n = 2 ^ (8 * n)"
  by (simp add: power_mult)

text \<open>The match of a prefix compares the numbers without their low bits.\<close>

lemma prefix_match_value:
  assumes "length address = length network" "bits \<le> 8 * length network"
  shows "prefix_match address network bits \<longleftrightarrow>
    octets_value address div 2 ^ (8 * length network - bits) = octets_value network div 2 ^ (8 * length network - bits)"
proof -
  define l where "l = length network"
  define w where "w = bits div 8"
  define r where "r = bits mod 8"
  have bits: "bits = 8 * w + r" "r < 8" by (simp_all add: w_def r_def)
  have w: "w \<le> l" using assms(2) by (simp add: w_def l_def)
  have whole: "get_prefix w address = get_prefix w network \<longleftrightarrow> octets_value (take w address) = octets_value (take w network)"
    using w assms(1) by (simp add: get_prefix_def l_def octets_value_inject)
  show ?thesis
  proof (cases "r = 0")
    case True
    then have "8 * l - bits = 8 * (l - w)" using bits by simp
    then have "octets_value os div 2 ^ (8 * l - bits) = octets_value (take w os)" if "length os = l" for os
      using octets_value_take [of w os] that w by (simp add: pow_256)
    with True whole assms(1) show ?thesis by (simp add: prefix_match_def Let_def l_def flip: w_def r_def)
  next
    case False
    then have "w < l" using assms(2) bits by (simp add: l_def)
    have shift: "8 * l - bits = 8 * (l - Suc w) + (8 - r)" using \<open>w < l\<close> bits by simp
    have parts: "octets_value os div 2 ^ (8 * l - bits) = octets_value (take w os) * 2 ^ r + unat (os ! w) div 2 ^ (8 - r)"
      if "length os = l" for os
    proof -
      have "octets_value os div 2 ^ (8 * l - bits) = octets_value (take (Suc w) os) div 2 ^ (8 - r)"
        using octets_value_take [of "Suc w" os] that \<open>w < l\<close>
        by (simp add: shift power_add pow_256 div_mult2_eq)
      also have "octets_value (take (Suc w) os) = octets_value (take w os) * 2 ^ r * 2 ^ (8 - r) + unat (os ! w)"
      proof -
        have "(256 :: nat) = 2 ^ r * 2 ^ (8 - r)" using bits(2) by (simp flip: power_add)
        then show ?thesis using that \<open>w < l\<close> by (simp add: take_Suc_conv_app_nth mult.assoc)
      qed
      finally show ?thesis by simp
    qed
    have high: "unat b div 2 ^ (8 - r) < 2 ^ r" for b :: "8 word"
    proof -
      have "unat b < 2 ^ r * 2 ^ (8 - r)" using unat_octet [of b] bits(2) by (simp flip: power_add)
      then show ?thesis by (simp add: less_mult_imp_div_less)
    qed
    have split: "x * 2 ^ r + i = y * 2 ^ r + j \<longleftrightarrow> x = y \<and> i = j" if "i < 2 ^ r" "j < 2 ^ r" for x y i j :: nat
      using that by (metis add.commute add_left_cancel div_mult_self3 div_less add_0 power_not_zero zero_neq_numeral)
    show ?thesis
      using False whole assms(1) \<open>w < l\<close> parts [of address] parts [of network] split [OF high high]
      by (auto simp: prefix_match_def Let_def l_def get_at_def high_bits simp flip: w_def r_def)
  qed
qed

lemma div_range: "0 < m \<Longrightarrow> n div m = k \<longleftrightarrow> k * m \<le> n \<and> n < k * m + m" for n m k :: nat
  by (metis add.commute div_mult_self3 div_nat_eqI dividend_less_times_div less_not_refl2 mult.commute mult_Suc_right
    times_div_less_eq_dividend)

lemma prefix_match_network:
  assumes "length address = length network" "bits \<le> 8 * length network"
    and "octets_value network mod 2 ^ (8 * length network - bits) = 0"
  shows "prefix_match address network bits \<longleftrightarrow> in_network (octets_value address) network bits"
proof -
  let ?s = "2 ^ (8 * length network - bits) :: nat"
  obtain k where k: "octets_value network = k * ?s" using assms(3) by (metis mod_0_imp_dvd dvdE mult.commute)
  have "octets_value address div ?s = k \<longleftrightarrow> k * ?s \<le> octets_value address \<and> octets_value address < k * ?s + ?s"
    by (rule div_range) simp
  then show ?thesis unfolding prefix_match_value [OF assms(1,2)] in_network_def k by simp
qed

text \<open>Both tables list networks: their octets beyond the prefix are zero.\<close>

definition is_network :: "octets \<Rightarrow> nat \<Rightarrow> nat \<Rightarrow> bool" where
  "is_network network bits len \<longleftrightarrow>
     length network = len \<and> bits \<le> 8 * len \<and> octets_value network mod 2 ^ (8 * len - bits) = 0"

lemma ipv4_special_networks: "list_all (\<lambda>(network, bits). is_network network bits 4) ipv4_special"
  by (simp add: ipv4_special_def is_network_def octets_value_def)

lemma ipv6_special_networks: "list_all (\<lambda>(network, bits). is_network (segment_octets network) bits 16) ipv6_special"
  by (simp add: ipv6_special_def is_network_def octets_value_def segment_octets_def drop_bit_eq_div)

lemma prefix_match_is_network:
  "is_network network bits len \<Longrightarrow> length address = len \<Longrightarrow>
   prefix_match address network bits \<longleftrightarrow> in_network (octets_value address) network bits"
  unfolding is_network_def by (metis prefix_match_network)

lemma any_network:
  assumes "list_all (\<lambda>(network, bits). is_network (f network) bits len) table" "length address = len"
  shows "list_ex (\<lambda>(network, bits). prefix_match address (f network) bits) table \<longleftrightarrow>
    list_ex (\<lambda>(network, bits). in_network (octets_value address) (f network) bits) table"
  using assms(1) by (induction table) (auto simp: prefix_match_is_network [OF _ assms(2)])

text \<open>What is public, by the numbers of the addresses.\<close>

fun public_range :: "ip_addr \<Rightarrow> bool" where
  "public_range (V4 os) = (\<not> list_ex (\<lambda>(network, bits). in_network (octets_value os) network bits) ipv4_special)"
| "public_range (V6 os) =
     (let n = octets_value os in
      if n div 2 ^ 32 = 0xffff
      then \<not> list_ex (\<lambda>(network, bits). in_network (n mod 2 ^ 32) network bits) ipv4_special
      else n div 2 ^ 125 = 1 \<and> \<not> list_ex (\<lambda>(network, bits). in_network n (segment_octets network) bits) ipv6_special)"

lemma ipv4_is_public_range: "length os = 4 \<Longrightarrow> ipv4_is_public os \<longleftrightarrow> public_range (V4 os)"
  using any_network [of "\<lambda>n. n" 4 ipv4_special os] ipv4_special_networks by (simp add: ipv4_is_public_def)

lemma sixteen: "length (os :: octets) = 16 \<Longrightarrow> os = [os ! 0, os ! 1, os ! 2, os ! 3, os ! 4, os ! 5, os ! 6, os ! 7,
    os ! 8, os ! 9, os ! 10, os ! 11, os ! 12, os ! 13, os ! 14, os ! 15]"
  by (rule nth_equalityI) (auto simp: less_Suc_eq numeral_eq_Suc)

lemma ipv4_mapped_value:
  assumes "length os = 16"
  shows "ipv4_mapped os = (if octets_value os div 2 ^ 32 = 0xffff then Some (drop 12 os) else None)"
    and "octets_value (drop 12 os) = octets_value os mod 2 ^ 32"
proof -
  have split: "octets_value os = octets_value (take 12 os) * 2 ^ 32 + octets_value (drop 12 os)"
    using octets_value_append [of "take 12 os" "drop 12 os"] assms by simp
  have low: "octets_value (drop 12 os) < 2 ^ 32" using octets_value_bound [of "drop 12 os"] assms by simp
  from split low show "octets_value (drop 12 os) = octets_value os mod 2 ^ 32" by simp
  have "octets_value os div 2 ^ 32 = octets_value (take 12 os)" using split low by simp
  also have "\<dots> = 0xffff \<longleftrightarrow> take 12 os = replicate 10 0 @ [0xff, 0xff]"
  proof -
    have "octets_value (replicate n 0) = 0" for n
      by (induction n) (simp_all add: octets_value_def)
    then have "octets_value (replicate 10 0 @ [0xff, 0xff]) = 0xffff"
      unfolding octets_value_append by (simp add: octets_value_def)
    with octets_value_inject [of "take 12 os" "replicate 10 0 @ [0xff, 0xff]"] assms show ?thesis by simp
  qed
  also have "take 12 os = take 10 os @ [os ! 10, os ! 11]"
    using assms by (simp add: take_Suc_conv_app_nth numeral_eq_Suc)
  also have "(\<dots> = replicate 10 0 @ [0xff, 0xff]) \<longleftrightarrow> take 10 os = replicate 10 0 \<and> os ! 10 = 0xff \<and> os ! 11 = 0xff"
    using assms by (subst append_eq_append_conv) auto
  finally have high: "octets_value os div 2 ^ 32 = 0xffff \<longleftrightarrow>
      take 10 os = replicate 10 0 \<and> os ! 10 = 0xff \<and> os ! 11 = 0xff" .
  have "drop 12 os = [os ! 12, os ! 13, os ! 14, os ! 15]" by (subst sixteen [OF assms]) simp
  then show "ipv4_mapped os = (if octets_value os div 2 ^ 32 = 0xffff then Some (drop 12 os) else None)"
    unfolding ipv4_mapped_def high by simp
qed

lemma global_unicast:
  assumes "length os = 16"
  shows "os ! 0 AND 0xe0 = 0x20 \<longleftrightarrow> octets_value os div 2 ^ 125 = 1"
proof -
  have high: "push_bit 5 (0xff :: 8 word) = 0xe0" by code_simp
  have "os ! 0 AND 0xe0 = 0x20 \<longleftrightarrow> os ! 0 AND push_bit 5 0xff = (0x20 :: 8 word) AND push_bit 5 0xff"
    unfolding high by simp
  also have "\<dots> \<longleftrightarrow> unat (os ! 0) div 2 ^ 5 = 1" unfolding high_bits by simp
  also have "unat (os ! 0) = octets_value os div 2 ^ 120"
  proof -
    have "take 1 os = [os ! 0]" using assms by (simp add: take_Suc_conv_app_nth)
    then show ?thesis using octets_value_take [of 1 os] assms by (simp add: octets_value_def)
  qed
  finally show ?thesis by (simp add: div_mult2_eq flip: power_add) (simp flip: div_mult2_eq)
qed

text \<open>C40. An address is public exactly when its number lies in none of the special ranges: an IPv4 address
  and one mapped into IPv6 by the IPv4 table, any other IPv6 address only inside the global unicast
  block and outside the IPv6 table. The matching of octets and partial octets is the comparison of
  numbers with the bounds of each network.\<close>

theorem public_addresses_exact: "ip_ok a \<Longrightarrow> is_public_ip a \<longleftrightarrow> public_range a"
proof (cases a)
  case (V4 os)
  then show "ip_ok a \<Longrightarrow> is_public_ip a \<longleftrightarrow> public_range a" using ipv4_is_public_range by simp
next
  case (V6 os)
  assume "ip_ok a"
  with V6 have len: "length os = 16" by simp
  have any: "list_ex (\<lambda>(network, bits). prefix_match os (segment_octets network) bits) ipv6_special \<longleftrightarrow>
      list_ex (\<lambda>(network, bits). in_network (octets_value os) (segment_octets network) bits) ipv6_special"
    using any_network [OF ipv6_special_networks len] .
  show "is_public_ip a \<longleftrightarrow> public_range a"
    using V6 len ipv4_is_public_range [of "drop 12 os"] any global_unicast [OF len]
    by (simp add: ipv4_mapped_value ipv6_is_public_def Let_def)
qed

lemma public_addresses_exact_witness:
  "(is_public_ip (V4 [10, 1, 2, 3]) \<longleftrightarrow> public_range (V4 [10, 1, 2, 3])) \<and> \<not> is_public_ip (V4 [10, 1, 2, 3]) \<and>
   is_public_ip (V4 [1, 1, 1, 1])"
  using public_addresses_exact [of "V4 [10, 1, 2, 3]"] public_addresses_exact [of "V4 [1, 1, 1, 1]"]
  by (simp add: ipv4_special_def in_network_def octets_value_def)


section \<open>NAT64 hides nothing\<close>

text \<open>The address RFC 6052 gives an IPv4 address under a prefix of some length: the octet after the eighth is
  left zero, and so is the rest.\<close>

definition nat64_address :: "octets \<Rightarrow> nat \<Rightarrow> octets \<Rightarrow> octets" where
  "nat64_address prefix bits v4 =
     (if bits = 96 then prefix @ v4
      else
        (let n = bits div 8
         in prefix @ take (8 - n) v4 @ [0] @ drop (8 - n) v4 @ take (11 - n) [0, 0, 0, 0, 0, 0, 0]))"

lemma four: "length (os :: octets) = 4 \<Longrightarrow> os = [os ! 0, os ! 1, os ! 2, os ! 3]"
  by (rule nth_equalityI) (auto simp: less_Suc_eq numeral_eq_Suc)

lemma rfc6052_cases:
  assumes "bits \<in> set rfc6052_prefix_lengths"
  obtains "bits = 32" | "bits = 40" | "bits = 48" | "bits = 56" | "bits = 64" | "bits = 96"
  using assms by (auto simp: rfc6052_prefix_lengths_def)

lemma embedded_at:
  assumes "length os = 16"
  shows "embedded_ipv4 os 32 = (if os ! 8 \<noteq> 0 then None else Some [os ! 4, os ! 5, os ! 6, os ! 7])"
    "embedded_ipv4 os 40 = (if os ! 8 \<noteq> 0 then None else Some [os ! 5, os ! 6, os ! 7, os ! 9])"
    "embedded_ipv4 os 48 = (if os ! 8 \<noteq> 0 then None else Some [os ! 6, os ! 7, os ! 9, os ! 10])"
    "embedded_ipv4 os 56 = (if os ! 8 \<noteq> 0 then None else Some [os ! 7, os ! 9, os ! 10, os ! 11])"
    "embedded_ipv4 os 64 = (if os ! 8 \<noteq> 0 then None else Some [os ! 9, os ! 10, os ! 11, os ! 12])"
    "embedded_ipv4 os 96 = Some [os ! 12, os ! 13, os ! 14, os ! 15]"
  by (subst (1 2) sixteen [OF assms], simp add: embedded_ipv4_def)+

text \<open>The octets of such an address past its prefix.\<close>

lemma nat64_octets:
  assumes "length v4 = 4"
  shows "length prefix = 4 \<Longrightarrow> nat64_address prefix 32 v4 = prefix @ [v4 ! 0, v4 ! 1, v4 ! 2, v4 ! 3, 0, 0, 0, 0, 0, 0, 0, 0]"
    "length prefix = 5 \<Longrightarrow> nat64_address prefix 40 v4 = prefix @ [v4 ! 0, v4 ! 1, v4 ! 2, 0, v4 ! 3, 0, 0, 0, 0, 0, 0]"
    "length prefix = 6 \<Longrightarrow> nat64_address prefix 48 v4 = prefix @ [v4 ! 0, v4 ! 1, 0, v4 ! 2, v4 ! 3, 0, 0, 0, 0, 0]"
    "length prefix = 7 \<Longrightarrow> nat64_address prefix 56 v4 = prefix @ [v4 ! 0, 0, v4 ! 1, v4 ! 2, v4 ! 3, 0, 0, 0, 0]"
    "length prefix = 8 \<Longrightarrow> nat64_address prefix 64 v4 = prefix @ [0, v4 ! 0, v4 ! 1, v4 ! 2, v4 ! 3, 0, 0, 0]"
    "length prefix = 12 \<Longrightarrow> nat64_address prefix 96 v4 = prefix @ [v4 ! 0, v4 ! 1, v4 ! 2, v4 ! 3]"
  by (subst four [OF assms], simp add: nat64_address_def)+

lemma embedded_own:
  assumes "bits \<in> set rfc6052_prefix_lengths" "length prefix = bits div 8" "length v4 = 4"
  shows "embedded_ipv4 (nat64_address prefix bits v4) bits = Some v4 \<and>
    take (bits div 8) (nat64_address prefix bits v4) = prefix \<and> length (nat64_address prefix bits v4) = 16"
  using assms(1)
  by (cases rule: rfc6052_cases)
    (use assms(2,3) four [OF assms(3)] in \<open>simp_all add: nat64_octets [OF assms(3)] embedded_at nth_append\<close>)

lemma embedded_other:
  assumes "bits \<in> set rfc6052_prefix_lengths" "length prefix = bits div 8" "length v4 = 4"
    and "s \<in> set ipv4only_sentinels" "other \<in> set rfc6052_prefix_lengths" "other \<noteq> bits"
    and "embedded_ipv4 (nat64_address prefix bits s) other = Some e" "e \<in> set ipv4only_sentinels"
  shows "embedded_ipv4 (nat64_address prefix bits v4) other = Some e"
proof -
  from assms(4) have s: "length s = 4" "s ! 0 = 192" "s ! 1 = 0" "s ! 2 = 0" "s ! 3 = 170 \<or> s ! 3 = 171"
    by (auto simp: ipv4only_sentinels_def)
  from assms(8) have e: "e ! 3 = 170 \<or> e ! 3 = 171" by (auto simp: ipv4only_sentinels_def)
  note facts = assms(2,3,6,7) s e nat64_octets [OF assms(3)] nat64_octets [OF s(1)]
  from assms(1) show ?thesis
  proof (cases rule: rfc6052_cases)
    case 1
    with assms(5) facts show ?thesis
      by (elim rfc6052_cases) (auto simp: embedded_at nth_append split: if_splits)
  next
    case 2
    with assms(5) facts show ?thesis
      by (elim rfc6052_cases) (auto simp: embedded_at nth_append split: if_splits)
  next
    case 3
    with assms(5) facts show ?thesis
      by (elim rfc6052_cases) (auto simp: embedded_at nth_append split: if_splits)
  next
    case 4
    with assms(5) facts show ?thesis
      by (elim rfc6052_cases) (auto simp: embedded_at nth_append split: if_splits)
  next
    case 5
    with assms(5) facts show ?thesis
      by (elim rfc6052_cases) (auto simp: embedded_at nth_append split: if_splits)
  next
    case 6
    with assms(5) facts show ?thesis
      by (elim rfc6052_cases) (auto simp: embedded_at nth_append split: if_splits)
  qed
qed

text \<open>Every prefix the discovery gives comes from one of its addresses and one layout of a sentinel in it.\<close>

definition prefix_from :: "ip_addr list \<Rightarrow> nat64_prefix \<Rightarrow> bool" where
  "prefix_from discovered q \<longleftrightarrow>
     (\<exists>bytes. V6 bytes \<in> set discovered \<and> prefix_length q \<in> set rfc6052_prefix_lengths \<and>
        prefix_bytes q = take (prefix_length q div 8) bytes \<and>
        (\<exists>e. embedded_ipv4 bytes (prefix_length q) = Some e \<and> e \<in> set ipv4only_sentinels))"

lemma nat64_prefix_eq: "q = \<lparr>prefix_bytes = prefix_bytes q, prefix_length = prefix_length q\<rparr>" for q :: nat64_prefix
  by simp

lemma add_prefix_set:
  "set (add_prefix bytes qs bits) = set qs \<union>
     (case embedded_ipv4 bytes bits of
        Some e \<Rightarrow> if e \<in> set ipv4only_sentinels
          then {\<lparr>prefix_bytes = take (bits div 8) bytes, prefix_length = bits\<rparr>} else {}
      | None \<Rightarrow> {})"
  by (auto simp: add_prefix_def Let_def split: option.splits)

lemma add_prefixes_set:
  "q \<in> set (foldl (add_prefix bytes) qs ls) \<longleftrightarrow> q \<in> set qs \<or>
     prefix_length q \<in> set ls \<and> prefix_bytes q = take (prefix_length q div 8) bytes \<and>
     (\<exists>e. embedded_ipv4 bytes (prefix_length q) = Some e \<and> e \<in> set ipv4only_sentinels)"
proof (induction ls arbitrary: qs)
  case (Cons bits ls)
  have "q \<in> set (add_prefix bytes qs bits) \<longleftrightarrow> q \<in> set qs \<or> prefix_length q = bits \<and>
      prefix_bytes q = take (prefix_length q div 8) bytes \<and>
      (\<exists>e. embedded_ipv4 bytes (prefix_length q) = Some e \<and> e \<in> set ipv4only_sentinels)"
    by (cases q) (auto simp: add_prefix_set split: option.splits if_splits)
  with Cons show ?case by auto
qed simp

lemma nat64_prefixes_set: "q \<in> set (nat64_prefixes discovered) \<longleftrightarrow> prefix_from discovered q"
proof -
  have "q \<in> set (foldl (\<lambda>prefixes entry.
        case entry of V4 _ \<Rightarrow> prefixes | V6 bytes \<Rightarrow> foldl (add_prefix bytes) prefixes rfc6052_prefix_lengths) qs ds) \<longleftrightarrow>
      q \<in> set qs \<or> prefix_from ds q" for qs ds
  proof (induction ds arbitrary: qs)
    case (Cons d ds)
    then show ?case by (cases d) (auto simp: prefix_from_def add_prefixes_set)
  qed (simp add: prefix_from_def)
  then show ?thesis by (simp add: nat64_prefixes_def)
qed

lemma first_embedded_Some:
  "\<exists>q \<in> set qs. embedded_ipv4 bytes (prefix_length q) \<noteq> None \<Longrightarrow>
   \<exists>q \<in> set qs. first_embedded bytes qs = embedded_ipv4 bytes (prefix_length q) \<and> first_embedded bytes qs \<noteq> None"
  by (induction qs) (auto split: option.splits)

lemma sentinels_not_public: "e \<in> set ipv4only_sentinels \<Longrightarrow> \<not> ipv4_is_public e"
  by (auto simp: ipv4only_sentinels_def ipv4_is_public_range in_network_def octets_value_def ipv4_special_def)

text \<open>C19. A NAT64 network hides no private host: where the discovery lookup shows the network's prefix, in the
  layout of any length and whatever other layouts its octets happen to fit, an IPv6 address that the
  network translates to a non-public IPv4 address is seen to reach a non-public one.\<close>

theorem nat64_not_evaded:
  assumes "bits \<in> set rfc6052_prefix_lengths" "length prefix = bits div 8" "length v4 = 4"
    and "list_ex (\<lambda>entry. case entry of V4 _ \<Rightarrow> False | V6 _ \<Rightarrow> True) discovered"
    and "list_all (\<lambda>entry. case entry of V4 _ \<Rightarrow> True
      | V6 os \<Rightarrow> list_ex (\<lambda>s. os = nat64_address prefix bits s) ipv4only_sentinels) discovered"
    and "\<not> is_public_ip (V4 v4)"
  shows "\<exists>found. translated_ipv4 (V6 (nat64_address prefix bits v4)) (nat64_prefixes discovered) = Some found \<and>
    \<not> is_public_ip (V4 found)"
proof -
  let ?target = "nat64_address prefix bits v4"
  let ?qs = "filter (\<lambda>p. starts_with ?target (prefix_bytes p)) (nat64_prefixes discovered)"
  have network: "\<exists>s \<in> set ipv4only_sentinels. os = nat64_address prefix bits s" if "V6 os \<in> set discovered" for os
    using assms(5) that by (auto simp: list_all_iff list_ex_iff split: ip_addr.splits)
  have sentinel: "length s = 4" if "s \<in> set ipv4only_sentinels" for s using that by (auto simp: ipv4only_sentinels_def)
  obtain entry where entry: "entry \<in> set discovered" "case entry of V4 _ \<Rightarrow> False | V6 _ \<Rightarrow> True"
    using assms(4) by (auto simp: list_ex_iff)
  have "\<exists>os. entry = V6 os" using entry(2) by (simp split: ip_addr.splits)
  with entry(1) obtain os where os: "V6 os \<in> set discovered" by blast
  then obtain s where s: "s \<in> set ipv4only_sentinels" "os = nat64_address prefix bits s" using network by blast
  have "prefix_from discovered \<lparr>prefix_bytes = prefix, prefix_length = bits\<rparr>"
    unfolding prefix_from_def
    by (rule exI [of _ os]) (use embedded_own [OF assms(1,2) sentinel [OF s(1)]] s os assms(1) in simp)
  then have own: "\<lparr>prefix_bytes = prefix, prefix_length = bits\<rparr> \<in> set ?qs"
    using embedded_own [OF assms(1,2,3)] assms(2) by (simp add: nat64_prefixes_set starts_with_def)
  have reach: "\<not> ipv4_is_public found" if "q \<in> set ?qs" "embedded_ipv4 ?target (prefix_length q) = Some found" for q found
  proof (cases "prefix_length q = bits")
    case True
    then show ?thesis using that(2) embedded_own [OF assms(1,2,3)] assms(6) by simp
  next
    case False
    from that(1) obtain os' e where q: "V6 os' \<in> set discovered" "prefix_length q \<in> set rfc6052_prefix_lengths"
      "embedded_ipv4 os' (prefix_length q) = Some e" "e \<in> set ipv4only_sentinels"
      by (auto simp: nat64_prefixes_set prefix_from_def)
    obtain s' where s': "s' \<in> set ipv4only_sentinels" "os' = nat64_address prefix bits s'" using network [OF q(1)] by blast
    have "embedded_ipv4 ?target (prefix_length q) = Some e"
      using embedded_other [OF assms(1,2,3) s'(1) q(2) False _ q(4)] q(3) s'(2) by simp
    with that(2) q(4) sentinels_not_public show ?thesis by simp
  qed
  have "\<exists>q \<in> set ?qs. embedded_ipv4 ?target (prefix_length q) \<noteq> None"
    using own embedded_own [OF assms(1,2,3)] by force
  from first_embedded_Some [OF this] obtain q found where
    q: "q \<in> set ?qs" "embedded_ipv4 ?target (prefix_length q) = Some found" "first_embedded ?target ?qs = Some found"
    by (metis option.exhaust)
  show ?thesis by (rule exI [of _ found]) (use reach [OF q(1,2)] q(3) in simp)
qed

lemma nat64_not_evaded_witness:
  "\<exists>found. translated_ipv4 (V6 (nat64_address [0x26, 7, 0x77, 0] 32 [10, 0, 0, 1]))
     (nat64_prefixes [V6 (nat64_address [0x26, 7, 0x77, 0] 32 [192, 0, 0, 170])]) = Some found \<and> \<not> is_public_ip (V4 found)"
  by (rule nat64_not_evaded)
    (simp_all add: rfc6052_prefix_lengths_def ipv4only_sentinels_def ipv4_is_public_range in_network_def octets_value_def
      ipv4_special_def)

end
