(* ===== verification/WebFetch.thy ===== *)
theory WebFetch
  imports WebPolicy
begin

text \<open>
  The public fetcher (\<open>web/fetch.rs\<close>): the resolution of a host to addresses all of which are public, the
  request pinned to them, the redirects followed, and the reading of the body. The exchange over the
  network, the lookup, the URL parser and the decoder are parameters over a world; the trace records
  each request with the addresses its client can connect to.
\<close>

section \<open>Resolution\<close>

record http_limits =
  max_response_bytes :: nat
  max_body_chars :: nat
  max_redirects :: nat

definition default_limits :: http_limits where
  "default_limits = \<lparr>max_response_bytes = 5000000, max_body_chars = 100000, max_redirects = 5\<rparr>"

text \<open>A lookup may answer otherwise each time it is asked.\<close>

type_synonym 'w lookup = "string \<Rightarrow> 'w \<Rightarrow> (string, ip_addr list) result \<times> 'w"

datatype resolve_failure = Lookup string | NoAddresses

definition resolve_addresses ::
  "(string \<Rightarrow> ip_addr option) \<Rightarrow> 'w lookup \<Rightarrow> string \<Rightarrow> 'w \<Rightarrow> (resolve_failure, ip_addr list) result \<times> 'w" where
  "resolve_addresses parse_ip lookup host w =
     (let unbracketed = strip_ipv6_brackets host;
          (resolved, w) = (case parse_ip unbracketed of
              Some literal \<Rightarrow> (Inr [literal], w)
            | None \<Rightarrow> (case lookup unbracketed w of
                  (Inl e, w) \<Rightarrow> (Inl (Lookup e), w)
                | (Inr as, w) \<Rightarrow> (Inr as, w)))
      in (bind_result resolved (\<lambda>as. if as = [] then Inl NoAddresses else Inr as), w))"

definition ipv4only_discovery_host :: string where
  "ipv4only_discovery_host = ''ipv4only.arpa''"

fun is_ipv6 :: "ip_addr \<Rightarrow> bool" where
  "is_ipv6 (V4 _) = False"
| "is_ipv6 (V6 _) = True"

text \<open>The first address refused, by itself or by what NAT64 makes of it.\<close>

fun check_addresses :: "string \<Rightarrow> nat64_prefix list \<Rightarrow> ip_addr list \<Rightarrow> (web_error, unit) result" where
  "check_addresses host prefixes [] = Inr ()"
| "check_addresses host prefixes (a # as) =
     (if \<not> is_public_ip a
      then Inl (web_error_new WEB_BLOCKED_URL (''URL hostname \"'' @ host @ ''\" resolves to a non-public IP address''))
      else if (case translated_ipv4 a prefixes of Some v4 \<Rightarrow> \<not> is_public_ip (V4 v4) | None \<Rightarrow> False)
      then Inl (web_error_new WEB_BLOCKED_URL
        (''URL hostname \"'' @ host @ ''\" resolves through NAT64 to a non-public IPv4 address''))
      else check_addresses host prefixes as)"

definition resolve_public_addresses ::
  "(string \<Rightarrow> ip_addr option) \<Rightarrow> 'w lookup \<Rightarrow> string \<Rightarrow> 'w \<Rightarrow> (web_error, ip_addr list) result \<times> 'w" where
  "resolve_public_addresses parse_ip lookup host w =
     (case resolve_addresses parse_ip lookup host w of
        (Inl (Lookup e), w) \<Rightarrow> (Inl (web_error_new WEB_PROVIDER_ERROR (''web fetch failed: '' @ e)), w)
      | (Inl NoAddresses, w) \<Rightarrow>
          (Inl (web_error_new WEB_PROVIDER_ERROR (''hostname \"'' @ host @ ''\" resolved to no addresses'')), w)
      | (Inr resolved, w) \<Rightarrow>
          (let (prefixes, w) = (if list_ex is_ipv6 resolved
               then (case lookup ipv4only_discovery_host w of
                   (Inl _, w) \<Rightarrow> (nat64_prefixes [], w)
                 | (Inr discovered, w) \<Rightarrow> (nat64_prefixes discovered, w))
               else ([], w))
           in (bind_result (check_addresses host prefixes resolved) (\<lambda>_. Inr resolved), w)))"

section \<open>One request\<close>

text \<open>A response, as far as it is read: its status, the headers that read as text, and its body in chunks,
  which an error may end.\<close>

record response =
  status :: nat
  location :: "string option"
  content_type :: "string option"
  content_length :: "nat option"
  chunks :: "string list"
  body_error :: "string option"

datatype web_fetch_body = HtmlBody string | TextBody string

record web_fetch_result =
  result_url :: string
  status_code :: nat
  fetch_body :: web_fetch_body
  truncated :: bool

definition aborted :: web_error where
  "aborted = web_error_new WEB_ABORTED ''web fetch aborted''"

definition failed :: "string \<Rightarrow> web_error" where
  "failed chain = web_error_new WEB_PROVIDER_ERROR (''web fetch failed: '' @ chain)"

definition is_redirect :: "nat \<Rightarrow> bool" where
  "is_redirect n = (n \<in> set [301, 302, 303, 307, 308])"

text \<open>What the fetcher is given: the resolver, the gate its lookups enter, and the exchange, which gets the
  addresses its client is pinned to.\<close>

record ('w, 'e) fetcher =
  limits :: http_limits
  resolver :: "string \<Rightarrow> 'w \<Rightarrow> (web_error, ip_addr list) result \<times> 'w"
  gate_open :: "'w \<Rightarrow> bool"
  exchange :: "url \<Rightarrow> ip_addr list \<Rightarrow> 'w \<Rightarrow> (string, response) result \<times> 'w"
  parse_url :: "string \<Rightarrow> url option"
  join_url :: "url \<Rightarrow> string \<Rightarrow> url option"
  for_label :: "string \<Rightarrow> 'e option"
  utf8_encoding :: 'e
  decode :: "'e \<Rightarrow> string \<Rightarrow> string"

type_synonym request_trace = "(url \<times> ip_addr list) list"

definition fetcher_resolve :: "('w, 'e) fetcher \<Rightarrow> string \<Rightarrow> 'w \<Rightarrow> (web_error, ip_addr list) result \<times> 'w" where
  "fetcher_resolve f host w = (if gate_open f w then resolver f host w else (Inl aborted, w))"

definition request_once ::
  "('w, 'e) fetcher \<Rightarrow> url \<Rightarrow> 'w \<Rightarrow> (web_error, response) result \<times> 'w \<times> request_trace" where
  "request_once f u w =
     (case fetcher_resolve f (case host_str u of Some h \<Rightarrow> h | None \<Rightarrow> []) w of
        (Inl e, w) \<Rightarrow> (Inl e, w, [])
      | (Inr addresses, w) \<Rightarrow>
          (case exchange f u addresses w of
             (Inl chain, w) \<Rightarrow> (Inl (failed chain), w, [(u, addresses)])
           | (Inr r, w) \<Rightarrow> (Inr r, w, [(u, addresses)])))"

section \<open>The body\<close>

text \<open>The chunks up to a number of bytes, and whether bytes were dropped.\<close>

fun read_chunks :: "nat \<Rightarrow> string list \<Rightarrow> string option \<Rightarrow> (string, string \<times> bool) result" where
  "read_chunks remaining [] e = (case e of None \<Rightarrow> Inr ([], False) | Some chain \<Rightarrow> Inl chain)"
| "read_chunks remaining (c # cs) e =
     (if remaining < length c then Inr (take remaining c, True)
      else bind_result (read_chunks (remaining - length c) cs e) (\<lambda>(bytes, cut). Inr (c @ bytes, cut)))"

definition read_body :: "('w, 'e) fetcher \<Rightarrow> response \<Rightarrow> url \<Rightarrow> (web_error, web_fetch_result) result" where
  "read_body f r u =
     (case classify_content_type (content_type r) of
        None \<Rightarrow> Inl (web_error_new WEB_UNSUPPORTED_CONTENT_TYPE (''unsupported content type \"'' @
          (case content_type r of Some t \<Rightarrow> t | None \<Rightarrow> ''unknown'') @ ''\"''))
      | Some kind \<Rightarrow>
          bind_result (encoding_for_charset (for_label f) (utf8_encoding f) (parse_charset (content_type r))) (\<lambda>encoding.
            let limit = max_response_bytes (limits f) in
            if (case content_length r of Some n \<Rightarrow> limit < n | None \<Rightarrow> False)
            then Inl (web_error_new WEB_FETCH_TOO_LARGE (''response exceeds the maximum of '' @ nat_text limit @ '' bytes''))
            else
              (case read_chunks limit (chunks r) (body_error r) of
                 Inl chain \<Rightarrow> Inl (failed chain)
               | Inr (bytes, cut_bytes) \<Rightarrow>
                   (let (content, cut_chars) = truncate_utf16 (decode f encoding bytes) (max_body_chars (limits f))
                    in Inr \<lparr>result_url = url_text u, status_code = status r,
                         fetch_body = (case kind of Html \<Rightarrow> HtmlBody content | Text \<Rightarrow> TextBody content),
                         truncated = (cut_bytes \<or> cut_chars)\<rparr>))))"

section \<open>Redirects\<close>

text \<open>The URL a redirect leads to.\<close>

definition redirect_target :: "('w, 'e) fetcher \<Rightarrow> url \<Rightarrow> response \<Rightarrow> (web_error, url) result" where
  "redirect_target f current r =
     (case location r of
        None \<Rightarrow> Inl (web_error_new WEB_PROVIDER_ERROR
          (''redirect response (HTTP '' @ nat_text (status r) @ '') without a Location header''))
      | Some l \<Rightarrow>
          (case join_url f current l of
             None \<Rightarrow> Inl (web_error_new WEB_PROVIDER_ERROR (''invalid redirect Location \"'' @ l @ ''\"''))
           | Some joined \<Rightarrow>
               bind_result (validate_fetch_url (parse_url f) (url_text joined)) (\<lambda>target.
                 if \<not> is_same_origin target current
                 then Inl (web_error_new WEB_REDIRECT_BLOCKED (''cross-origin redirect to '' @ origin_text target @
                   '' is not followed automatically; retry against that URL directly''))
                 else Inr target)))"

function follow ::
  "('w, 'e) fetcher \<Rightarrow> url \<Rightarrow> nat \<Rightarrow> 'w \<Rightarrow> (web_error, web_fetch_result) result \<times> 'w \<times> request_trace" where
  "follow f current redirects w =
     (case request_once f current w of
        (Inl e, w, t) \<Rightarrow> (Inl e, w, t)
      | (Inr r, w, t) \<Rightarrow>
          if \<not> is_redirect (status r) then (read_body f r current, w, t)
          else if max_redirects (limits f) \<le> redirects
          then (Inl (web_error_new WEB_REDIRECT_BLOCKED
            (''exceeded the maximum of '' @ nat_text (max_redirects (limits f)) @ '' redirects'')), w, t)
          else
            (case redirect_target f current r of
               Inl e \<Rightarrow> (Inl e, w, t)
             | Inr target \<Rightarrow>
                 (case follow f target (redirects + 1) w of (answer, w, t') \<Rightarrow> (answer, w, t @ t'))))"
  by pat_completeness auto
termination by (relation "measure (\<lambda>(f, current, redirects, w). max_redirects (limits f) - redirects)") auto

declare follow.simps [simp del]

definition follow_and_read ::
  "('w, 'e) fetcher \<Rightarrow> string \<Rightarrow> 'w \<Rightarrow> (web_error, web_fetch_result) result \<times> 'w \<times> request_trace" where
  "follow_and_read f initial w =
     (case validate_fetch_url (parse_url f) initial of
        Inl e \<Rightarrow> (Inl e, w, [])
      | Inr u \<Rightarrow> follow f u 0 w)"

text \<open>\<open>HttpFetcher::new\<close>: the resolver over a lookup of the system.\<close>

definition public_fetcher :: "(string \<Rightarrow> ip_addr option) \<Rightarrow> 'w lookup \<Rightarrow> ('w, 'e) fetcher \<Rightarrow> ('w, 'e) fetcher" where
  "public_fetcher parse_ip lookup f = f\<lparr>resolver := resolve_public_addresses parse_ip lookup\<rparr>"

text \<open>What ends a fetch: the signal, set before or while it runs, the time bound, or the fetch itself.\<close>

datatype race = SignalSet | Cancelled | TimedOut | Finished

definition fetch ::
  "('w, 'e) fetcher \<Rightarrow> race \<Rightarrow> string \<Rightarrow> 'w \<Rightarrow> (web_error, web_fetch_result) result" where
  "fetch f race u w =
     (case race of
        SignalSet \<Rightarrow> Inl aborted
      | Cancelled \<Rightarrow> Inl aborted
      | TimedOut \<Rightarrow> Inl (web_error_new WEB_FETCH_TIMEOUT ''web fetch timed out'')
      | Finished \<Rightarrow> fst (follow_and_read f u w))"

section \<open>Where a fetch connects\<close>

text \<open>A request that may be made: to a URL that may be fetched, pinned to public addresses.\<close>

definition public_request :: "url \<times> ip_addr list \<Rightarrow> bool" where
  "public_request = (\<lambda>(u, addresses).
     (scheme u = ''http'' \<or> scheme u = ''https'') \<and> username u = [] \<and> (password u = None \<or> password u = Some []) \<and>
     addresses \<noteq> [] \<and> list_all is_public_ip addresses)"

lemma check_addresses_Inr:
  "check_addresses host prefixes as = Inr () \<longleftrightarrow>
   list_all (\<lambda>a. is_public_ip a \<and> (case translated_ipv4 a prefixes of Some v4 \<Rightarrow> is_public_ip (V4 v4) | None \<Rightarrow> True)) as"
  by (induction as) (auto split: option.splits)

lemma resolve_public_Inr:
  "resolve_public_addresses parse_ip lookup host w = (Inr as, w') \<Longrightarrow> as \<noteq> [] \<and> list_all is_public_ip as"
  by (auto simp: resolve_public_addresses_def resolve_addresses_def Let_def bind_result_Inr_iff check_addresses_Inr
    list_all_iff split: prod.splits sum.splits resolve_failure.splits option.splits if_splits)

lemma validate_fetch_url_Inr:
  "validate_fetch_url parse input = Inr u \<Longrightarrow>
   (scheme u = ''http'' \<or> scheme u = ''https'') \<and> username u = [] \<and> (password u = None \<or> password u = Some [])"
  by (auto simp: validate_fetch_url_def parse_fetch_url_def split: if_splits option.splits)

lemma utf8_next_prefix: "utf8_next bs = Scalar n \<Longrightarrow> utf8_next (take n bs @ cs) = Scalar n"
  by (cases bs) (auto split: if_splits list.splits simp: take_Cons')

lemma utf8_chars_kept:
  "utf8_chars (concat (fst (truncate_chars limit (utf8_chars s)))) = fst (truncate_chars limit (utf8_chars s)) \<and>
   sum_list (map utf16_width (fst (truncate_chars limit (utf8_chars s)))) \<le> limit"
proof (induction s arbitrary: limit rule: utf8_chars.induct)
  case (1 bs)
  show ?case
  proof (cases "\<exists>n. utf8_next bs = Scalar n \<and> bs \<noteq> []")
    case False
    then have "utf8_chars bs = []" by (subst utf8_chars.simps) (auto split: utf8_step.splits)
    then show ?thesis by simp
  next
    case True
    then obtain n where n: "utf8_next bs = Scalar n" "bs \<noteq> []" by blast
    let ?c = "take n bs" and ?kept = "\<lambda>l. fst (truncate_chars l (utf8_chars (drop n bs)))"
    have IH: "utf8_chars (concat (?kept l)) = ?kept l \<and> sum_list (map utf16_width (?kept l)) \<le> l" for l
      using 1 [OF n(2,1)] by blast
    have chars: "utf8_chars bs = ?c # utf8_chars (drop n bs)" using utf8_chars_Scalar [OF n(1)] .
    show ?thesis
    proof (cases "limit < utf16_width ?c")
      case True
      then show ?thesis by (simp add: chars)
    next
      case False
      have len: "0 < n" "n \<le> length bs" using utf8_next_Scalar [OF n(1)] by auto
      have first: "utf8_next (?c @ x) = Scalar n" for x
        using utf8_next_prefix [OF n(1)] .
      have "utf8_chars (?c @ x) = ?c # utf8_chars x" for x
        using utf8_chars_Scalar [OF first [of x]] len by simp
      with False IH [of "limit - utf16_width ?c"] show ?thesis
        by (auto simp: chars case_prod_beta Let_def)
    qed
  qed
qed

lemma truncate_utf16_len: "utf16_len (fst (truncate_utf16 s limit)) \<le> limit"
  using utf8_chars_kept [of limit s] by (simp add: truncate_utf16_def utf16_len_def case_prod_beta Let_def)

lemma same_origin_trans: "is_same_origin a b \<Longrightarrow> is_same_origin b c \<Longrightarrow> is_same_origin a c"
  by (simp add: is_same_origin_def)

lemma same_origin_refl [simp]: "is_same_origin a a"
  by (simp add: is_same_origin_def)

fun body_text :: "web_fetch_body \<Rightarrow> string" where
  "body_text (HtmlBody s) = s"
| "body_text (TextBody s) = s"

text \<open>What one answer owes: it is of the last request's URL and within the limit on characters.\<close>

definition answer_of_trace :: "('w, 'e) fetcher \<Rightarrow> request_trace \<Rightarrow> (web_error, web_fetch_result) result \<Rightarrow> bool" where
  "answer_of_trace f t answer =
     (case answer of
        Inl _ \<Rightarrow> True
      | Inr r \<Rightarrow> t \<noteq> [] \<and> result_url r = url_text (fst (last t)) \<and>
          utf16_len (body_text (fetch_body r)) \<le> max_body_chars (limits f))"

abbreviation fetchable :: "url \<Rightarrow> bool" where
  "fetchable u \<equiv> (scheme u = ''http'' \<or> scheme u = ''https'') \<and> username u = [] \<and> (password u = None \<or> password u = Some [])"

lemma request_once_public:
  assumes "request_once (public_fetcher parse_ip lookup f) u w = (answer, w', t)" and "fetchable u"
  shows "list_all public_request t \<and> (t = [] \<or> (\<exists>as. t = [(u, as)])) \<and> ((\<exists>r. answer = Inr r) \<longrightarrow> t \<noteq> [])"
  using assms resolve_public_Inr [of parse_ip lookup]
  by (auto simp: request_once_def public_fetcher_def fetcher_resolve_def public_request_def split: prod.splits sum.splits if_splits)

lemma read_body_answer:
  assumes "read_body f r u = Inr x"
  shows "result_url x = url_text u \<and> utf16_len (body_text (fetch_body x)) \<le> max_body_chars (limits f)"
proof -
  let ?read = "read_chunks (max_response_bytes (limits f)) (chunks r) (body_error r)"
  obtain kind where kind: "classify_content_type (content_type r) = Some kind"
    using assms by (auto simp: read_body_def split: option.splits)
  obtain encoding where encoding: "encoding_for_charset (for_label f) (utf8_encoding f) (parse_charset (content_type r)) = Inr encoding"
    using assms kind by (auto simp: read_body_def bind_result_Inr_iff)
  show ?thesis
  proof (cases ?read)
    case (Inl chain)
    with assms kind encoding show ?thesis by (auto simp: read_body_def Let_def split: if_splits)
  next
    case (Inr p)
    with assms kind encoding truncate_utf16_len show ?thesis
      by (cases p; cases kind) (auto simp: read_body_def Let_def case_prod_beta split: if_splits)
  qed
qed

lemma redirect_target_Inr:
  "redirect_target f u r = Inr target \<Longrightarrow> fetchable target \<and> is_same_origin target u"
  by (auto simp: redirect_target_def bind_result_Inr_iff split: option.splits if_splits dest: validate_fetch_url_Inr)

lemma follow_public:
  assumes "fetchable u" "redirects \<le> max_redirects (limits f)"
  shows "case follow (public_fetcher parse_ip lookup f) u redirects w of (answer, w', t) \<Rightarrow>
    list_all public_request t \<and> list_all (\<lambda>(v, _). is_same_origin v u) t \<and>
    length t \<le> max_redirects (limits f) - redirects + 1 \<and> answer_of_trace f t answer"
  using assms
proof (induction "max_redirects (limits f) - redirects" arbitrary: u redirects w)
  case (0 redirects)
  let ?f = "public_fetcher parse_ip lookup f"
  have limit: "limits ?f = limits f" by (simp add: public_fetcher_def)
  obtain answer w' t where once: "request_once ?f u w = (answer, w', t)" by (metis prod_cases3)
  note req = request_once_public [OF once "0.prems"(1)]
  show ?case
    using req "0.hyps" once limit read_body_answer [of ?f _ u]
    by (subst follow.simps) (auto simp: answer_of_trace_def split: sum.splits)
next
  case (Suc n redirects)
  let ?f = "public_fetcher parse_ip lookup f"
  have limit: "limits ?f = limits f" by (simp add: public_fetcher_def)
  obtain answer w' t where once: "request_once ?f u w = (answer, w', t)" by (metis prod_cases3)
  note req = request_once_public [OF once Suc.prems(1)]
  show ?case
  proof (cases "\<exists>r target. answer = Inr r \<and> is_redirect (status r) \<and> redirect_target ?f u r = Inr target")
    case False
    then show ?thesis
      using req Suc.hyps(2) once limit read_body_answer [of ?f _ u]
      by (subst follow.simps) (auto simp: answer_of_trace_def split: sum.splits)
  next
    case True
    then obtain r target where r: "answer = Inr r" "is_redirect (status r)" "redirect_target ?f u r = Inr target" by blast
    note target = redirect_target_Inr [OF r(3)]
    obtain answer' w'' t' where rest: "follow ?f target (redirects + 1) w' = (answer', w'', t')" by (metis prod_cases3)
    have "n = max_redirects (limits f) - (redirects + 1)" "redirects + 1 \<le> max_redirects (limits f)" using Suc.hyps(2) by simp_all
    with Suc.hyps(1) [of "redirects + 1" target w'] target rest have IH:
      "list_all public_request t'" "list_all (\<lambda>(v, _). is_same_origin v target) t'"
      "length t' \<le> n + 1" "answer_of_trace f t' answer'" by auto
    have "list_all (\<lambda>(v, _). is_same_origin v u) t'"
      using IH(2) target same_origin_trans by (fastforce simp: list_all_iff)
    moreover have "follow ?f u redirects w = (answer', w'', t @ t')"
    proof -
      have "\<not> max_redirects (limits f) \<le> redirects" using Suc.hyps(2) by simp
      with once r rest limit show ?thesis by (subst follow.simps) simp
    qed
    moreover have "answer_of_trace f (t @ t') answer'" using IH(4) by (auto simp: answer_of_trace_def split: sum.splits)
    moreover have "length t \<le> 1" using req by auto
    moreover have "list_all (\<lambda>(v, _). is_same_origin v u) t" using req by auto
    ultimately show ?thesis using req IH(1,3) Suc.hyps(2) by auto
  qed
qed

text \<open>C13. A fetch reaches only public hosts, whatever the servers and the name service answer, also from one
  lookup to the next: each of its requests goes to an http or https URL without credentials, over a
  client that can connect to public addresses alone; all are of the first one's origin and at most
  one more than the redirects allowed. The answer is of the last request's URL, its text within the
  limit.\<close>

theorem fetch_stays_public:
  "case follow_and_read (public_fetcher parse_ip lookup f) initial w of (answer, w', t) \<Rightarrow>
     list_all public_request t \<and> list_all (\<lambda>(v, _). is_same_origin v (fst (hd t))) t \<and>
     length t \<le> max_redirects (limits f) + 1 \<and> answer_of_trace f t answer"
proof (cases "validate_fetch_url (parse_url (public_fetcher parse_ip lookup f)) initial")
  case (Inl e)
  then show ?thesis by (simp add: follow_and_read_def answer_of_trace_def)
next
  case (Inr u)
  obtain answer w' t where run: "follow (public_fetcher parse_ip lookup f) u 0 w = (answer, w', t)" by (metis prod_cases3)
  have all: "list_all public_request t" "list_all (\<lambda>(v, _). is_same_origin v u) t"
    "length t \<le> max_redirects (limits f) + 1" "answer_of_trace f t answer"
    using follow_public [of u 0 f parse_ip lookup w] validate_fetch_url_Inr [OF Inr] run by auto
  have "list_all (\<lambda>(v, _). is_same_origin v (fst (hd t))) t"
    using all(2) by (cases t) (auto simp: list_all_iff is_same_origin_def)
  then show ?thesis using Inr run all by (simp add: follow_and_read_def)
qed

end
