(* ===== verification/Broker.thy ===== *)
theory Broker
  imports Approval
begin

text \<open>
  The interactive answerer (\<open>permissions/broker.rs\<close>): a queue of approval requests one frontend shows
  and answers. Every step below is one hold of the broker's lock, one call of the listener, or one
  poll of a request's future, so the interleavings of any number of callers are the sequences of
  steps. The listener, the signals and the callers are free: a step of theirs is a rule of its own.
\<close>

section \<open>The broker\<close>

type_synonym generation = "64 word"

record approval_prompt =
  prompt_generation :: generation
  prompt_tool :: string
  prompt_call :: string
  prompt_parent :: "string option"
  prompt_reason :: string
  prompt_arguments :: json

definition prompt_of :: "generation \<Rightarrow> approval_request \<Rightarrow> approval_prompt" where
  "prompt_of g r =
     \<lparr>prompt_generation = g, prompt_tool = request_tool r, prompt_call = request_call r,
      prompt_parent = request_parent r, prompt_reason = request_reason r, prompt_arguments = request_arguments r\<rparr>"

lemma prompt_of_generation [simp]: "prompt_generation (prompt_of g r) = g"
  by (simp add: prompt_of_def)

datatype approval_answer = AllowOnce | Reject | Cancel

fun answer_outcome :: "approval_answer \<Rightarrow> escalation_outcome" where
  "answer_outcome AllowOnce = AllowedOnce"
| "answer_outcome Reject = Rejected"
| "answer_outcome Cancel = Cancelled"

datatype broker_phase = Unconnected | Open | Closed

text \<open>The future a request returned: waiting, resolved, or dropped before.\<close>

datatype request_future = Pending | Resolved escalation_outcome | Dropped

text \<open>The caller announcing: about to take a snapshot, calling the listener, or back from it.\<close>

datatype announcer = Idle | Looping | Calling "approval_prompt list" | Called bool

text \<open>The broker's state (the first five fields), the one-shot channels and futures of its requests, the
  signals that have aborted, the announcements callers still owe, the snapshots the listener took, and
  the answers that settled a request.\<close>

record broker =
  phase :: broker_phase
  queue :: "approval_prompt list"
  last_generation :: generation
  announcing :: bool
  changed :: bool
  channel :: "generation \<rightharpoonup> escalation_outcome"
  futures :: "generation \<rightharpoonup> request_future"
  leaving :: "generation set"
  aborted :: "generation set"
  due :: nat
  announcer :: announcer
  shown :: "approval_prompt list list"
  answers :: "(generation \<times> approval_answer) list"

definition broker_new :: broker where
  "broker_new =
     \<lparr>phase = Unconnected, queue = [], last_generation = 0, announcing = False, changed = False,
      channel = Map.empty, futures = Map.empty, leaving = {}, aborted = {}, due = 0, announcer = Idle, shown = [], answers = []\<rparr>"

text \<open>\<open>oneshot::Sender::send\<close>: whether the receiver was still there.\<close>

definition send :: "generation \<Rightarrow> escalation_outcome \<Rightarrow> broker \<Rightarrow> bool \<times> broker" where
  "send g outcome b =
     (if futures b g = Some Pending then (True, b\<lparr>channel := (channel b)(g \<mapsto> outcome)\<rparr>) else (False, b))"

definition cancel_all :: "broker \<Rightarrow> broker" where
  "cancel_all b = foldl (\<lambda>b p. snd (send (prompt_generation p) Cancelled b)) (b\<lparr>queue := []\<rparr>) (queue b)"

definition close :: "broker \<Rightarrow> broker" where
  "close b = cancel_all (b\<lparr>phase := Closed\<rparr>)"

definition owe :: "broker \<Rightarrow> broker" where
  "owe b = b\<lparr>due := due b + 1\<rparr>"

definition connect :: "broker \<Rightarrow> bool \<times> broker" where
  "connect b = (if phase b \<noteq> Unconnected then (False, b) else (True, owe (b\<lparr>phase := Open\<rparr>)))"

definition broker_answer :: "generation \<Rightarrow> approval_answer \<Rightarrow> broker \<Rightarrow> bool \<times> broker" where
  "broker_answer g a b =
     (case queue b of
        [] \<Rightarrow> (False, b)
      | front # rest \<Rightarrow>
          if prompt_generation front \<noteq> g then (False, b)
          else
            (let b = b\<lparr>queue := rest\<rparr> in
             if g \<in> aborted b then (False, owe (snd (send g Cancelled b)))
             else
               (case send g (answer_outcome a) b of
                  (settled, b) \<Rightarrow> (settled, owe (if settled then b\<lparr>answers := answers b @ [(g, a)]\<rparr> else b)))))"

definition cancel_pending :: "broker \<Rightarrow> broker" where
  "cancel_pending b = owe (cancel_all b)"

text \<open>A request whose signal has not aborted yet; the others are cancelled at once. The generation it waits
  under, or the outcome it is ready with.\<close>

definition broker_request ::
  "bool \<Rightarrow> approval_request \<Rightarrow> broker \<Rightarrow> (escalation_outcome, generation) result \<times> broker" where
  "broker_request already_aborted request b =
     (if already_aborted then (Inl Cancelled, b)
      else if phase b \<noteq> Open \<or> last_generation b = - 1 then (Inl Unavailable, b)
      else
        (let g = last_generation b + 1
         in (Inr g, owe (b\<lparr>last_generation := g,
              queue := queue b @ [prompt_of g request],
              futures := (futures b)(g \<mapsto> Pending)\<rparr>))))"

text \<open>A future that ends no longer receives; its guard then withdraws the prompt, under the lock.\<close>

definition end_future :: "generation \<Rightarrow> request_future \<Rightarrow> broker \<Rightarrow> broker" where
  "end_future g f b = b\<lparr>futures := (futures b)(g \<mapsto> f), leaving := insert g (leaving b)\<rparr>"

definition withdraw :: "generation \<Rightarrow> broker \<Rightarrow> broker" where
  "withdraw g b =
     (let b = b\<lparr>leaving := leaving b - {g}\<rparr> in
      (case find (\<lambda>p. prompt_generation p = g) (queue b) of
         None \<Rightarrow> b
       | Some p \<Rightarrow> owe (b\<lparr>queue := remove1 p (queue b)\<rparr>)))"

text \<open>One poll of a waiting future: its own cancellation first, then the answer.\<close>

definition poll_request :: "generation \<Rightarrow> broker \<Rightarrow> broker" where
  "poll_request g b =
     (if g \<in> aborted b then end_future g (Resolved Cancelled) b
      else (case channel b g of Some outcome \<Rightarrow> end_future g (Resolved outcome) b | None \<Rightarrow> b))"

definition drop_request :: "generation \<Rightarrow> broker \<Rightarrow> broker" where
  "drop_request g b = end_future g Dropped b"

section \<open>Announcing\<close>

definition announce_enter :: "broker \<Rightarrow> broker" where
  "announce_enter b =
     (if announcing b then b\<lparr>changed := True, due := due b - 1\<rparr>
      else b\<lparr>announcing := True, announcer := Looping, due := due b - 1\<rparr>)"

definition announce_snapshot :: "broker \<Rightarrow> broker" where
  "announce_snapshot b =
     (if phase b = Open then b\<lparr>changed := False, announcer := Calling (queue b)\<rparr>
      else b\<lparr>changed := False, announcing := False, announcer := Idle\<rparr>)"

definition announce_call :: "approval_prompt list \<Rightarrow> bool \<Rightarrow> broker \<Rightarrow> broker" where
  "announce_call snapshot delivered b =
     b\<lparr>announcer := Called delivered, shown := (if delivered then shown b @ [snapshot] else shown b)\<rparr>"

definition announce_leave :: "bool \<Rightarrow> broker \<Rightarrow> broker" where
  "announce_leave delivered b =
     (let b = (if delivered then b else close b) in
      if changed b then b\<lparr>announcer := Looping\<rparr> else b\<lparr>announcing := False, announcer := Idle\<rparr>)"

inductive announce_step :: "broker \<Rightarrow> broker \<Rightarrow> bool" where
  enters: "0 < due b \<Longrightarrow> announce_step b (announce_enter b)"
| snapshots: "announcer b = Looping \<Longrightarrow> announce_step b (announce_snapshot b)"
| listens: "announcer b = Calling s \<Longrightarrow> announce_step b (announce_call s delivered b)"
| leaves: "announcer b = Called delivered \<Longrightarrow> announce_step b (announce_leave delivered b)"

section \<open>Every interleaving\<close>

inductive broker_step :: "broker \<Rightarrow> broker \<Rightarrow> bool" where
  connects: "broker_step b (snd (connect b))"
| requests: "broker_step b (snd (broker_request already request b))"
| answered: "broker_step b (snd (broker_answer g a b))"
| cancels: "broker_step b (cancel_pending b)"
| closes: "broker_step b (close b)"
| aborts: "broker_step b (b\<lparr>aborted := insert g (aborted b)\<rparr>)"
| polls: "futures b g = Some Pending \<Longrightarrow> broker_step b (poll_request g b)"
| drops: "futures b g = Some Pending \<Longrightarrow> broker_step b (drop_request g b)"
| withdraws: "g \<in> leaving b \<Longrightarrow> broker_step b (withdraw g b)"
| announces: "announce_step b b' \<Longrightarrow> broker_step b b'"

inductive broker_reachable :: "broker \<Rightarrow> bool" where
  start: "broker_reachable broker_new"
| step: "broker_reachable b \<Longrightarrow> broker_step b b' \<Longrightarrow> broker_reachable b'"

section \<open>Invariants\<close>

abbreviation generations :: "broker \<Rightarrow> generation list" where
  "generations b \<equiv> map prompt_generation (queue b)"

text \<open>One request: unanswered while its prompt is queued, which is then waited for or about to be withdrawn;
  answered when it waits without a prompt.\<close>

definition request_ok :: "broker \<Rightarrow> generation \<Rightarrow> bool" where
  "request_ok b g =
     ((futures b g = None \<longrightarrow> g \<notin> set (generations b) \<and> channel b g = None) \<and>
      (futures b g \<noteq> None \<longrightarrow> g \<le> last_generation b) \<and>
      (g \<in> set (generations b) \<longrightarrow> channel b g = None \<and> (futures b g = Some Pending \<or> g \<in> leaving b)) \<and>
      (g \<notin> set (generations b) \<and> futures b g = Some Pending \<longrightarrow> channel b g \<noteq> None) \<and>
      (g \<in> leaving b \<longrightarrow> futures b g \<noteq> None \<and> futures b g \<noteq> Some Pending))"

definition queue_inv :: "broker \<Rightarrow> bool" where
  "queue_inv b \<longleftrightarrow> sorted_wrt (<) (generations b) \<and> (\<forall>g. request_ok b g) \<and> (phase b \<noteq> Open \<longrightarrow> queue b = [])"

text \<open>One decision: nothing but an answer decides, and a future resolves with what decided it.\<close>

definition decision_ok :: "broker \<Rightarrow> generation \<Rightarrow> bool" where
  "decision_ok b g =
     ((g \<in> fst ` set (answers b) \<longrightarrow> channel b g \<noteq> None) \<and>
      (\<forall>outcome. channel b g = Some outcome \<longrightarrow>
         outcome = Cancelled \<or> (\<exists>a. (g, a) \<in> set (answers b) \<and> answer_outcome a = outcome)) \<and>
      (\<forall>outcome. futures b g = Some (Resolved outcome) \<longrightarrow> outcome = Cancelled \<or> channel b g = Some outcome))"

text \<open>The answers are in the order of the requests, one for a request at most, before all that are queued.\<close>

definition answer_inv :: "broker \<Rightarrow> bool" where
  "answer_inv b \<longleftrightarrow> sorted_wrt (<) (map fst (answers b) @ generations b) \<and> (\<forall>g. decision_ok b g)"

text \<open>The announcements: once none is owed nor under way, the listener has seen the queue.\<close>

definition announce_inv :: "broker \<Rightarrow> bool" where
  "announce_inv b \<longleftrightarrow>
     (announcing b \<longleftrightarrow> announcer b \<noteq> Idle) \<and>
     (phase b = Open \<and> due b = 0 \<longrightarrow>
        (case announcer b of
           Idle \<Rightarrow> shown b \<noteq> [] \<and> last (shown b) = queue b
         | Looping \<Rightarrow> True
         | Calling s \<Rightarrow> changed b \<or> s = queue b
         | Called delivered \<Rightarrow> changed b \<or> \<not> delivered \<or> shown b \<noteq> [] \<and> last (shown b) = queue b))"


section \<open>Each operation\<close>

text \<open>What settling a list of requests as cancelled leaves.\<close>

definition cancelled_channel :: "generation list \<Rightarrow> broker \<Rightarrow> generation \<rightharpoonup> escalation_outcome" where
  "cancelled_channel gs b = (\<lambda>g. if g \<in> set gs \<and> futures b g = Some Pending then Some Cancelled else channel b g)"

lemma send_all_eq:
  "foldl (\<lambda>b p. snd (send (prompt_generation p) Cancelled b)) b ps =
   b\<lparr>channel := cancelled_channel (map prompt_generation ps) b\<rparr>"
proof (induction ps arbitrary: b)
  case Nil
  show ?case by (simp add: cancelled_channel_def)
next
  case (Cons p ps)
  have "cancelled_channel (map prompt_generation ps) (snd (send (prompt_generation p) Cancelled b)) =
        cancelled_channel (map prompt_generation (p # ps)) b"
    by (auto simp: send_def cancelled_channel_def fun_eq_iff)
  then show ?case by (simp add: Cons.IH [of "snd (send (prompt_generation p) Cancelled b)"]) (simp add: send_def)
qed

lemma cancelled_channel_queue [simp]: "cancelled_channel gs (b\<lparr>queue := q\<rparr>) = cancelled_channel gs b"
  by (simp add: cancelled_channel_def fun_eq_iff)

lemma cancel_all_eq: "cancel_all b = b\<lparr>queue := [], channel := cancelled_channel (generations b) b\<rparr>"
  by (simp add: cancel_all_def send_all_eq)

lemma queue_invI:
  "sorted_wrt (<) (generations b) \<Longrightarrow> (\<And>g. request_ok b g) \<Longrightarrow> (phase b \<noteq> Open \<Longrightarrow> queue b = []) \<Longrightarrow> queue_inv b"
  by (simp add: queue_inv_def)

lemma answer_invI: "sorted_wrt (<) (map fst (answers b) @ generations b) \<Longrightarrow> (\<And>g. decision_ok b g) \<Longrightarrow> answer_inv b"
  by (simp add: answer_inv_def)

lemma queue_invD:
  "queue_inv b \<Longrightarrow> sorted_wrt (<) (generations b)" "queue_inv b \<Longrightarrow> request_ok b g"
  "queue_inv b \<Longrightarrow> phase b \<noteq> Open \<Longrightarrow> queue b = []"
  by (simp_all add: queue_inv_def)

lemma answer_invD:
  "answer_inv b \<Longrightarrow> sorted_wrt (<) (map fst (answers b) @ generations b)" "answer_inv b \<Longrightarrow> decision_ok b g"
  by (simp_all add: answer_inv_def)

lemma owe_inv [simp]: "queue_inv (owe b) = queue_inv b" "answer_inv (owe b) = answer_inv b"
  by (simp_all add: owe_def queue_inv_def answer_inv_def request_ok_def decision_ok_def)

text \<open>A change of other fields.\<close>

lemma queue_inv_cong:
  "queue b' = queue b \<Longrightarrow> futures b' = futures b \<Longrightarrow> channel b' = channel b \<Longrightarrow> leaving b' = leaving b \<Longrightarrow>
   last_generation b' = last_generation b \<Longrightarrow> (phase b' = Closed \<longrightarrow> queue b = []) \<Longrightarrow> (phase b' = Unconnected \<longrightarrow> phase b = Unconnected) \<Longrightarrow>
   queue_inv b \<Longrightarrow> queue_inv b'"
  by (cases "phase b'") (auto simp: queue_inv_def request_ok_def)

lemma answer_inv_cong:
  "queue b' = queue b \<Longrightarrow> futures b' = futures b \<Longrightarrow> channel b' = channel b \<Longrightarrow> answers b' = answers b \<Longrightarrow>
   answer_inv b' = answer_inv b"
  by (simp add: answer_inv_def decision_ok_def)

lemma cancel_all_inv:
  assumes inv: "queue_inv b"
  shows "queue_inv (cancel_all b)" and "answer_inv b \<Longrightarrow> answer_inv (cancel_all b)"
proof -
  show "queue_inv (cancel_all b)"
  proof (rule queue_invI)
    show "request_ok (cancel_all b) g" for g
      using queue_invD(2) [OF inv, of g] by (auto simp: request_ok_def cancel_all_eq cancelled_channel_def split: option.splits if_splits)
  qed (simp_all add: cancel_all_eq)
  show "answer_inv (cancel_all b)" if ans: "answer_inv b"
  proof (rule answer_invI)
    show "decision_ok (cancel_all b) g" for g
      using queue_invD(2) [OF inv, of g] answer_invD(2) [OF ans, of g]
      by (auto simp: request_ok_def decision_ok_def cancel_all_eq cancelled_channel_def split: option.splits if_splits)
  qed (use answer_invD(1) [OF ans] in \<open>simp add: cancel_all_eq sorted_wrt_append\<close>)
qed

lemma close_inv:
  assumes inv: "queue_inv b"
  shows "queue_inv (close b)" and "answer_inv b \<Longrightarrow> answer_inv (close b)"
proof -
  have eq: "close b = (cancel_all b)\<lparr>phase := Closed\<rparr>"
    by (simp add: close_def cancel_all_eq cancelled_channel_def fun_eq_iff)
  show "queue_inv (close b)"
    unfolding eq by (rule queue_inv_cong [OF _ _ _ _ _ _ _ cancel_all_inv(1) [OF inv]]) (simp_all add: cancel_all_eq)
  show "answer_inv (close b)" if "answer_inv b"
    using cancel_all_inv(2) [OF inv that] unfolding eq by (simp add: answer_inv_def decision_ok_def)
qed

lemma connect_inv:
  "queue_inv b \<Longrightarrow> queue_inv (snd (connect b))"
  "answer_inv b \<Longrightarrow> answer_inv (snd (connect b))"
  by (auto simp: connect_def intro: queue_inv_cong) (simp add: answer_inv_def decision_ok_def)

lemma next_generation: "g \<noteq> - 1 \<Longrightarrow> g < g + (1 :: generation)"
  using inc_less_eq_self_iff_eq [of g] by (simp add: not_le)

lemma broker_request_inv:
  assumes inv: "queue_inv b"
  shows "queue_inv (snd (broker_request already r b))"
    and "answer_inv b \<Longrightarrow> answer_inv (snd (broker_request already r b))"
proof -
  let ?n = "last_generation b + 1"
  have old: "g \<le> last_generation b" if "g \<in> set (generations b) \<or> channel b g \<noteq> None \<or> futures b g \<noteq> None" for g
    using queue_invD(2) [OF inv, of g] that by (auto simp: request_ok_def split: option.splits)
  have lt: "last_generation b < ?n" if "last_generation b \<noteq> - 1" using next_generation [OF that] .
  have queued: "g < ?n" if "g \<in> set (generations b)" "last_generation b \<noteq> - 1" for g
    using old [of g] that(1) lt [OF that(2)] by (auto intro: le_less_trans)
  show "queue_inv (snd (broker_request already r b))"
  proof (cases "already \<or> phase b \<noteq> Open \<or> last_generation b = - 1")
    case True
    with inv show ?thesis by (auto simp: broker_request_def)
  next
    case False
    then have lt': "last_generation b < ?n" using lt by simp
    let ?b = "snd (broker_request already r b)"
    have "request_ok ?b g" for g
      using queue_invD(2) [OF inv, of g] old [of g] old [of ?n] lt' False
      by (cases "g = ?n") (auto simp: broker_request_def Let_def owe_def request_ok_def split: option.splits)
    moreover have "sorted_wrt (<) (generations ?b)"
      using queue_invD(1) [OF inv] queued False by (auto simp: broker_request_def Let_def owe_def sorted_wrt_append)
    ultimately show ?thesis using False by (auto simp: broker_request_def Let_def owe_def intro: queue_invI)
  qed
  show "answer_inv (snd (broker_request already r b))" if ans: "answer_inv b"
  proof (cases "already \<or> phase b \<noteq> Open \<or> last_generation b = - 1")
    case True
    with ans show ?thesis by (auto simp: broker_request_def)
  next
    case False
    then have lt': "last_generation b < ?n" using lt by simp
    let ?b = "snd (broker_request already r b)"
    have answered: "g < ?n" if "g \<in> fst ` set (answers b)" for g
      using answer_invD(2) [OF ans, of g] old [of g] that lt' by (auto simp: decision_ok_def intro: le_less_trans)
    have "decision_ok ?b g" for g
      using answer_invD(2) [OF ans, of g] False
      by (cases "g = ?n") (auto simp: broker_request_def Let_def owe_def decision_ok_def)
    moreover have "sorted_wrt (<) (map fst (answers ?b) @ generations ?b)"
      using answer_invD(1) [OF ans] answered queued lt' False
      by (auto simp: broker_request_def Let_def owe_def sorted_wrt_append)
    ultimately show ?thesis by (rule answer_invI [rotated])
  qed
qed

lemma end_future_inv:
  assumes "queue_inv b" "futures b g = Some Pending" "f \<noteq> Pending"
  shows "queue_inv (end_future g f b)"
proof (rule queue_invI)
  show "request_ok (end_future g f b) h" for h
    using queue_invD(2) [OF assms(1), of h] assms(2,3)
    by (cases "h = g") (auto simp: request_ok_def end_future_def split: option.splits if_splits)
qed (use assms(1) in \<open>simp_all add: end_future_def queue_inv_def\<close>)

lemma end_future_answer_inv:
  assumes "answer_inv b" "\<And>outcome. f = Resolved outcome \<Longrightarrow> outcome = Cancelled \<or> channel b g = Some outcome"
  shows "answer_inv (end_future g f b)"
proof (rule answer_invI)
  show "decision_ok (end_future g f b) h" for h
    using answer_invD(2) [OF assms(1), of h] assms(2) by (cases "h = g") (auto simp: decision_ok_def end_future_def)
qed (use assms(1) in \<open>simp add: end_future_def answer_inv_def\<close>)

text \<open>An answer settles nothing unless it names the request in front; what it does then.\<close>

lemma broker_answer_cases:
  obtains "broker_answer g a b = (False, b)"
  | p rest where "queue b = p # rest" "prompt_generation p = g" "futures b g \<noteq> Some Pending"
      "broker_answer g a b = (False, owe (b\<lparr>queue := rest\<rparr>))"
  | p rest where "queue b = p # rest" "prompt_generation p = g" "futures b g = Some Pending" "g \<in> aborted b"
      "broker_answer g a b = (False, owe (b\<lparr>queue := rest, channel := (channel b)(g \<mapsto> Cancelled)\<rparr>))"
  | p rest where "queue b = p # rest" "prompt_generation p = g" "futures b g = Some Pending" "g \<notin> aborted b"
      "broker_answer g a b = (True, owe (b\<lparr>queue := rest, channel := (channel b)(g \<mapsto> answer_outcome a),
         answers := answers b @ [(g, a)]\<rparr>))"
proof (cases "\<exists>p rest. queue b = p # rest \<and> prompt_generation p = g")
  case True
  then obtain p rest where "queue b = p # rest" "prompt_generation p = g" by blast
  with that(2-) show ?thesis
    by (cases "futures b g = Some Pending"; cases "g \<in> aborted b") (auto simp: broker_answer_def send_def)
next
  case False
  then have "broker_answer g a b = (False, b)" by (cases "queue b") (auto simp: broker_answer_def)
  then show ?thesis by (rule that(1))
qed

text \<open>Taking the front prompt off the queue, its request settled unless it no longer waits.\<close>

lemma settle_front_inv:
  assumes inv: "queue_inv b" and front: "queue b = p # rest" "prompt_generation p = g"
    and b': "queue b' = rest" "futures b' = futures b" "leaving b' = leaving b" "last_generation b' = last_generation b"
      "phase b' = phase b" "channel b' = (if futures b g = Some Pending then (channel b)(g \<mapsto> outcome) else channel b)"
  shows "queue_inv b'"
proof (rule queue_invI)
  have sorted: "\<forall>h \<in> prompt_generation ` set rest. g < h" using queue_invD(1) [OF inv] front by simp
  show "request_ok b' h" for h
    using queue_invD(2) [OF inv, of h] sorted front b' by (cases "h = g") (auto simp: request_ok_def)
  show "sorted_wrt (<) (generations b')" using queue_invD(1) [OF inv] front b'(1) by simp
  show "queue b' = []" if "phase b' \<noteq> Open" using queue_invD(3) [OF inv] that front b' by simp
qed

lemma broker_answer_inv:
  assumes inv: "queue_inv b"
  shows "queue_inv (snd (broker_answer g a b))"
proof (cases rule: broker_answer_cases [of g a b])
  case (2 p rest)
  then show ?thesis by (simp, intro settle_front_inv [OF inv 2(1,2)]) simp_all
next
  case (3 p rest)
  then show ?thesis by (simp, intro settle_front_inv [OF inv 3(1,2)]) simp_all
next
  case (4 p rest)
  then show ?thesis by (simp, intro settle_front_inv [OF inv 4(1,2)]) simp_all
qed (use inv in simp)

lemma broker_answer_answer_inv:
  assumes inv: "queue_inv b" and ans: "answer_inv b"
  shows "answer_inv (snd (broker_answer g a b))"
proof (cases rule: broker_answer_cases [of g a b])
  case (2 p rest)
  have "decision_ok (snd (broker_answer g a b)) h" for h
    using answer_invD(2) [OF ans, of h] 2 by (simp add: decision_ok_def owe_def)
  then show ?thesis using answer_invD(1) [OF ans] 2 by (auto simp: sorted_wrt_append owe_def intro: answer_invI)
next
  case (3 p rest)
  have "channel b g = None" using queue_invD(2) [OF inv, of g] 3 by (auto simp: request_ok_def)
  then have "decision_ok (snd (broker_answer g a b)) h" for h
    using answer_invD(2) [OF ans, of h] 3 by (cases "h = g") (auto simp: decision_ok_def owe_def)
  then show ?thesis using answer_invD(1) [OF ans] 3 by (auto simp: sorted_wrt_append owe_def intro: answer_invI)
next
  case (4 p rest)
  have "channel b g = None" using queue_invD(2) [OF inv, of g] 4 by (auto simp: request_ok_def)
  then have "decision_ok (snd (broker_answer g a b)) h" for h
    using answer_invD(2) [OF ans, of h] 4 by (cases "h = g") (auto simp: decision_ok_def owe_def)
  then show ?thesis using answer_invD(1) [OF ans] 4 by (auto simp: sorted_wrt_append owe_def intro: answer_invI)
qed (use ans in simp)

lemma find_generation:
  "sorted_wrt (<) (map prompt_generation ps) \<Longrightarrow>
   (case find (\<lambda>p. prompt_generation p = g) ps of
      None \<Rightarrow> g \<notin> prompt_generation ` set ps
    | Some p \<Rightarrow> g \<in> prompt_generation ` set ps \<and> remove1 p ps = filter (\<lambda>p. prompt_generation p \<noteq> g) ps)"
proof (induction ps)
  case (Cons q ps)
  show ?case
  proof (cases "prompt_generation q = g")
    case True
    then have "\<forall>p \<in> set ps. g < prompt_generation p" using Cons.prems by simp
    then have "filter (\<lambda>p. prompt_generation p \<noteq> g) ps = ps" by (intro filter_True) auto
    with True show ?thesis by simp
  next
    case False
    have IH: "case find (\<lambda>p. prompt_generation p = g) ps of
      None \<Rightarrow> g \<notin> prompt_generation ` set ps
    | Some p \<Rightarrow> g \<in> prompt_generation ` set ps \<and> remove1 p ps = filter (\<lambda>p. prompt_generation p \<noteq> g) ps"
      using Cons by simp
    show ?thesis
    proof (cases "find (\<lambda>p. prompt_generation p = g) ps")
      case None
      with IH False show ?thesis by simp
    next
      case (Some p)
      then have "prompt_generation p = g" by (auto simp: find_Some_iff)
      with IH False Some show ?thesis by auto
    qed
  qed
qed simp

lemma withdraw_eq:
  assumes "queue_inv b"
  shows "withdraw g b =
    (if g \<in> set (generations b)
     then owe (b\<lparr>leaving := leaving b - {g}, queue := filter (\<lambda>p. prompt_generation p \<noteq> g) (queue b)\<rparr>)
     else b\<lparr>leaving := leaving b - {g}\<rparr>)"
  using find_generation [OF queue_invD(1) [OF assms], of g] by (auto simp: withdraw_def Let_def split: option.splits)

lemma sorted_wrt_filter_map:
  "sorted_wrt (<) (map f xs) \<Longrightarrow> sorted_wrt (<) (map f (filter P xs))"
  by (induction xs) auto

lemma withdraw_inv:
  assumes inv: "queue_inv b" and gone: "futures b g \<noteq> Some Pending"
  shows "queue_inv (withdraw g b)"
proof (rule queue_invI)
  show "request_ok (withdraw g b) h" for h
    using queue_invD(2) [OF inv, of h] gone by (auto simp: withdraw_eq [OF inv] request_ok_def owe_def)
  show "sorted_wrt (<) (generations (withdraw g b))"
    using queue_invD(1) [OF inv] by (simp add: withdraw_eq [OF inv] owe_def sorted_wrt_filter_map)
  show "queue (withdraw g b) = []" if "phase (withdraw g b) \<noteq> Open"
    using queue_invD(3) [OF inv] that by (auto simp: withdraw_eq [OF inv] owe_def split: if_splits)
qed

lemma withdraw_answer_inv:
  assumes inv: "queue_inv b" and ans: "answer_inv b"
  shows "answer_inv (withdraw g b)"
proof (rule answer_invI)
  show "decision_ok (withdraw g b) h" for h
    using answer_invD(2) [OF ans, of h] by (auto simp: withdraw_eq [OF inv] decision_ok_def owe_def)
  show "sorted_wrt (<) (map fst (answers (withdraw g b)) @ generations (withdraw g b))"
    using answer_invD(1) [OF ans] by (auto simp: withdraw_eq [OF inv] owe_def sorted_wrt_append sorted_wrt_filter_map)
qed

section \<open>Every reachable broker\<close>

lemma announce_queue_inv:
  "queue_inv b \<Longrightarrow> queue_inv (announce_enter b)"
  "queue_inv b \<Longrightarrow> queue_inv (announce_snapshot b)"
  "queue_inv b \<Longrightarrow> queue_inv (announce_call s delivered b)"
  "queue_inv b \<Longrightarrow> queue_inv (announce_leave delivered b)"
proof -
  have flags: "queue_inv (b\<lparr>announcer := a\<rparr>) = queue_inv b"
    "queue_inv (b\<lparr>announcing := f\<rparr>) = queue_inv b" "queue_inv (b\<lparr>announcing := f, announcer := a\<rparr>) = queue_inv b" for b f a
    by (simp_all add: queue_inv_def request_ok_def)
  show "queue_inv b \<Longrightarrow> queue_inv (announce_leave delivered b)"
    by (simp add: announce_leave_def Let_def flags close_inv(1))
qed (simp_all add: announce_enter_def announce_snapshot_def announce_call_def queue_inv_def request_ok_def)

lemma announce_answer_inv:
  "answer_inv b \<Longrightarrow> answer_inv (announce_enter b)"
  "answer_inv b \<Longrightarrow> answer_inv (announce_snapshot b)"
  "answer_inv b \<Longrightarrow> answer_inv (announce_call s delivered b)"
  "queue_inv b \<Longrightarrow> answer_inv b \<Longrightarrow> answer_inv (announce_leave delivered b)"
proof -
  have flags: "answer_inv (b\<lparr>announcer := a\<rparr>) = answer_inv b"
    "answer_inv (b\<lparr>announcing := f\<rparr>) = answer_inv b" "answer_inv (b\<lparr>announcing := f, announcer := a\<rparr>) = answer_inv b" for b f a
    by (simp_all add: answer_inv_def decision_ok_def)
  show "queue_inv b \<Longrightarrow> answer_inv b \<Longrightarrow> answer_inv (announce_leave delivered b)"
    by (simp add: announce_leave_def Let_def flags close_inv(2))
qed (simp_all add: announce_enter_def announce_snapshot_def announce_call_def answer_inv_def decision_ok_def)

lemma poll_request_inv:
  assumes "queue_inv b" "futures b g = Some Pending"
  shows "queue_inv (poll_request g b)" and "answer_inv b \<Longrightarrow> answer_inv (poll_request g b)"
  using assms by (auto simp: poll_request_def end_future_inv intro: end_future_answer_inv split: option.splits)

lemma drop_request_inv:
  assumes "queue_inv b" "futures b g = Some Pending"
  shows "queue_inv (drop_request g b)" and "answer_inv b \<Longrightarrow> answer_inv (drop_request g b)"
  using assms by (auto simp: drop_request_def end_future_inv intro: end_future_answer_inv)

lemma leaving_gone: "queue_inv b \<Longrightarrow> g \<in> leaving b \<Longrightarrow> futures b g \<noteq> Some Pending"
  using queue_invD(2) [of b g] by (simp add: request_ok_def)

lemma aborted_inv [simp]:
  "queue_inv (b\<lparr>aborted := A\<rparr>) = queue_inv b" "answer_inv (b\<lparr>aborted := A\<rparr>) = answer_inv b"
  by (simp_all add: queue_inv_def request_ok_def answer_inv_def decision_ok_def)

lemmas broker_queue_invs = connect_inv(1) broker_request_inv(1) broker_answer_inv cancel_all_inv(1) close_inv(1)
  poll_request_inv(1) drop_request_inv(1) announce_queue_inv

lemmas broker_answer_invs = connect_inv(2) broker_request_inv(2) broker_answer_answer_inv cancel_all_inv(2) close_inv(2)
  poll_request_inv(2) drop_request_inv(2) withdraw_answer_inv announce_answer_inv

lemma announce_step_inv: "announce_step b b' \<Longrightarrow> queue_inv b \<Longrightarrow> queue_inv b' \<and> (answer_inv b \<longrightarrow> answer_inv b')"
  by (induction rule: announce_step.induct) (simp_all add: announce_queue_inv announce_answer_inv)

lemma broker_step_queue_inv: "broker_step b b' \<Longrightarrow> queue_inv b \<Longrightarrow> queue_inv b'"
  by (induction rule: broker_step.induct)
    (simp_all add: cancel_pending_def broker_queue_invs withdraw_inv leaving_gone announce_step_inv)

lemma broker_step_answer_inv: "broker_step b b' \<Longrightarrow> queue_inv b \<Longrightarrow> answer_inv b \<Longrightarrow> answer_inv b'"
  by (induction rule: broker_step.induct) (simp_all add: cancel_pending_def broker_answer_invs announce_step_inv)

section \<open>The announcements\<close>

lemma announce_inv_owe [simp]: "announce_inv (owe b) \<longleftrightarrow> (announcing b \<longleftrightarrow> announcer b \<noteq> Idle)"
  by (simp add: announce_inv_def owe_def)

lemma announce_inv_cong:
  "announce_inv b \<Longrightarrow> queue b' = queue b \<Longrightarrow> phase b' = phase b \<Longrightarrow> due b' = due b \<Longrightarrow> announcing b' = announcing b \<Longrightarrow>
   announcer b' = announcer b \<Longrightarrow> changed b' = changed b \<Longrightarrow> shown b' = shown b \<Longrightarrow> announce_inv b'"
  by (cases "announcer b") (simp_all add: announce_inv_def)

lemma announce_step_announce_inv: "announce_step b b' \<Longrightarrow> announce_inv b \<Longrightarrow> announce_inv b'"
  by (induction rule: announce_step.induct)
    (auto simp: announce_inv_def announce_enter_def announce_snapshot_def announce_call_def announce_leave_def Let_def
      close_def cancel_all_eq split: announcer.splits)

lemma operation_announce_inv:
  assumes "announce_inv b"
  shows "announce_inv (snd (connect b))" "announce_inv (snd (broker_request already r b))"
    "announce_inv (snd (broker_answer g a b))" "announce_inv (cancel_pending b)" "announce_inv (close b)"
    "announce_inv (poll_request g b)" "announce_inv (drop_request g b)" "announce_inv (withdraw g b)"
proof -
  have flag: "announcing b \<longleftrightarrow> announcer b \<noteq> Idle" using assms by (simp add: announce_inv_def)
  show "announce_inv (snd (connect b))" "announce_inv (snd (broker_request already r b))" "announce_inv (cancel_pending b)"
    using assms flag by (simp_all add: connect_def broker_request_def cancel_pending_def cancel_all_eq Let_def)
  show "announce_inv (snd (broker_answer g a b))"
    using assms flag by (cases rule: broker_answer_cases [of g a b]) simp_all
  show "announce_inv (close b)" using flag by (simp add: announce_inv_def close_def cancel_all_eq)
  show "announce_inv (poll_request g b)" "announce_inv (drop_request g b)"
    by (auto simp: poll_request_def drop_request_def end_future_def intro!: announce_inv_cong [OF assms] split: option.splits)
  show "announce_inv (withdraw g b)"
    using flag by (auto simp: withdraw_def Let_def intro!: announce_inv_cong [OF assms] split: option.splits)
qed

lemma broker_step_announce_inv: "broker_step b b' \<Longrightarrow> announce_inv b \<Longrightarrow> announce_inv b'"
proof (induction rule: broker_step.induct)
  case (aborts b g)
  then show ?case by (auto intro: announce_inv_cong)
qed (simp_all add: operation_announce_inv announce_step_announce_inv)

lemma broker_new_inv: "queue_inv broker_new" "answer_inv broker_new" "announce_inv broker_new"
  by (simp_all add: broker_new_def queue_inv_def request_ok_def answer_inv_def decision_ok_def announce_inv_def)

lemma reachable_broker_invs: "broker_reachable b \<Longrightarrow> queue_inv b \<and> answer_inv b \<and> announce_inv b"
  by (induction rule: broker_reachable.induct)
    (auto simp: broker_new_inv intro: broker_step_queue_inv broker_step_answer_inv broker_step_announce_inv)

text \<open>How much is left to announce: it falls with each step of an announcement, whatever the listener does.\<close>

definition announcing_left :: "broker \<Rightarrow> nat" where
  "announcing_left b = 5 * due b +
     (case announcer b of
        Idle \<Rightarrow> 0
      | Looping \<Rightarrow> 3
      | Calling s \<Rightarrow> 2 + (if changed b then 4 else 0)
      | Called delivered \<Rightarrow> 1 + (if changed b then 4 else 0))"

lemma announcing_left_falls: "announce_step b b' \<Longrightarrow> announce_inv b \<Longrightarrow> announcing_left b' < announcing_left b"
  by (induction rule: announce_step.induct)
    (auto simp: announcing_left_def announce_inv_def announce_enter_def announce_snapshot_def announce_call_def
      announce_leave_def Let_def close_def cancel_all_eq split: announcer.splits)

lemma announced_when_stuck: "(\<nexists>b'. announce_step b b') \<longleftrightarrow> due b = 0 \<and> announcer b = Idle"
  by (cases "announcer b") (auto elim: announce_step.cases intro: announce_step.intros)

section \<open>What the broker promises\<close>

text \<open>A later answer never names an earlier request, so the answers for one request are one.\<close>

lemma sorted_answers_one:
  fixes ds :: "(generation \<times> approval_answer) list"
  assumes "sorted_wrt (<) (map fst ds)" and "(g, a) \<in> set ds"
  shows "map snd (filter (\<lambda>d. fst d = g) ds) = [a]"
  using assms
proof (induction ds)
  case (Cons d ds)
  show ?case
  proof (cases "d = (g, a)")
    case True
    then have "filter (\<lambda>d. fst d = g) ds = []" using Cons.prems(1) by (auto simp: filter_empty_conv)
    with True show ?thesis by simp
  next
    case False
    then have ga: "(g, a) \<in> set ds" using Cons.prems(2) by simp
    then have "fst d < g" using Cons.prems(1) by force
    with Cons.IH [OF _ ga] Cons.prems(1) show ?thesis by (simp add: less_imp_neq)
  qed
qed simp

text \<open>C6. A request ends with a decision only when a person gave it: whenever the future of a request has resolved
  with anything but a cancellation, exactly one answer was settled for that request, and it is that decision. So in
  every interleaving of callers, frontends, cancellations and announcements, a call is allowed only by one answer
  that allowed this very request.\<close>

theorem decisions_are_answers:
  assumes "broker_reachable b" and "futures b g = Some (Resolved outcome)" and "outcome \<noteq> Cancelled"
  shows "\<exists>a. map snd (filter (\<lambda>d. fst d = g) (answers b)) = [a] \<and> answer_outcome a = outcome"
proof -
  have ans: "answer_inv b" using reachable_broker_invs [OF assms(1)] by simp
  obtain a where a: "(g, a) \<in> set (answers b)" "answer_outcome a = outcome"
    using answer_invD(2) [OF ans, of g] assms(2,3) by (auto simp: decision_ok_def)
  have "sorted_wrt (<) (map fst (answers b))" using answer_invD(1) [OF ans] by (simp add: sorted_wrt_append)
  with a show ?thesis using sorted_answers_one [of "answers b" g a] by (intro exI [of _ a] conjI)
qed

text \<open>The request in front is the oldest queued.\<close>

lemma front_oldest:
  assumes inv: "queue_inv b" and waits: "futures b g = Some Pending" "channel b g = None"
    and oldest: "list_all (\<lambda>h. g \<le> h) (generations b)"
  obtains p rest where "queue b = p # rest" "prompt_generation p = g"
proof -
  have g: "g \<in> set (generations b)" using queue_invD(2) [OF inv, of g] waits by (auto simp: request_ok_def)
  then obtain p rest where q: "queue b = p # rest" by (cases "queue b") auto
  have "prompt_generation p \<le> g" using queue_invD(1) [OF inv] g q by auto
  with oldest q have "prompt_generation p = g" by simp
  with q show ?thesis by (rule that)
qed

text \<open>C20. What an answer settles: the request it names, when that one still waits, unanswered and not cancelled, and is
  the oldest whose prompt is queued; then it is told the answer, which is recorded. An answer for any other request
  settles nothing, and no answer touches what another request is told.\<close>

theorem answer_settles_oldest:
  assumes "broker_reachable b" and "broker_answer g a b = (settled, b')"
  shows "(settled \<longleftrightarrow> futures b g = Some Pending \<and> channel b g = None \<and> g \<notin> aborted b \<and>
             list_all (\<lambda>h. g \<le> h) (generations b)) \<and>
         (if settled then channel b' g = Some (answer_outcome a) \<and> answers b' = answers b @ [(g, a)]
          else answers b' = answers b) \<and>
         (h \<noteq> g \<longrightarrow> channel b' h = channel b h)"
proof -
  have inv: "queue_inv b" using reachable_broker_invs [OF assms(1)] by simp
  have front: "channel b g = None \<and> list_all (\<lambda>h. g \<le> h) (generations b)"
    if "queue b = p # rest" "prompt_generation p = g" for p rest
    using queue_invD(1) [OF inv] queue_invD(2) [OF inv, of g] that
    by (auto simp: request_ok_def list_all_iff less_imp_le)
  show ?thesis
  proof (cases rule: broker_answer_cases [of g a b])
    case 1
    have "\<not> (futures b g = Some Pending \<and> channel b g = None \<and> g \<notin> aborted b \<and> list_all (\<lambda>h. g \<le> h) (generations b))"
    proof
      assume *: "futures b g = Some Pending \<and> channel b g = None \<and> g \<notin> aborted b \<and> list_all (\<lambda>h. g \<le> h) (generations b)"
      then obtain p rest where "queue b = p # rest" "prompt_generation p = g" using front_oldest [OF inv] by blast
      with * 1 show False by (simp add: broker_answer_def send_def)
    qed
    with 1 assms(2) show ?thesis by auto
  next
    case (2 p rest)
    with assms(2) show ?thesis by (auto simp: owe_def)
  next
    case (3 p rest)
    with assms(2) show ?thesis by (auto simp: owe_def)
  next
    case (4 p rest)
    with front [OF 4(1,2)] assms(2) show ?thesis by (auto simp: owe_def)
  qed
qed

text \<open>C21. The frontend ends up showing the queue. However the listener behaves, the announcements that callers owe come
  to an end once the queue is left alone: each of their steps lowers a measure. And when none can go on and the
  frontend is still connected, the last queue it was shown is the queue of the broker.\<close>

theorem listener_sees_queue:
  assumes "broker_reachable b"
  shows "(announce_step b b' \<longrightarrow> announcing_left b' < announcing_left b) \<and>
         ((\<nexists>b'. announce_step b b') \<and> phase b = Open \<longrightarrow> shown b \<noteq> [] \<and> last (shown b) = queue b)"
proof -
  have inv: "announce_inv b" using reachable_broker_invs [OF assms] by simp
  then show ?thesis
    unfolding announced_when_stuck by (auto simp: announcing_left_falls announce_inv_def)
qed

text \<open>No request is lost: one whose prompt has left the queue, or whose signal has aborted, ends at its next poll.\<close>

lemma request_ends:
  assumes "broker_reachable b" and "futures b g = Some Pending" and "g \<notin> set (generations b) \<or> g \<in> aborted b"
  shows "\<exists>outcome. futures (poll_request g b) g = Some (Resolved outcome) \<and> (g \<in> aborted b \<longrightarrow> outcome = Cancelled)"
  using queue_invD(2) [of b g] reachable_broker_invs [OF assms(1)] assms(2,3)
  by (auto simp: request_ok_def poll_request_def end_future_def)

section \<open>A session of questions\<close>

lemma reachable_operation:
  "broker_reachable b \<Longrightarrow> broker_reachable (snd (connect b))"
  "broker_reachable b \<Longrightarrow> broker_reachable (snd (broker_request already r b))"
  "broker_reachable b \<Longrightarrow> broker_reachable (snd (broker_answer g a b))"
  "broker_reachable b \<Longrightarrow> futures b g = Some Pending \<Longrightarrow> broker_reachable (poll_request g b)"
  "broker_reachable b \<Longrightarrow> 0 < due b \<Longrightarrow> broker_reachable (announce_enter b)"
  "broker_reachable b \<Longrightarrow> announcer b = Looping \<Longrightarrow> broker_reachable (announce_snapshot b)"
  "broker_reachable b \<Longrightarrow> announcer b = Calling s \<Longrightarrow> broker_reachable (announce_call s delivered b)"
  "broker_reachable b \<Longrightarrow> announcer b = Called delivered \<Longrightarrow> broker_reachable (announce_leave delivered b)"
  by (blast intro: broker_reachable.step broker_step.intros announce_step.intros)+

text \<open>A frontend connects, a request comes while the empty queue is shown, and its announcement is left to the
  caller that is showing.\<close>

definition some_request :: approval_request where
  "some_request = \<lparr>request_tool = ''bash'', request_call = ''call-1'', request_parent = None,
     request_reason = ''network'', request_arguments = JNull\<rparr>"

definition asked :: broker where
  "asked = announce_enter (snd (broker_request False some_request
     (announce_snapshot (announce_enter (snd (connect broker_new))))))"

definition shown_once :: broker where
  "shown_once = announce_leave True (announce_call [] True asked)"

definition shown_twice :: broker where
  "shown_twice = announce_leave True (announce_call [prompt_of 1 some_request] True (announce_snapshot shown_once))"

definition allowed :: broker where
  "allowed = poll_request 1 (snd (broker_answer 1 AllowOnce asked))"

lemmas broker_ops = broker_new_def connect_def owe_def announce_enter_def announce_snapshot_def broker_request_def
  announce_call_def announce_leave_def broker_answer_def send_def poll_request_def end_future_def Let_def

lemma asked_reachable: "broker_reachable asked" "announcer asked = Calling []"
  unfolding asked_def
  by (intro reachable_operation broker_reachable.start; simp add: broker_ops) (simp add: broker_ops)

lemma asked_answered:
  "fst (broker_answer 1 AllowOnce asked) = True"
  "futures (snd (broker_answer 1 AllowOnce asked)) 1 = Some Pending"
  "futures allowed 1 = Some (Resolved AllowedOnce)"
  by (simp_all add: asked_def allowed_def broker_ops)

lemma allowed_reachable: "broker_reachable allowed"
  unfolding allowed_def using asked_reachable(1) asked_answered(2) by (intro reachable_operation)

lemma shown_twice_reachable:
  "broker_reachable shown_twice" "announcer shown_twice = Idle" "due shown_twice = 0" "phase shown_twice = Open"
  unfolding shown_twice_def shown_once_def
  using asked_reachable
  by (intro reachable_operation; simp add: asked_def broker_ops) (simp_all add: asked_def broker_ops)

theorem decisions_are_answers_witness:
  "futures allowed 1 = Some (Resolved AllowedOnce) \<and>
   (\<exists>a. map snd (filter (\<lambda>d. fst d = 1) (answers allowed)) = [a] \<and> answer_outcome a = AllowedOnce)"
  using decisions_are_answers [OF allowed_reachable asked_answered(3)] asked_answered(3) by simp

theorem answer_settles_oldest_witness:
  "broker_answer 1 AllowOnce asked = (True, snd (broker_answer 1 AllowOnce asked)) \<and>
   channel (snd (broker_answer 1 AllowOnce asked)) 1 = Some AllowedOnce \<and> 1 \<notin> aborted asked"
  using answer_settles_oldest [OF asked_reachable(1), of 1 AllowOnce True "snd (broker_answer 1 AllowOnce asked)" 0]
    asked_answered(1) by (simp add: prod_eq_iff)

theorem listener_sees_queue_witness:
  "(\<nexists>b'. announce_step shown_twice b') \<and> phase shown_twice = Open \<and>
   last (shown shown_twice) = queue shown_twice \<and> queue shown_twice = [prompt_of 1 some_request]"
proof -
  have "queue shown_twice = [prompt_of 1 some_request]" by (simp add: shown_twice_def shown_once_def asked_def broker_ops)
  moreover have "\<nexists>b'. announce_step shown_twice b'"
    using announced_when_stuck shown_twice_reachable(2,3) by blast
  ultimately show ?thesis
    using listener_sees_queue [OF shown_twice_reachable(1), of shown_twice] shown_twice_reachable(4) by simp
qed

end
