(* ===== verification/Spec2Isabelle.thy ===== *)
theory Spec2Isabelle
  imports Prelude Utf8 Json Sandbox SessionTime SessionStore SessionTree Presets PermState Approval History Engine SessionOps SessionFork RunControl Chunks Sse Jsonl Version SessionContext Messages Transform LiveMessages Unanswered Truncate MutationQueue SessionForest SessionUuid HookProtocol HookEngine Transcript JoinAll AgentTools AgentLoop AgentRun AgentMeter JsDiff JsPatch DiffText EditDiff WebPolicy WebFetch Broker
begin

text \<open>
  A model of bake, a coding agent in Rust, and the theorems that make its parts correct.

  The program. A session (\<open>bake-coding-agent\<close>) keeps a conversation in a session file and runs it
  against a model. A prompt goes through the session's hooks to the agent loop (\<open>bake-agent\<close>), which
  sends the transcript to a provider (\<open>bake-ai\<close>), executes the tool calls of the answer and goes round
  until no call is left or a limit of the run's control stops it. Each tool call passes the hooks of
  its event and the permission engine, which resolves the sandbox policy (\<open>bake-sandbox\<close>) it runs
  under and asks an approver before it widens it. What the model, the tools and the hooks said is
  appended to the session file, from which a later process resumes. The updater (\<open>bake-update\<close>)
  compares release versions. The theories follow these parts.

  Shared ground.
  \<^item> \<open>Prelude\<close>: results with an error, ordered maps (\<open>indexmap\<close>), splitting and joining of texts,
    decimal text of numbers, and the lemmas on them every component uses.
  \<^item> \<open>Utf8\<close>, \<open>Json\<close>: a Rust string is its UTF-8 bytes, a \<open>char list\<close> with one \<open>char\<close> per byte; characters
    are read from it where the code does. JSON values are a datatype with numbers at 64 bits.
  \<^item> \<open>Chunks\<close>: the locale of a decoder fed a stream in pieces, interpreted on \<open>Sse\<close> and \<open>Jsonl\<close>.

  Confinement and permission.
  \<^item> \<open>Sandbox\<close>: \<open>bake-sandbox/src/{mode,paths,policy,escalation}.rs\<close>. Paths are lists of components; the
    resolution of links is a parameter. The write decision is characterised exactly.
  \<^item> \<open>Presets\<close>, \<open>PermState\<close>: \<open>permissions/{presets,state}.rs\<close>, the knobs, the preset table, and the fold of
    a session's permission entries: selecting a preset takes effect, and damage is never read as a
    wider default.
  \<^item> \<open>Approval\<close>, \<open>History\<close>: \<open>permissions/{approval,history}.rs\<close>, the approver contract (locale
    \<open>approver\<close>, interpreted on the three providers), the audit entries and their round trip, and the
    history rebuilt from a branch.
  \<^item> \<open>Engine\<close>: \<open>permissions/engine.rs\<close>, the layers and the exchange with its records: no call runs
    wider than the standing policy without a grant on the record.

  \<^item> \<open>Broker\<close>: \<open>permissions/broker.rs\<close>, the queue of requests a person answers, as a step relation in
    which every hold of the lock, poll and call of the listener is a step: a decision is one answer to
    that request, and the frontend ends up showing the queue.

  The session.
  \<^item> \<open>SessionTime\<close>, \<open>SessionUuid\<close>: \<open>session/{time,id}.rs\<close>, dates as JavaScript writes them and ids of
    version 7, whose order is that of their making.
  \<^item> \<open>SessionStore\<close>, \<open>SessionTree\<close>, \<open>SessionOps\<close>, \<open>SessionFork\<close>, \<open>SessionForest\<close>:
    \<open>session/{entry,manager}.rs\<close>. The manager is a record of its entries, index, leaf and lines written;
    a write may fail. Every state reached from a new manager is well formed; branching out keeps the
    conversation; the tree holds every entry once. The locale \<open>session_log\<close> states what appends and
    walks promise each other.
  \<^item> \<open>SessionContext\<close>, \<open>LiveMessages\<close>, \<open>Unanswered\<close>: \<open>session/{context,messages,unanswered}.rs\<close>, what an agent
    resumes with after edits and compactions, and the calls left open.

  The transcript and the loop.
  \<^item> \<open>Messages\<close>, \<open>Transcript\<close>, \<open>Transform\<close>: \<open>bake-ai/src/types.rs\<close>, \<open>utils/transcript.rs\<close> and
    \<open>api/transform_messages.rs\<close>: system messages and their replay, and the transform that closes every
    open call.
  \<^item> \<open>JoinAll\<close>, \<open>AgentTools\<close>, \<open>AgentLoop\<close>, \<open>AgentRun\<close>: \<open>bake-agent/src/agent_loop.rs\<close>. A computation is
    a state monad over a world the callbacks read and change, with the trace of what the loop does;
    the world is a type of its own, so that a theorem is one about every model, tool, hook and
    other task. Calls are answered in
    order and under their bound, the messages reported are those announced, and each request
    declares the tools that can run.
  \<^item> \<open>RunControl\<close>, \<open>AgentMeter\<close>: \<open>run_control.rs\<close>, the allowance of model calls shared by concurrent tasks
    as a step relation, and the run of the loop under it (locale \<open>allowance\<close>): it returns. The loop's
    fuel is one turn more than the calls left, and that is proved enough.
  \<^item> \<open>HookProtocol\<close>, \<open>HookEngine\<close>: \<open>hooks/*.rs\<close> and the session's use of them: a call goes past its hooks
    only on the record, the first objection decides it, and stop hooks continue a prompt at most
    eight times.

  Tools and streams.
  \<^item> \<open>JsDiff\<close>, \<open>JsPatch\<close>, \<open>DiffText\<close>, \<open>EditDiff\<close>: \<open>tools/{jsdiff,edit_diff,edit}.rs\<close>. An edit changes what it
    names and nothing else; the diff search always ends in a script of the two texts; the patch
    applies; the numbered diff is true.
  \<^item> \<open>Truncate\<close>, \<open>MutationQueue\<close>: \<open>tools/{truncate,head}.rs\<close> and \<open>tools/file_mutation_queue/queue.rs\<close>, the
    limits on output and the queue that orders mutations of a file among threads.
  \<^item> \<open>WebPolicy\<close>, \<open>WebFetch\<close>: \<open>web/{policy,fetch,mod}.rs\<close>. The address tables are characterised as the
    ranges of numbers they stand for; a fetch connects to public addresses only, through every
    redirect and whatever the lookups answer, NAT64 included.
  \<^item> \<open>Sse\<close>, \<open>Jsonl\<close>: \<open>bake-ai/src/utils/sse.rs\<close> and \<open>rpc/jsonl.rs\<close>, whose results do not depend on how
    their bytes arrive in pieces.
  \<^item> \<open>Version\<close>: \<open>bake-update/src/version.rs\<close>, the order of releases (locale \<open>three_way\<close>).

  Parameters. What the modelled code calls and \<open>src/\<close> does not hold is an argument: the Unicode
  normal form, regular expressions, the JSON reader and printer, the validator of tool arguments,
  the file system and the clock, random bytes, the URL and IP address parsers, the text encodings, the
  lookup of host names and the exchange over the network, and the callbacks of the loop. A theorem holds for
  each value of them; where one needs more, its hypothesis says so and its witness shows a case.

  Bounds. Loops that the code bounds are recursive functions with a measure. The diff search counts
  with \<open>isize\<close>, so its theorems ask that the two texts together be shorter than 2 to the 63 bytes.
  Ids increase over the first 2 to the 40 of a process, while their counter does not wrap. Text
  lengths are natural numbers where a \<open>usize\<close> cannot overflow for a text in memory; where a counter
  could, it is a word or the bound is a hypothesis.

  Not modelled. The terminal interface and the command line, which draw and wire; provider adapters,
  MCP, plugins and the updater's transport, which are request bodies and operating-system calls;
  process supervision and the sandbox backends, which are launches of other programs; code mode,
  whose engine is a vendored binary; release tooling; the merge of settings files; and of the agent
  session, the glue between the parts above. Of the loop's crate, the event channel, nested calls
  and the \<open>Agent\<close> wrapper; of the session, the opening, listing and migration of files; of the hooks,
  the start of their processes; of the web tools, the search and the conversion of pages.
\<close>

end
